(* ===== verification/Prelude.thy ===== *)
theory Prelude
  imports Main "HOL-Library.AList" "HOL-Library.Multiset"
begin

text \<open>
  Shared vocabulary of the development: Go's 64-bit and 32-bit integers as \<open>int\<close> with the
  wrap-around written out, fallible results as sums (\<open>Inl\<close> an error value or a panic,
  \<open>Inr\<close> the returned value) with a sequencing combinator, Go maps as association lists in an
  arbitrary iteration order, and the generic list lemmas that several components use.
\<close>

section \<open>Collections of facts\<close>

named_theorems go_simps \<open>unfolding of the Go-level helpers\<close>
named_theorems inv_intros \<open>an operation keeps an invariant\<close>

section \<open>Machine integers\<close>

text \<open>Go's \<open>int64\<close> and \<open>int32\<close>: an arithmetic result is reduced into the signed range.\<close>

definition MaxInt64 :: int where
  "MaxInt64 = 2 ^ 63 - 1"

definition MinInt64 :: int where
  "MinInt64 = - (2 ^ 63)"

definition i64 :: "int \<Rightarrow> int" where
  "i64 x = (x + 2 ^ 63) mod 2 ^ 64 - 2 ^ 63"

definition i32 :: "int \<Rightarrow> int" where
  "i32 x = (x + 2 ^ 31) mod 2 ^ 32 - 2 ^ 31"

definition in_i64 :: "int \<Rightarrow> bool" where
  "in_i64 x \<longleftrightarrow> MinInt64 \<le> x \<and> x \<le> MaxInt64"

lemma i64_id: "in_i64 x \<Longrightarrow> i64 x = x"
  by (simp add: i64_def in_i64_def MinInt64_def MaxInt64_def)

lemma i64_in_range: "in_i64 (i64 x)"
proof -
  have "0 \<le> (x + 2 ^ 63) mod (2 ^ 64 :: int)" "(x + 2 ^ 63) mod (2 ^ 64 :: int) < 2 ^ 64"
    by simp_all
  then show ?thesis
    unfolding i64_def in_i64_def MinInt64_def MaxInt64_def by simp
qed

lemma i32_id: "- (2 ^ 31) \<le> x \<Longrightarrow> x < 2 ^ 31 \<Longrightarrow> i32 x = x"
  by (simp add: i32_def)

lemma i64_overflow: "i64 (MaxInt64 + 1) = MinInt64"
  by (simp add: i64_def MaxInt64_def MinInt64_def)

section \<open>Results\<close>

text \<open>
  A Go function that returns an error or panics is a function into \<open>'e + 'a\<close>. Calls are
  sequenced with \<open>bind_result\<close>, which stops at the first error as \<open>if err != nil\<close> does.
\<close>

fun bind_result :: "'e + 'a \<Rightarrow> ('a \<Rightarrow> 'e + 'b) \<Rightarrow> 'e + 'b" where
  "bind_result (Inl e) f = Inl e"
| "bind_result (Inr x) f = f x"

lemma bind_result_Inr_iff:
  "bind_result m f = Inr y \<longleftrightarrow> (\<exists>x. m = Inr x \<and> f x = Inr y)"
  by (cases m) auto

lemma bind_result_Inl_iff:
  "bind_result m f = Inl e \<longleftrightarrow> m = Inl e \<or> (\<exists>x. m = Inr x \<and> f x = Inl e)"
  by (cases m) auto

lemma bind_result_assoc:
  "bind_result (bind_result m f) g = bind_result m (\<lambda>x. bind_result (f x) g)"
  by (cases m) auto

lemma bind_result_Inr_right [simp]: "bind_result m Inr = m"
  by (cases m) auto

abbreviation returns :: "'e + 'a \<Rightarrow> bool" where
  "returns r \<equiv> \<exists>x. r = Inr x"

section \<open>Go maps as association lists\<close>

text \<open>
  A Go map is an association list with distinct keys. Go iterates a map in an unspecified
  order, and the model iterates it in list order: a fact proved for every list holds for
  every iteration order.
\<close>

abbreviation go_map :: "('k \<times> 'v) list \<Rightarrow> bool" where
  "go_map m \<equiv> distinct (map fst m)"

lemma go_map_update [inv_intros]: "go_map m \<Longrightarrow> go_map (AList.update k v m)"
  by (rule distinct_update)

lemma go_map_delete [inv_intros]: "go_map m \<Longrightarrow> go_map (AList.delete k m)"
  by (rule distinct_delete)

lemma go_map_filter [inv_intros]: "go_map m \<Longrightarrow> go_map (filter P m)"
  by (induction m) auto

lemma update_fresh: "k \<notin> fst ` set m \<Longrightarrow> AList.update k v m = m @ [(k, v)]"
  by (induction m) auto

lemma delete_fresh: "k \<notin> fst ` set m \<Longrightarrow> AList.delete k m = m"
  by (induction m) (auto simp: AList.delete_eq)

lemma set_update_distinct:
  "go_map m \<Longrightarrow> set (AList.update k v m) = {(k, v)} \<union> {p \<in> set m. fst p \<noteq> k}"
proof (induction m)
  case (Cons p m)
  obtain a b where p: "p = (a, b)" by (cases p)
  from Cons.prems p have "go_map m" and fresh: "a \<notin> fst ` set m" by auto
  show ?case
  proof (cases "a = k")
    case True
    with p fresh show ?thesis by auto
  next
    case False
    with p Cons.IH [OF \<open>go_map m\<close>] show ?thesis by auto
  qed
qed simp

section \<open>Lists\<close>

lemma filter_partition_mset:
  "mset (filter P xs) + mset (filter (\<lambda>x. \<not> P x) xs) = mset xs"
  by (induction xs) auto

lemma length_filter_split:
  "length (filter (\<lambda>x. P x \<and> Q x) xs) + length (filter (\<lambda>x. P x \<and> \<not> Q x) xs)
   = length (filter P xs)"
  by (induction xs) auto

lemma snoc_cases_last: "xs \<noteq> [] \<Longrightarrow> xs = butlast xs @ [last xs]"
  by simp

lemma sorted_wrt_snoc_iff:
  "sorted_wrt R (xs @ [x]) \<longleftrightarrow> sorted_wrt R xs \<and> (\<forall>y \<in> set xs. R y x)"
  by (auto simp: sorted_wrt_append)

lemma list_all2_left: "list_all2 R xs ys \<Longrightarrow> x \<in> set xs \<Longrightarrow> \<exists>y \<in> set ys. R x y"
  by (induction rule: list_all2_induct) auto

lemma list_all2_right: "list_all2 R xs ys \<Longrightarrow> y \<in> set ys \<Longrightarrow> \<exists>x \<in> set xs. R x y"
  by (induction rule: list_all2_induct) auto

end
