(* ===== verification/TaskKey.thy ===== *)
theory TaskKey
  imports Prelude
begin

text \<open>
  The position of a task in a history task queue: \<open>service/history/tasks/key.go\<close>. A key is a
  fire time and a task ID. The fire time is modelled by its Unix nanosecond count, the task
  ID by an \<open>int64\<close>; \<open>CompareTo\<close> orders keys lexicographically and gives the type its
  \<open>linorder\<close> instance. Panics of \<open>Prev\<close>, \<open>Next\<close> and \<open>Sub\<close> are values of \<open>key_panic\<close>.
\<close>

datatype task_key = Key (FireTime: int) (TaskID: int)

text \<open>The type of a task category (\<open>service/history/tasks/category.go\<close>).\<close>

datatype category_type = CategoryTypeImmediate | CategoryTypeScheduled

datatype key_panic = NegativeUnderflow | PositiveOverflow | SubUnderflow

datatype key_error = NegativeFireTime int | NegativeTaskID int

definition DefaultFireTime :: int where
  "DefaultFireTime = 0"

definition NewImmediateKey :: "int \<Rightarrow> task_key" where
  "NewImmediateKey taskID = Key DefaultFireTime taskID"

definition NewKey :: "int \<Rightarrow> int \<Rightarrow> task_key" where
  "NewKey fireTime taskID = Key fireTime taskID"

definition MinimumKey :: task_key where
  "MinimumKey = NewKey DefaultFireTime 0"

definition MaximumKey :: task_key where
  "MaximumKey = NewKey MaxInt64 MaxInt64"

definition ValidateKey :: "task_key \<Rightarrow> key_error + unit" where
  "ValidateKey key =
     (if FireTime key < DefaultFireTime then Inl (NegativeFireTime (FireTime key))
      else if TaskID key < 0 then Inl (NegativeTaskID (TaskID key))
      else Inr ())"

definition CompareTo :: "task_key \<Rightarrow> task_key \<Rightarrow> int" where
  "CompareTo left right =
     (if FireTime left < FireTime right then -1
      else if FireTime left > FireTime right then 1
      else if TaskID left < TaskID right then -1
      else if TaskID left > TaskID right then 1
      else 0)"

definition Prev :: "task_key \<Rightarrow> key_panic + task_key" where
  "Prev k =
     (if TaskID k = 0 then
        if FireTime k = 0 then Inl NegativeUnderflow
        else Inr (NewKey (FireTime k - 1) MaxInt64)
      else Inr (NewKey (FireTime k) (i64 (TaskID k - 1))))"

definition Next :: "task_key \<Rightarrow> key_panic + task_key" where
  "Next k =
     (if TaskID k = MaxInt64 then
        if FireTime k = MaxInt64 then Inl PositiveOverflow
        else Inr (NewKey (FireTime k + 1) 0)
      else Inr (NewKey (FireTime k) (i64 (TaskID k + 1))))"

definition Sub :: "task_key \<Rightarrow> task_key \<Rightarrow> key_panic + task_key" where
  "Sub k subtrahend =
     (let diff = i64 (TaskID k - TaskID subtrahend);
          borrow = (if diff < 0 then 1 else 0);
          differenceTaskID = (if diff < 0 then i64 (diff + TaskID MaximumKey) else diff);
          fireTime = i64 (FireTime k - borrow);
          subtrahendFireTime = FireTime subtrahend
      in if fireTime < subtrahendFireTime then Inl SubUnderflow
         else Inr (NewKey (i64 (fireTime - subtrahendFireTime)) differenceTaskID))"

definition MinKey :: "task_key \<Rightarrow> task_key \<Rightarrow> task_key" where
  "MinKey this that = (if CompareTo this that < 0 then this else that)"

definition MaxKey :: "task_key \<Rightarrow> task_key \<Rightarrow> task_key" where
  "MaxKey this that = (if CompareTo this that < 0 then that else this)"

text \<open>The precision of the times that are persisted (\<open>common/constants.go\<close>), in nanoseconds.\<close>

definition ScheduledTaskMinPrecision :: int where
  "ScheduledTaskMinPrecision = 1000000"

section \<open>The order of keys\<close>

instantiation task_key :: linorder
begin

definition less_eq_task_key :: "task_key \<Rightarrow> task_key \<Rightarrow> bool" where
  "less_eq_task_key a b \<longleftrightarrow> CompareTo a b \<le> 0"

definition less_task_key :: "task_key \<Rightarrow> task_key \<Rightarrow> bool" where
  "less_task_key a b \<longleftrightarrow> CompareTo a b < 0"

instance
proof
  fix x y z :: task_key
  show "(x < y) = (x \<le> y \<and> \<not> y \<le> x)"
    by (auto simp: less_task_key_def less_eq_task_key_def CompareTo_def split: if_splits)
  show "x \<le> x" by (simp add: less_eq_task_key_def CompareTo_def)
  show "x \<le> y \<Longrightarrow> y \<le> z \<Longrightarrow> x \<le> z"
    by (auto simp: less_eq_task_key_def CompareTo_def split: if_splits)
  show "x \<le> y \<Longrightarrow> y \<le> x \<Longrightarrow> x = y"
    by (auto simp: less_eq_task_key_def CompareTo_def task_key.expand split: if_splits)
  show "x \<le> y \<or> y \<le> x"
    by (auto simp: less_eq_task_key_def CompareTo_def)
qed

end

lemma CompareTo_simps [simp]:
  "CompareTo a b < 0 \<longleftrightarrow> a < b"
  "CompareTo a b \<le> 0 \<longleftrightarrow> a \<le> b"
  "CompareTo a b > 0 \<longleftrightarrow> b < a"
  "CompareTo a b \<ge> 0 \<longleftrightarrow> b \<le> a"
  "CompareTo a b = 0 \<longleftrightarrow> a = b"
  by (auto simp: less_task_key_def less_eq_task_key_def CompareTo_def task_key.expand
      split: if_splits)

lemma key_less_iff:
  "Key f t < Key f' t' \<longleftrightarrow> f < f' \<or> f = f' \<and> t < t'"
  by (auto simp: less_task_key_def CompareTo_def)

lemma key_le_iff:
  "Key f t \<le> Key f' t' \<longleftrightarrow> f < f' \<or> f = f' \<and> t \<le> t'"
  by (auto simp: less_eq_task_key_def CompareTo_def)

lemma MinKey_min [simp]: "MinKey a b = min a b"
  by (auto simp: MinKey_def min_def)

lemma MaxKey_max [simp]: "MaxKey a b = max a b"
  by (auto simp: MaxKey_def max_def)

text \<open>A key the queues use: both parts are non-negative \<open>int64\<close> values.\<close>

definition valid_key :: "task_key \<Rightarrow> bool" where
  "valid_key k \<longleftrightarrow> 0 \<le> FireTime k \<and> FireTime k \<le> MaxInt64 \<and> 0 \<le> TaskID k \<and> TaskID k \<le> MaxInt64"

lemma valid_key_Key [simp]:
  "valid_key (Key f t) \<longleftrightarrow> 0 \<le> f \<and> f \<le> MaxInt64 \<and> 0 \<le> t \<and> t \<le> MaxInt64"
  by (simp add: valid_key_def)

lemma valid_key_bounds: "valid_key k \<Longrightarrow> MinimumKey \<le> k \<and> k \<le> MaximumKey"
  by (cases k) (auto simp: MinimumKey_def MaximumKey_def NewKey_def DefaultFireTime_def key_le_iff)

lemma ValidateKey_valid:
  "FireTime k \<le> MaxInt64 \<Longrightarrow> TaskID k \<le> MaxInt64 \<Longrightarrow>
   ValidateKey k = Inr () \<longleftrightarrow> valid_key k"
  by (auto simp: ValidateKey_def valid_key_def DefaultFireTime_def)

lemma i64_pred_nonneg: "0 \<le> x \<Longrightarrow> x \<le> MaxInt64 \<Longrightarrow> i64 (x - 1) = x - 1"
  by (rule i64_id) (simp add: in_i64_def MinInt64_def)

lemma i64_succ_nonneg: "0 \<le> x \<Longrightarrow> x < MaxInt64 \<Longrightarrow> i64 (x + 1) = x + 1"
  by (rule i64_id) (simp add: in_i64_def MinInt64_def)

lemma i64_diff_nonneg:
  "0 \<le> x \<Longrightarrow> x \<le> MaxInt64 \<Longrightarrow> 0 \<le> y \<Longrightarrow> y \<le> MaxInt64 \<Longrightarrow> i64 (x - y) = x - y"
  by (rule i64_id) (simp add: in_i64_def MinInt64_def MaxInt64_def)

lemma Next_cases:
  assumes "valid_key k" "k \<noteq> MaximumKey"
  shows "(TaskID k = MaxInt64 \<and> FireTime k < MaxInt64 \<and> Next k = Inr (Key (FireTime k + 1) 0)) \<or>
         (TaskID k < MaxInt64 \<and> Next k = Inr (Key (FireTime k) (TaskID k + 1)))"
  using assms
  by (cases k) (auto simp: Next_def NewKey_def MaximumKey_def i64_succ_nonneg)

lemma Next_is_successor_raw:
  assumes "valid_key k" and "k \<noteq> MaximumKey"
  shows "\<exists>k'. Next k = Inr k' \<and> valid_key k' \<and> k < k' \<and> Prev k' = Inr k \<and>
              (\<forall>x. valid_key x \<and> k < x \<longrightarrow> k' \<le> x)"
  using Next_cases [OF assms]
proof
  assume "TaskID k = MaxInt64 \<and> FireTime k < MaxInt64 \<and> Next k = Inr (Key (FireTime k + 1) 0)"
  with assms(1) show ?thesis
    by (intro exI [of _ "Key (FireTime k + 1) 0"], cases k)
      (auto simp: key_less_iff key_le_iff Prev_def NewKey_def less_task_key_def CompareTo_def
        less_eq_task_key_def valid_key_def split: if_splits)
next
  assume *: "TaskID k < MaxInt64 \<and> Next k = Inr (Key (FireTime k) (TaskID k + 1))"
  from assms(1) have "i64 (TaskID k) = TaskID k"
    by (intro i64_id) (auto simp: valid_key_def in_i64_def MinInt64_def MaxInt64_def)
  with * assms(1) show ?thesis
    by (intro exI [of _ "Key (FireTime k) (TaskID k + 1)"], cases k)
      (auto simp: key_less_iff key_le_iff Prev_def NewKey_def less_task_key_def CompareTo_def
        less_eq_task_key_def valid_key_def split: if_splits)
qed

text \<open>
  Every valid key other than the maximum has a successor: \<open>Next\<close> returns the least valid
  key above it, and \<open>Prev\<close> takes that key back to it.
\<close>

theorem Next_is_successor:
  assumes "valid_key k" and "k \<noteq> MaximumKey"
  shows "\<exists>k'. Next k = Inr k' \<and> valid_key k' \<and> k < k' \<and> Prev k' = Inr k \<and>
              (\<forall>x. valid_key x \<and> k < x \<longrightarrow> k' \<le> x)"
  using assms by (rule Next_is_successor_raw)

theorem Next_is_successor_witness:
  "\<exists>k'. Next (Key 5 MaxInt64) = Inr k' \<and> valid_key k' \<and> Key 5 MaxInt64 < k' \<and>
        Prev k' = Inr (Key 5 MaxInt64) \<and>
        (\<forall>x. valid_key x \<and> Key 5 MaxInt64 < x \<longrightarrow> k' \<le> x)"
  by (rule Next_is_successor) (simp_all add: MaxInt64_def MaximumKey_def NewKey_def)

section \<open>Distance of two keys\<close>

text \<open>
  \<open>Sub\<close> subtracts with a borrow of \<open>MaxInt64\<close> task IDs per nanosecond: it computes the
  difference of the indices below. A nanosecond holds \<open>MaxInt64 + 1\<close> task IDs, as \<open>Next\<close>
  and \<open>Prev\<close> count them.
\<close>

definition sub_index :: "task_key \<Rightarrow> int" where
  "sub_index k = FireTime k * MaxInt64 + TaskID k"

lemma Sub_valid:
  assumes "valid_key a" "valid_key b"
  shows "Sub a b =
    (let borrow = (if TaskID a < TaskID b then 1 else 0)
     in if FireTime a - borrow < FireTime b then Inl SubUnderflow
        else Inr (Key (FireTime a - borrow - FireTime b)
                      (TaskID a - TaskID b + borrow * MaxInt64)))"
proof -
  have t: "i64 (TaskID a - TaskID b) = TaskID a - TaskID b"
    using assms by (intro i64_diff_nonneg) (auto simp: valid_key_def)
  have bor: "TaskID a < TaskID b \<Longrightarrow> i64 (TaskID a - TaskID b + MaxInt64) = TaskID a - TaskID b + MaxInt64"
    using assms by (intro i64_id) (auto simp: valid_key_def in_i64_def MinInt64_def MaxInt64_def)
  have f1: "i64 (FireTime a - 1) = FireTime a - 1" and f0: "i64 (FireTime a) = FireTime a"
    using assms by (auto intro!: i64_id simp: valid_key_def in_i64_def MinInt64_def MaxInt64_def)
  have d1: "i64 (FireTime a - 1 - FireTime b) = FireTime a - 1 - FireTime b"
    and d0: "i64 (FireTime a - FireTime b) = FireTime a - FireTime b"
    using assms by (auto intro!: i64_id simp: valid_key_def in_i64_def MinInt64_def MaxInt64_def)
  show ?thesis
    using bor by (simp add: Sub_def Let_def NewKey_def MaximumKey_def t f1 f0 d1 d0)
qed

text \<open>
  On valid keys \<open>Sub\<close> panics exactly when the subtrahend is larger; otherwise it returns
  a valid key whose index is the difference of the indices.
\<close>

theorem Sub_difference:
  assumes "valid_key a" and "valid_key b"
  shows "(a < b \<longrightarrow> Sub a b = Inl SubUnderflow) \<and>
         (b \<le> a \<longrightarrow> (\<exists>d. Sub a b = Inr d \<and> valid_key d \<and>
                          sub_index d = sub_index a - sub_index b))"
  using assms
  by (cases a; cases b)
    (auto simp: Sub_valid Let_def key_less_iff key_le_iff sub_index_def algebra_simps)

theorem Sub_difference_witness:
  "Sub (Key 1 2) (Key 4 7) = Inl SubUnderflow \<and>
   (\<exists>d. Sub (Key 4 7) (Key 1 2) = Inr d \<and> valid_key d \<and>
      sub_index d = sub_index (Key 4 7) - sub_index (Key 1 2))"
  using Sub_difference [of "Key 1 2" "Key 4 7"] Sub_difference [of "Key 4 7" "Key 1 2"]
  by (simp add: MaxInt64_def key_less_iff key_le_iff)

text \<open>
  The borrow is one task ID short: the distance \<open>Sub\<close> reports between the last key of a
  nanosecond and its successor, a different and strictly larger key, is zero.
\<close>

theorem Sub_successor_distance_zero:
  assumes "0 \<le> f" and "f < MaxInt64"
  shows "Next (Key f MaxInt64) = Inr (Key (f + 1) 0) \<and> Key f MaxInt64 < Key (f + 1) 0 \<and>
         Sub (Key (f + 1) 0) (Key f MaxInt64) = Inr MinimumKey"
  using assms
  by (auto simp: Next_def NewKey_def key_less_iff Sub_valid Let_def MinimumKey_def
      DefaultFireTime_def MaxInt64_def)

theorem Sub_successor_distance_zero_witness:
  "Next (Key 0 MaxInt64) = Inr (Key (0 + 1) 0) \<and> Key 0 MaxInt64 < Key (0 + 1) 0 \<and>
   Sub (Key (0 + 1) 0) (Key 0 MaxInt64) = Inr MinimumKey"
  by (rule Sub_successor_distance_zero) (simp_all add: MaxInt64_def)

end
