(* ===== verification/TaskPredicate.thy ===== *)
theory TaskPredicate
  imports TaskKey "HOL-Library.FSet"
begin

text \<open>
  Task predicates: the generic combinators of \<open>common/predicates\<close> and the task-specific
  predicates with their algebra in \<open>service/history/tasks/predicates.go\<close>. A predicate value is
  one constructor per Go implementation of the \<open>Predicate\<close> interface; a Go set
  (\<open>map[K]struct{}\<close>) is a set. The proto size of an empty predicate is computed by generated
  code and is an argument of \<open>Size\<close>.
\<close>

section \<open>Tasks, as predicates see them\<close>

text \<open>
  The optional interfaces \<open>HasDestination\<close> and \<open>HasStateMachineTaskType\<close> are options: \<open>None\<close>
  where the type assertion of the code fails.
\<close>

record task =
  GetKey :: task_key
  GetNamespaceID :: string
  GetType :: int
  GetDestination :: "string option"
  StateMachineTaskType :: "string option"

record task_group =
  TaskGroup :: string
  NamespaceID :: string
  Destination :: string

datatype predicate =
    UniversalImpl
  | EmptyImpl
  | AndImpl "predicate list"
  | OrImpl "predicate list"
  | NotImpl predicate
  | NamespacePredicate "string set"
  | TypePredicate "int set"
  | DestinationPredicate "string set"
  | OutboundTaskGroupPredicate "string set"
  | OutboundTaskPredicate "task_group set"

section \<open>Test, Equals, Size\<close>

definition outbound_group :: "task \<Rightarrow> task_group" where
  "outbound_group t =
     \<lparr>TaskGroup = (case StateMachineTaskType t of None \<Rightarrow> '''' | Some g \<Rightarrow> g),
      NamespaceID = GetNamespaceID t,
      Destination = (case GetDestination t of None \<Rightarrow> '''' | Some d \<Rightarrow> d)\<rparr>"

text \<open>The task-specific predicates: constructor, \<open>Test\<close>, \<open>Equals\<close> and \<open>Size\<close> of each.\<close>

definition NewNamespacePredicate :: "string list \<Rightarrow> predicate" where
  "NewNamespacePredicate ids = NamespacePredicate (set ids)"

definition NamespacePredicate_Test :: "string set \<Rightarrow> task \<Rightarrow> bool" where [simp]:
  "NamespacePredicate_Test ids t \<longleftrightarrow> GetNamespaceID t \<in> ids"

definition NamespacePredicate_Equals :: "string set \<Rightarrow> predicate \<Rightarrow> bool" where
  "NamespacePredicate_Equals ids p \<longleftrightarrow> (case p of NamespacePredicate q \<Rightarrow> ids = q | _ \<Rightarrow> False)"

definition NamespacePredicate_Size :: "int \<Rightarrow> string set \<Rightarrow> int" where
  "NamespacePredicate_Size e ids = e + (\<Sum>g\<in>ids. int (length g))"

definition NewTypePredicate :: "int list \<Rightarrow> predicate" where
  "NewTypePredicate tys = TypePredicate (set tys)"

definition TypePredicate_Test :: "int set \<Rightarrow> task \<Rightarrow> bool" where [simp]:
  "TypePredicate_Test tys t \<longleftrightarrow> GetType t \<in> tys"

definition TypePredicate_Equals :: "int set \<Rightarrow> predicate \<Rightarrow> bool" where
  "TypePredicate_Equals tys p \<longleftrightarrow> (case p of TypePredicate q \<Rightarrow> tys = q | _ \<Rightarrow> False)"

definition TypePredicate_Size :: "int \<Rightarrow> int set \<Rightarrow> int" where
  "TypePredicate_Size e tys = e + 4 * int (card tys)"

definition NewDestinationPredicate :: "string list \<Rightarrow> predicate" where
  "NewDestinationPredicate ds = DestinationPredicate (set ds)"

definition DestinationPredicate_Test :: "string set \<Rightarrow> task \<Rightarrow> bool" where [simp]:
  "DestinationPredicate_Test ds t \<longleftrightarrow> (case GetDestination t of None \<Rightarrow> False | Some d \<Rightarrow> d \<in> ds)"

definition DestinationPredicate_Equals :: "string set \<Rightarrow> predicate \<Rightarrow> bool" where
  "DestinationPredicate_Equals ds p \<longleftrightarrow> (case p of DestinationPredicate q \<Rightarrow> ds = q | _ \<Rightarrow> False)"

definition DestinationPredicate_Size :: "int \<Rightarrow> string set \<Rightarrow> int" where
  "DestinationPredicate_Size e ds = e + (\<Sum>g\<in>ds. int (length g))"

definition NewOutboundTaskGroupPredicate :: "string list \<Rightarrow> predicate" where
  "NewOutboundTaskGroupPredicate gs = OutboundTaskGroupPredicate (set gs)"

definition OutboundTaskGroupPredicate_Test :: "string set \<Rightarrow> task \<Rightarrow> bool" where [simp]:
  "OutboundTaskGroupPredicate_Test gs t \<longleftrightarrow> (case StateMachineTaskType t of None \<Rightarrow> False | Some g \<Rightarrow> g \<in> gs)"

definition OutboundTaskGroupPredicate_Equals :: "string set \<Rightarrow> predicate \<Rightarrow> bool" where
  "OutboundTaskGroupPredicate_Equals gs p \<longleftrightarrow> (case p of OutboundTaskGroupPredicate q \<Rightarrow> gs = q | _ \<Rightarrow> False)"

definition OutboundTaskGroupPredicate_Size :: "int \<Rightarrow> string set \<Rightarrow> int" where
  "OutboundTaskGroupPredicate_Size e gs = e + (\<Sum>g\<in>gs. int (length g))"

definition NewOutboundTaskPredicate :: "task_group list \<Rightarrow> predicate" where
  "NewOutboundTaskPredicate gs = OutboundTaskPredicate (set gs)"

definition OutboundTaskPredicate_Test :: "task_group set \<Rightarrow> task \<Rightarrow> bool" where [simp]:
  "OutboundTaskPredicate_Test gs t \<longleftrightarrow> outbound_group t \<in> gs"

definition OutboundTaskPredicate_Equals :: "task_group set \<Rightarrow> predicate \<Rightarrow> bool" where
  "OutboundTaskPredicate_Equals gs p \<longleftrightarrow> (case p of OutboundTaskPredicate q \<Rightarrow> gs = q | _ \<Rightarrow> False)"

definition OutboundTaskPredicate_Size :: "int \<Rightarrow> task_group set \<Rightarrow> int" where
  "OutboundTaskPredicate_Size e gs = e + (\<Sum>g\<in>gs. int (length (TaskGroup g) + length (NamespaceID g) + length (Destination g)))"

lemma leaf_Equals_iff [simp]:
  "NamespacePredicate_Equals ids p \<longleftrightarrow> p = NamespacePredicate ids"
  "TypePredicate_Equals tys p \<longleftrightarrow> p = TypePredicate tys"
  "DestinationPredicate_Equals ds p \<longleftrightarrow> p = DestinationPredicate ds"
  "OutboundTaskGroupPredicate_Equals gs p \<longleftrightarrow> p = OutboundTaskGroupPredicate gs"
  "OutboundTaskPredicate_Equals os p \<longleftrightarrow> p = OutboundTaskPredicate os"
  by (cases p; auto simp: NamespacePredicate_Equals_def TypePredicate_Equals_def DestinationPredicate_Equals_def OutboundTaskGroupPredicate_Equals_def OutboundTaskPredicate_Equals_def)+

fun Test :: "predicate \<Rightarrow> task \<Rightarrow> bool" where
  "Test UniversalImpl t = True"
| "Test EmptyImpl t = False"
| "Test (AndImpl ps) t = list_all (\<lambda>p. Test p t) ps"
| "Test (OrImpl ps) t = list_ex (\<lambda>p. Test p t) ps"
| "Test (NotImpl p) t = (\<not> Test p t)"
| "Test (NamespacePredicate ids) t = NamespacePredicate_Test ids t"
| "Test (TypePredicate tys) t = TypePredicate_Test tys t"
| "Test (DestinationPredicate ds) t = DestinationPredicate_Test ds t"
| "Test (OutboundTaskGroupPredicate gs) t = OutboundTaskGroupPredicate_Test gs t"
| "Test (OutboundTaskPredicate gs) t = OutboundTaskPredicate_Test gs t"

text \<open>\<open>predicatesEqual\<close> is inlined in the two equations for lists, as a nested recursion.\<close>

function Equals :: "predicate \<Rightarrow> predicate \<Rightarrow> bool" where
  "Equals UniversalImpl q = (q = UniversalImpl)"
| "Equals EmptyImpl q = (q = EmptyImpl)"
| "Equals (AndImpl ps) q =
     (case q of AndImpl qs \<Rightarrow>
        length ps = length qs \<and> list_all (\<lambda>p. list_ex (\<lambda>r. Equals p r) qs) ps
      | _ \<Rightarrow> False)"
| "Equals (OrImpl ps) q =
     (case q of OrImpl qs \<Rightarrow>
        length ps = length qs \<and> list_all (\<lambda>p. list_ex (\<lambda>r. Equals p r) qs) ps
      | _ \<Rightarrow> False)"
| "Equals (NotImpl p) q = (case q of NotImpl r \<Rightarrow> Equals p r | _ \<Rightarrow> False)"
| "Equals (NamespacePredicate a) q = NamespacePredicate_Equals a q"
| "Equals (TypePredicate b) q = TypePredicate_Equals b q"
| "Equals (DestinationPredicate a) q = DestinationPredicate_Equals a q"
| "Equals (OutboundTaskGroupPredicate a) q = OutboundTaskGroupPredicate_Equals a q"
| "Equals (OutboundTaskPredicate c) q = OutboundTaskPredicate_Equals c q"
  by pat_completeness auto
termination
  by (relation "measure (\<lambda>(p, q). size p)")
    (auto simp: less_Suc_eq_le intro: size_list_estimation')

fun Size :: "int \<Rightarrow> predicate \<Rightarrow> int" where
  "Size e UniversalImpl = e"
| "Size e EmptyImpl = e"
| "Size e (AndImpl ps) = e + sum_list (map (Size e) ps)"
| "Size e (OrImpl ps) = e + sum_list (map (Size e) ps)"
| "Size e (NotImpl p) = Size e p + e"
| "Size e (NamespacePredicate ids) = NamespacePredicate_Size e ids"
| "Size e (TypePredicate tys) = TypePredicate_Size e tys"
| "Size e (DestinationPredicate ds) = DestinationPredicate_Size e ds"
| "Size e (OutboundTaskGroupPredicate gs) = OutboundTaskGroupPredicate_Size e gs"
| "Size e (OutboundTaskPredicate gs) = OutboundTaskPredicate_Size e gs"

section \<open>The generic combinators\<close>

definition appendPredicates :: "predicate list \<Rightarrow> predicate list \<Rightarrow> predicate list" where
  "appendPredicates current new =
     current @ filter (\<lambda>n. \<not> list_ex (\<lambda>c. Equals c n) current) new"

text \<open>The loop over the arguments: \<open>Inl p\<close> is the early \<open>return p\<close>.\<close>

fun and_flatten :: "predicate list \<Rightarrow> predicate list \<Rightarrow> predicate + predicate list" where
  "and_flatten flattened [] = Inr flattened"
| "and_flatten flattened (p # ps) =
     (case p of
        AndImpl qs \<Rightarrow> and_flatten (appendPredicates flattened qs) ps
      | UniversalImpl \<Rightarrow> and_flatten flattened ps
      | EmptyImpl \<Rightarrow> Inl p
      | _ \<Rightarrow> and_flatten (appendPredicates flattened [p]) ps)"

definition and_build :: "predicate list \<Rightarrow> predicate" where
  "and_build ps =
     (case and_flatten [] ps of
        Inl p \<Rightarrow> p
      | Inr [] \<Rightarrow> UniversalImpl
      | Inr [p] \<Rightarrow> p
      | Inr flattened \<Rightarrow> AndImpl flattened)"

datatype predicate_panic = TooFewPredicates

definition AndPred :: "predicate list \<Rightarrow> predicate_panic + predicate" where
  "AndPred ps = (if length ps < 2 then Inl TooFewPredicates else Inr (and_build ps))"

fun or_flatten :: "predicate list \<Rightarrow> predicate list \<Rightarrow> predicate + predicate list" where
  "or_flatten flattened [] = Inr flattened"
| "or_flatten flattened (p # ps) =
     (case p of
        OrImpl qs \<Rightarrow> or_flatten (appendPredicates flattened qs) ps
      | UniversalImpl \<Rightarrow> Inl p
      | EmptyImpl \<Rightarrow> or_flatten flattened ps
      | _ \<Rightarrow> or_flatten (appendPredicates flattened [p]) ps)"

definition or_build :: "predicate list \<Rightarrow> predicate" where
  "or_build ps =
     (case or_flatten [] ps of
        Inl p \<Rightarrow> p
      | Inr [] \<Rightarrow> EmptyImpl
      | Inr [p] \<Rightarrow> p
      | Inr flattened \<Rightarrow> OrImpl flattened)"

definition OrPred :: "predicate list \<Rightarrow> predicate_panic + predicate" where
  "OrPred ps = (if length ps < 2 then Inl TooFewPredicates else Inr (or_build ps))"

definition NotPred :: "predicate \<Rightarrow> predicate" where
  "NotPred p =
     (case p of
        NotImpl q \<Rightarrow> q
      | UniversalImpl \<Rightarrow> EmptyImpl
      | EmptyImpl \<Rightarrow> UniversalImpl
      | _ \<Rightarrow> NotImpl p)"

section \<open>The task-specific algebra\<close>

definition intersect :: "'k set \<Rightarrow> 'k set \<Rightarrow> 'k set" where
  "intersect this that = {k \<in> this. k \<in> that}"

definition union_keys :: "'k set \<Rightarrow> 'k set \<Rightarrow> 'k set" where
  "union_keys this that = this \<union> that"

definition difference :: "'k set \<Rightarrow> 'k set \<Rightarrow> 'k set" where
  "difference this that = {k \<in> this. k \<notin> that}"

text \<open>An empty result set becomes the empty predicate.\<close>

definition set_or_empty :: "('k set \<Rightarrow> predicate) \<Rightarrow> 'k set \<Rightarrow> predicate" where
  "set_or_empty C s = (if s = {} then EmptyImpl else C s)"

text \<open>
  The type switch of \<open>AndPredicates\<close> once \<open>a\<close> is not a negation; \<open>and_build [a, b]\<close> is
  \<open>predicates.And(a, b)\<close>, whose argument count check holds.
\<close>

definition and_cases :: "predicate \<Rightarrow> predicate \<Rightarrow> predicate" where
  "and_cases a b =
     (case a of
        NamespacePredicate s \<Rightarrow>
          (case b of
             NamespacePredicate t \<Rightarrow> set_or_empty NamespacePredicate (intersect s t)
           | NotImpl (NamespacePredicate x) \<Rightarrow> set_or_empty NamespacePredicate (difference s x)
           | _ \<Rightarrow> and_build [a, b])
      | TypePredicate s \<Rightarrow>
          (case b of
             TypePredicate t \<Rightarrow> set_or_empty TypePredicate (intersect s t)
           | NotImpl (TypePredicate x) \<Rightarrow> set_or_empty TypePredicate (difference s x)
           | _ \<Rightarrow> and_build [a, b])
      | DestinationPredicate s \<Rightarrow>
          (case b of
             DestinationPredicate t \<Rightarrow> set_or_empty DestinationPredicate (intersect s t)
           | NotImpl (DestinationPredicate x) \<Rightarrow> set_or_empty DestinationPredicate (difference s x)
           | _ \<Rightarrow> and_build [a, b])
      | OutboundTaskGroupPredicate s \<Rightarrow>
          (case b of
             OutboundTaskGroupPredicate t \<Rightarrow> set_or_empty OutboundTaskGroupPredicate (intersect s t)
           | NotImpl (OutboundTaskGroupPredicate x) \<Rightarrow>
               set_or_empty OutboundTaskGroupPredicate (difference s x)
           | _ \<Rightarrow> and_build [a, b])
      | OutboundTaskPredicate s \<Rightarrow>
          (case b of
             OutboundTaskPredicate t \<Rightarrow> set_or_empty OutboundTaskPredicate (intersect s t)
           | NotImpl (OutboundTaskPredicate x) \<Rightarrow> set_or_empty OutboundTaskPredicate (difference s x)
           | _ \<Rightarrow> and_build [a, b])
      | _ \<Rightarrow> and_build [a, b])"

definition or_cases :: "predicate \<Rightarrow> predicate \<Rightarrow> predicate" where
  "or_cases a b =
     (case a of
        NamespacePredicate s \<Rightarrow>
          (case b of NamespacePredicate t \<Rightarrow> NamespacePredicate (union_keys s t)
           | _ \<Rightarrow> or_build [a, b])
      | TypePredicate s \<Rightarrow>
          (case b of TypePredicate t \<Rightarrow> TypePredicate (union_keys s t)
           | _ \<Rightarrow> or_build [a, b])
      | DestinationPredicate s \<Rightarrow>
          (case b of DestinationPredicate t \<Rightarrow> DestinationPredicate (union_keys s t)
           | _ \<Rightarrow> or_build [a, b])
      | OutboundTaskGroupPredicate s \<Rightarrow>
          (case b of OutboundTaskGroupPredicate t \<Rightarrow> OutboundTaskGroupPredicate (union_keys s t)
           | _ \<Rightarrow> or_build [a, b])
      | OutboundTaskPredicate s \<Rightarrow>
          (case b of OutboundTaskPredicate t \<Rightarrow> OutboundTaskPredicate (union_keys s t)
           | _ \<Rightarrow> or_build [a, b])
      | _ \<Rightarrow> or_build [a, b])"

text \<open>
  The type assertion \<open>p.(*predicates.NotImpl[Task])\<close>: whether it succeeds, and the negated
  predicate it gives access to.
\<close>

definition is_not :: "predicate \<Rightarrow> bool" where
  "is_not p \<longleftrightarrow> (case p of NotImpl _ \<Rightarrow> True | _ \<Rightarrow> False)"

definition negated :: "predicate \<Rightarrow> predicate" where
  "negated p = (case p of NotImpl q \<Rightarrow> q | _ \<Rightarrow> p)"

lemma is_not_simps [simp]:
  "is_not (NotImpl p)" "\<not> is_not UniversalImpl" "\<not> is_not EmptyImpl" "\<not> is_not (AndImpl ps)"
  "\<not> is_not (OrImpl ps)" "\<not> is_not (NamespacePredicate x)" "\<not> is_not (TypePredicate y)"
  "\<not> is_not (DestinationPredicate x)" "\<not> is_not (OutboundTaskGroupPredicate x)"
  "\<not> is_not (OutboundTaskPredicate z)" "negated (NotImpl p) = p"
  by (simp_all add: is_not_def negated_def)

lemma is_notE:
  assumes "is_not p" obtains q where "p = NotImpl q"
  using assms by (cases p) auto

lemma size_negated: "is_not p \<Longrightarrow> size p = Suc (size (negated p))"
  by (auto elim: is_notE)

lemma size_NotPred: "size (NotPred p) \<le> Suc (size p)"
  by (cases p) (auto simp: NotPred_def)

text \<open>
  \<open>AndPredicates\<close> and \<open>OrPredicates\<close> call each other; the code's swap \<open>a, b = b, a\<close> is
  the exchanged argument order of the branches where only the first is a negation.
\<close>

function AndPredicates :: "predicate \<Rightarrow> predicate \<Rightarrow> predicate"
  and OrPredicates :: "predicate \<Rightarrow> predicate \<Rightarrow> predicate" where
  "AndPredicates a b =
     (if is_not a \<and> is_not b then NotPred (OrPredicates (negated a) (negated b))
      else if is_not a then and_cases b a
      else and_cases a b)"
| "OrPredicates a b =
     (if is_not a \<and> is_not b then NotPred (AndPredicates (negated a) (negated b))
      else if is_not a then NotPred (AndPredicates (negated a) (NotPred b))
      else if is_not b then NotPred (AndPredicates (negated b) (NotPred a))
      else or_cases a b)"
  by pat_completeness auto
termination
proof (relation "measure (\<lambda>x. case x of Inl (a, b) \<Rightarrow> 2 * (size a + size b)
                                      | Inr (a, b) \<Rightarrow> 2 * (size a + size b) + 1)", goal_cases)
  case (4 a b)
  then show ?case using size_negated [of a] size_NotPred [of b] by simp
next
  case (5 a b)
  then show ?case using size_negated [of b] size_NotPred [of a] by simp
qed (simp_all add: size_negated)

declare AndPredicates.simps [simp del] OrPredicates.simps [simp del]

definition IsUniverisalPredicate :: "predicate \<Rightarrow> bool" where
  "IsUniverisalPredicate p \<longleftrightarrow> p = UniversalImpl"

definition IsNamespacePredicate :: "predicate \<Rightarrow> bool" where
  "IsNamespacePredicate p \<longleftrightarrow> (case p of NamespacePredicate _ \<Rightarrow> True | _ \<Rightarrow> False)"

definition IsTypePredicate :: "predicate \<Rightarrow> bool" where
  "IsTypePredicate p \<longleftrightarrow> (case p of TypePredicate _ \<Rightarrow> True | _ \<Rightarrow> False)"

section \<open>Normal forms, and what \<open>Equals\<close> decides\<close>

text \<open>
  \<open>Equals\<close> compares two conjunctions by length and by a match for every member of the first.
  That is an equivalence only for lists without repeated members, which the constructors
  maintain. The normal form forgets the order of the members.
\<close>

datatype normal =
    NUniversal | NEmpty
  | NAnd "normal fset" | NOr "normal fset" | NNot normal
  | NNamespace "string set" | NType "int set" | NDestination "string set"
  | NGroup "string set" | NOutbound "task_group set"

primrec norm :: "predicate \<Rightarrow> normal" where
  "norm UniversalImpl = NUniversal"
| "norm EmptyImpl = NEmpty"
| "norm (AndImpl ps) = NAnd (fset_of_list (map norm ps))"
| "norm (OrImpl ps) = NOr (fset_of_list (map norm ps))"
| "norm (NotImpl p) = NNot (norm p)"
| "norm (NamespacePredicate a) = NNamespace a"
| "norm (TypePredicate b) = NType b"
| "norm (DestinationPredicate a) = NDestination a"
| "norm (OutboundTaskGroupPredicate a) = NGroup a"
| "norm (OutboundTaskPredicate c) = NOutbound c"

definition is_and :: "predicate \<Rightarrow> bool" where
  "is_and p \<longleftrightarrow> (case p of AndImpl _ \<Rightarrow> True | _ \<Rightarrow> False)"

definition is_or :: "predicate \<Rightarrow> bool" where
  "is_or p \<longleftrightarrow> (case p of OrImpl _ \<Rightarrow> True | _ \<Rightarrow> False)"

definition trivial :: "predicate \<Rightarrow> bool" where
  "trivial p \<longleftrightarrow> p = UniversalImpl \<or> p = EmptyImpl"

text \<open>
  The canonical predicates: conjunctions and disjunctions have at least two members, no two
  of them equal, none of the same connective and none trivial; a negation is never around a
  negation or a trivial predicate. The sets are finite, as Go maps are.
\<close>

fun canonical :: "predicate \<Rightarrow> bool" where
  "canonical (AndImpl ps) \<longleftrightarrow>
     2 \<le> length ps \<and> distinct (map norm ps) \<and>
     list_all (\<lambda>p. canonical p \<and> \<not> is_and p \<and> \<not> trivial p) ps"
| "canonical (OrImpl ps) \<longleftrightarrow>
     2 \<le> length ps \<and> distinct (map norm ps) \<and>
     list_all (\<lambda>p. canonical p \<and> \<not> is_or p \<and> \<not> trivial p) ps"
| "canonical (NotImpl p) \<longleftrightarrow> canonical p \<and> \<not> is_not p \<and> \<not> trivial p"
| "canonical UniversalImpl \<longleftrightarrow> True"
| "canonical EmptyImpl \<longleftrightarrow> True"
| "canonical (NamespacePredicate ids) \<longleftrightarrow> finite ids"
| "canonical (TypePredicate tys) \<longleftrightarrow> finite tys"
| "canonical (DestinationPredicate ds) \<longleftrightarrow> finite ds"
| "canonical (OutboundTaskGroupPredicate gs) \<longleftrightarrow> finite gs"
| "canonical (OutboundTaskPredicate os) \<longleftrightarrow> finite os"

lemma match_iff_same_set:
  assumes "distinct (map f xs)" "distinct (map f ys)"
  shows "length xs = length ys \<and> (\<forall>x\<in>set xs. \<exists>y\<in>set ys. f x = f y) \<longleftrightarrow> f ` set xs = f ` set ys"
proof
  have cx: "card (f ` set xs) = length xs" and cy: "card (f ` set ys) = length ys"
    using distinct_card [OF assms(1)] distinct_card [OF assms(2)] by simp_all
  show "f ` set xs = f ` set ys"
    if "length xs = length ys \<and> (\<forall>x\<in>set xs. \<exists>y\<in>set ys. f x = f y)"
  proof (rule card_subset_eq)
    show "finite (f ` set ys)" by simp
    show "f ` set xs \<subseteq> f ` set ys" using that by force
    show "card (f ` set xs) = card (f ` set ys)" using that cx cy by simp
  qed
  show "length xs = length ys \<and> (\<forall>x\<in>set xs. \<exists>y\<in>set ys. f x = f y)"
    if "f ` set xs = f ` set ys"
    using that cx cy by (metis imageE image_eqI)
qed

lemma fset_of_list_map_eq_iff:
  "fset_of_list (map f xs) = fset_of_list (map f ys) \<longleftrightarrow> f ` set xs = f ` set ys"
  unfolding fset_inject [symmetric] fset_of_list.rep_eq by simp

lemma Equals_norm:
  "canonical p \<Longrightarrow> canonical q \<Longrightarrow> Equals p q \<longleftrightarrow> norm p = norm q"
proof (induction p arbitrary: q)
  case (AndImpl ps)
  show ?case
  proof (cases q)
    case (AndImpl qs)
    have "list_all (\<lambda>p. list_ex (Equals p) qs) ps \<longleftrightarrow>
          (\<forall>p\<in>set ps. \<exists>r\<in>set qs. norm p = norm r)"
      using AndImpl.IH AndImpl.prems unfolding \<open>q = AndImpl qs\<close>
      by (fastforce simp: list_all_iff list_ex_iff)
    with AndImpl.prems match_iff_same_set [of norm ps qs] show ?thesis
      unfolding \<open>q = AndImpl qs\<close> by (simp add: fset_of_list_map_eq_iff del: fset_of_list_map)
  qed simp_all
next
  case (OrImpl ps)
  show ?case
  proof (cases q)
    case (OrImpl qs)
    have "list_all (\<lambda>p. list_ex (Equals p) qs) ps \<longleftrightarrow>
          (\<forall>p\<in>set ps. \<exists>r\<in>set qs. norm p = norm r)"
      using OrImpl.IH OrImpl.prems unfolding \<open>q = OrImpl qs\<close>
      by (fastforce simp: list_all_iff list_ex_iff)
    with OrImpl.prems match_iff_same_set [of norm ps qs] show ?thesis
      unfolding \<open>q = OrImpl qs\<close> by (simp add: fset_of_list_map_eq_iff del: fset_of_list_map)
  qed simp_all
next
  case (NotImpl p)
  then show ?case by (cases q) auto
qed (case_tac q; auto)+

lemma same_image_quantifiers:
  assumes img: "f ` A = f ` B" and same: "\<And>x y. x \<in> A \<Longrightarrow> f x = f y \<Longrightarrow> P x = P y"
  shows "(\<forall>x\<in>A. P x) \<longleftrightarrow> (\<forall>y\<in>B. P y)" and "(\<exists>x\<in>A. P x) \<longleftrightarrow> (\<exists>y\<in>B. P y)"
proof -
  have to: "\<exists>y\<in>B. P x = P y" if x: "x \<in> A" for x
  proof -
    from img x have "f x \<in> f ` B" by blast
    then obtain y where "y \<in> B" "f x = f y" by blast
    with same [OF x] show ?thesis by blast
  qed
  have from_B: "\<exists>x\<in>A. P x = P y" if y: "y \<in> B" for y
  proof -
    from img y have "f y \<in> f ` A" by blast
    then obtain x where "x \<in> A" "f x = f y" by force
    with same show ?thesis by blast
  qed
  from to from_B show "(\<forall>x\<in>A. P x) \<longleftrightarrow> (\<forall>y\<in>B. P y)" by meson
  from to from_B show "(\<exists>x\<in>A. P x) \<longleftrightarrow> (\<exists>y\<in>B. P y)" by meson
qed

lemma Test_norm: "norm p = norm q \<Longrightarrow> Test p t = Test q t"
proof (induction p arbitrary: q)
  case (AndImpl ps)
  from AndImpl.prems obtain qs where q: "q = AndImpl qs" by (cases q) auto
  with AndImpl.prems have img: "norm ` set ps = norm ` set qs"
    by (simp add: fset_of_list_map_eq_iff del: fset_of_list_map)
  have "(\<forall>p\<in>set ps. Test p t) \<longleftrightarrow> (\<forall>q\<in>set qs. Test q t)"
    using img by (rule same_image_quantifiers) (rule AndImpl.IH)
  then show ?case unfolding q by (simp add: list_all_iff)
next
  case (OrImpl ps)
  from OrImpl.prems obtain qs where q: "q = OrImpl qs" by (cases q) auto
  with OrImpl.prems have img: "norm ` set ps = norm ` set qs"
    by (simp add: fset_of_list_map_eq_iff del: fset_of_list_map)
  have "(\<exists>p\<in>set ps. Test p t) \<longleftrightarrow> (\<exists>q\<in>set qs. Test q t)"
    using img by (rule same_image_quantifiers) (rule OrImpl.IH)
  then show ?case unfolding q by (simp add: list_ex_iff)
next
  case (NotImpl p)
  from NotImpl.prems obtain r where q: "q = NotImpl r" and "norm p = norm r"
    by (cases q) auto
  from NotImpl.IH [OF this(2)] show ?case unfolding q by simp
qed (case_tac q; auto)+

text \<open>
  On canonical predicates \<open>Equals\<close> is an equivalence, and equal predicates accept the
  same tasks.
\<close>

theorem Equals_equivalence_sound:
  assumes "canonical p" and "canonical q" and "canonical r"
  shows "Equals p p \<and> Equals p q = Equals q p \<and>
         (Equals p q \<and> Equals q r \<longrightarrow> Equals p r) \<and>
         (Equals p q \<longrightarrow> (\<forall>t. Test p t = Test q t))"
proof -
  have "norm p = norm q \<longrightarrow> (\<forall>t. Test p t = Test q t)"
    using Test_norm by blast
  with assms show ?thesis by (auto simp: Equals_norm)
qed

section \<open>The combinators keep canonicity and mean what their names say\<close>

definition conj_members :: "predicate list \<Rightarrow> bool" where
  "conj_members ps \<longleftrightarrow>
     distinct (map norm ps) \<and> list_all (\<lambda>p. canonical p \<and> \<not> is_and p \<and> \<not> trivial p) ps"

definition disj_members :: "predicate list \<Rightarrow> bool" where
  "disj_members ps \<longleftrightarrow>
     distinct (map norm ps) \<and> list_all (\<lambda>p. canonical p \<and> \<not> is_or p \<and> \<not> trivial p) ps"

lemma conj_members_canonical: "conj_members ps \<Longrightarrow> \<forall>p\<in>set ps. canonical p"
  by (auto simp: conj_members_def list_all_iff)

lemma disj_members_canonical: "disj_members ps \<Longrightarrow> \<forall>p\<in>set ps. canonical p"
  by (auto simp: disj_members_def list_all_iff)

lemma appendPredicates_norm:
  assumes "\<forall>p\<in>set cur. canonical p" and "\<forall>p\<in>set new. canonical p"
  shows "appendPredicates cur new = cur @ filter (\<lambda>n. norm n \<notin> norm ` set cur) new"
proof -
  have "list_ex (\<lambda>c. Equals c n) cur \<longleftrightarrow> norm n \<in> norm ` set cur" if "n \<in> set new" for n
  proof -
    have "Equals c n \<longleftrightarrow> norm c = norm n" if "c \<in> set cur" for c
      using assms \<open>n \<in> set new\<close> that by (intro Equals_norm) auto
    then show ?thesis unfolding list_ex_iff image_iff by metis
  qed
  then show ?thesis
    unfolding appendPredicates_def by (simp cong: filter_cong)
qed

lemma appendPredicates_distinct:
  assumes "\<forall>p\<in>set cur. canonical p" "\<forall>p\<in>set new. canonical p"
    and "distinct (map norm cur)" "distinct (map norm new)"
  shows "distinct (map norm (appendPredicates cur new))"
proof -
  have "distinct (map norm (filter P new))" for P
    using assms(4) by (induction new) auto
  with assms(3) show ?thesis
    unfolding appendPredicates_norm [OF assms(1,2)]
    by (auto simp del: imageE) (metis image_eqI)
qed

lemma appendPredicates_subset: "set (appendPredicates cur new) \<subseteq> set cur \<union> set new"
  by (auto simp: appendPredicates_def)

lemma appendPredicates_image:
  assumes "\<forall>p\<in>set cur. canonical p" "\<forall>p\<in>set new. canonical p"
  shows "norm ` set (appendPredicates cur new) = norm ` (set cur \<union> set new)"
  unfolding appendPredicates_norm [OF assms] by auto

lemma appendPredicates_Test:
  assumes "\<forall>p\<in>set cur. canonical p" "\<forall>p\<in>set new. canonical p"
  shows "(\<forall>p\<in>set (appendPredicates cur new). Test p t) \<longleftrightarrow>
           (\<forall>p\<in>set cur. Test p t) \<and> (\<forall>p\<in>set new. Test p t)"
    and "(\<exists>p\<in>set (appendPredicates cur new). Test p t) \<longleftrightarrow>
           (\<exists>p\<in>set cur. Test p t) \<or> (\<exists>p\<in>set new. Test p t)"
proof -
  note img = appendPredicates_image [OF assms]
  have "(\<forall>p\<in>set (appendPredicates cur new). Test p t) \<longleftrightarrow> (\<forall>p\<in>set cur \<union> set new. Test p t)"
    using img by (rule same_image_quantifiers) (rule Test_norm)
  then show "(\<forall>p\<in>set (appendPredicates cur new). Test p t) \<longleftrightarrow>
           (\<forall>p\<in>set cur. Test p t) \<and> (\<forall>p\<in>set new. Test p t)" by blast
  have "(\<exists>p\<in>set (appendPredicates cur new). Test p t) \<longleftrightarrow> (\<exists>p\<in>set cur \<union> set new. Test p t)"
    using img by (rule same_image_quantifiers) (rule Test_norm)
  then show "(\<exists>p\<in>set (appendPredicates cur new). Test p t) \<longleftrightarrow>
           (\<exists>p\<in>set cur. Test p t) \<or> (\<exists>p\<in>set new. Test p t)" by blast
qed

lemma conj_members_append:
  assumes "conj_members cur" "conj_members new"
  shows "conj_members (appendPredicates cur new)"
  using assms appendPredicates_subset [of cur new]
    appendPredicates_distinct [OF conj_members_canonical conj_members_canonical, of cur new]
  by (auto simp: conj_members_def list_all_iff)

lemma disj_members_append:
  assumes "disj_members cur" "disj_members new"
  shows "disj_members (appendPredicates cur new)"
  using assms appendPredicates_subset [of cur new]
    appendPredicates_distinct [OF disj_members_canonical disj_members_canonical, of cur new]
  by (auto simp: disj_members_def list_all_iff)

lemma conj_members_single [simp]:
  "conj_members [p] \<longleftrightarrow> canonical p \<and> \<not> is_and p \<and> \<not> trivial p"
  "conj_members []"
  by (auto simp: conj_members_def)

lemma disj_members_single [simp]:
  "disj_members [p] \<longleftrightarrow> canonical p \<and> \<not> is_or p \<and> \<not> trivial p"
  "disj_members []"
  by (auto simp: disj_members_def)

lemma conj_members_of_and: "canonical (AndImpl ps) \<Longrightarrow> conj_members ps"
  by (simp add: conj_members_def)

lemma disj_members_of_or: "canonical (OrImpl ps) \<Longrightarrow> disj_members ps"
  by (simp add: disj_members_def)

lemma and_flatten_step:
  "and_flatten fl (p # ps) =
     (if p = EmptyImpl then Inl p
      else if p = UniversalImpl then and_flatten fl ps
      else and_flatten (appendPredicates fl (case p of AndImpl qs \<Rightarrow> qs | _ \<Rightarrow> [p])) ps)"
  by (cases p) auto

lemma or_flatten_step:
  "or_flatten fl (p # ps) =
     (if p = UniversalImpl then Inl p
      else if p = EmptyImpl then or_flatten fl ps
      else or_flatten (appendPredicates fl (case p of OrImpl qs \<Rightarrow> qs | _ \<Rightarrow> [p])) ps)"
  by (cases p) auto

lemma and_flatten_ok:
  assumes "conj_members fl" "\<forall>p\<in>set ps. canonical p"
  shows "case and_flatten fl ps of
           Inl p \<Rightarrow> p = EmptyImpl \<and> \<not> (\<forall>p\<in>set ps. Test p t)
         | Inr r \<Rightarrow> conj_members r \<and>
             ((\<forall>p\<in>set r. Test p t) \<longleftrightarrow> (\<forall>p\<in>set fl. Test p t) \<and> (\<forall>p\<in>set ps. Test p t))"
  using assms
proof (induction ps arbitrary: fl)
  case (Cons p ps)
  let ?new = "case p of AndImpl qs \<Rightarrow> qs | _ \<Rightarrow> [p]"
  show ?case
  proof (cases "trivial p")
    case True
    with Cons.IH [OF Cons.prems(1)] Cons.prems(2) show ?thesis
      by (auto simp: trivial_def and_flatten_step simp del: and_flatten.simps split: sum.splits)
  next
    case False
    with Cons.prems have new: "conj_members ?new"
      by (cases p) (auto simp: is_and_def intro: conj_members_of_and)
    have mean: "(\<forall>q\<in>set ?new. Test q t) \<longleftrightarrow> Test p t"
      by (cases p) (auto simp: list_all_iff)
    from Cons.IH [OF conj_members_append [OF Cons.prems(1) new]] Cons.prems(2)
      appendPredicates_Test(1) [OF conj_members_canonical [OF Cons.prems(1)]
        conj_members_canonical [OF new], of t] False mean
    show ?thesis
      by (auto simp: trivial_def and_flatten_step simp del: and_flatten.simps split: sum.splits)
  qed
qed simp

lemma or_flatten_ok:
  assumes "disj_members fl" "\<forall>p\<in>set ps. canonical p"
  shows "case or_flatten fl ps of
           Inl p \<Rightarrow> p = UniversalImpl \<and> (\<exists>p\<in>set ps. Test p t)
         | Inr r \<Rightarrow> disj_members r \<and>
             ((\<exists>p\<in>set r. Test p t) \<longleftrightarrow> (\<exists>p\<in>set fl. Test p t) \<or> (\<exists>p\<in>set ps. Test p t))"
  using assms
proof (induction ps arbitrary: fl)
  case (Cons p ps)
  let ?new = "case p of OrImpl qs \<Rightarrow> qs | _ \<Rightarrow> [p]"
  show ?case
  proof (cases "trivial p")
    case True
    with Cons.IH [OF Cons.prems(1)] Cons.prems(2) show ?thesis
      by (auto simp: trivial_def or_flatten_step simp del: or_flatten.simps split: sum.splits)
  next
    case False
    with Cons.prems have new: "disj_members ?new"
      by (cases p) (auto simp: is_or_def intro: disj_members_of_or)
    have mean: "(\<exists>q\<in>set ?new. Test q t) \<longleftrightarrow> Test p t"
      by (cases p) (auto simp: list_ex_iff)
    from Cons.IH [OF disj_members_append [OF Cons.prems(1) new]] Cons.prems(2)
      appendPredicates_Test(2) [OF disj_members_canonical [OF Cons.prems(1)]
        disj_members_canonical [OF new], of t] False mean
    show ?thesis
      by (auto simp: trivial_def or_flatten_step simp del: or_flatten.simps split: sum.splits)
  qed
qed simp

lemma and_build_ok:
  assumes "\<forall>p\<in>set ps. canonical p"
  shows "canonical (and_build ps)" and "Test (and_build ps) t \<longleftrightarrow> (\<forall>p\<in>set ps. Test p t)"
  using and_flatten_ok [OF conj_members_single(2) assms, of t]
  by (auto simp: and_build_def conj_members_def list_all_iff split: sum.splits list.splits)

lemma or_build_ok:
  assumes "\<forall>p\<in>set ps. canonical p"
  shows "canonical (or_build ps)" and "Test (or_build ps) t \<longleftrightarrow> (\<exists>p\<in>set ps. Test p t)"
  using or_flatten_ok [OF disj_members_single(2) assms, of t]
  by (auto simp: or_build_def disj_members_def list_all_iff list_ex_iff split: sum.splits list.splits)

lemma NotPred_ok:
  assumes "canonical p"
  shows "canonical (NotPred p)" and "Test (NotPred p) t \<longleftrightarrow> \<not> Test p t"
  using assms by (cases p; auto simp: NotPred_def is_not_def trivial_def)+

lemma and_cases_ok:
  assumes "canonical a" "canonical b"
  shows "canonical (and_cases a b)" and "Test (and_cases a b) t \<longleftrightarrow> Test a t \<and> Test b t"
proof -
  have b: "canonical (and_build [a, b])" "Test (and_build [a, b]) t \<longleftrightarrow> Test a t \<and> Test b t"
    using assms and_build_ok [of "[a, b]"] by auto
  show "canonical (and_cases a b)"
    using b(1) assms
    by (cases a; cases b) (auto simp: and_cases_def set_or_empty_def intersect_def difference_def split: predicate.splits)
  show "Test (and_cases a b) t \<longleftrightarrow> Test a t \<and> Test b t"
    using b(2)
    by (auto simp: and_cases_def set_or_empty_def intersect_def difference_def
        split: predicate.splits option.splits)
qed

lemma or_cases_ok:
  assumes "canonical a" "canonical b"
  shows "canonical (or_cases a b)" and "Test (or_cases a b) t \<longleftrightarrow> Test a t \<or> Test b t"
proof -
  have b: "canonical (or_build [a, b])" "Test (or_build [a, b]) t \<longleftrightarrow> Test a t \<or> Test b t"
    using assms or_build_ok [of "[a, b]"] by auto
  show "canonical (or_cases a b)"
    using b(1) assms by (cases a; cases b) (auto simp: or_cases_def union_keys_def)
  show "Test (or_cases a b) t \<longleftrightarrow> Test a t \<or> Test b t"
    using b(2)
    by (auto simp: or_cases_def union_keys_def split: predicate.splits option.splits)
qed

lemma canonical_NotImpl: "canonical (NotImpl p) \<Longrightarrow> canonical p"
  by simp

lemma negated_ok:
  assumes "is_not p" "canonical p"
  shows "canonical (negated p)" and "Test p t \<longleftrightarrow> \<not> Test (negated p) t"
  using assms by (auto elim: is_notE)

lemma AndOr_ok:
  "canonical a \<Longrightarrow> canonical b \<Longrightarrow>
     canonical (AndPredicates a b) \<and> (Test (AndPredicates a b) t \<longleftrightarrow> Test a t \<and> Test b t)"
  "canonical a \<Longrightarrow> canonical b \<Longrightarrow>
     canonical (OrPredicates a b) \<and> (Test (OrPredicates a b) t \<longleftrightarrow> Test a t \<or> Test b t)"
proof (induction a b and a b rule: AndPredicates_OrPredicates.induct)
  case (1 a b)
  then show ?case
    using and_cases_ok [of a b] and_cases_ok [of b a]
    by (auto simp: AndPredicates.simps [of a b] NotPred_ok negated_ok)
next
  case (2 a b)
  then show ?case
    using or_cases_ok [of a b]
    by (auto simp: OrPredicates.simps [of a b] NotPred_ok negated_ok)
qed

text \<open>
  C37. \<open>AndPredicates\<close> is conjunction: on canonical predicates the result is canonical and
  accepts exactly the tasks both arguments accept, whatever simplification it chose (set
  intersection, set difference, De Morgan, flattening, removal of duplicates).
\<close>

theorem AndPredicates_conjunction:
  assumes "canonical a" and "canonical b"
  shows "canonical (AndPredicates a b) \<and>
         (\<forall>t. Test (AndPredicates a b) t \<longleftrightarrow> Test a t \<and> Test b t)"
  using AndOr_ok(1) [OF assms] by blast

theorem AndPredicates_conjunction_witness:
  "canonical (AndPredicates (NamespacePredicate {''a'', ''b''}) (NotImpl (NamespacePredicate {''b''}))) \<and>
   (\<forall>t. Test (AndPredicates (NamespacePredicate {''a'', ''b''}) (NotImpl (NamespacePredicate {''b''}))) t
      \<longleftrightarrow> Test (NamespacePredicate {''a'', ''b''}) t \<and> Test (NotImpl (NamespacePredicate {''b''})) t)"
  by (rule AndPredicates_conjunction) (simp_all add: is_not_def trivial_def)

text \<open>
  C38. \<open>OrPredicates\<close> is disjunction, also where it rewrites a negation
  (\<open>A || !B = !(B && !A)\<close>), and keeps canonicity.
\<close>

theorem OrPredicates_disjunction:
  assumes "canonical a" and "canonical b"
  shows "canonical (OrPredicates a b) \<and>
         (\<forall>t. Test (OrPredicates a b) t \<longleftrightarrow> Test a t \<or> Test b t)"
  using AndOr_ok(2) [OF assms] by blast

theorem OrPredicates_disjunction_witness:
  "canonical (OrPredicates (TypePredicate {1, 2}) (NotImpl (TypePredicate {2, 3}))) \<and>
   (\<forall>t. Test (OrPredicates (TypePredicate {1, 2}) (NotImpl (TypePredicate {2, 3}))) t
      \<longleftrightarrow> Test (TypePredicate {1, 2}) t \<or> Test (NotImpl (TypePredicate {2, 3})) t)"
  by (rule OrPredicates_disjunction) (simp_all add: is_not_def trivial_def)

theorem Equals_equivalence_sound_witness:
  "let p = AndImpl [TypePredicate {1}, NamespacePredicate {''a''}];
       q = AndImpl [NamespacePredicate {''a''}, TypePredicate {1}]
   in Equals p p \<and> Equals p q = Equals q p \<and> (Equals p q \<and> Equals q p \<longrightarrow> Equals p p) \<and>
      (Equals p q \<longrightarrow> (\<forall>t. Test p t = Test q t))"
  unfolding Let_def
  by (rule Equals_equivalence_sound) (simp_all add: is_and_def trivial_def)

end
