(* ===== verification/TaskRange.thy ===== *)
theory TaskRange
  imports TaskPredicate
begin

text \<open>
  Ranges and scopes of the history task queues: \<open>service/history/queues/range.go\<close> and
  \<open>scope.go\<close>. A range is an interval of task keys, a scope a range with a predicate. Where the
  code panics, the model returns a value of \<open>queue_panic\<close>, which the queue components share.
\<close>

datatype queue_panic =
    InvalidRange
  | UnableToSplitRange
  | UnableToMergeRange
  | UnableToSplitScope
  | UnableToMergeScopeByRange
  | UnableToMergeScopeByPredicate
  | UnableToSplitIterator
  | UnableToMergeIterator
  | OverlappingIterators
  | TaskInNeitherScope
  | DestroyedSlice
  | UnableToSplitSlice
  | UnableToMergeSlice
  | TaskOutsideRange
  | NoNextItem
  | KeyOverflow key_panic
  | GroupKeyType
  | OverlappingSlices
  | CanNotAppendSlice
  | ReaderAlreadyExists
  | NoSliceForKey
  | PredicateConstructor predicate_panic
  | UnknownPredicateType int

record task_range =
  InclusiveMin :: task_key
  ExclusiveMax :: task_key

section \<open>Ranges\<close>

definition NewRange :: "task_key \<Rightarrow> task_key \<Rightarrow> queue_panic + task_range" where
  "NewRange inclusiveMin exclusiveMax =
     (if CompareTo inclusiveMin exclusiveMax > 0 then Inl InvalidRange
      else Inr \<lparr>InclusiveMin = inclusiveMin, ExclusiveMax = exclusiveMax\<rparr>)"

definition Range_IsEmpty :: "task_range \<Rightarrow> bool" where
  "Range_IsEmpty r \<longleftrightarrow> CompareTo (InclusiveMin r) (ExclusiveMax r) = 0"

definition ContainsKey :: "task_range \<Rightarrow> task_key \<Rightarrow> bool" where
  "ContainsKey r key \<longleftrightarrow> CompareTo key (InclusiveMin r) \<ge> 0 \<and> CompareTo key (ExclusiveMax r) < 0"

definition ContainsRange :: "task_range \<Rightarrow> task_range \<Rightarrow> bool" where
  "ContainsRange r input \<longleftrightarrow>
     CompareTo (InclusiveMin r) (InclusiveMin input) \<le> 0 \<and>
     CompareTo (ExclusiveMax r) (ExclusiveMax input) \<ge> 0"

definition Range_CanSplit :: "task_range \<Rightarrow> task_key \<Rightarrow> bool" where
  "Range_CanSplit r key \<longleftrightarrow> ContainsKey r key \<or> CompareTo (ExclusiveMax r) key = 0"

definition Range_Split :: "task_range \<Rightarrow> task_key \<Rightarrow> queue_panic + task_range \<times> task_range" where
  "Range_Split r key =
     (if \<not> Range_CanSplit r key then Inl UnableToSplitRange
      else bind_result (NewRange (InclusiveMin r) key) (\<lambda>left.
           bind_result (NewRange key (ExclusiveMax r)) (\<lambda>right. Inr (left, right))))"

definition Range_CanMerge :: "task_range \<Rightarrow> task_range \<Rightarrow> bool" where
  "Range_CanMerge r input \<longleftrightarrow>
     CompareTo (InclusiveMin r) (ExclusiveMax input) \<le> 0 \<and>
     CompareTo (ExclusiveMax r) (InclusiveMin input) \<ge> 0"

definition Range_Merge :: "task_range \<Rightarrow> task_range \<Rightarrow> queue_panic + task_range" where
  "Range_Merge r input =
     (if \<not> Range_CanMerge r input then Inl UnableToMergeRange
      else NewRange (MinKey (InclusiveMin r) (InclusiveMin input))
                    (MaxKey (ExclusiveMax r) (ExclusiveMax input)))"

definition Range_Equals :: "task_range \<Rightarrow> task_range \<Rightarrow> bool" where
  "Range_Equals r input \<longleftrightarrow>
     CompareTo (InclusiveMin r) (InclusiveMin input) = 0 \<and>
     CompareTo (ExclusiveMax r) (ExclusiveMax input) = 0"

section \<open>Scopes\<close>

record scope =
  ScopeRange :: task_range
  ScopePredicate :: predicate

definition NewScope :: "task_range \<Rightarrow> predicate \<Rightarrow> scope" where
  "NewScope r predicate = \<lparr>ScopeRange = r, ScopePredicate = predicate\<rparr>"

definition Scope_Contains :: "scope \<Rightarrow> task \<Rightarrow> bool" where
  "Scope_Contains s t \<longleftrightarrow> ContainsKey (ScopeRange s) (GetKey t) \<and> Test (ScopePredicate s) t"

definition CanSplitByRange :: "scope \<Rightarrow> task_key \<Rightarrow> bool" where
  "CanSplitByRange s key \<longleftrightarrow> Range_CanSplit (ScopeRange s) key"

definition SplitByRange :: "scope \<Rightarrow> task_key \<Rightarrow> queue_panic + scope \<times> scope" where
  "SplitByRange s key =
     (if \<not> CanSplitByRange s key then Inl UnableToSplitScope
      else bind_result (Range_Split (ScopeRange s) key) (\<lambda>(leftRange, rightRange).
           Inr (NewScope leftRange (ScopePredicate s), NewScope rightRange (ScopePredicate s))))"

definition SplitByPredicate :: "scope \<Rightarrow> predicate \<Rightarrow> scope \<times> scope" where
  "SplitByPredicate s predicate =
     (NewScope (ScopeRange s) (AndPredicates (ScopePredicate s) predicate),
      NewScope (ScopeRange s) (AndPredicates (ScopePredicate s) (NotPred predicate)))"

definition CanMergeByRange :: "scope \<Rightarrow> scope \<Rightarrow> bool" where
  "CanMergeByRange s incoming \<longleftrightarrow>
     Range_CanMerge (ScopeRange s) (ScopeRange incoming) \<and>
     Equals (ScopePredicate s) (ScopePredicate incoming)"

definition MergeByRange :: "scope \<Rightarrow> scope \<Rightarrow> queue_panic + scope" where
  "MergeByRange s incoming =
     (if \<not> CanMergeByRange s incoming then Inl UnableToMergeScopeByRange
      else bind_result (Range_Merge (ScopeRange s) (ScopeRange incoming)) (\<lambda>r.
           Inr (NewScope r (ScopePredicate s))))"

definition CanMergeByPredicate :: "scope \<Rightarrow> scope \<Rightarrow> bool" where
  "CanMergeByPredicate s incoming \<longleftrightarrow> Range_Equals (ScopeRange s) (ScopeRange incoming)"

definition MergeByPredicate :: "scope \<Rightarrow> scope \<Rightarrow> queue_panic + scope" where
  "MergeByPredicate s incoming =
     (if \<not> CanMergeByPredicate s incoming then Inl UnableToMergeScopeByPredicate
      else Inr (NewScope (ScopeRange s)
                         (OrPredicates (ScopePredicate s) (ScopePredicate incoming))))"

definition Scope_IsEmpty :: "scope \<Rightarrow> bool" where
  "Scope_IsEmpty s \<longleftrightarrow>
     (if Range_IsEmpty (ScopeRange s) then True
      else case ScopePredicate s of EmptyImpl \<Rightarrow> True | _ \<Rightarrow> False)"

definition Scope_Equals :: "scope \<Rightarrow> scope \<Rightarrow> bool" where
  "Scope_Equals s scope' \<longleftrightarrow>
     Range_Equals (ScopeRange s) (ScopeRange scope') \<and>
     Equals (ScopePredicate s) (ScopePredicate scope')"

section \<open>What the operations mean\<close>

text \<open>A range between two keys that the queues use.\<close>

definition valid_range :: "task_range \<Rightarrow> bool" where
  "valid_range r \<longleftrightarrow> InclusiveMin r \<le> ExclusiveMax r \<and> valid_key (InclusiveMin r) \<and> valid_key (ExclusiveMax r)"

definition valid_scope :: "scope \<Rightarrow> bool" where
  "valid_scope s \<longleftrightarrow> valid_range (ScopeRange s) \<and> canonical (ScopePredicate s)"

named_theorems range_simps \<open>the range predicates as comparisons of keys\<close>

lemma range_compare [range_simps]:
  "ContainsKey r k \<longleftrightarrow> InclusiveMin r \<le> k \<and> k < ExclusiveMax r"
  "Range_IsEmpty r \<longleftrightarrow> InclusiveMin r = ExclusiveMax r"
  "ContainsRange r q \<longleftrightarrow> InclusiveMin r \<le> InclusiveMin q \<and> ExclusiveMax q \<le> ExclusiveMax r"
  "Range_CanMerge r q \<longleftrightarrow> InclusiveMin r \<le> ExclusiveMax q \<and> InclusiveMin q \<le> ExclusiveMax r"
  "Range_Equals r q \<longleftrightarrow> InclusiveMin r = InclusiveMin q \<and> ExclusiveMax r = ExclusiveMax q"
  by (simp_all add: ContainsKey_def Range_IsEmpty_def ContainsRange_def Range_CanMerge_def
      Range_Equals_def)

lemma Range_CanSplit_iff [range_simps]:
  "valid_range r \<Longrightarrow> Range_CanSplit r k \<longleftrightarrow> InclusiveMin r \<le> k \<and> k \<le> ExclusiveMax r"
  by (auto simp: Range_CanSplit_def range_simps valid_range_def)

lemma NewRange_Inr_iff:
  "NewRange a b = Inr r \<longleftrightarrow> a \<le> b \<and> r = \<lparr>InclusiveMin = a, ExclusiveMax = b\<rparr>"
  by (auto simp: NewRange_def)

lemma NewRange_valid: "NewRange a b = Inr r \<Longrightarrow> valid_key a \<Longrightarrow> valid_key b \<Longrightarrow> valid_range r"
  by (auto simp: NewRange_Inr_iff valid_range_def)

lemma valid_range_key: "valid_range r \<Longrightarrow> InclusiveMin r \<le> k \<Longrightarrow> k \<le> ExclusiveMax r \<Longrightarrow> 0 \<le> TaskID k \<Longrightarrow> TaskID k \<le> MaxInt64 \<Longrightarrow> valid_key k"
  by (cases k; cases "InclusiveMin r"; cases "ExclusiveMax r") (auto simp: valid_range_def key_le_iff)

lemma Range_Equals_eq: "Range_Equals r q \<longleftrightarrow> r = (q :: task_range)"
  by (cases r; cases q) (simp add: range_simps)

lemma Range_Split_eq:
  assumes "valid_range r" "Range_CanSplit r k"
  shows "Range_Split r k = Inr (\<lparr>InclusiveMin = InclusiveMin r, ExclusiveMax = k\<rparr>,
                                \<lparr>InclusiveMin = k, ExclusiveMax = ExclusiveMax r\<rparr>)"
  using assms by (auto simp: Range_Split_def NewRange_def range_simps)

lemma Range_Merge_eq:
  assumes "valid_range r" "valid_range q" "Range_CanMerge r q"
  shows "Range_Merge r q = Inr \<lparr>InclusiveMin = min (InclusiveMin r) (InclusiveMin q),
                                ExclusiveMax = max (ExclusiveMax r) (ExclusiveMax q)\<rparr>"
  using assms by (auto simp: Range_Merge_def NewRange_def valid_range_def min_def max_def)

text \<open>
  Splitting a valid range at a key it can be split at never panics and yields two valid
  ranges, the left one below the key and the right one from the key on, that partition the
  keys of the range.
\<close>

theorem Range_Split_partitions:
  assumes "valid_range r" and "Range_CanSplit r k" and "valid_key k"
  shows "\<exists>left right. Range_Split r k = Inr (left, right) \<and> valid_range left \<and> valid_range right \<and>
           (\<forall>x. (ContainsKey left x \<longleftrightarrow> ContainsKey r x \<and> x < k) \<and>
                (ContainsKey right x \<longleftrightarrow> ContainsKey r x \<and> k \<le> x))"
  using assms by (auto simp: Range_Split_eq range_simps valid_range_def)

theorem Range_Split_partitions_witness:
  "let r = \<lparr>InclusiveMin = Key 1 0, ExclusiveMax = Key 5 0\<rparr>; k = Key 3 7
   in \<exists>left right. Range_Split r k = Inr (left, right) \<and> valid_range left \<and> valid_range right \<and>
        (\<forall>x. (ContainsKey left x \<longleftrightarrow> ContainsKey r x \<and> x < k) \<and>
             (ContainsKey right x \<longleftrightarrow> ContainsKey r x \<and> k \<le> x))"
  unfolding Let_def
  by (rule Range_Split_partitions)
    (simp_all add: valid_range_def Range_CanSplit_def range_simps key_le_iff key_less_iff MaxInt64_def)

text \<open>
  Two valid ranges merge, into a valid range with exactly the keys of both, if and only
  if they overlap or touch; otherwise \<open>Merge\<close> panics.
\<close>

theorem Range_Merge_union:
  assumes "valid_range r" and "valid_range q"
  shows "(Range_CanMerge r q \<longrightarrow>
            (\<exists>m. Range_Merge r q = Inr m \<and> valid_range m \<and>
                 (\<forall>x. ContainsKey m x \<longleftrightarrow> ContainsKey r x \<or> ContainsKey q x))) \<and>
         (\<not> Range_CanMerge r q \<longrightarrow> Range_Merge r q = Inl UnableToMergeRange)"
  using assms
  by (auto simp: Range_Merge_eq range_simps valid_range_def min_def max_def)
    (auto simp: Range_Merge_def range_simps)

theorem Range_Merge_union_witness:
  "let r = \<lparr>InclusiveMin = Key 1 0, ExclusiveMax = Key 5 0\<rparr>;
       q = \<lparr>InclusiveMin = Key 5 0, ExclusiveMax = Key 8 0\<rparr>
   in (Range_CanMerge r q \<longrightarrow>
        (\<exists>m. Range_Merge r q = Inr m \<and> valid_range m \<and>
             (\<forall>x. ContainsKey m x \<longleftrightarrow> ContainsKey r x \<or> ContainsKey q x))) \<and>
      (\<not> Range_CanMerge r q \<longrightarrow> Range_Merge r q = Inl UnableToMergeRange)"
  unfolding Let_def
  by (rule Range_Merge_union) (simp_all add: valid_range_def key_le_iff MaxInt64_def)

lemma SplitByRange_ok:
  assumes "valid_scope s" "CanSplitByRange s k" "valid_key k"
  shows "\<exists>left right. SplitByRange s k = Inr (left, right) \<and> valid_scope left \<and> valid_scope right \<and>
     ScopeRange left = \<lparr>InclusiveMin = InclusiveMin (ScopeRange s), ExclusiveMax = k\<rparr> \<and>
     ScopeRange right = \<lparr>InclusiveMin = k, ExclusiveMax = ExclusiveMax (ScopeRange s)\<rparr> \<and>
     ScopePredicate left = ScopePredicate s \<and> ScopePredicate right = ScopePredicate s"
  using assms
  by (auto simp: SplitByRange_def CanSplitByRange_def valid_scope_def Range_Split_eq NewScope_def
      range_simps valid_range_def)

lemma SplitByPredicate_ok:
  assumes "valid_scope s" "canonical p" "SplitByPredicate s p = (pass, fail)"
  shows "valid_scope pass \<and> valid_scope fail \<and>
     ScopeRange pass = ScopeRange s \<and> ScopeRange fail = ScopeRange s \<and>
     (\<forall>t. Scope_Contains pass t \<longleftrightarrow> Scope_Contains s t \<and> Test p t) \<and>
     (\<forall>t. Scope_Contains fail t \<longleftrightarrow> Scope_Contains s t \<and> \<not> Test p t)"
  using assms AndOr_ok(1) [of "ScopePredicate s" p] AndOr_ok(1) [of "ScopePredicate s" "NotPred p"]
    NotPred_ok [of p]
  by (auto simp: SplitByPredicate_def NewScope_def valid_scope_def Scope_Contains_def)

lemma MergeByRange_ok:
  assumes "valid_scope s" "valid_scope q" "CanMergeByRange s q"
  shows "\<exists>m. MergeByRange s q = Inr m \<and> valid_scope m \<and>
     ScopeRange m = \<lparr>InclusiveMin = min (InclusiveMin (ScopeRange s)) (InclusiveMin (ScopeRange q)),
                     ExclusiveMax = max (ExclusiveMax (ScopeRange s)) (ExclusiveMax (ScopeRange q))\<rparr> \<and>
     ScopePredicate m = ScopePredicate s"
  using assms
  by (auto simp: MergeByRange_def CanMergeByRange_def valid_scope_def Range_Merge_eq NewScope_def
      range_simps valid_range_def min_def max_def)

lemma MergeByRange_Contains:
  assumes "valid_scope s" "valid_scope q" "MergeByRange s q = Inr m"
  shows "Scope_Contains m t \<longleftrightarrow> Scope_Contains s t \<or> Scope_Contains q t"
proof -
  from assms(3) have can: "CanMergeByRange s q"
    by (auto simp: MergeByRange_def split: if_splits)
  then have "Test (ScopePredicate s) t = Test (ScopePredicate q) t"
    using assms(1,2)
    by (intro Test_norm) (simp add: CanMergeByRange_def valid_scope_def Equals_norm)
  with MergeByRange_ok [OF assms(1,2) can] assms can show ?thesis
    by (auto simp: Scope_Contains_def CanMergeByRange_def range_simps valid_scope_def
        valid_range_def min_def max_def split: if_splits)
qed

lemma MergeByPredicate_ok:
  assumes "valid_scope s" "valid_scope q" "CanMergeByPredicate s q"
  shows "\<exists>m. MergeByPredicate s q = Inr m \<and> valid_scope m \<and> ScopeRange m = ScopeRange s \<and>
     (\<forall>t. Scope_Contains m t \<longleftrightarrow> Scope_Contains s t \<or> Scope_Contains q t)"
  using assms AndOr_ok(2) [of "ScopePredicate s" "ScopePredicate q"]
  by (auto simp: MergeByPredicate_def CanMergeByPredicate_def valid_scope_def NewScope_def
      Scope_Contains_def Range_Equals_eq)

lemma Scope_IsEmpty_Contains: "Scope_IsEmpty s \<Longrightarrow> \<not> Scope_Contains s t"
  by (auto simp: Scope_IsEmpty_def Scope_Contains_def range_simps split: if_splits predicate.splits)

end
