(* ===== verification/PagingIterator.thy ===== *)
theory PagingIterator
  imports Prelude
begin

text \<open>
  The paging iterator of \<open>common/collection/paging_iterator.go\<close>, and the iterator interface
  (\<open>common/collection/iterator.go\<close>) as a locale with its consumer loop. The function that
  loads a page is persistence code and a parameter: from a token to an error, or to the
  items of a page and the token of the next one. \<open>HasNext\<close> loads pages until it finds an
  item, so it may not return; it is a partial function into \<open>option\<close>.
\<close>

type_synonym page_token = string
type_synonym ('v, 'e) pagination_fn = "page_token \<Rightarrow> 'e + 'v list \<times> page_token"

record ('v, 'e) paging =
  pageToken :: page_token
  pageErr :: "'e option"
  pageItems :: "'v list"
  nextPageItemIndex :: nat

datatype paging_panic = NextWithoutHasNext

definition getNextPage :: "('v, 'e) pagination_fn \<Rightarrow> ('v, 'e) paging \<Rightarrow> ('v, 'e) paging" where
  "getNextPage fn it =
     (case fn (pageToken it) of
        Inr (items, token) \<Rightarrow>
          it\<lparr>pageItems := items, pageToken := token, pageErr := None, nextPageItemIndex := 0\<rparr>
      | Inl e \<Rightarrow>
          it\<lparr>pageItems := [], pageToken := [], pageErr := Some e, nextPageItemIndex := 0\<rparr>)"

definition NewPagingIterator :: "('v, 'e) pagination_fn \<Rightarrow> ('v, 'e) paging" where
  "NewPagingIterator fn =
     getNextPage fn \<lparr>pageToken = [], pageErr = None, pageItems = [], nextPageItemIndex = 0\<rparr>"

definition NewPagingIteratorWithToken ::
    "('v, 'e) pagination_fn \<Rightarrow> page_token \<Rightarrow> ('v, 'e) paging" where
  "NewPagingIteratorWithToken fn token =
     getNextPage fn \<lparr>pageToken = token, pageErr = None, pageItems = [], nextPageItemIndex = 0\<rparr>"

partial_function (option) paging_HasNext ::
    "('v, 'e) pagination_fn \<Rightarrow> ('v, 'e) paging \<Rightarrow> (bool \<times> ('v, 'e) paging) option" where
  "paging_HasNext fn it =
     (if pageErr it \<noteq> None then Some (True, it)
      else if nextPageItemIndex it < length (pageItems it) then Some (True, it)
      else if pageToken it \<noteq> [] then paging_HasNext fn (getNextPage fn it)
      else Some (False, it))"

text \<open>\<open>Next\<close>: the outer sum is the panic, the inner one the returned error or item.\<close>

definition paging_Next ::
    "('v, 'e) pagination_fn \<Rightarrow> ('v, 'e) paging \<Rightarrow>
     (paging_panic + ('e + 'v) \<times> ('v, 'e) paging) option" where
  "paging_Next fn it0 =
     (case paging_HasNext fn it0 of
        None \<Rightarrow> None
      | Some (False, _) \<Rightarrow> Some (Inl NextWithoutHasNext)
      | Some (True, it) \<Rightarrow>
          (case pageErr it of
             Some e \<Rightarrow> Some (Inr (Inl e, it\<lparr>pageErr := None\<rparr>))
           | None \<Rightarrow>
               if nextPageItemIndex it < length (pageItems it)
               then Some (Inr (Inr (pageItems it ! nextPageItemIndex it),
                               it\<lparr>nextPageItemIndex := nextPageItemIndex it + 1\<rparr>))
               else Some (Inl NextWithoutHasNext)))"

section \<open>The iterator interface\<close>

text \<open>
  The consumer loop \<open>for it.HasNext() { v, err := it.Next() ... }\<close>, which stops at the first
  error: the items seen, the error if any, and the final iterator.
\<close>

partial_function (option) drain ::
    "('s \<Rightarrow> (bool \<times> 's) option) \<Rightarrow> ('s \<Rightarrow> ('p + ('e + 'v) \<times> 's) option) \<Rightarrow> 's \<Rightarrow> 'v list \<Rightarrow>
     ('v list \<times> 'e option) option" where
  "drain has_next next_item s seen =
     (case has_next s of
        None \<Rightarrow> None
      | Some (again, s1) \<Rightarrow>
          if \<not> again then Some (seen, None)
          else (case next_item s1 of
                  None \<Rightarrow> None
                | Some r \<Rightarrow>
                    (case r of
                       Inl p \<Rightarrow> None
                     | Inr (v, s2) \<Rightarrow>
                         (case v of
                            Inl e \<Rightarrow> Some (seen, Some e)
                          | Inr x \<Rightarrow> drain has_next next_item s2 (seen @ [x])))))"

text \<open>
  What a provider promises: a relation between an iterator and the items it has still to
  deliver, which \<open>HasNext\<close> decides and keeps and \<open>Next\<close> consumes in order.
\<close>

locale item_iterator =
  fixes has_next :: "'s \<Rightarrow> (bool \<times> 's) option"
    and next_item :: "'s \<Rightarrow> ('p + ('e + 'v) \<times> 's) option"
    and pending :: "'s \<Rightarrow> 'v list \<Rightarrow> bool"
  assumes has_next_Nil: "pending s [] \<Longrightarrow> \<exists>s1. has_next s = Some (False, s1)"
    and has_next_Cons: "pending s (x # xs) \<Longrightarrow> \<exists>s1. has_next s = Some (True, s1) \<and> pending s1 (x # xs)"
    and next_item_Cons:
      "pending s (x # xs) \<Longrightarrow> \<exists>s2. next_item s = Some (Inr (Inr x, s2)) \<and> pending s2 xs"
begin

lemma drain_acc: "pending s xs \<Longrightarrow> drain has_next next_item s seen = Some (seen @ xs, None)"
proof (induction xs arbitrary: s seen)
  case Nil
  then show ?case using has_next_Nil [OF Nil] by (auto simp: drain.simps)
next
  case (Cons x xs)
  from has_next_Cons [OF Cons.prems] obtain s1
    where s1: "has_next s = Some (True, s1)" "pending s1 (x # xs)" by blast
  from next_item_Cons [OF s1(2)] obtain s2
    where s2: "next_item s1 = Some (Inr (Inr x, s2))" "pending s2 xs" by blast
  from s1 s2 Cons.IH [OF s2(2)] show ?case by (simp add: drain.simps [of _ _ s])
qed

lemma drain_delivers: "pending s xs \<Longrightarrow> drain has_next next_item s [] = Some (xs, None)"
  by (simp add: drain_acc)

end

section \<open>The paging iterator delivers the pages in order\<close>

text \<open>The page function serves \<open>xs\<close> from a token on: finitely many pages, no error.\<close>

inductive serves :: "('v, 'e) pagination_fn \<Rightarrow> page_token \<Rightarrow> 'v list \<Rightarrow> bool"
  for fn :: "('v, 'e) pagination_fn" where
  last_page: "fn token = Inr (items, []) \<Longrightarrow> serves fn token items"
| more_pages: "fn token = Inr (items, token') \<Longrightarrow> token' \<noteq> [] \<Longrightarrow> serves fn token' rest \<Longrightarrow>
     serves fn token (items @ rest)"

definition paging_pending :: "('v, 'e) pagination_fn \<Rightarrow> ('v, 'e) paging \<Rightarrow> 'v list \<Rightarrow> bool" where
  "paging_pending fn it xs \<longleftrightarrow>
     pageErr it = None \<and>
     (if pageToken it = [] then xs = drop (nextPageItemIndex it) (pageItems it)
      else \<exists>rest. serves fn (pageToken it) rest \<and>
                  xs = drop (nextPageItemIndex it) (pageItems it) @ rest)"

lemma pending_getNextPage:
  assumes "serves fn (pageToken it) rest"
  shows "paging_pending fn (getNextPage fn it) rest"
  using assms by cases (auto simp: paging_pending_def getNextPage_def)

lemma paging_HasNext_pending:
  assumes "serves fn token rest"
  shows "pageToken it = token \<Longrightarrow> token \<noteq> [] \<Longrightarrow> pageErr it = None \<Longrightarrow>
         nextPageItemIndex it \<ge> length (pageItems it) \<Longrightarrow>
         \<exists>it'. paging_HasNext fn it = Some (rest \<noteq> [], it') \<and> paging_pending fn it' rest \<and>
               (rest \<noteq> [] \<longrightarrow> nextPageItemIndex it' < length (pageItems it'))"
  using assms
proof (induction arbitrary: it rule: serves.induct)
  case (last_page token items)
  let ?it = "getNextPage fn it"
  from last_page have g: "pageToken ?it = []" "pageErr ?it = None" "pageItems ?it = items"
      "nextPageItemIndex ?it = 0"
    by (simp_all add: getNextPage_def)
  from last_page.prems have "paging_HasNext fn it = paging_HasNext fn ?it"
    by (simp add: paging_HasNext.simps [of fn it])
  also have "\<dots> = Some (items \<noteq> [], ?it)"
    by (simp add: paging_HasNext.simps [of fn ?it] g)
  finally show ?case by (simp add: paging_pending_def g)
next
  case (more_pages token items token' rest)
  let ?it = "getNextPage fn it"
  from more_pages have g: "pageToken ?it = token'" "pageErr ?it = None" "pageItems ?it = items"
      "nextPageItemIndex ?it = 0"
    by (simp_all add: getNextPage_def)
  from more_pages.prems have step: "paging_HasNext fn it = paging_HasNext fn ?it"
    by (simp add: paging_HasNext.simps [of fn it])
  show ?case
  proof (cases items)
    case Nil
    with more_pages.IH [of ?it] more_pages.hyps g step show ?thesis by simp
  next
    case (Cons x xs)
    with g have "paging_HasNext fn ?it = Some (True, ?it)"
      by (simp add: paging_HasNext.simps [of fn ?it])
    with step g Cons more_pages.hyps show ?thesis
      by (auto simp: paging_pending_def)
  qed
qed

lemma paging_HasNext_decides:
  assumes "paging_pending fn it xs"
  shows "\<exists>it'. paging_HasNext fn it = Some (xs \<noteq> [], it') \<and> paging_pending fn it' xs \<and>
               (xs \<noteq> [] \<longrightarrow> nextPageItemIndex it' < length (pageItems it'))"
proof (cases "nextPageItemIndex it < length (pageItems it) \<or> pageToken it = []")
  case True
  with assms show ?thesis
    by (auto simp: paging_HasNext.simps [of fn it] paging_pending_def split: if_splits)
next
  case False
  with assms obtain rest where "serves fn (pageToken it) rest" "xs = rest" "pageErr it = None"
    by (auto simp: paging_pending_def)
  with paging_HasNext_pending [of fn "pageToken it" rest it] False show ?thesis by auto
qed

lemma paging_pending_step:
  assumes "paging_pending fn it (x # xs)" "nextPageItemIndex it < length (pageItems it)"
  shows "pageItems it ! nextPageItemIndex it = x"
    and "paging_pending fn (it\<lparr>nextPageItemIndex := nextPageItemIndex it + 1\<rparr>) xs"
  using assms Cons_nth_drop_Suc [OF assms(2), symmetric]
  by (auto simp: paging_pending_def split: if_splits)

interpretation paging_iter:
  item_iterator "paging_HasNext fn" "paging_Next fn" "paging_pending fn" for fn
proof
  fix s x xs
  show "paging_pending fn s [] \<Longrightarrow> \<exists>s1. paging_HasNext fn s = Some (False, s1)"
    using paging_HasNext_decides by fastforce
  show "paging_pending fn s (x # xs) \<Longrightarrow>
      \<exists>s1. paging_HasNext fn s = Some (True, s1) \<and> paging_pending fn s1 (x # xs)"
    using paging_HasNext_decides by fastforce
  assume "paging_pending fn s (x # xs)"
  from paging_HasNext_decides [OF this] obtain s1
    where s1: "paging_HasNext fn s = Some (True, s1)" "paging_pending fn s1 (x # xs)"
      "nextPageItemIndex s1 < length (pageItems s1)" by auto
  from s1(2) have "pageErr s1 = None" by (simp add: paging_pending_def)
  with s1 paging_pending_step [OF s1(2,3)]
  show "\<exists>s2. paging_Next fn s = Some (Inr (Inr x, s2)) \<and> paging_pending fn s2 xs"
    by (simp add: paging_Next_def)
qed

text \<open>
  Where the page function serves \<open>xs\<close> in finitely many pages, empty ones included, the
  consumer loop over a new paging iterator ends and sees exactly \<open>xs\<close>, in order.
\<close>

theorem paging_delivers_all_pages:
  assumes "serves fn [] xs"
  shows "drain (paging_HasNext fn) (paging_Next fn) (NewPagingIterator fn) [] = Some (xs, None)"
proof (rule paging_iter.drain_delivers)
  show "paging_pending fn (NewPagingIterator fn) xs"
    using assms unfolding NewPagingIterator_def by (intro pending_getNextPage) simp
qed

theorem paging_delivers_all_pages_witness:
  "let fn = (\<lambda>t. if t = [] then Inr ([1, 2], ''p'') else if t = ''p'' then Inr ([], ''q'')
                 else Inr ([3], [])) :: (nat, unit) pagination_fn
   in drain (paging_HasNext fn) (paging_Next fn) (NewPagingIterator fn) [] = Some ([1, 2, 3], None)"
proof -
  let ?fn = "(\<lambda>t. if t = [] then Inr ([1, 2], ''p'') else if t = ''p'' then Inr ([], ''q'')
                 else Inr ([3], [])) :: (nat, unit) pagination_fn"
  have "serves ?fn ''q'' [3]" by (rule last_page) simp
  then have "serves ?fn ''p'' ([] @ [3])" by (rule more_pages [rotated 2]) simp_all
  then have "serves ?fn [] ([1, 2] @ ([] @ [3]))" by (rule more_pages [rotated 2]) simp_all
  then have "serves ?fn [] [1, 2, 3]" by simp
  from paging_delivers_all_pages [OF this] show ?thesis unfolding Let_def .
qed

text \<open>
  A page that fails is reported once: \<open>Next\<close> returns the error, and the iterator then
  claims to be exhausted, so its consumer has to restart from the range it has not yet seen.
\<close>

theorem paging_error_exhausts:
  assumes "fn [] = Inl e"
  shows "\<exists>it. paging_HasNext fn (NewPagingIterator fn) = Some (True, NewPagingIterator fn) \<and>
              paging_Next fn (NewPagingIterator fn) = Some (Inr (Inl e, it)) \<and>
              paging_HasNext fn it = Some (False, it)"
proof -
  let ?n = "NewPagingIterator fn"
  have n: "pageErr ?n = Some e" "pageItems ?n = []" "pageToken ?n = []" "nextPageItemIndex ?n = 0"
    using assms by (simp_all add: NewPagingIterator_def getNextPage_def)
  show ?thesis
    by (intro exI [of _ "?n\<lparr>pageErr := None\<rparr>"])
      (simp add: paging_Next_def paging_HasNext.simps [of fn ?n]
        paging_HasNext.simps [of fn "?n\<lparr>pageErr := None\<rparr>"] n)
qed

theorem paging_error_exhausts_witness:
  "let fn = (\<lambda>_. Inl ''io'') :: (nat, string) pagination_fn
   in \<exists>it. paging_HasNext fn (NewPagingIterator fn) = Some (True, NewPagingIterator fn) \<and>
           paging_Next fn (NewPagingIterator fn) = Some (Inr (Inl ''io'', it)) \<and>
           paging_HasNext fn it = Some (False, it)"
  unfolding Let_def by (rule paging_error_exhausts) simp

end
