(* ===== verification/QueueIterator.thy ===== *)
theory QueueIterator
  imports TaskRange PagingIterator
begin

text \<open>
  The task iterator of a queue slice: \<open>service/history/queues/iterator.go\<close>. It wraps a paging
  iterator over the tasks of its remaining range, created on first use, and moves the range's
  minimum past every task it delivers. The pagination function provider is persistence code
  and a parameter; the closure \<open>paginationFnProvider(range)\<close> an iterator holds is represented
  by the range it was created for.
\<close>

type_synonym 'e fn_provider = "task_range \<Rightarrow> (task, 'e) pagination_fn"

record 'e queue_iterator =
  remainingRange :: task_range
  pagingIterator :: "(task_range \<times> (task, 'e) paging) option"

definition NewIterator :: "task_range \<Rightarrow> 'e queue_iterator" where
  "NewIterator r = \<lparr>remainingRange = r, pagingIterator = None\<rparr>"

definition ensure_paging :: "'e fn_provider \<Rightarrow> 'e queue_iterator \<Rightarrow> task_range \<times> (task, 'e) paging" where
  "ensure_paging provider i =
     (case pagingIterator i of
        None \<Rightarrow> (remainingRange i, NewPagingIterator (provider (remainingRange i)))
      | Some p \<Rightarrow> p)"

definition Iter_HasNext ::
    "'e fn_provider \<Rightarrow> 'e queue_iterator \<Rightarrow> (bool \<times> 'e queue_iterator) option" where
  "Iter_HasNext provider i =
     (let (r, p) = ensure_paging provider i
      in case paging_HasNext (provider r) p of
           None \<Rightarrow> None
         | Some (b, p') \<Rightarrow> Some (b, i\<lparr>pagingIterator := Some (r, p')\<rparr>))"

definition Iter_Next ::
    "'e fn_provider \<Rightarrow> 'e queue_iterator \<Rightarrow> (queue_panic + ('e + task) \<times> 'e queue_iterator) option" where
  "Iter_Next provider i0 =
     (case Iter_HasNext provider i0 of
        None \<Rightarrow> None
      | Some (False, _) \<Rightarrow> Some (Inl NoNextItem)
      | Some (True, i) \<Rightarrow>
          (let (r, p) = ensure_paging provider i
           in case paging_Next (provider r) p of
                None \<Rightarrow> None
              | Some (Inl _) \<Rightarrow> Some (Inl NoNextItem)
              | Some (Inr (Inl e, p')) \<Rightarrow>
                  Some (Inr (Inl e, i\<lparr>pagingIterator := Some (r, p')\<rparr>))
              | Some (Inr (Inr t, p')) \<Rightarrow>
                  (case Next (GetKey t) of
                     Inl panic \<Rightarrow> Some (Inl (KeyOverflow panic))
                   | Inr k \<Rightarrow>
                       Some (Inr (Inr t,
                         i\<lparr>pagingIterator := Some (r, p'),
                           remainingRange := (remainingRange i)\<lparr>InclusiveMin := k\<rparr>\<rparr>)))))"

definition Iter_Range :: "'e queue_iterator \<Rightarrow> task_range" where
  "Iter_Range i = remainingRange i"

definition Iter_CanSplit :: "'e queue_iterator \<Rightarrow> task_key \<Rightarrow> bool" where
  "Iter_CanSplit i key \<longleftrightarrow> Range_CanSplit (remainingRange i) key"

definition Iter_Split ::
    "'e queue_iterator \<Rightarrow> task_key \<Rightarrow> queue_panic + 'e queue_iterator \<times> 'e queue_iterator" where
  "Iter_Split i key =
     (if \<not> Iter_CanSplit i key then Inl UnableToSplitIterator
      else bind_result (Range_Split (remainingRange i) key) (\<lambda>(leftRange, rightRange).
           Inr (NewIterator leftRange, NewIterator rightRange)))"

definition Iter_CanMerge :: "'e queue_iterator \<Rightarrow> 'e queue_iterator \<Rightarrow> bool" where
  "Iter_CanMerge i iter \<longleftrightarrow> Range_CanMerge (remainingRange i) (Iter_Range iter)"

definition Iter_Merge ::
    "'e queue_iterator \<Rightarrow> 'e queue_iterator \<Rightarrow> queue_panic + 'e queue_iterator" where
  "Iter_Merge i iter =
     (if \<not> Iter_CanMerge i iter then Inl UnableToMergeIterator
      else bind_result (Range_Merge (remainingRange i) (Iter_Range iter)) (\<lambda>r.
           Inr (NewIterator r)))"

definition Remaining :: "'e queue_iterator \<Rightarrow> 'e queue_iterator" where
  "Remaining i = NewIterator (remainingRange i)"

section \<open>An iterator delivers the tasks of its range, and can be restarted\<close>

text \<open>
  The store behind the provider: the tasks in key order, each with a valid key below the
  maximum; the pagination function of a range serves the tasks of that range.
\<close>

definition store_ok :: "task list \<Rightarrow> bool" where
  "store_ok db \<longleftrightarrow> sorted_wrt (<) (map GetKey db) \<and>
                   list_all (\<lambda>t. valid_key (GetKey t) \<and> GetKey t \<noteq> MaximumKey) db"

definition in_range :: "task_range \<Rightarrow> task list \<Rightarrow> task list" where
  "in_range r db = filter (\<lambda>t. ContainsKey r (GetKey t)) db"

definition backed :: "'e fn_provider \<Rightarrow> task list \<Rightarrow> bool" where
  "backed provider db \<longleftrightarrow> store_ok db \<and> (\<forall>r. serves (provider r) [] (in_range r db))"

definition iter_pending ::
    "'e fn_provider \<Rightarrow> task list \<Rightarrow> 'e queue_iterator \<Rightarrow> task list \<Rightarrow> bool" where
  "iter_pending provider db i xs \<longleftrightarrow>
     backed provider db \<and> xs = in_range (remainingRange i) db \<and>
     (case pagingIterator i of None \<Rightarrow> True | Some (r, p) \<Rightarrow> paging_pending (provider r) p xs)"

lemma iter_pending_new:
  "backed provider db \<Longrightarrow> iter_pending provider db (NewIterator r) (in_range r db)"
  by (simp add: iter_pending_def NewIterator_def)

lemma ensure_paging_pending:
  assumes "iter_pending provider db i xs" "ensure_paging provider i = (r, p)"
  shows "paging_pending (provider r) p xs"
proof (cases "pagingIterator i")
  case None
  with assms have "r = remainingRange i" "p = NewPagingIterator (provider r)"
    and s: "serves (provider r) [] xs"
    by (auto simp: ensure_paging_def iter_pending_def backed_def)
  then show ?thesis
    unfolding NewPagingIterator_def by (auto intro: pending_getNextPage)
next
  case (Some q)
  with assms show ?thesis by (auto simp: ensure_paging_def iter_pending_def)
qed

lemma in_range_tail:
  assumes ok: "store_ok db" and xs: "t # ts = in_range r db" and k: "Next (GetKey t) = Inr k"
  shows "ts = in_range (r\<lparr>InclusiveMin := k\<rparr>) db"
proof -
  have "t \<in> set (in_range r db)"
    unfolding xs [symmetric] by simp
  then have t: "t \<in> set db" "InclusiveMin r \<le> GetKey t"
    by (simp_all add: in_range_def range_simps)
  with ok have "valid_key (GetKey t)" "GetKey t \<noteq> MaximumKey"
    by (auto simp: store_ok_def list_all_iff)
  from Next_is_successor_raw [OF this] k
  have k_gt: "GetKey t < k" and k_least: "\<And>x. valid_key x \<Longrightarrow> GetKey t < x \<Longrightarrow> k \<le> x"
    by auto
  have sorted: "sorted_wrt (<) (map GetKey (t # ts))"
    using ok unfolding xs in_range_def store_ok_def by (simp add: sorted_wrt_map sorted_wrt_filter)
  have "in_range (r\<lparr>InclusiveMin := k\<rparr>) db
      = filter (\<lambda>u. GetKey t < GetKey u) (in_range r db)"
  proof -
    have "ContainsKey (r\<lparr>InclusiveMin := k\<rparr>) (GetKey u) \<longleftrightarrow>
          GetKey t < GetKey u \<and> ContainsKey r (GetKey u)" if "u \<in> set db" for u
      using ok that k_gt k_least [of "GetKey u"] t(2)
      by (auto simp: store_ok_def list_all_iff range_simps)
    then show ?thesis unfolding in_range_def filter_filter by (intro filter_cong) auto
  qed
  also have "\<dots> = ts"
    using sorted unfolding xs [symmetric] by (auto simp: filter_id_conv)
  finally show ?thesis by simp
qed

lemma Iter_HasNext_decides:
  assumes "iter_pending provider db i xs"
  shows "\<exists>i'. Iter_HasNext provider i = Some (xs \<noteq> [], i') \<and> iter_pending provider db i' xs \<and>
              remainingRange i' = remainingRange i"
proof -
  obtain r p where rp: "ensure_paging provider i = (r, p)" by fastforce
  from paging_HasNext_decides [OF ensure_paging_pending [OF assms rp]] obtain p'
    where "paging_HasNext (provider r) p = Some (xs \<noteq> [], p')" "paging_pending (provider r) p' xs"
    by blast
  with rp assms show ?thesis
    by (auto simp: Iter_HasNext_def iter_pending_def)
qed

lemma Iter_Next_delivers:
  assumes "iter_pending provider db i (t # ts)"
  shows "\<exists>i' k. Next (GetKey t) = Inr k \<and> Iter_Next provider i = Some (Inr (Inr t, i')) \<and>
                remainingRange i' = (remainingRange i)\<lparr>InclusiveMin := k\<rparr> \<and>
                iter_pending provider db i' ts"
proof -
  from Iter_HasNext_decides [OF assms] obtain i1
    where i1: "Iter_HasNext provider i = Some (True, i1)" "iter_pending provider db i1 (t # ts)"
      "remainingRange i1 = remainingRange i" by auto
  obtain r p where rp: "ensure_paging provider i1 = (r, p)" by fastforce
  from paging_iter.next_item_Cons [OF ensure_paging_pending [OF i1(2) rp]] obtain p'
    where p': "paging_Next (provider r) p = Some (Inr (Inr t, p'))" "paging_pending (provider r) p' ts"
    by blast
  from assms have ok: "store_ok db" and xs: "t # ts = in_range (remainingRange i) db"
    by (auto simp: iter_pending_def backed_def)
  have "t \<in> set db" using xs unfolding in_range_def by (metis filter_is_subset in_mono list.set_intros(1))
  with ok have "valid_key (GetKey t)" "GetKey t \<noteq> MaximumKey"
    by (auto simp: store_ok_def list_all_iff)
  from Next_is_successor_raw [OF this] obtain k where k: "Next (GetKey t) = Inr k" by blast
  from i1 rp p' k assms in_range_tail [OF ok xs k] show ?thesis
    by (auto simp: Iter_Next_def iter_pending_def)
qed

interpretation queue_iter:
  item_iterator "Iter_HasNext provider" "Iter_Next provider" "iter_pending provider db"
  for provider db
proof
  fix s x xs
  show "iter_pending provider db s [] \<Longrightarrow> \<exists>s1. Iter_HasNext provider s = Some (False, s1)"
    using Iter_HasNext_decides by fastforce
  show "iter_pending provider db s (x # xs) \<Longrightarrow>
      \<exists>s1. Iter_HasNext provider s = Some (True, s1) \<and> iter_pending provider db s1 (x # xs)"
    using Iter_HasNext_decides by fastforce
  show "iter_pending provider db s (x # xs) \<Longrightarrow>
      \<exists>s2. Iter_Next provider s = Some (Inr (Inr x, s2)) \<and> iter_pending provider db s2 xs"
    using Iter_Next_delivers by fastforce
qed

text \<open>
  Over a store in key order, an iterator that has delivered a task can be replaced by
  \<open>Remaining\<close> at that moment: the restarted iterator delivers exactly the tasks after it,
  none lost and none repeated.
\<close>

theorem Remaining_resumes:
  assumes "backed provider db" and "in_range r db = t # ts"
  shows "\<exists>i'. Iter_Next provider (NewIterator r) = Some (Inr (Inr t, i')) \<and>
              drain (Iter_HasNext provider) (Iter_Next provider) (Remaining i') [] = Some (ts, None)"
proof -
  from iter_pending_new [OF assms(1), of r] assms(2)
  have "iter_pending provider db (NewIterator r) (t # ts)" by simp
  from Iter_Next_delivers [OF this] obtain i' where
    i': "Iter_Next provider (NewIterator r) = Some (Inr (Inr t, i'))" "iter_pending provider db i' ts"
    by blast
  from i'(2) have "ts = in_range (remainingRange i') db" by (simp add: iter_pending_def)
  with iter_pending_new [OF assms(1), of "remainingRange i'"]
  have "iter_pending provider db (Remaining i') ts" by (simp add: Remaining_def)
  with i'(1) queue_iter.drain_delivers show ?thesis by blast
qed

lemma in_range_split:
  assumes "store_ok db" "valid_range r" "Range_Split r k = Inr (left, right)"
  shows "in_range left db @ in_range right db = in_range r db"
proof -
  from assms(3) have can: "Range_CanSplit r k" by (auto simp: Range_Split_def split: if_splits)
  from Range_Split_eq [OF assms(2) can] assms(3)
  have lr: "left = \<lparr>InclusiveMin = InclusiveMin r, ExclusiveMax = k\<rparr>"
    "right = \<lparr>InclusiveMin = k, ExclusiveMax = ExclusiveMax r\<rparr>" by auto
  have "sorted_wrt (<) (map GetKey db) \<Longrightarrow> ?thesis"
    using can unfolding lr in_range_def Range_CanSplit_iff [OF assms(2)]
  proof (induction db)
    case (Cons t db)
    have "filter (\<lambda>t. ContainsKey \<lparr>InclusiveMin = InclusiveMin r, ExclusiveMax = k\<rparr> (GetKey t)) db = []"
      if "k \<le> GetKey t"
      using Cons.prems(1) that by (auto simp: filter_empty_conv range_simps)
    with Cons show ?case by (auto simp: range_simps)
  qed simp
  then show ?thesis using assms(1) by (simp add: store_ok_def)
qed

text \<open>
  Splitting an iterator keeps its work: the two halves together deliver the tasks the
  iterator had pending, in order.
\<close>

theorem Iter_Split_delivers:
  assumes "iter_pending provider db i xs" and "valid_range (remainingRange i)"
    and "Iter_CanSplit i k"
  shows "\<exists>l r ls rs. Iter_Split i k = Inr (l, r) \<and> xs = ls @ rs \<and>
           drain (Iter_HasNext provider) (Iter_Next provider) l [] = Some (ls, None) \<and>
           drain (Iter_HasNext provider) (Iter_Next provider) r [] = Some (rs, None)"
proof -
  let ?left = "\<lparr>InclusiveMin = InclusiveMin (remainingRange i), ExclusiveMax = k\<rparr>"
  let ?right = "\<lparr>InclusiveMin = k, ExclusiveMax = ExclusiveMax (remainingRange i)\<rparr>"
  from assms(3) have can: "Range_CanSplit (remainingRange i) k" by (simp add: Iter_CanSplit_def)
  note sp = Range_Split_eq [OF assms(2) can]
  from assms(1) have bk: "backed provider db" and xs: "xs = in_range (remainingRange i) db"
    by (simp_all add: iter_pending_def)
  from bk have "store_ok db" by (simp add: backed_def)
  from in_range_split [OF this assms(2) sp] xs
  have "xs = in_range ?left db @ in_range ?right db" by simp
  moreover have "Iter_Split i k = Inr (NewIterator ?left, NewIterator ?right)"
    using assms(3) by (simp add: Iter_Split_def sp)
  moreover note queue_iter.drain_delivers [OF iter_pending_new [OF bk]]
  ultimately show ?thesis by blast
qed

text \<open>A provider that serves a store in one page, and a small store, for the witnesses.\<close>

definition one_page :: "task list \<Rightarrow> 'e fn_provider" where
  "one_page db r token = Inr (in_range r db, [])"

definition sample_task :: "int \<Rightarrow> string \<Rightarrow> task" where
  "sample_task n ns = \<lparr>GetKey = Key 0 n, GetNamespaceID = ns, GetType = 1, GetDestination = None,
                       StateMachineTaskType = None\<rparr>"

lemma one_page_backed: "store_ok db \<Longrightarrow> backed (one_page db) db"
  by (auto simp: backed_def one_page_def intro: last_page)

lemma sample_store_ok: "store_ok [sample_task 1 ''a'', sample_task 4 ''b'']"
  by (simp add: store_ok_def sample_task_def key_less_iff MaximumKey_def NewKey_def MaxInt64_def)

theorem Remaining_resumes_witness:
  "let db = [sample_task 1 ''a'', sample_task 4 ''b''];
       r = \<lparr>InclusiveMin = Key 0 0, ExclusiveMax = Key 0 9\<rparr>;
       p = one_page db :: unit fn_provider
   in \<exists>i'. Iter_Next p (NewIterator r) = Some (Inr (Inr (sample_task 1 ''a''), i')) \<and>
           drain (Iter_HasNext p) (Iter_Next p) (Remaining i') [] = Some ([sample_task 4 ''b''], None)"
  unfolding Let_def
  by (rule Remaining_resumes [OF one_page_backed [OF sample_store_ok]])
    (simp add: in_range_def range_simps sample_task_def key_le_iff key_less_iff)

theorem Iter_Split_delivers_witness:
  "let db = [sample_task 1 ''a'', sample_task 4 ''b''];
       p = one_page db :: unit fn_provider;
       i = NewIterator \<lparr>InclusiveMin = Key 0 0, ExclusiveMax = Key 0 9\<rparr>
   in \<exists>l r ls rs. Iter_Split i (Key 0 3) = Inr (l, r) \<and> db = ls @ rs \<and>
        drain (Iter_HasNext p) (Iter_Next p) l [] = Some (ls, None) \<and>
        drain (Iter_HasNext p) (Iter_Next p) r [] = Some (rs, None)"
proof -
  let ?db = "[sample_task 1 ''a'', sample_task 4 ''b'']"
  let ?r = "\<lparr>InclusiveMin = Key 0 0, ExclusiveMax = Key 0 9\<rparr>"
  have "in_range ?r ?db = ?db"
    by (simp add: in_range_def range_simps sample_task_def key_le_iff key_less_iff)
  with iter_pending_new [OF one_page_backed [OF sample_store_ok], of ?r]
  have "iter_pending (one_page ?db :: unit fn_provider) ?db (NewIterator ?r) ?db" by simp
  from Iter_Split_delivers [OF this, of "Key 0 3"] show ?thesis
    by (simp add: NewIterator_def valid_range_def Iter_CanSplit_def Range_CanSplit_def range_simps
        key_le_iff key_less_iff MaxInt64_def)
qed

end
