(* ===== verification/ExecutableTracker.thy ===== *)
theory ExecutableTracker
  imports TaskRange
begin

text \<open>
  Tracking of loaded tasks: \<open>service/history/queues/tracker.go\<close> and \<open>grouper.go\<close>. The two
  maps of the tracker are association lists; every loop over a map runs over the list as it
  was when the loop started, in list order. The counters of \<open>pendingPerKey\<close> are Go ints; they
  count at most the pending executables and never leave the \<open>int64\<close> range.
\<close>

section \<open>Executables and groupers\<close>

datatype task_state =
    TaskStatePending | TaskStateAborted | TaskStateCancelled | TaskStateAcked | TaskStateNacked

record executable =
  GetTask :: task
  State :: task_state

definition exec_key :: "executable \<Rightarrow> task_key" where
  "exec_key e = GetKey (GetTask e)"

definition Cancel :: "executable \<Rightarrow> executable" where
  "Cancel e = (if State e = TaskStatePending then e\<lparr>State := TaskStateCancelled\<rparr> else e)"

text \<open>The group key is an \<open>any\<close>: a namespace ID or an outbound group.\<close>

datatype grouper = GrouperNamespaceID | GrouperStateMachineNamespaceIDAndDestination

datatype group_key = NamespaceKey string | OutboundKey task_group

definition KeyTyped :: "task \<Rightarrow> task_group" where
  "KeyTyped t =
     (let dest = (case GetDestination t of Some d \<Rightarrow> d | None \<Rightarrow> '''');
          smt = (case StateMachineTaskType t of Some s \<Rightarrow> s | None \<Rightarrow> '''')
      in \<lparr>TaskGroup = smt, NamespaceID = GetNamespaceID t, Destination = dest\<rparr>)"

fun GroupKey :: "grouper \<Rightarrow> task \<Rightarrow> group_key" where
  "GroupKey GrouperNamespaceID t = NamespaceKey (GetNamespaceID t)"
| "GroupKey GrouperStateMachineNamespaceIDAndDestination t = OutboundKey (KeyTyped t)"

text \<open>The type assertions on the keys panic on a key of the other kind.\<close>

fun namespace_ids :: "group_key list \<Rightarrow> queue_panic + string list" where
  "namespace_ids [] = Inr []"
| "namespace_ids (NamespaceKey n # ks) = bind_result (namespace_ids ks) (\<lambda>ns. Inr (n # ns))"
| "namespace_ids (OutboundKey _ # ks) = Inl GroupKeyType"

fun outbound_groups :: "group_key list \<Rightarrow> queue_panic + task_group list" where
  "outbound_groups [] = Inr []"
| "outbound_groups (OutboundKey g # ks) = bind_result (outbound_groups ks) (\<lambda>gs. Inr (g # gs))"
| "outbound_groups (NamespaceKey _ # ks) = Inl GroupKeyType"

fun GroupPredicate :: "grouper \<Rightarrow> group_key list \<Rightarrow> queue_panic + predicate" where
  "GroupPredicate GrouperNamespaceID keys =
     bind_result (namespace_ids keys) (\<lambda>ids. Inr (NewNamespacePredicate ids))"
| "GroupPredicate GrouperStateMachineNamespaceIDAndDestination keys =
     (if keys = [] then Inr EmptyImpl
      else bind_result (outbound_groups keys) (\<lambda>gs. Inr (NewOutboundTaskPredicate gs)))"

section \<open>The tracker\<close>

type_synonym pending_map = "(task_key \<times> executable) list"
type_synonym count_map = "(group_key \<times> int) list"

record tracker =
  pendingExecutables :: pending_map
  trackerGrouper :: grouper
  pendingPerKey :: count_map

definition newExecutableTracker :: "grouper \<Rightarrow> tracker" where
  "newExecutableTracker g = \<lparr>pendingExecutables = [], trackerGrouper = g, pendingPerKey = []\<rparr>"

text \<open>\<open>m[key] += d\<close>: a missing key counts as zero.\<close>

definition count_at :: "count_map \<Rightarrow> group_key \<Rightarrow> int" where
  "count_at m k = (case map_of m k of None \<Rightarrow> 0 | Some n \<Rightarrow> n)"

definition bump :: "count_map \<Rightarrow> group_key \<Rightarrow> int \<Rightarrow> count_map" where
  "bump m k d = AList.update k (count_at m k + d) m"

definition tracker_bump :: "tracker \<Rightarrow> executable \<Rightarrow> int \<Rightarrow> tracker" where
  "tracker_bump t e d =
     t\<lparr>pendingPerKey := bump (pendingPerKey t) (GroupKey (trackerGrouper t) (GetTask e)) d\<rparr>"

fun split_loop :: "scope \<Rightarrow> scope \<Rightarrow> pending_map \<Rightarrow> tracker \<Rightarrow> tracker \<Rightarrow> queue_panic + tracker \<times> tracker" where
  "split_loop thisScope thatScope [] t that = Inr (t, that)"
| "split_loop thisScope thatScope ((key, executable) # rest) t that =
     (if Scope_Contains thisScope (GetTask executable) then
        split_loop thisScope thatScope rest t that
      else if \<not> Scope_Contains thatScope (GetTask executable) then Inl TaskInNeitherScope
      else
        split_loop thisScope thatScope rest
          (tracker_bump (t\<lparr>pendingExecutables := AList.delete key (pendingExecutables t)\<rparr>) executable (-1))
          (tracker_bump (that\<lparr>pendingExecutables := AList.update key executable (pendingExecutables that)\<rparr>)
             executable 1))"

definition tracker_split :: "tracker \<Rightarrow> scope \<Rightarrow> scope \<Rightarrow> queue_panic + tracker \<times> tracker" where
  "tracker_split t thisScope thatScope =
     split_loop thisScope thatScope (pendingExecutables t) t (newExecutableTracker (trackerGrouper t))"

fun merge_loop :: "pending_map \<Rightarrow> tracker \<Rightarrow> tracker" where
  "merge_loop [] t = t"
| "merge_loop ((key, executable) # rest) t =
     merge_loop rest
       (tracker_bump (t\<lparr>pendingExecutables := AList.update key executable (pendingExecutables t)\<rparr>)
          executable 1)"

text \<open>The smaller map is added to the larger one.\<close>

definition tracker_merge :: "tracker \<Rightarrow> tracker \<Rightarrow> tracker" where
  "tracker_merge t incoming =
     (if length (pendingExecutables t) < length (pendingExecutables incoming)
      then merge_loop (pendingExecutables t)
             (t\<lparr>pendingExecutables := pendingExecutables incoming,
                pendingPerKey := pendingPerKey incoming\<rparr>)
      else merge_loop (pendingExecutables incoming) t)"

definition tracker_add :: "tracker \<Rightarrow> executable \<Rightarrow> tracker" where
  "tracker_add t e =
     tracker_bump (t\<lparr>pendingExecutables := AList.update (exec_key e) e (pendingExecutables t)\<rparr>) e 1"

fun shrink_loop :: "pending_map \<Rightarrow> tracker \<Rightarrow> task_key \<Rightarrow> int \<Rightarrow> tracker \<times> task_key \<times> int" where
  "shrink_loop [] t minKey completed = (t, minKey, completed)"
| "shrink_loop ((key, executable) # rest) t minKey completed =
     (if State executable = TaskStateAcked then
        shrink_loop rest
          ((tracker_bump t executable (-1))
             \<lparr>pendingExecutables := AList.delete key (pendingExecutables t)\<rparr>)
          minKey (completed + 1)
      else shrink_loop rest t (MinKey minKey key) completed)"

definition tracker_shrink :: "tracker \<Rightarrow> tracker \<times> task_key \<times> int" where
  "tracker_shrink t =
     (let (t', minPendingTaskKey, tasksCompleted) =
            shrink_loop (pendingExecutables t) t MaximumKey 0
      in (t'\<lparr>pendingPerKey := filter (\<lambda>(_, n). n \<noteq> 0) (pendingPerKey t')\<rparr>,
          minPendingTaskKey, tasksCompleted))"

text \<open>\<open>clear\<close> cancels the executables and forgets them; the cancelled ones are returned too.\<close>

definition tracker_clear :: "tracker \<Rightarrow> tracker \<times> executable list" where
  "tracker_clear t =
     (newExecutableTracker (trackerGrouper t), map (Cancel \<circ> snd) (pendingExecutables t))"

section \<open>The counters count the pending executables\<close>

definition group_of :: "tracker \<Rightarrow> executable \<Rightarrow> group_key" where
  "group_of t e = GroupKey (trackerGrouper t) (GetTask e)"

definition pending_in :: "grouper \<Rightarrow> pending_map \<Rightarrow> group_key \<Rightarrow> int" where
  "pending_in g m k = int (length (filter (\<lambda>(_, e). GroupKey g (GetTask e) = k) m))"

definition keyed :: "pending_map \<Rightarrow> bool" where
  "keyed m \<longleftrightarrow> go_map m \<and> list_all (\<lambda>(k, e). exec_key e = k) m"

definition tracker_inv :: "tracker \<Rightarrow> bool" where
  "tracker_inv t \<longleftrightarrow> keyed (pendingExecutables t) \<and> go_map (pendingPerKey t) \<and>
     (\<forall>k. count_at (pendingPerKey t) k = pending_in (trackerGrouper t) (pendingExecutables t) k)"

text \<open>
  A weaker invariant that survives every operation, also where an executable is tracked twice:
  the counters never undercount, and their keys are of the kind the grouper produces.
\<close>

fun key_of_grouper :: "grouper \<Rightarrow> group_key \<Rightarrow> bool" where
  "key_of_grouper g (NamespaceKey _) \<longleftrightarrow> g = GrouperNamespaceID"
| "key_of_grouper g (OutboundKey _) \<longleftrightarrow> g = GrouperStateMachineNamespaceIDAndDestination"

lemma key_of_grouper_GroupKey [simp]: "key_of_grouper g (GroupKey g t)"
  by (cases g) simp_all

definition tracker_safe :: "tracker \<Rightarrow> bool" where
  "tracker_safe t \<longleftrightarrow> keyed (pendingExecutables t) \<and> go_map (pendingPerKey t) \<and>
     (\<forall>k. pending_in (trackerGrouper t) (pendingExecutables t) k \<le> count_at (pendingPerKey t) k) \<and>
     (\<forall>k \<in> fst ` set (pendingPerKey t). key_of_grouper (trackerGrouper t) k)"

lemma keys_bump [simp]: "fst ` set (bump m k d) = insert k (fst ` set m)"
  by (simp add: bump_def dom_update)

lemma count_at_bump [simp]:
  "count_at (bump m k d) k' = count_at m k' + (if k' = k then d else 0)"
  by (simp add: count_at_def bump_def update_conv' split: option.splits)

lemma go_map_bump [inv_intros]: "go_map m \<Longrightarrow> go_map (bump m k d)"
  unfolding bump_def by (rule go_map_update)

lemma tracker_bump_sel [simp]:
  "pendingExecutables (tracker_bump t e d) = pendingExecutables t"
  "trackerGrouper (tracker_bump t e d) = trackerGrouper t"
  "pendingPerKey (tracker_bump t e d) = bump (pendingPerKey t) (group_of t e) d"
  by (simp_all add: tracker_bump_def group_of_def)

lemma pending_in_simps [simp]:
  "pending_in g [] k = 0"
  "pending_in g (p # m) k = (if GroupKey g (GetTask (snd p)) = k then 1 else 0) + pending_in g m k"
  "pending_in g (m @ m') k = pending_in g m k + pending_in g m' k"
  by (auto simp: pending_in_def split: prod.splits)

lemma pending_in_nonneg: "0 \<le> pending_in g m k"
  by (simp add: pending_in_def)

lemma trackerGrouper_new [simp]: "trackerGrouper (newExecutableTracker g) = g"
  by (simp add: newExecutableTracker_def)

lemma tracker_inv_new [inv_intros]: "tracker_inv (newExecutableTracker g)"
  by (simp add: tracker_inv_def newExecutableTracker_def keyed_def count_at_def)

lemma pending_in_delete:
  "go_map m \<Longrightarrow> (k, e) \<in> set m \<Longrightarrow>
   pending_in g (AList.delete k m) c = pending_in g m c - (if GroupKey g (GetTask e) = c then 1 else 0)"
proof (induction m)
  case (Cons p m)
  show ?case
  proof (cases "fst p = k")
    case True
    with Cons.prems have "p = (k, e)" "k \<notin> fst ` set m" by (auto simp: rev_image_eqI)
    then show ?thesis by (simp add: delete_fresh)
  next
    case False
    with Cons show ?thesis by (cases p) auto
  qed
qed simp

lemma pending_in_update_fresh:
  "k \<notin> fst ` set m \<Longrightarrow>
   pending_in g (AList.update k e m) c = pending_in g m c + (if GroupKey g (GetTask e) = c then 1 else 0)"
  by (simp add: update_fresh)

lemma keyed_go_map: "keyed m \<Longrightarrow> go_map m"
  by (simp add: keyed_def)

lemma keyed_delete: "keyed m \<Longrightarrow> keyed (AList.delete k m)"
  by (auto simp: keyed_def list_all_iff AList.delete_eq intro: go_map_filter)

lemma keyed_update: "keyed m \<Longrightarrow> exec_key e = k \<Longrightarrow> keyed (AList.update k e m)"
  by (auto simp: keyed_def list_all_iff set_update_distinct intro: go_map_update)

text \<open>The tracker as a finite map from keys to executables.\<close>

definition tracked :: "tracker \<Rightarrow> task_key \<Rightarrow> executable option" where
  "tracked t = map_of (pendingExecutables t)"

lemma tracked_bump [simp]: "tracked (tracker_bump t e d) = tracked t"
  by (simp add: tracked_def)

lemma tracked_upd [simp]:
  "tracked (t\<lparr>pendingExecutables := AList.update k e (pendingExecutables t)\<rparr>) = (tracked t)(k \<mapsto> e)"
  "tracked (t\<lparr>pendingExecutables := AList.delete k (pendingExecutables t)\<rparr>) = (tracked t)(k := None)"
  "tracked (t\<lparr>pendingPerKey := c\<rparr>) = tracked t"
  "tracked (newExecutableTracker g) = Map.empty"
  by (simp_all add: tracked_def update_conv' delete_conv' newExecutableTracker_def)

lemma tracked_in_set: "tracked t k = Some e \<Longrightarrow> (k, e) \<in> set (pendingExecutables t)"
  unfolding tracked_def by (rule map_of_SomeD)

lemma tracked_None_iff: "tracked t k = None \<longleftrightarrow> k \<notin> fst ` set (pendingExecutables t)"
  unfolding tracked_def by (rule map_of_eq_None_iff)

lemma tracked_key: "keyed (pendingExecutables t) \<Longrightarrow> tracked t k = Some e \<Longrightarrow> exec_key e = k"
  using tracked_in_set [of t k e] by (auto simp: keyed_def list_all_iff)

section \<open>Splitting\<close>

text \<open>What the loop leaves in the first tracker and puts into the second.\<close>

definition stay :: "scope \<Rightarrow> pending_map \<Rightarrow> (task_key \<Rightarrow> executable option) \<Rightarrow> task_key \<Rightarrow> executable option" where
  "stay A m f k = (case map_of m k of
     Some e \<Rightarrow> if Scope_Contains A (GetTask e) then Some e else None | None \<Rightarrow> f k)"

definition move :: "scope \<Rightarrow> pending_map \<Rightarrow> (task_key \<Rightarrow> executable option) \<Rightarrow> task_key \<Rightarrow> executable option" where
  "move A m f k = (case map_of m k of
     Some e \<Rightarrow> if Scope_Contains A (GetTask e) then None else Some e | None \<Rightarrow> f k)"

lemma stay_move_simps [simp]:
  "stay A [] f = f" "move A [] f = f"
  "stay A ((k, e) # m) f = (stay A m f)(k := if Scope_Contains A (GetTask e) then Some e else None)"
  "move A ((k, e) # m) f = (move A m f)(k := if Scope_Contains A (GetTask e) then None else Some e)"
  by (auto simp: stay_def move_def fun_eq_iff)

lemma stay_move_fresh:
  assumes "k \<notin> fst ` set m"
  shows "stay A m f k = f k" "move A m f k = f k"
    and "stay A m (f(k := x)) = (stay A m f)(k := x)" "move A m (f(k := x)) = (move A m f)(k := x)"
  using assms by (auto simp: stay_def move_def fun_eq_iff map_of_eq_None_iff [symmetric] split: option.splits)

definition acked_in :: "pending_map \<Rightarrow> int" where
  "acked_in m = int (length (filter (\<lambda>(_, e). State e = TaskStateAcked) m))"

definition unacked :: "(task_key \<Rightarrow> executable option) \<Rightarrow> task_key \<Rightarrow> executable option" where
  "unacked f k = (case f k of
     Some e \<Rightarrow> if State e = TaskStateAcked then None else Some e | None \<Rightarrow> None)"

lemma shrink_step_eq:
  "(tracker_bump t e (-1))\<lparr>pendingExecutables := AList.delete k (pendingExecutables t)\<rparr> =
   tracker_bump (t\<lparr>pendingExecutables := AList.delete k (pendingExecutables t)\<rparr>) e (-1)"
  by (simp add: tracker_bump_def)

lemma count_at_filter_zero:
  "go_map m \<Longrightarrow> count_at (filter (\<lambda>(_, n). n \<noteq> 0) m) k = count_at m k"
proof (induction m)
  case (Cons p m)
  then have "map_of (filter (\<lambda>(_, n). n \<noteq> 0) m) (fst p) = None" "map_of m (fst p) = None"
    by (auto simp: map_of_eq_None_iff)
  with Cons show ?case by (cases p) (auto simp: count_at_def)
qed simp

lemma foldl_MinKey:
  "foldl MinKey k ks \<le> k \<and> (\<forall>x \<in> set ks. foldl MinKey k ks \<le> x) \<and>
   (foldl MinKey k ks = k \<or> foldl MinKey k ks \<in> set ks)"
proof (induction ks arbitrary: k)
  case (Cons a ks)
  have "foldl MinKey k (a # ks) = foldl MinKey (min k a) ks" by simp
  with Cons.IH [of "min k a"] show ?case by (auto simp: min_def split: if_splits)
qed simp

section \<open>The contract of an invariant of the tracker\<close>

text \<open>
  What the loops of \<open>split\<close> and \<open>shrink\<close> need of an invariant: it is kept by moving one
  executable out of a tracker or into one that does not track its key, and by dropping the
  counters that are zero. The exact and the safe counters are both instances.
\<close>

locale tracker_contract =
  fixes good :: "tracker \<Rightarrow> bool"
  assumes good_keyed: "good t \<Longrightarrow> keyed (pendingExecutables t)"
    and good_new: "good (newExecutableTracker g)"
    and good_remove: "good t \<Longrightarrow> tracked t k = Some e \<Longrightarrow>
      good (tracker_bump (t\<lparr>pendingExecutables := AList.delete k (pendingExecutables t)\<rparr>) e (-1))"
    and good_insert: "good t \<Longrightarrow> exec_key e = k \<Longrightarrow> tracked t k = None \<Longrightarrow>
      good (tracker_bump (t\<lparr>pendingExecutables := AList.update k e (pendingExecutables t)\<rparr>) e 1)"
    and good_prune: "good t \<Longrightarrow>
      good (t\<lparr>pendingPerKey := filter (\<lambda>(_, n). n \<noteq> 0) (pendingPerKey t)\<rparr>)"
begin

lemma good_go_map: "good t \<Longrightarrow> go_map (pendingExecutables t)"
  using good_keyed keyed_go_map by blast

lemma split_loop_ok:
  assumes "\<forall>(k, e) \<in> set rest. Scope_Contains A (GetTask e) \<or> Scope_Contains B (GetTask e)"
    and "go_map rest"
    and "\<forall>(k, e) \<in> set rest. tracked t k = Some e \<and> tracked that k = None"
    and "good t" "good that" "trackerGrouper that = trackerGrouper t"
  shows "\<exists>t' that'. split_loop A B rest t that = Inr (t', that') \<and>
     good t' \<and> good that' \<and>
     trackerGrouper t' = trackerGrouper t \<and> trackerGrouper that' = trackerGrouper t \<and>
     tracked t' = stay A rest (tracked t) \<and> tracked that' = move A rest (tracked that)"
  using assms
proof (induction rest arbitrary: t that)
  case Nil
  then show ?case by simp
next
  case (Cons p rest)
  obtain k e where p: "p = (k, e)" by (cases p)
  from Cons.prems(2) p have fresh: "k \<notin> fst ` set rest" by auto
  have te: "tracked t k = Some e" "tracked that k = None" using Cons.prems(3) p by auto
  show ?case
  proof (cases "Scope_Contains A (GetTask e)")
    case True
    from te have "(stay A rest (tracked t))(k := Some e) = stay A rest (tracked t)"
      "(move A rest (tracked that))(k := None) = move A rest (tracked that)"
      by (simp_all add: fun_upd_idem_iff stay_move_fresh [OF fresh])
    with True Cons.IH [of t that] Cons.prems p show ?thesis by auto
  next
    case False
    let ?t = "tracker_bump (t\<lparr>pendingExecutables := AList.delete k (pendingExecutables t)\<rparr>) e (-1)"
    let ?that = "tracker_bump (that\<lparr>pendingExecutables := AList.update k e (pendingExecutables that)\<rparr>) e 1"
    from te Cons.prems(4,5) tracked_key [OF good_keyed [OF Cons.prems(4)] te(1)]
    have invs: "good ?t" "good ?that" by (auto intro: good_remove good_insert)
    have covered: "\<forall>(k, e) \<in> set rest. Scope_Contains A (GetTask e) \<or> Scope_Contains B (GetTask e)"
      using Cons.prems(1) by simp
    have "go_map rest" using Cons.prems(2) by simp
    have "\<forall>(k', e') \<in> set rest. tracked ?t k' = Some e' \<and> tracked ?that k' = None"
      using Cons.prems(3) fresh by (force simp: p)
    from Cons.IH [OF covered \<open>go_map rest\<close> this invs] Cons.prems(6)
    obtain t' that' where "split_loop A B rest ?t ?that = Inr (t', that')"
      "good t'" "good that'"
      "trackerGrouper t' = trackerGrouper t" "trackerGrouper that' = trackerGrouper t"
      "tracked t' = stay A rest (tracked ?t)" "tracked that' = move A rest (tracked ?that)"
      by (auto simp: fun_upd_def)
    with False Cons.prems(1) p show ?thesis by (auto simp: stay_move_fresh [OF fresh])
  qed
qed

lemma tracker_split_ok:
  assumes "good t"
    and "\<forall>k e. tracked t k = Some e \<longrightarrow> Scope_Contains A (GetTask e) \<or> Scope_Contains B (GetTask e)"
  shows "\<exists>l r. tracker_split t A B = Inr (l, r) \<and> good l \<and> good r \<and>
           trackerGrouper l = trackerGrouper t \<and> trackerGrouper r = trackerGrouper t \<and>
           (\<forall>k e. (tracked l k = Some e \<longleftrightarrow> tracked t k = Some e \<and> Scope_Contains A (GetTask e)) \<and>
                  (tracked r k = Some e \<longleftrightarrow> tracked t k = Some e \<and> \<not> Scope_Contains A (GetTask e)))"
proof -
  have gm: "go_map (pendingExecutables t)"
    by (rule good_go_map [OF assms(1)])
  then have in_set: "tracked t k = Some e" if "(k, e) \<in> set (pendingExecutables t)" for k e
    using that by (simp add: tracked_def)
  have self: "map_of (pendingExecutables t) = tracked t" by (simp add: tracked_def)
  have "\<exists>l r. tracker_split t A B = Inr (l, r) \<and> good l \<and> good r \<and>
      trackerGrouper l = trackerGrouper t \<and> trackerGrouper r = trackerGrouper t \<and>
      tracked l = stay A (pendingExecutables t) (tracked t) \<and>
      tracked r = move A (pendingExecutables t) (tracked (newExecutableTracker (trackerGrouper t)))"
    unfolding tracker_split_def
    by (rule split_loop_ok)
      (use assms gm in_set in \<open>auto intro: good_new simp: trackerGrouper_new\<close>)
  then show ?thesis
    by (auto simp: stay_def move_def self split: option.splits if_splits)
qed

lemma shrink_loop_ok:
  assumes "go_map rest" "\<forall>(k, e) \<in> set rest. tracked t k = Some e" "good t"
    and "shrink_loop rest t mk n = (t', mk', n')"
  shows "good t' \<and> trackerGrouper t' = trackerGrouper t \<and> n' = n + acked_in rest \<and>
     mk' = foldl MinKey mk (map fst (filter (\<lambda>(_, e). State e \<noteq> TaskStateAcked) rest)) \<and>
     tracked t' = (\<lambda>k. if k \<in> fst ` set rest then unacked (tracked t) k else tracked t k)"
  using assms
proof (induction rest arbitrary: t mk n)
  case Nil
  then show ?case by (simp add: acked_in_def)
next
  case (Cons p rest)
  obtain k e where p: "p = (k, e)" by (cases p)
  have te: "tracked t k = Some e" and fresh: "k \<notin> fst ` set rest" and gm: "go_map rest"
    using Cons.prems(1,2) p by auto
  show ?case
  proof (cases "State e = TaskStateAcked")
    case True
    let ?t = "tracker_bump (t\<lparr>pendingExecutables := AList.delete k (pendingExecutables t)\<rparr>) e (-1)"
    have inv: "good ?t" by (rule good_remove [OF Cons.prems(3) te])
    have tr: "\<forall>(k', e') \<in> set rest. tracked ?t k' = Some e'"
      using Cons.prems(2) fresh by (force simp: p)
    have loop: "shrink_loop rest ?t mk (n + 1) = (t', mk', n')"
      using Cons.prems(4) True by (simp add: p shrink_step_eq)
    from Cons.IH [OF gm tr inv loop] True fresh te show ?thesis
      by (auto simp: p acked_in_def unacked_def fun_eq_iff)
  next
    case False
    have loop: "shrink_loop rest t (MinKey mk k) n = (t', mk', n')"
      using Cons.prems(4) False by (simp add: p)
    have tr: "\<forall>(k', e') \<in> set rest. tracked t k' = Some e'"
      using Cons.prems(2) by (simp add: p)
    from Cons.IH [OF gm tr Cons.prems(3) loop] False fresh te show ?thesis
      by (auto simp: p acked_in_def unacked_def fun_eq_iff)
  qed
qed

lemma tracker_shrink_ok:
  assumes "good t" "tracker_shrink t = (t', mk, n)"
  shows "good t' \<and> trackerGrouper t' = trackerGrouper t \<and>
     tracked t' = unacked (tracked t) \<and> n = acked_in (pendingExecutables t) \<and>
     mk = foldl MinKey MaximumKey
       (map fst (filter (\<lambda>(_, e). State e \<noteq> TaskStateAcked) (pendingExecutables t))) \<and>
     (\<forall>(_, c) \<in> set (pendingPerKey t'). c \<noteq> 0)"
proof -
  obtain t1 where loop: "shrink_loop (pendingExecutables t) t MaximumKey 0 = (t1, mk, n)"
    and t': "t' = t1\<lparr>pendingPerKey := filter (\<lambda>(_, n). n \<noteq> 0) (pendingPerKey t1)\<rparr>"
    using assms(2) by (auto simp: tracker_shrink_def split: prod.splits)
  have "\<forall>(k, e) \<in> set (pendingExecutables t). tracked t k = Some e"
    using good_go_map [OF assms(1)] by (auto simp: tracked_def)
  note facts = shrink_loop_ok [OF good_go_map [OF assms(1)] this assms(1) loop]
  then have "good t'" using good_prune by (simp add: t')
  moreover have "tracked t' = unacked (tracked t)"
  proof
    fix k
    from facts show "tracked t' k = unacked (tracked t) k"
      by (cases "k \<in> fst ` set (pendingExecutables t)")
        (auto simp: t' unacked_def tracked_None_iff [THEN iffD2])
  qed
  ultimately show ?thesis using facts by (auto simp: t')
qed

lemma tracker_shrink_tracked:
  assumes "good t" "tracker_shrink t = (t', mk, n)"
  shows "tracked t' k = Some e \<longleftrightarrow> tracked t k = Some e \<and> State e \<noteq> TaskStateAcked"
  using tracker_shrink_ok [OF assms] by (auto simp: unacked_def split: option.splits)

lemma tracker_shrink_min:
  assumes "good t" "tracker_shrink t = (t', mk, n)"
  shows "\<forall>k \<in> dom (tracked t'). mk \<le> k" and "mk \<in> dom (tracked t') \<or> mk = MaximumKey"
proof -
  let ?R = "filter (\<lambda>(_, e). State e \<noteq> TaskStateAcked) (pendingExecutables t)"
  note gm = good_go_map [OF assms(1)] and facts = tracker_shrink_ok [OF assms]
  then have dom: "dom (tracked t') = set (map fst ?R)"
    by (force simp: unacked_def tracked_def split: option.splits if_splits)
  show "\<forall>k \<in> dom (tracked t'). mk \<le> k" "mk \<in> dom (tracked t') \<or> mk = MaximumKey"
    using facts foldl_MinKey [of MaximumKey "map fst ?R"] unfolding dom by auto
qed

end

lemma tracker_safe_new [inv_intros]: "tracker_safe (newExecutableTracker g)"
  by (simp add: tracker_safe_def newExecutableTracker_def keyed_def count_at_def)

interpretation exact: tracker_contract tracker_inv
proof
  fix t k e g
  show "tracker_inv t \<Longrightarrow> keyed (pendingExecutables t)"
    by (simp add: tracker_inv_def)
  show "tracker_inv (newExecutableTracker g)"
    by (rule tracker_inv_new)
  show "tracker_inv t \<Longrightarrow> tracked t k = Some e \<Longrightarrow>
      tracker_inv (tracker_bump (t\<lparr>pendingExecutables := AList.delete k (pendingExecutables t)\<rparr>) e (-1))"
    using tracked_in_set [of t k e]
    by (auto simp: tracker_inv_def keyed_delete group_of_def pending_in_delete go_map_bump
        keyed_go_map)
  show "tracker_inv t \<Longrightarrow> exec_key e = k \<Longrightarrow> tracked t k = None \<Longrightarrow>
      tracker_inv (tracker_bump (t\<lparr>pendingExecutables := AList.update k e (pendingExecutables t)\<rparr>) e 1)"
    by (auto simp: tracker_inv_def keyed_update group_of_def pending_in_update_fresh
        tracked_None_iff go_map_bump)
  show "tracker_inv t \<Longrightarrow>
      tracker_inv (t\<lparr>pendingPerKey := filter (\<lambda>(_, n). n \<noteq> 0) (pendingPerKey t)\<rparr>)"
    by (auto simp: tracker_inv_def count_at_filter_zero go_map_filter)
qed

interpretation safe: tracker_contract tracker_safe
proof
  fix t k e g
  show "tracker_safe t \<Longrightarrow> keyed (pendingExecutables t)"
    by (simp add: tracker_safe_def)
  show "tracker_safe (newExecutableTracker g)"
    by (rule tracker_safe_new)
  show "tracker_safe t \<Longrightarrow> tracked t k = Some e \<Longrightarrow>
      tracker_safe (tracker_bump (t\<lparr>pendingExecutables := AList.delete k (pendingExecutables t)\<rparr>) e (-1))"
    using tracked_in_set [of t k e]
    by (auto simp: tracker_safe_def keyed_delete group_of_def pending_in_delete go_map_bump
        keyed_go_map simp del: zle_diff1_eq)
  show "tracker_safe t \<Longrightarrow> exec_key e = k \<Longrightarrow> tracked t k = None \<Longrightarrow>
      tracker_safe (tracker_bump (t\<lparr>pendingExecutables := AList.update k e (pendingExecutables t)\<rparr>) e 1)"
    by (auto simp: tracker_safe_def keyed_update group_of_def pending_in_update_fresh
        tracked_None_iff go_map_bump)
  show "tracker_safe t \<Longrightarrow>
      tracker_safe (t\<lparr>pendingPerKey := filter (\<lambda>(_, n). n \<noteq> 0) (pendingPerKey t)\<rparr>)"
    by (auto simp: tracker_safe_def count_at_filter_zero go_map_filter)
qed

text \<open>
  Splitting a tracker over two scopes that between them contain every tracked task keeps
  every executable, each in exactly one of the two results and in the first where its scope
  contains it, and the pending counters of both results are exact.
\<close>

theorem tracker_split_partitions:
  assumes "tracker_inv t"
    and "\<forall>k e. tracked t k = Some e \<longrightarrow> Scope_Contains A (GetTask e) \<or> Scope_Contains B (GetTask e)"
  shows "\<exists>l r. tracker_split t A B = Inr (l, r) \<and> tracker_inv l \<and> tracker_inv r \<and>
           (\<forall>k e. (tracked l k = Some e \<longleftrightarrow> tracked t k = Some e \<and> Scope_Contains A (GetTask e)) \<and>
                  (tracked r k = Some e \<longleftrightarrow> tracked t k = Some e \<and> \<not> Scope_Contains A (GetTask e)))"
  using exact.tracker_split_ok [OF assms] by blast

definition sample_executable :: "int \<Rightarrow> string \<Rightarrow> executable" where
  "sample_executable tid ns =
     \<lparr>GetTask = \<lparr>GetKey = Key 0 tid, GetNamespaceID = ns, GetType = 1, GetDestination = None,
                 StateMachineTaskType = None\<rparr>, State = TaskStatePending\<rparr>"

definition sample_tracker :: "(int \<times> string) list \<Rightarrow> tracker" where
  "sample_tracker xs =
     foldl tracker_add (newExecutableTracker GrouperNamespaceID)
       (map (\<lambda>(i, ns). sample_executable i ns) xs)"

definition sample_scope :: "int \<Rightarrow> int \<Rightarrow> scope" where
  "sample_scope lo hi = NewScope \<lparr>InclusiveMin = Key 0 lo, ExclusiveMax = Key 0 hi\<rparr> UniversalImpl"

lemma sample_tracker_inv: "tracker_inv (sample_tracker [(1, ''a''), (5, ''b'')])"
  by (simp add: sample_tracker_def sample_executable_def tracker_add_def newExecutableTracker_def
      exec_key_def tracker_inv_def keyed_def tracker_bump_def bump_def count_at_def group_of_def)

lemma sample_tracker_tracked:
  "tracked (sample_tracker [(1, ''a''), (5, ''b'')]) =
     [Key 0 1 \<mapsto> sample_executable 1 ''a'', Key 0 5 \<mapsto> sample_executable 5 ''b'']"
  by (auto simp: sample_tracker_def sample_executable_def tracker_add_def newExecutableTracker_def
      exec_key_def tracker_bump_def tracked_def)

theorem tracker_split_partitions_witness:
  "let t = sample_tracker [(1, ''a''), (5, ''b'')]; A = sample_scope 0 3; B = sample_scope 3 9 in
     \<exists>l r. tracker_split t A B = Inr (l, r) \<and> tracker_inv l \<and> tracker_inv r \<and>
           (\<forall>k e. (tracked l k = Some e \<longleftrightarrow> tracked t k = Some e \<and> Scope_Contains A (GetTask e)) \<and>
                  (tracked r k = Some e \<longleftrightarrow> tracked t k = Some e \<and> \<not> Scope_Contains A (GetTask e)))"
  unfolding Let_def
  by (rule tracker_split_partitions)
    (auto simp: sample_tracker_inv sample_tracker_tracked sample_scope_def sample_executable_def
      NewScope_def Scope_Contains_def ContainsKey_def CompareTo_def split: if_splits)

section \<open>Merging\<close>

lemma pending_in_update:
  "go_map m \<Longrightarrow> pending_in g (AList.update k e m) c =
     pending_in g m c + pending_in g [(k, e)] c - pending_in g (filter (\<lambda>p. fst p = k) m) c"
proof (induction m)
  case (Cons p m)
  show ?case
  proof (cases "fst p = k")
    case True
    with Cons.prems have "filter (\<lambda>p. fst p = k) m = []" by (auto simp: filter_empty_conv rev_image_eqI)
    with True show ?thesis by (cases p) simp
  next
    case False
    with Cons show ?thesis by (cases p) simp
  qed
qed simp

lemma filter_update_other:
  "\<not> P k \<Longrightarrow> filter (\<lambda>p. P (fst p)) (AList.update k e m) = filter (\<lambda>p. P (fst p)) m"
  by (induction m) auto

lemma pending_in_filter_Un:
  "k \<notin> K \<Longrightarrow> pending_in g (filter (\<lambda>p. fst p \<in> insert k K) m) c =
     pending_in g (filter (\<lambda>p. fst p = k) m) c + pending_in g (filter (\<lambda>p. fst p \<in> K) m) c"
  by (induction m) auto

lemma merge_loop_grouper [simp]: "trackerGrouper (merge_loop m t) = trackerGrouper t"
  by (induction m t rule: merge_loop.induct) simp_all

lemma merge_loop_counts:
  "count_at (pendingPerKey (merge_loop m t)) c =
     count_at (pendingPerKey t) c + pending_in (trackerGrouper t) m c"
  by (induction m t rule: merge_loop.induct) (auto simp: group_of_def)

lemma merge_loop_perKey: "go_map (pendingPerKey t) \<Longrightarrow> go_map (pendingPerKey (merge_loop m t))"
  by (induction m t rule: merge_loop.induct) (auto intro: go_map_bump)

lemma merge_loop_keyed:
  "keyed (pendingExecutables t) \<Longrightarrow> keyed m \<Longrightarrow> keyed (pendingExecutables (merge_loop m t))"
proof (induction m t rule: merge_loop.induct)
  case (2 key e rest t)
  then have "keyed rest" "exec_key e = key" by (auto simp: keyed_def)
  with 2 show ?case by (simp add: keyed_update)
qed simp

lemma merge_loop_tracked:
  "go_map m \<Longrightarrow> tracked (merge_loop m t) = tracked t ++ map_of m"
proof (induction m t rule: merge_loop.induct)
  case (2 key e rest t)
  then have "key \<notin> dom (map_of rest)" by (auto simp: dom_map_of_conv_image_fst)
  then have "(tracked t)(key \<mapsto> e) ++ map_of rest = (tracked t ++ map_of rest)(key \<mapsto> e)"
    by (rule map_add_upd_left)
  moreover have "tracked t ++ map_of ((key, e) # rest) = (tracked t ++ map_of rest)(key \<mapsto> e)"
    by (simp only: map_of.simps map_add_upd fst_conv snd_conv)
  ultimately show ?case using 2 by (simp add: fun_upd_def)
qed simp

text \<open>Every overwritten executable is one that the counters still count.\<close>

lemma merge_loop_pending:
  "go_map m \<Longrightarrow> keyed (pendingExecutables t) \<Longrightarrow> keyed m \<Longrightarrow>
   pending_in g (pendingExecutables (merge_loop m t)) c =
     pending_in g (pendingExecutables t) c + pending_in g m c
     - pending_in g (filter (\<lambda>p. fst p \<in> fst ` set m) (pendingExecutables t)) c"
proof (induction m t rule: merge_loop.induct)
  case (2 key e rest t)
  from 2(2,4) have "key \<notin> fst ` set rest" "go_map rest" "keyed rest" "exec_key e = key"
    by (auto simp: keyed_def)
  moreover from 2(3) \<open>exec_key e = key\<close> have "keyed (AList.update key e (pendingExecutables t))"
    by (rule keyed_update)
  ultimately show ?case
    using 2 pending_in_filter_Un [OF \<open>key \<notin> fst ` set rest\<close>, of g "pendingExecutables t" c]
    by (simp add: pending_in_update keyed_go_map filter_update_other
        [where P = "\<lambda>k. k \<in> fst ` set rest"])
qed simp

lemma tracker_merge_cases:
  obtains (this_larger) "tracker_merge t u = merge_loop (pendingExecutables u) t"
  | (that_larger) "tracker_merge t u = merge_loop (pendingExecutables t)
      (t\<lparr>pendingExecutables := pendingExecutables u, pendingPerKey := pendingPerKey u\<rparr>)"
  by (cases "length (pendingExecutables t) < length (pendingExecutables u)")
    (simp_all add: tracker_merge_def)

lemma tracker_inv_go_map: "tracker_inv t \<Longrightarrow> go_map (pendingExecutables t)"
  by (simp add: tracker_inv_def keyed_def)

lemma tracker_merge_tracked:
  assumes "go_map (pendingExecutables t)" "go_map (pendingExecutables u)"
  shows "tracked (tracker_merge t u) = tracked t ++ tracked u \<or>
         tracked (tracker_merge t u) = tracked u ++ tracked t"
  by (cases rule: tracker_merge_cases [of t u])
    (simp_all add: merge_loop_tracked assms, simp_all add: tracked_def)

lemma tracker_merge_dom:
  assumes "go_map (pendingExecutables t)" "go_map (pendingExecutables u)"
  shows "dom (tracked (tracker_merge t u)) = dom (tracked t) \<union> dom (tracked u)"
  using tracker_merge_tracked [OF assms] by (metis dom_map_add Un_commute)

lemma tracker_merge_from:
  assumes "go_map (pendingExecutables t)" "go_map (pendingExecutables u)" "tracked (tracker_merge t u) k = Some e"
  shows "tracked t k = Some e \<or> tracked u k = Some e"
  using tracker_merge_tracked [OF assms(1,2)] assms(3) by (metis map_add_Some_iff)

lemma tracker_merge_disjoint:
  assumes "go_map (pendingExecutables t)" "go_map (pendingExecutables u)" "dom (tracked t) \<inter> dom (tracked u) = {}"
  shows "tracked (tracker_merge t u) k = Some e \<longleftrightarrow> tracked t k = Some e \<or> tracked u k = Some e"
proof -
  have "tracked (tracker_merge t u) = tracked t ++ tracked u"
    using tracker_merge_tracked [OF assms(1,2)] map_add_comm [OF assms(3)] by metis
  moreover have "tracked u k = None" if "tracked t k = Some e" for e
    using that assms(3) by blast
  ultimately show ?thesis by (auto simp: map_add_Some_iff)
qed

lemma pending_in_pos: "(k, e) \<in> set m \<Longrightarrow> 0 < pending_in g m (GroupKey g (GetTask e))"
  using filter_False
  by (auto simp: pending_in_def filter_empty_conv)

lemma pending_filter_zero_iff:
  "(\<forall>c. pending_in g (filter P m) c = 0) \<longleftrightarrow> (\<forall>p \<in> set m. \<not> P p)"
proof
  assume *: "\<forall>c. pending_in g (filter P m) c = 0"
  show "\<forall>p \<in> set m. \<not> P p"
  proof (intro ballI notI)
    fix p assume "p \<in> set m" "P p"
    then have "(fst p, snd p) \<in> set (filter P m)" by simp
    from pending_in_pos [OF this, of g] * show False by simp
  qed
qed (simp add: filter_False)

lemma tracker_merge_facts:
  assumes "tracker_inv t" "tracker_inv u" "trackerGrouper u = trackerGrouper t"
  shows "count_at (pendingPerKey (tracker_merge t u)) c =
           count_at (pendingPerKey t) c + count_at (pendingPerKey u) c"
    and "tracker_inv (tracker_merge t u) \<longleftrightarrow> dom (tracked t) \<inter> dom (tracked u) = {}"
proof -
  show counts: "count_at (pendingPerKey (tracker_merge t u)) c =
           count_at (pendingPerKey t) c + count_at (pendingPerKey u) c" for c
    using assms by (cases rule: tracker_merge_cases [of t u])
      (simp_all add: merge_loop_counts tracker_inv_def)
  have d: "dom (tracked t) \<inter> dom (tracked u) = {} \<longleftrightarrow>
      (\<forall>p \<in> set (pendingExecutables t). fst p \<notin> fst ` set (pendingExecutables u))"
    and d': "dom (tracked t) \<inter> dom (tracked u) = {} \<longleftrightarrow>
      (\<forall>p \<in> set (pendingExecutables u). fst p \<notin> fst ` set (pendingExecutables t))"
    by (force simp: tracked_def dom_map_of_conv_image_fst)+
  have "trackerGrouper (tracker_merge t u) = trackerGrouper t"
    "keyed (pendingExecutables (tracker_merge t u))"
    "go_map (pendingPerKey (tracker_merge t u))"
    using assms by (cases rule: tracker_merge_cases [of t u];
      simp add: tracker_inv_def merge_loop_keyed merge_loop_perKey)+
  then have "tracker_inv (tracker_merge t u) \<longleftrightarrow>
      (\<forall>c. pending_in (trackerGrouper t) (pendingExecutables (tracker_merge t u)) c =
           pending_in (trackerGrouper t) (pendingExecutables t) c +
           pending_in (trackerGrouper t) (pendingExecutables u) c)"
    using assms counts by (auto simp: tracker_inv_def)
  also have "\<dots> \<longleftrightarrow> dom (tracked t) \<inter> dom (tracked u) = {}"
  proof (cases rule: tracker_merge_cases [of t u])
    case this_larger
    then show ?thesis
      using assms unfolding d pending_filter_zero_iff [of "trackerGrouper t", symmetric]
      by (simp add: merge_loop_pending tracker_inv_def keyed_def)
  next
    case that_larger
    then show ?thesis
      using assms unfolding d' pending_filter_zero_iff [of "trackerGrouper t", symmetric]
      by (simp add: merge_loop_pending tracker_inv_def keyed_def)
  qed
  finally show "tracker_inv (tracker_merge t u) \<longleftrightarrow> dom (tracked t) \<inter> dom (tracked u) = {}" .
qed

text \<open>
  C34. Merging trackers of one grouper keeps an executable for every tracked key and no other
  key, and each group's counter becomes the sum of the two counters; so the counters of the
  result are exact if and only if no key is tracked by both: a key tracked on both sides is
  kept once and counted twice.
\<close>

theorem tracker_merge_counters:
  assumes "tracker_inv t" "tracker_inv u" "trackerGrouper u = trackerGrouper t"
  shows "dom (tracked (tracker_merge t u)) = dom (tracked t) \<union> dom (tracked u) \<and>
         (\<forall>c. count_at (pendingPerKey (tracker_merge t u)) c =
                count_at (pendingPerKey t) c + count_at (pendingPerKey u) c) \<and>
         (tracker_inv (tracker_merge t u) \<longleftrightarrow> dom (tracked t) \<inter> dom (tracked u) = {})"
  using tracker_merge_dom [OF assms(1,2) [THEN tracker_inv_go_map]] tracker_merge_facts [OF assms] by blast

theorem tracker_merge_counters_witness:
  "let t = sample_tracker [(1, ''a''), (5, ''b'')]; u = t in
     dom (tracked (tracker_merge t u)) = dom (tracked t) \<union> dom (tracked u) \<and>
     (\<forall>c. count_at (pendingPerKey (tracker_merge t u)) c =
            count_at (pendingPerKey t) c + count_at (pendingPerKey u) c) \<and>
     (tracker_inv (tracker_merge t u) \<longleftrightarrow> dom (tracked t) \<inter> dom (tracked u) = {})"
  unfolding Let_def
  by (rule tracker_merge_counters) (simp_all add: sample_tracker_inv)

section \<open>Adding, shrinking and clearing\<close>

lemma tracker_add_inv [inv_intros]:
  assumes "tracker_inv t" "tracked t (exec_key e) = None"
  shows "tracker_inv (tracker_add t e)"
  unfolding tracker_add_def
  by (rule exact.good_insert [OF assms(1) refl assms(2)])

lemma tracker_add_tracked [simp]: "tracked (tracker_add t e) = (tracked t)(exec_key e \<mapsto> e)"
  by (simp add: tracker_add_def fun_upd_def)

text \<open>
  Shrinking removes exactly the acknowledged executables, reports how many they were and
  a lower bound of the remaining keys that is one of them (or the maximal key when nothing
  remains), keeps the counters exact, and leaves no counter at zero.
\<close>

theorem tracker_shrink_removes_acked:
  assumes "tracker_inv t" "tracker_shrink t = (t', minKey, n)"
  shows "tracker_inv t' \<and>
     (\<forall>k e. tracked t' k = Some e \<longleftrightarrow> tracked t k = Some e \<and> State e \<noteq> TaskStateAcked) \<and>
     n = int (card {k. \<exists>e. tracked t k = Some e \<and> State e = TaskStateAcked}) \<and>
     (\<forall>k \<in> dom (tracked t'). minKey \<le> k) \<and>
     (minKey \<in> dom (tracked t') \<or> minKey = MaximumKey) \<and>
     (\<forall>(_, c) \<in> set (pendingPerKey t'). c \<noteq> 0)"
proof -
  have gm: "go_map (pendingExecutables t)" by (rule tracker_inv_go_map [OF assms(1)])
  let ?A = "filter (\<lambda>(_, e). State e = TaskStateAcked) (pendingExecutables t)"
  have "{k. \<exists>e. tracked t k = Some e \<and> State e = TaskStateAcked} = set (map fst ?A)"
    using gm by (force simp: tracked_def)
  also have "card \<dots> = length ?A"
    using go_map_filter [OF gm] distinct_card by (metis length_map)
  finally have n: "int (card {k. \<exists>e. tracked t k = Some e \<and> State e = TaskStateAcked}) =
      acked_in (pendingExecutables t)" by (simp add: acked_in_def)
  show ?thesis
    using exact.tracker_shrink_ok [OF assms] exact.tracker_shrink_min [OF assms]
      exact.tracker_shrink_tracked [OF assms]
    unfolding n by simp
qed

definition sample_acked :: tracker where
  "sample_acked = tracker_add (sample_tracker [(1, ''a''), (5, ''b'')])
     ((sample_executable 7 ''a'')\<lparr>State := TaskStateAcked\<rparr>)"

lemma sample_acked_inv: "tracker_inv sample_acked"
  unfolding sample_acked_def
  by (intro tracker_add_inv sample_tracker_inv)
    (simp add: sample_tracker_tracked exec_key_def sample_executable_def)

theorem tracker_shrink_removes_acked_witness:
  "\<exists>t' minKey n. tracker_shrink sample_acked = (t', minKey, n) \<and> tracker_inv t' \<and>
     (\<forall>k e. tracked t' k = Some e \<longleftrightarrow> tracked sample_acked k = Some e \<and> State e \<noteq> TaskStateAcked) \<and>
     n = int (card {k. \<exists>e. tracked sample_acked k = Some e \<and> State e = TaskStateAcked}) \<and>
     (\<forall>k \<in> dom (tracked t'). minKey \<le> k) \<and>
     (minKey \<in> dom (tracked t') \<or> minKey = MaximumKey) \<and>
     (\<forall>(_, c) \<in> set (pendingPerKey t'). c \<noteq> 0)"
proof -
  obtain t' mk n where eq: "tracker_shrink sample_acked = (t', mk, n)"
    by (metis prod_cases3)
  from tracker_shrink_removes_acked [OF sample_acked_inv eq] eq show ?thesis by blast
qed

lemma tracker_clear_inv [inv_intros]: "tracker_inv (fst (tracker_clear t))"
  by (simp add: tracker_clear_def tracker_inv_new)

section \<open>The safe counters under merging and re-adding\<close>

lemma pending_in_update_le:
  "go_map m \<Longrightarrow> pending_in g (AList.update k e m) c \<le> pending_in g m c + pending_in g [(k, e)] c"
  using pending_in_nonneg by (simp only: pending_in_update) simp

lemma tracker_safe_put:
  assumes "tracker_safe t" "exec_key e = k"
  shows "tracker_safe (tracker_bump (t\<lparr>pendingExecutables := AList.update k e (pendingExecutables t)\<rparr>) e 1)"
  using assms
    order_trans [OF pending_in_update_le [OF safe.good_go_map [OF assms(1)], of "trackerGrouper t" k e]]
  by (auto simp: tracker_safe_def keyed_update group_of_def go_map_bump)

lemma tracker_safe_add [inv_intros]: "tracker_safe t \<Longrightarrow> tracker_safe (tracker_add t e)"
  unfolding tracker_add_def by (rule tracker_safe_put) simp_all

lemma merge_loop_safe:
  "keyed m \<Longrightarrow> tracker_safe t \<Longrightarrow> tracker_safe (merge_loop m t)"
proof (induction m t rule: merge_loop.induct)
  case (2 key e rest t)
  from 2(2) have "keyed rest" "exec_key e = key" by (auto simp: keyed_def)
  with 2 show ?case by (simp add: tracker_safe_put)
qed simp

lemma tracker_merge_safe [inv_intros]:
  assumes "tracker_safe t" "tracker_safe u" "trackerGrouper u = trackerGrouper t"
  shows "tracker_safe (tracker_merge t u)"
proof (cases rule: tracker_merge_cases [of t u])
  case this_larger
  then show ?thesis using merge_loop_safe assms safe.good_keyed by simp
next
  case that_larger
  moreover have "tracker_safe (t\<lparr>pendingExecutables := pendingExecutables u, pendingPerKey := pendingPerKey u\<rparr>)"
    using assms by (simp add: tracker_safe_def)
  ultimately show ?thesis using merge_loop_safe assms safe.good_keyed by simp
qed

lemma tracker_merge_grouper [simp]: "trackerGrouper (tracker_merge t u) = trackerGrouper t"
  by (cases rule: tracker_merge_cases [of t u]) simp_all

text \<open>Every pending executable's group has a counter that is not zero.\<close>

lemma safe_counter:
  assumes "tracker_safe t" "tracked t k = Some e"
  shows "group_of t e \<in> fst ` set (pendingPerKey t)"
proof -
  have "0 < count_at (pendingPerKey t) (group_of t e)"
    using assms pending_in_pos [OF tracked_in_set [OF assms(2)], of "trackerGrouper t"]
    unfolding tracker_safe_def group_of_def by (metis order_less_le_trans)
  then have "map_of (pendingPerKey t) (group_of t e) \<noteq> None"
    by (auto simp: count_at_def split: option.splits)
  then show ?thesis by (simp add: map_of_eq_None_iff)
qed

end
