(* ===== verification/QueueSlice.thy ===== *)
theory QueueSlice
  imports QueueIterator ExecutableTracker
begin

text \<open>
  Queue slices: \<open>service/history/queues/slice.go\<close>. A slice owns a scope, the iterators over the
  part of the scope that is still to be loaded, and the tracker of the loaded executables. The
  pagination provider, the task pages behind it and the configured predicate size are
  parameters. Calls to the monitor only report counts and are left out. An operation that
  consumes slices destroys them and returns new ones; the model returns the new slices, and
  \<open>slice_destroyed\<close> is the flag that the sanity checks read. Merging presupposes two distinct
  slice objects, as the pointer comparison \<open>s != slice\<close> of the code demands.
\<close>

section \<open>State and helpers\<close>

record slice_config =
  maxPredicateSizeFn :: int
  EmptyPredicateProtoSize :: int

record 'e queue_slice =
  slice_destroyed :: bool
  slice_scope :: scope
  slice_iterators :: "'e queue_iterator list"
  slice_tracker :: tracker

abbreviation slice_range :: "'e queue_slice \<Rightarrow> task_range" where
  "slice_range s \<equiv> ScopeRange (slice_scope s)"

abbreviation slice_predicate :: "'e queue_slice \<Rightarrow> predicate" where
  "slice_predicate s \<equiv> ScopePredicate (slice_scope s)"

definition ensurePredicateSizeLimit :: "slice_config \<Rightarrow> 'e queue_slice \<Rightarrow> 'e queue_slice" where
  "ensurePredicateSizeLimit cfg s =
     (if maxPredicateSizeFn cfg > 0 \<and>
         Size (EmptyPredicateProtoSize cfg) (slice_predicate s) > maxPredicateSizeFn cfg
      then s\<lparr>slice_scope := (slice_scope s)\<lparr>ScopePredicate := UniversalImpl\<rparr>\<rparr>
      else s)"

definition newSlice ::
    "slice_config \<Rightarrow> scope \<Rightarrow> 'e queue_iterator list \<Rightarrow> tracker \<Rightarrow> 'e queue_slice" where
  "newSlice cfg sc its tr =
     ensurePredicateSizeLimit cfg
       \<lparr>slice_destroyed = False, slice_scope = sc, slice_iterators = its, slice_tracker = tr\<rparr>"

definition NewSlice :: "slice_config \<Rightarrow> scope \<Rightarrow> grouper \<Rightarrow> 'e queue_slice" where
  "NewSlice cfg sc g =
     ensurePredicateSizeLimit cfg
       \<lparr>slice_destroyed = False, slice_scope = sc, slice_iterators = [NewIterator (ScopeRange sc)],
        slice_tracker = newExecutableTracker g\<rparr>"

definition stateSanityCheck :: "'e queue_slice \<Rightarrow> queue_panic + unit" where
  "stateSanityCheck s = (if slice_destroyed s then Inl DestroyedSlice else Inr ())"

definition Slice_Scope :: "'e queue_slice \<Rightarrow> queue_panic + scope" where
  "Slice_Scope s = bind_result (stateSanityCheck s) (\<lambda>_. Inr (slice_scope s))"

definition MoreTasks :: "'e queue_slice \<Rightarrow> queue_panic + bool" where
  "MoreTasks s = bind_result (stateSanityCheck s) (\<lambda>_. Inr (slice_iterators s \<noteq> []))"

definition TaskStats :: "'e queue_slice \<Rightarrow> queue_panic + count_map" where
  "TaskStats s = bind_result (stateSanityCheck s) (\<lambda>_. Inr (pendingPerKey (slice_tracker s)))"

section \<open>Splitting\<close>

definition Slice_CanSplitByRange :: "'e queue_slice \<Rightarrow> task_key \<Rightarrow> queue_panic + bool" where
  "Slice_CanSplitByRange s key =
     bind_result (stateSanityCheck s) (\<lambda>_. Inr (CanSplitByRange (slice_scope s) key))"

fun split_iterators ::
    "task_range \<Rightarrow> task_range \<Rightarrow> task_key \<Rightarrow> 'e queue_iterator list \<Rightarrow>
     queue_panic + 'e queue_iterator list \<times> 'e queue_iterator list" where
  "split_iterators leftRange rightRange key [] = Inr ([], [])"
| "split_iterators leftRange rightRange key (iter # rest) =
     (if ContainsRange leftRange (Iter_Range iter) then
        bind_result (split_iterators leftRange rightRange key rest) (\<lambda>(l, r). Inr (iter # l, r))
      else if ContainsRange rightRange (Iter_Range iter) then
        bind_result (split_iterators leftRange rightRange key rest) (\<lambda>(l, r). Inr (l, iter # r))
      else
        bind_result (Iter_Split iter key) (\<lambda>(leftIter, rightIter).
        bind_result (split_iterators leftRange rightRange key rest) (\<lambda>(l, r).
          Inr (leftIter # l, rightIter # r))))"

definition splitByRange ::
    "slice_config \<Rightarrow> 'e queue_slice \<Rightarrow> task_key \<Rightarrow> queue_panic + 'e queue_slice \<times> 'e queue_slice" where
  "splitByRange cfg s key =
     bind_result (SplitByRange (slice_scope s) key) (\<lambda>(leftScope, rightScope).
     bind_result (tracker_split (slice_tracker s) leftScope rightScope) (\<lambda>(leftTracker, rightTracker).
     bind_result (split_iterators (ScopeRange leftScope) (ScopeRange rightScope) key (slice_iterators s))
       (\<lambda>(leftIterators, rightIterators).
     Inr (newSlice cfg leftScope leftIterators leftTracker,
          newSlice cfg rightScope rightIterators rightTracker))))"

definition Slice_SplitByRange ::
    "slice_config \<Rightarrow> 'e queue_slice \<Rightarrow> task_key \<Rightarrow> queue_panic + 'e queue_slice \<times> 'e queue_slice" where
  "Slice_SplitByRange cfg s key =
     bind_result (Slice_CanSplitByRange s key) (\<lambda>can.
       if \<not> can then Inl UnableToSplitSlice else splitByRange cfg s key)"

definition Slice_SplitByPredicate ::
    "slice_config \<Rightarrow> 'e queue_slice \<Rightarrow> predicate \<Rightarrow> queue_panic + 'e queue_slice \<times> 'e queue_slice" where
  "Slice_SplitByPredicate cfg s predicate =
     bind_result (stateSanityCheck s) (\<lambda>_.
     case SplitByPredicate (slice_scope s) predicate of (passScope, failScope) \<Rightarrow>
     bind_result (tracker_split (slice_tracker s) passScope failScope) (\<lambda>(passTracker, failTracker).
     Inr (newSlice cfg passScope (slice_iterators s) passTracker,
          newSlice cfg failScope (map Remaining (slice_iterators s)) failTracker)))"

section \<open>Merging\<close>

definition appendIterator ::
    "'e queue_iterator list \<Rightarrow> 'e queue_iterator \<Rightarrow> queue_panic + 'e queue_iterator list" where
  "appendIterator iterators iterator =
     (if iterators = [] then Inr [iterator]
      else if Iter_CanMerge (last iterators) iterator then
        bind_result (Iter_Merge (last iterators) iterator) (\<lambda>m. Inr (butlast iterators @ [m]))
      else Inr (iterators @ [iterator]))"

fun append_iterators ::
    "'e queue_iterator list \<Rightarrow> 'e queue_iterator list \<Rightarrow> queue_panic + 'e queue_iterator list" where
  "append_iterators merged [] = Inr merged"
| "append_iterators merged (i # rest) =
     bind_result (appendIterator merged i) (\<lambda>merged'. append_iterators merged' rest)"

fun merge_iterators_loop ::
    "'e queue_iterator list \<Rightarrow> 'e queue_iterator list \<Rightarrow> 'e queue_iterator list \<Rightarrow>
     queue_panic + 'e queue_iterator list" where
  "merge_iterators_loop merged (currentIter # cs) (incomingIter # is) =
     (if CompareTo (InclusiveMin (Iter_Range currentIter)) (InclusiveMin (Iter_Range incomingIter)) < 0
      then bind_result (appendIterator merged currentIter)
             (\<lambda>merged'. merge_iterators_loop merged' cs (incomingIter # is))
      else bind_result (appendIterator merged incomingIter)
             (\<lambda>merged'. merge_iterators_loop merged' (currentIter # cs) is))"
| "merge_iterators_loop merged [] is = append_iterators merged is"
| "merge_iterators_loop merged cs [] = append_iterators merged cs"

fun validateIteratorsOrderedDisjoint :: "'e queue_iterator list \<Rightarrow> queue_panic + unit" where
  "validateIteratorsOrderedDisjoint (i # j # rest) =
     (if CompareTo (ExclusiveMax (Iter_Range i)) (InclusiveMin (Iter_Range j)) \<ge> 0
      then Inl OverlappingIterators
      else validateIteratorsOrderedDisjoint (j # rest))"
| "validateIteratorsOrderedDisjoint _ = Inr ()"

definition mergeIterators ::
    "'e queue_slice \<Rightarrow> 'e queue_slice \<Rightarrow> queue_panic + 'e queue_iterator list" where
  "mergeIterators s incoming =
     bind_result (merge_iterators_loop [] (slice_iterators s) (slice_iterators incoming)) (\<lambda>merged.
     bind_result (validateIteratorsOrderedDisjoint merged) (\<lambda>_. Inr merged))"

definition mergeByRange ::
    "slice_config \<Rightarrow> 'e queue_slice \<Rightarrow> 'e queue_slice \<Rightarrow> queue_panic + 'e queue_slice" where
  "mergeByRange cfg s incoming =
     bind_result (mergeIterators s incoming) (\<lambda>its.
     bind_result (MergeByRange (slice_scope s) (slice_scope incoming)) (\<lambda>sc.
     Inr (newSlice cfg sc its (tracker_merge (slice_tracker s) (slice_tracker incoming)))))"

definition mergeByPredicate ::
    "slice_config \<Rightarrow> 'e queue_slice \<Rightarrow> 'e queue_slice \<Rightarrow> queue_panic + 'e queue_slice" where
  "mergeByPredicate cfg s incoming =
     bind_result (mergeIterators s incoming) (\<lambda>its.
     bind_result (MergeByPredicate (slice_scope s) (slice_scope incoming)) (\<lambda>sc.
     Inr (newSlice cfg sc its (tracker_merge (slice_tracker s) (slice_tracker incoming)))))"

definition CanMergeWithSlice :: "'e queue_slice \<Rightarrow> 'e queue_slice \<Rightarrow> queue_panic + bool" where
  "CanMergeWithSlice s slice =
     bind_result (stateSanityCheck s) (\<lambda>_.
     bind_result (Slice_Scope slice) (\<lambda>sc. Inr (Range_CanMerge (slice_range s) (ScopeRange sc))))"

definition appendMergedSlice :: "'e queue_slice list \<Rightarrow> 'e queue_slice \<Rightarrow> 'e queue_slice list" where
  "appendMergedSlice mergedSlices s =
     (if Scope_IsEmpty (slice_scope s) then mergedSlices else mergedSlices @ [s])"

text \<open>\<open>MergeWithSlice\<close> after the receiver has been chosen to be the slice that starts first.\<close>

definition merge_in_order ::
    "slice_config \<Rightarrow> 'e queue_slice \<Rightarrow> 'e queue_slice \<Rightarrow> queue_panic + 'e queue_slice list" where
  "merge_in_order cfg s incoming =
     bind_result (CanMergeWithSlice s incoming) (\<lambda>can.
     if \<not> can then Inl UnableToMergeSlice
     else if CanMergeByRange (slice_scope s) (slice_scope incoming) then
       bind_result (mergeByRange cfg s incoming) (\<lambda>m. Inr [m])
     else
       bind_result (splitByRange cfg s (InclusiveMin (slice_range incoming))) (\<lambda>(left, right).
       (let merged = appendMergedSlice [] left;
            currentRightMax = ExclusiveMax (slice_range right)
        in bind_result (Slice_CanSplitByRange incoming currentRightMax) (\<lambda>split.
           if split then
             bind_result (splitByRange cfg incoming currentRightMax) (\<lambda>(leftIncoming, rightIncoming).
             bind_result (mergeByPredicate cfg right leftIncoming) (\<lambda>mid.
             Inr (appendMergedSlice (appendMergedSlice merged mid) rightIncoming)))
           else
             bind_result (splitByRange cfg right (ExclusiveMax (slice_range incoming)))
               (\<lambda>(currentMid, currentRight).
             bind_result (mergeByPredicate cfg currentMid incoming) (\<lambda>mid.
             Inr (appendMergedSlice (appendMergedSlice merged mid) currentRight)))))))"

definition MergeWithSlice ::
    "slice_config \<Rightarrow> 'e queue_slice \<Rightarrow> 'e queue_slice \<Rightarrow> queue_panic + 'e queue_slice list" where
  "MergeWithSlice cfg s slice =
     bind_result (Slice_Scope slice) (\<lambda>sc.
       if CompareTo (InclusiveMin (slice_range s)) (InclusiveMin (ScopeRange sc)) > 0
       then bind_result (Slice_Scope s) (\<lambda>_. merge_in_order cfg slice s)
       else merge_in_order cfg s slice)"

definition CompactWithSlice ::
    "slice_config \<Rightarrow> 'e queue_slice \<Rightarrow> 'e queue_slice \<Rightarrow> queue_panic + 'e queue_slice" where
  "CompactWithSlice cfg s incoming =
     bind_result (stateSanityCheck s) (\<lambda>_.
     bind_result (stateSanityCheck incoming) (\<lambda>_.
     bind_result (NewRange
         (MinKey (InclusiveMin (slice_range s)) (InclusiveMin (slice_range incoming)))
         (MaxKey (ExclusiveMax (slice_range s)) (ExclusiveMax (slice_range incoming)))) (\<lambda>r.
     bind_result (mergeIterators s incoming) (\<lambda>its.
     Inr (newSlice cfg (NewScope r (OrPredicates (slice_predicate s) (slice_predicate incoming))) its
            (tracker_merge (slice_tracker s) (slice_tracker incoming)))))))"

section \<open>Shrinking, clearing and loading\<close>

definition shrinkPredicateMaxPendingKeys :: nat where
  "shrinkPredicateMaxPendingKeys = 3"

definition shrinkRange :: "'e queue_slice \<Rightarrow> 'e queue_slice \<times> int" where
  "shrinkRange s =
     (let (tr, minPendingTaskKey, tasksCompleted) = tracker_shrink (slice_tracker s);
          minIteratorKey = (case slice_iterators s of
                              [] \<Rightarrow> MaximumKey | i # _ \<Rightarrow> InclusiveMin (Iter_Range i));
          newRangeMin = MinKey minPendingTaskKey minIteratorKey;
          newRangeMin = (if newRangeMin = MaximumKey then ExclusiveMax (slice_range s) else newRangeMin)
      in (s\<lparr>slice_tracker := tr,
            slice_scope := (slice_scope s)\<lparr>ScopeRange := (slice_range s)\<lparr>InclusiveMin := newRangeMin\<rparr>\<rparr>\<rparr>,
          tasksCompleted))"

definition shrinkPredicate :: "slice_config \<Rightarrow> 'e queue_slice \<Rightarrow> queue_panic + 'e queue_slice" where
  "shrinkPredicate cfg s =
     (if slice_iterators s \<noteq> [] then Inr s
      else if length (pendingPerKey (slice_tracker s)) > shrinkPredicateMaxPendingKeys then Inr s
      else bind_result
             (GroupPredicate (trackerGrouper (slice_tracker s)) (map fst (pendingPerKey (slice_tracker s))))
             (\<lambda>p. Inr (ensurePredicateSizeLimit cfg
                        (s\<lparr>slice_scope := (slice_scope s)\<lparr>ScopePredicate := p\<rparr>\<rparr>))))"

definition ShrinkScope :: "slice_config \<Rightarrow> 'e queue_slice \<Rightarrow> queue_panic + 'e queue_slice \<times> int" where
  "ShrinkScope cfg s =
     bind_result (stateSanityCheck s) (\<lambda>_.
     case shrinkRange s of (s', tasksCompleted) \<Rightarrow>
       bind_result (shrinkPredicate cfg s') (\<lambda>s''. Inr (s'', tasksCompleted)))"

text \<open>The cancelled executables are returned next to the cleared slice.\<close>

definition Slice_Clear ::
    "slice_config \<Rightarrow> 'e queue_slice \<Rightarrow> queue_panic + 'e queue_slice \<times> executable list" where
  "Slice_Clear cfg s =
     bind_result (ShrinkScope cfg s) (\<lambda>(s', _).
     case tracker_clear (slice_tracker s') of (tr, cancelled) \<Rightarrow>
       Inr (s'\<lparr>slice_iterators := [NewIterator (slice_range s')], slice_tracker := tr\<rparr>, cancelled))"

definition NewExecutable :: "task \<Rightarrow> executable" where
  "NewExecutable t = \<lparr>GetTask = t, State = TaskStatePending\<rparr>"

partial_function (option) select_loop ::
    "'e fn_provider \<Rightarrow> nat \<Rightarrow> 'e queue_slice \<Rightarrow> executable list \<Rightarrow>
     (queue_panic + ('e + executable list) \<times> 'e queue_slice) option" where
  "select_loop provider batchSize s executables =
     (if \<not> length executables < batchSize then Some (Inr (Inr executables, s))
      else case slice_iterators s of
        [] \<Rightarrow> Some (Inr (Inr executables, s))
      | iter # rest \<Rightarrow>
        (case Iter_HasNext provider iter of
           None \<Rightarrow> None
         | Some (more_items, iter1) \<Rightarrow>
             if \<not> more_items then
               select_loop provider batchSize (s\<lparr>slice_iterators := rest\<rparr>) executables
             else
               (case Iter_Next provider iter1 of
                  None \<Rightarrow> None
                | Some r \<Rightarrow>
                    (case r of
                       Inl panic \<Rightarrow> Some (Inl panic)
                     | Inr (item, iter2) \<Rightarrow>
                         (case item of
                            Inl err \<Rightarrow>
                              Some (Inr (if executables \<noteq> [] then Inr executables else Inl err,
                                         s\<lparr>slice_iterators := Remaining iter2 # rest\<rparr>))
                          | Inr t \<Rightarrow>
                              if \<not> ContainsKey (slice_range s) (GetKey t) then
                                Some (Inl TaskOutsideRange)
                              else if \<not> Test (slice_predicate s) t then
                                select_loop provider batchSize
                                  (s\<lparr>slice_iterators := iter2 # rest\<rparr>) executables
                              else
                                select_loop provider batchSize
                                  (s\<lparr>slice_iterators := iter2 # rest,
                                     slice_tracker := tracker_add (slice_tracker s) (NewExecutable t)\<rparr>)
                                  (executables @ [NewExecutable t]))))))"

definition SelectTasks ::
    "'e fn_provider \<Rightarrow> nat \<Rightarrow> 'e queue_slice \<Rightarrow>
     (queue_panic + ('e + executable list) \<times> 'e queue_slice) option" where
  "SelectTasks provider batchSize s =
     (if slice_destroyed s then Some (Inl DestroyedSlice)
      else if slice_iterators s = [] then Some (Inr (Inr [], s))
      else select_loop provider batchSize s [])"

section \<open>Iterator lists\<close>

text \<open>The iterators of a slice have valid ranges, in order, with a gap between neighbours.\<close>

definition iters_ordered :: "'e queue_iterator list \<Rightarrow> bool" where
  "iters_ordered its \<longleftrightarrow>
     sorted_wrt (\<lambda>i j. ExclusiveMax (Iter_Range i) < InclusiveMin (Iter_Range j)) its \<and>
     list_all (\<lambda>i. valid_range (Iter_Range i)) its"

definition iters_within :: "task_range \<Rightarrow> 'e queue_iterator list \<Rightarrow> bool" where
  "iters_within r its \<longleftrightarrow> list_all (\<lambda>i. ContainsRange r (Iter_Range i)) its"

definition cover :: "'e queue_iterator list \<Rightarrow> task_key set" where
  "cover its = {k. \<exists>i \<in> set its. ContainsKey (Iter_Range i) k}"

lemma Iter_Range_New [simp]: "Iter_Range (NewIterator r) = r"
  by (simp add: Iter_Range_def NewIterator_def)

lemma Iter_Range_Remaining [simp]: "Iter_Range (Remaining i) = Iter_Range i"
  by (simp add: Iter_Range_def NewIterator_def Remaining_def)

lemma iters_simps [simp]:
  "iters_ordered []" "iters_within r []" "cover [] = {}"
  "iters_ordered (i # its) \<longleftrightarrow> valid_range (Iter_Range i) \<and> iters_ordered its \<and>
     (\<forall>j \<in> set its. ExclusiveMax (Iter_Range i) < InclusiveMin (Iter_Range j))"
  "iters_within r (i # its) \<longleftrightarrow> ContainsRange r (Iter_Range i) \<and> iters_within r its"
  "cover (i # its) = {k. ContainsKey (Iter_Range i) k} \<union> cover its"
  by (auto simp: iters_ordered_def iters_within_def cover_def)

lemma iters_append [simp]:
  "iters_ordered (xs @ ys) \<longleftrightarrow> iters_ordered xs \<and> iters_ordered ys \<and>
     (\<forall>i \<in> set xs. \<forall>j \<in> set ys. ExclusiveMax (Iter_Range i) < InclusiveMin (Iter_Range j))"
  "iters_within r (xs @ ys) \<longleftrightarrow> iters_within r xs \<and> iters_within r ys"
  "cover (xs @ ys) = cover xs \<union> cover ys"
  by (auto simp: iters_ordered_def iters_within_def cover_def sorted_wrt_append)

lemma iters_map_Remaining [simp]:
  "iters_ordered (map Remaining its) = iters_ordered its"
  "iters_within r (map Remaining its) = iters_within r its"
  "cover (map Remaining its) = cover its"
  by (induction its) auto

lemma iters_within_mono:
  "iters_within r its \<Longrightarrow> ContainsRange r' r \<Longrightarrow> iters_within r' its"
  by (induction its) (auto simp: range_simps)

lemma cover_within: "iters_within r its \<Longrightarrow> k \<in> cover its \<Longrightarrow> ContainsKey r k"
  by (induction its) (auto simp: range_simps)

lemma split_iterators_ok:
  assumes "iters_ordered its" "iters_within \<lparr>InclusiveMin = a, ExclusiveMax = b\<rparr> its" and key: "valid_key k"
  shows "\<exists>l r. split_iterators \<lparr>InclusiveMin = a, ExclusiveMax = k\<rparr> \<lparr>InclusiveMin = k, ExclusiveMax = b\<rparr> k its
           = Inr (l, r) \<and> iters_ordered l \<and> iters_ordered r \<and>
         iters_within \<lparr>InclusiveMin = a, ExclusiveMax = k\<rparr> l \<and>
         iters_within \<lparr>InclusiveMin = k, ExclusiveMax = b\<rparr> r \<and>
         cover l = {x \<in> cover its. x < k} \<and> cover r = {x \<in> cover its. k \<le> x} \<and>
         (\<forall>j \<in> set l \<union> set r. \<exists>i \<in> set its. InclusiveMin (Iter_Range i) \<le> InclusiveMin (Iter_Range j))"
  using assms(1,2)
proof (induction its)
  case (Cons i its)
  then obtain l r where rec:
    "split_iterators \<lparr>InclusiveMin = a, ExclusiveMax = k\<rparr> \<lparr>InclusiveMin = k, ExclusiveMax = b\<rparr> k its = Inr (l, r)"
    "iters_ordered l" "iters_ordered r"
    "iters_within \<lparr>InclusiveMin = a, ExclusiveMax = k\<rparr> l"
    "iters_within \<lparr>InclusiveMin = k, ExclusiveMax = b\<rparr> r"
    "cover l = {x \<in> cover its. x < k}" "cover r = {x \<in> cover its. k \<le> x}"
    and later: "\<forall>j \<in> set l \<union> set r. \<exists>i \<in> set its. InclusiveMin (Iter_Range i) \<le> InclusiveMin (Iter_Range j)"
    by auto
  let ?r = "Iter_Range i"
  have v: "valid_range ?r" and w: "a \<le> InclusiveMin ?r" "ExclusiveMax ?r \<le> b"
    and ord: "\<forall>j \<in> set its. ExclusiveMax ?r < InclusiveMin (Iter_Range j)"
    using Cons.prems by (auto simp: range_simps)
  from later ord have after: "\<forall>j \<in> set l \<union> set r. ExclusiveMax ?r < InclusiveMin (Iter_Range j)"
    by (meson order_less_le_trans)
  consider (left) "ExclusiveMax ?r \<le> k" | (right) "k < ExclusiveMax ?r" "k \<le> InclusiveMin ?r"
    | (both) "InclusiveMin ?r < k" "k < ExclusiveMax ?r" by force
  then show ?case
  proof cases
    case left
    then show ?thesis using rec v w after later by (auto simp: range_simps)
  next
    case right
    then show ?thesis using rec v w after later by (auto simp: range_simps)
  next
    case both
    then have "Iter_CanSplit i k"
      by (simp add: Iter_CanSplit_def Range_CanSplit_def range_simps Iter_Range_def [symmetric] less_imp_le)
    then have "Iter_Split i k = Inr (NewIterator \<lparr>InclusiveMin = InclusiveMin ?r, ExclusiveMax = k\<rparr>,
                                     NewIterator \<lparr>InclusiveMin = k, ExclusiveMax = ExclusiveMax ?r\<rparr>)"
      using Range_Split_eq v by (simp add: Iter_Split_def Iter_CanSplit_def Iter_Range_def)
    then show ?thesis
      using both rec v w after later key by (auto simp: range_simps valid_range_def) force+
  qed
qed auto

text \<open>Appending an iterator that starts no earlier than the last one.\<close>

definition starts_after :: "'e queue_iterator list \<Rightarrow> 'e queue_iterator \<Rightarrow> bool" where
  "starts_after m i \<longleftrightarrow> m = [] \<or> InclusiveMin (Iter_Range (last m)) \<le> InclusiveMin (Iter_Range i)"

lemma starts_after_trans:
  "starts_after m i \<Longrightarrow> InclusiveMin (Iter_Range i) \<le> InclusiveMin (Iter_Range j) \<Longrightarrow> starts_after m j"
  by (auto simp: starts_after_def)

lemma appendIterator_ok:
  assumes "iters_ordered m" "valid_range (Iter_Range i)" "starts_after m i"
  shows "\<exists>m'. appendIterator m i = Inr m' \<and> iters_ordered m' \<and> cover m' = cover (m @ [i]) \<and>
           (\<forall>j. InclusiveMin (Iter_Range i) \<le> InclusiveMin (Iter_Range j) \<longrightarrow> starts_after m' j) \<and>
           (\<forall>r. iters_within r (m @ [i]) \<longrightarrow> iters_within r m')"
proof (cases m rule: rev_cases)
  case Nil
  with assms show ?thesis by (simp add: appendIterator_def starts_after_def)
next
  case (snoc ms l)
  let ?l = "Iter_Range l" and ?i = "Iter_Range i"
  from assms snoc have v: "valid_range ?l" "valid_range ?i" and le: "InclusiveMin ?l \<le> InclusiveMin ?i"
    by (auto simp: starts_after_def)
  show ?thesis
  proof (cases "Iter_CanMerge l i")
    case True
    then have can: "Range_CanMerge ?l ?i" by (simp add: Iter_CanMerge_def Iter_Range_def)
    let ?u = "\<lparr>InclusiveMin = min (InclusiveMin ?l) (InclusiveMin ?i), ExclusiveMax = max (ExclusiveMax ?l) (ExclusiveMax ?i)\<rparr>"
    have "Iter_Merge l i = Inr (NewIterator ?u)"
      using True Range_Merge_eq [OF v can] by (simp add: Iter_Merge_def Iter_Range_def)
    moreover have "{k. ContainsKey ?u k} = {k. ContainsKey ?l k} \<union> {k. ContainsKey ?i k}"
      using v can by (auto simp: range_simps valid_range_def min_def max_def)
    ultimately show ?thesis
      using True assms(1) v le snoc
      by (auto simp: appendIterator_def starts_after_def range_simps valid_range_def min_def max_def)
  next
    case False
    then have "ExclusiveMax ?l < InclusiveMin ?i"
      using v le by (auto simp: Iter_CanMerge_def Iter_Range_def [symmetric] range_simps valid_range_def)
    moreover from assms(1) snoc v have "\<forall>j \<in> set ms. ExclusiveMax (Iter_Range j) < InclusiveMin ?i"
      using le by fastforce
    ultimately show ?thesis
      using False assms snoc by (auto simp: appendIterator_def starts_after_def)
  qed
qed

lemma append_iterators_ok:
  assumes "iters_ordered m" "iters_ordered its" "its \<noteq> [] \<longrightarrow> starts_after m (hd its)"
  shows "\<exists>m'. append_iterators m its = Inr m' \<and> iters_ordered m' \<and> cover m' = cover (m @ its) \<and>
           (\<forall>r. iters_within r (m @ its) \<longrightarrow> iters_within r m')"
  using assms
proof (induction its arbitrary: m)
  case (Cons i its)
  from Cons.prems have v: "valid_range (Iter_Range i)" "starts_after m i" by simp_all
  from appendIterator_ok [OF Cons.prems(1) v] obtain m1 where
    m1: "appendIterator m i = Inr m1" "iters_ordered m1" "cover m1 = cover (m @ [i])"
    "\<forall>j. InclusiveMin (Iter_Range i) \<le> InclusiveMin (Iter_Range j) \<longrightarrow> starts_after m1 j"
    "\<forall>r. iters_within r (m @ [i]) \<longrightarrow> iters_within r m1" by blast
  have "its \<noteq> [] \<longrightarrow> InclusiveMin (Iter_Range i) \<le> InclusiveMin (Iter_Range (hd its))"
    using Cons.prems(2) v(1) by (cases its) (auto simp: valid_range_def intro: less_imp_le order_trans)
  with m1(4) have "its \<noteq> [] \<longrightarrow> starts_after m1 (hd its)" by blast
  from Cons.IH [OF m1(2) _ this] Cons.prems(2) m1 show ?case by fastforce
qed simp

lemma merge_iterators_loop_ok:
  assumes "iters_ordered m" "iters_ordered cs" "iters_ordered is"
    and "cs \<noteq> [] \<longrightarrow> starts_after m (hd cs)" "is \<noteq> [] \<longrightarrow> starts_after m (hd is)"
  shows "\<exists>m'. merge_iterators_loop m cs is = Inr m' \<and> iters_ordered m' \<and>
           cover m' = cover m \<union> cover cs \<union> cover is \<and>
           (\<forall>r. iters_within r m \<and> iters_within r cs \<and> iters_within r is \<longrightarrow> iters_within r m')"
  using assms
proof (induction m cs "is" rule: merge_iterators_loop.induct)
  case (1 m c cs i "is")
  have next_start: "xs \<noteq> [] \<longrightarrow> InclusiveMin (Iter_Range x) \<le> InclusiveMin (Iter_Range (hd xs))"
    if "iters_ordered (x # xs)" for x :: "'a queue_iterator" and xs
    using that by (cases xs) (auto simp: valid_range_def intro: less_imp_le order_trans)
  show ?case
  proof (cases "InclusiveMin (Iter_Range c) < InclusiveMin (Iter_Range i)")
    case True
    from 1(4,6) appendIterator_ok [OF 1(3), of c] obtain m1 where
      m1: "appendIterator m c = Inr m1" "iters_ordered m1" "cover m1 = cover (m @ [c])"
      "\<forall>j. InclusiveMin (Iter_Range c) \<le> InclusiveMin (Iter_Range j) \<longrightarrow> starts_after m1 j"
      "\<forall>r. iters_within r (m @ [c]) \<longrightarrow> iters_within r m1" by auto
    from 1(4) next_start m1(4) have "cs \<noteq> [] \<longrightarrow> starts_after m1 (hd cs)" by blast
    moreover from m1(4) True have "starts_after m1 i" by simp
    ultimately show ?thesis using True 1(1) [of m1] 1(4,5) m1 by fastforce
  next
    case False
    from 1(5,7) appendIterator_ok [OF 1(3), of i] obtain m1 where
      m1: "appendIterator m i = Inr m1" "iters_ordered m1" "cover m1 = cover (m @ [i])"
      "\<forall>j. InclusiveMin (Iter_Range i) \<le> InclusiveMin (Iter_Range j) \<longrightarrow> starts_after m1 j"
      "\<forall>r. iters_within r (m @ [i]) \<longrightarrow> iters_within r m1" by auto
    from 1(5) next_start m1(4) have "is \<noteq> [] \<longrightarrow> starts_after m1 (hd is)" by blast
    moreover from m1(4) False have "starts_after m1 c" by simp
    ultimately show ?thesis using False 1(2) [of m1] 1(4,5) m1 by fastforce
  qed
next
  case (2 m "is")
  with append_iterators_ok [of m "is"] show ?case by auto
next
  case (3 m c cs)
  with append_iterators_ok [of m "c # cs"] show ?case by auto
qed

lemma validate_ordered:
  "iters_ordered its \<Longrightarrow> validateIteratorsOrderedDisjoint its = Inr ()"
  by (induction its rule: validateIteratorsOrderedDisjoint.induct) auto

lemma mergeIterators_ok:
  assumes "iters_ordered (slice_iterators s)" "iters_ordered (slice_iterators q)"
  shows "\<exists>m. mergeIterators s q = Inr m \<and> iters_ordered m \<and>
           cover m = cover (slice_iterators s) \<union> cover (slice_iterators q) \<and>
           (\<forall>r. iters_within r (slice_iterators s) \<and> iters_within r (slice_iterators q) \<longrightarrow> iters_within r m)"
  using merge_iterators_loop_ok [of "[]" "slice_iterators s" "slice_iterators q"] assms
  by (auto simp: mergeIterators_def starts_after_def validate_ordered)

section \<open>The invariant of a slice and the work it holds\<close>

definition slice_inv :: "grouper \<Rightarrow> 'e queue_slice \<Rightarrow> bool" where
  "slice_inv g s \<longleftrightarrow>
     \<not> slice_destroyed s \<and> valid_scope (slice_scope s) \<and>
     iters_ordered (slice_iterators s) \<and> iters_within (slice_range s) (slice_iterators s) \<and>
     tracker_safe (slice_tracker s) \<and> trackerGrouper (slice_tracker s) = g \<and>
     (\<forall>k e. tracked (slice_tracker s) k = Some e \<longrightarrow> Scope_Contains (slice_scope s) (GetTask e) \<and> valid_key (exec_key e))"

text \<open>A slice still loads a task if the task is in its scope and in the range of an iterator.\<close>

definition loads :: "'e queue_slice \<Rightarrow> task \<Rightarrow> bool" where
  "loads s t \<longleftrightarrow> Scope_Contains (slice_scope s) t \<and> GetKey t \<in> cover (slice_iterators s)"

definition holds :: "'e queue_slice \<Rightarrow> task_key \<Rightarrow> executable \<Rightarrow> bool" where
  "holds s k e \<longleftrightarrow> tracked (slice_tracker s) k = Some e"

text \<open>
  \<open>keeps_work ss rs\<close>: what \<open>ss\<close> would still load is loaded by one of \<open>rs\<close>, the same keys are
  tracked, and every executable tracked in \<open>rs\<close> comes from \<open>ss\<close>.
\<close>

definition keeps_work :: "'e queue_slice list \<Rightarrow> 'e queue_slice list \<Rightarrow> bool" where
  "keeps_work ss rs \<longleftrightarrow>
     (\<forall>t. (\<exists>s \<in> set ss. loads s t) \<longrightarrow> (\<exists>r \<in> set rs. loads r t)) \<and>
     (\<forall>k. (\<exists>s \<in> set ss. \<exists>e. holds s k e) \<longleftrightarrow> (\<exists>r \<in> set rs. \<exists>e. holds r k e)) \<and>
     (\<forall>r \<in> set rs. \<forall>k e. holds r k e \<longrightarrow> (\<exists>s \<in> set ss. holds s k e))"

lemma keeps_workI:
  assumes "\<And>s t. s \<in> set ss \<Longrightarrow> loads s t \<Longrightarrow> \<exists>r \<in> set rs. loads r t"
    and "\<And>s k e. s \<in> set ss \<Longrightarrow> holds s k e \<Longrightarrow> \<exists>r \<in> set rs. \<exists>e'. holds r k e'"
    and "\<And>r k e. r \<in> set rs \<Longrightarrow> holds r k e \<Longrightarrow> \<exists>s \<in> set ss. holds s k e"
  shows "keeps_work ss rs"
  unfolding keeps_work_def using assms by (intro conjI; blast)

lemma keeps_work_refl: "keeps_work ss ss"
  by (auto simp: keeps_work_def)

lemma keeps_work_trans: "keeps_work as bs \<Longrightarrow> keeps_work bs cs \<Longrightarrow> keeps_work as cs"
  unfolding keeps_work_def by (intro conjI; meson)

lemma keeps_work_append:
  "keeps_work as bs \<Longrightarrow> keeps_work cs ds \<Longrightarrow> keeps_work (as @ cs) (bs @ ds)"
  unfolding keeps_work_def set_append by (intro conjI; blast)

lemma keeps_work_chain:
  "keeps_work as bs \<Longrightarrow> keeps_work cs ds \<Longrightarrow> set as = set as' \<Longrightarrow> set bs = set cs \<Longrightarrow>
   set ds = set ds' \<Longrightarrow> keeps_work as' ds'"
  by (rule keeps_work_trans [of as' cs ds']) (simp_all add: keeps_work_def)

lemma slice_inv_max: "slice_inv g s \<Longrightarrow> ExclusiveMax (slice_range s) \<le> MaximumKey"
  by (simp add: slice_inv_def valid_scope_def valid_range_def valid_key_bounds)

lemma slice_inv_no_work:
  assumes "slice_inv g s" "Scope_IsEmpty (slice_scope s)"
  shows "\<not> loads s t" "\<not> holds s k e"
  using assms Scope_IsEmpty_Contains by (auto simp: slice_inv_def loads_def holds_def)

lemma keeps_work_drop_empty:
  assumes "\<forall>r \<in> set rs. slice_inv g r"
  shows "keeps_work rs (filter (\<lambda>r. \<not> Scope_IsEmpty (slice_scope r)) rs)"
  using slice_inv_no_work assms unfolding keeps_work_def set_filter by (intro conjI; blast)

lemma ensure_size_sel [simp]:
  "slice_destroyed (ensurePredicateSizeLimit cfg s) = slice_destroyed s"
  "slice_iterators (ensurePredicateSizeLimit cfg s) = slice_iterators s"
  "slice_tracker (ensurePredicateSizeLimit cfg s) = slice_tracker s"
  "slice_range (ensurePredicateSizeLimit cfg s) = slice_range s"
  by (simp_all add: ensurePredicateSizeLimit_def)

lemma ensure_size_Contains:
  "Scope_Contains (slice_scope s) t \<Longrightarrow> Scope_Contains (slice_scope (ensurePredicateSizeLimit cfg s)) t"
  by (simp add: ensurePredicateSizeLimit_def Scope_Contains_def)

lemma ensure_size_valid:
  "valid_scope (slice_scope s) \<Longrightarrow> valid_scope (slice_scope (ensurePredicateSizeLimit cfg s))"
  by (simp add: ensurePredicateSizeLimit_def valid_scope_def)

lemma ensure_size_inv [inv_intros]:
  "slice_inv g s \<Longrightarrow> slice_inv g (ensurePredicateSizeLimit cfg s)"
  by (auto simp: slice_inv_def ensure_size_Contains ensure_size_valid)

lemma newSlice_sel [simp]:
  "slice_destroyed (newSlice cfg sc its tr) = False"
  "slice_iterators (newSlice cfg sc its tr) = its"
  "slice_tracker (newSlice cfg sc its tr) = tr"
  "slice_range (newSlice cfg sc its tr) = ScopeRange sc"
  by (simp_all add: newSlice_def)

lemma newSlice_Contains:
  "Scope_Contains sc t \<Longrightarrow> Scope_Contains (slice_scope (newSlice cfg sc its tr)) t"
  unfolding newSlice_def by (rule ensure_size_Contains) simp

lemma newSlice_inv:
  assumes "valid_scope sc" "iters_ordered its" "iters_within (ScopeRange sc) its"
    and "tracker_safe tr" "trackerGrouper tr = g"
    and "\<And>k e. tracked tr k = Some e \<Longrightarrow> Scope_Contains sc (GetTask e) \<and> valid_key (exec_key e)"
  shows "slice_inv g (newSlice cfg sc its tr)"
  unfolding newSlice_def by (rule ensure_size_inv) (use assms in \<open>simp add: slice_inv_def\<close>)

lemma NewSlice_inv:
  "valid_scope sc \<Longrightarrow> slice_inv g (NewSlice cfg sc g)"
  unfolding NewSlice_def
  by (rule ensure_size_inv)
    (simp add: slice_inv_def valid_scope_def tracker_safe_new range_simps)

section \<open>Splitting keeps the work\<close>

lemma range_eta [simp]:
  "\<lparr>InclusiveMin = InclusiveMin r, ExclusiveMax = ExclusiveMax r\<rparr> = (r :: task_range)"
  by (cases r) simp

lemma splitByRange_ok:
  assumes inv: "slice_inv g s" and can: "CanSplitByRange (slice_scope s) k" and key: "valid_key k"
  shows "\<exists>l r. splitByRange cfg s k = Inr (l, r) \<and> slice_inv g l \<and> slice_inv g r \<and>
     slice_range l = \<lparr>InclusiveMin = InclusiveMin (slice_range s), ExclusiveMax = k\<rparr> \<and>
     slice_range r = \<lparr>InclusiveMin = k, ExclusiveMax = ExclusiveMax (slice_range s)\<rparr> \<and>
     keeps_work [s] [l, r]"
proof -
  let ?a = "InclusiveMin (slice_range s)" and ?b = "ExclusiveMax (slice_range s)"
  from inv have v: "valid_scope (slice_scope s)" and its: "iters_ordered (slice_iterators s)"
    "iters_within (slice_range s) (slice_iterators s)"
    and tr: "tracker_safe (slice_tracker s)" "trackerGrouper (slice_tracker s) = g"
    and cont: "\<And>k e. tracked (slice_tracker s) k = Some e \<Longrightarrow> Scope_Contains (slice_scope s) (GetTask e)"
    and valid: "\<And>k e. tracked (slice_tracker s) k = Some e \<Longrightarrow> valid_key (exec_key e)"
    by (auto simp: slice_inv_def)
  from SplitByRange_ok [OF v can key] obtain ls rs where sc: "SplitByRange (slice_scope s) k = Inr (ls, rs)"
    "valid_scope ls" "valid_scope rs"
    "ScopeRange ls = \<lparr>InclusiveMin = ?a, ExclusiveMax = k\<rparr>"
    "ScopeRange rs = \<lparr>InclusiveMin = k, ExclusiveMax = ?b\<rparr>"
    "ScopePredicate ls = slice_predicate s" "ScopePredicate rs = slice_predicate s" by blast
  have bound: "?a \<le> k" "k \<le> ?b"
    using can v by (auto simp: CanSplitByRange_def valid_scope_def range_simps)
  have in_l: "Scope_Contains ls t \<longleftrightarrow> Scope_Contains (slice_scope s) t \<and> GetKey t < k"
    and in_r: "Scope_Contains rs t \<longleftrightarrow> Scope_Contains (slice_scope s) t \<and> k \<le> GetKey t" for t
    using sc bound by (auto simp: Scope_Contains_def range_simps)
  have "\<forall>k' e. tracked (slice_tracker s) k' = Some e \<longrightarrow>
      Scope_Contains ls (GetTask e) \<or> Scope_Contains rs (GetTask e)"
    using cont in_l in_r by (meson leI)
  from safe.tracker_split_ok [OF tr(1) this] obtain lt rt where
    t: "tracker_split (slice_tracker s) ls rs = Inr (lt, rt)" "tracker_safe lt" "tracker_safe rt"
    "trackerGrouper lt = g" "trackerGrouper rt = g"
    and split: "\<forall>k e. (tracked lt k = Some e \<longleftrightarrow>
          tracked (slice_tracker s) k = Some e \<and> Scope_Contains ls (GetTask e)) \<and>
        (tracked rt k = Some e \<longleftrightarrow>
          tracked (slice_tracker s) k = Some e \<and> \<not> Scope_Contains ls (GetTask e))"
    unfolding tr(2) by blast
  have "iters_within \<lparr>InclusiveMin = ?a, ExclusiveMax = ?b\<rparr> (slice_iterators s)"
    using its(2) by simp
  from split_iterators_ok [OF its(1) this key] obtain li ri where
    i: "split_iterators (ScopeRange ls) (ScopeRange rs) k (slice_iterators s) = Inr (li, ri)"
    "iters_ordered li" "iters_ordered ri" "iters_within (ScopeRange ls) li" "iters_within (ScopeRange rs) ri"
    "cover li = {x \<in> cover (slice_iterators s). x < k}"
    "cover ri = {x \<in> cover (slice_iterators s). k \<le> x}"
    unfolding sc by blast
  let ?l = "newSlice cfg ls li lt" and ?r = "newSlice cfg rs ri rt"
  have "slice_inv g ?l"
    by (rule newSlice_inv) (use sc(2) i t split valid in auto)
  moreover have "slice_inv g ?r"
  proof (rule newSlice_inv)
    show "Scope_Contains rs (GetTask e) \<and> valid_key (exec_key e)" if "tracked rt k' = Some e" for k' e
      using that split cont in_l in_r valid by (meson leI)
  qed (use sc(3) i t in auto)
  moreover have "keeps_work [s] [?l, ?r]"
  proof -
    have "loads s t \<longrightarrow> loads ?l t \<or> loads ?r t" for t
    proof
      assume t: "loads s t"
      show "loads ?l t \<or> loads ?r t"
      proof (cases "GetKey t < k")
        case True
        with t in_l have "Scope_Contains ls t" by (simp add: loads_def)
        with t True i(6) have "loads ?l t" by (simp add: loads_def newSlice_Contains)
        then show ?thesis ..
      next
        case False
        with t in_r have "Scope_Contains rs t" by (simp add: loads_def)
        with t False i(7) have "loads ?r t" by (simp add: loads_def newSlice_Contains)
        then show ?thesis ..
      qed
    qed
    moreover have "holds ?l k' e \<or> holds ?r k' e \<longleftrightarrow> holds s k' e" for k' e
      using split by (auto simp: holds_def)
    ultimately show ?thesis by (intro keeps_workI; simp; blast)
  qed
  moreover have "splitByRange cfg s k = Inr (?l, ?r)"
    using sc t i by (simp add: splitByRange_def)
  ultimately show ?thesis using sc by auto
qed

lemma splitByPredicate_ok:
  assumes inv: "slice_inv g s" and p: "canonical p"
  shows "\<exists>a b. Slice_SplitByPredicate cfg s p = Inr (a, b) \<and> slice_inv g a \<and> slice_inv g b \<and>
     slice_range a = slice_range s \<and> slice_range b = slice_range s \<and> keeps_work [s] [a, b] \<and>
     (\<forall>k e. holds a k e \<longleftrightarrow> holds s k e \<and> Test p (GetTask e)) \<and>
     (\<forall>k e. holds b k e \<longleftrightarrow> holds s k e \<and> \<not> Test p (GetTask e))"
proof -
  from inv have v: "valid_scope (slice_scope s)" and its: "iters_ordered (slice_iterators s)"
    "iters_within (slice_range s) (slice_iterators s)"
    and tr: "tracker_safe (slice_tracker s)" "trackerGrouper (slice_tracker s) = g"
    and cont: "\<forall>k e. tracked (slice_tracker s) k = Some e \<longrightarrow> Scope_Contains (slice_scope s) (GetTask e)"
    and valid: "\<forall>k e. tracked (slice_tracker s) k = Some e \<longrightarrow> valid_key (exec_key e)"
    by (auto simp: slice_inv_def)
  obtain as bs where sc: "SplitByPredicate (slice_scope s) p = (as, bs)" by fastforce
  note ok = SplitByPredicate_ok [OF v p sc]
  have "\<forall>k e. tracked (slice_tracker s) k = Some e \<longrightarrow>
      Scope_Contains as (GetTask e) \<or> Scope_Contains bs (GetTask e)"
    using cont ok by blast
  from safe.tracker_split_ok [OF tr(1) this] obtain at bt where
    t: "tracker_split (slice_tracker s) as bs = Inr (at, bt)" "tracker_safe at" "tracker_safe bt"
    "trackerGrouper at = g" "trackerGrouper bt = g"
    and split: "\<forall>k e. (tracked at k = Some e \<longleftrightarrow>
          tracked (slice_tracker s) k = Some e \<and> Scope_Contains as (GetTask e)) \<and>
        (tracked bt k = Some e \<longleftrightarrow>
          tracked (slice_tracker s) k = Some e \<and> \<not> Scope_Contains as (GetTask e))"
    unfolding tr(2) by blast
  let ?a = "newSlice cfg as (slice_iterators s) at"
  let ?b = "newSlice cfg bs (map Remaining (slice_iterators s)) bt"
  have inv': "slice_inv g ?a" "slice_inv g ?b"
    by (rule newSlice_inv; use ok its t split cont valid in auto)+
  have loads: "loads s x \<longrightarrow> loads ?a x \<or> loads ?b x" for x
    using ok newSlice_Contains [of as x] newSlice_Contains [of bs x]
    by (cases "Test p x") (auto simp: loads_def)
  have holds: "holds ?a k e \<longleftrightarrow> holds s k e \<and> Test p (GetTask e)"
    "holds ?b k e \<longleftrightarrow> holds s k e \<and> \<not> Test p (GetTask e)" for k e
    using split ok cont by (auto simp: holds_def)
  have "keeps_work [s] [?a, ?b]"
    using loads holds by (intro keeps_workI; simp; blast)
  moreover have "Slice_SplitByPredicate cfg s p = Inr (?a, ?b)"
    using sc t inv by (simp add: Slice_SplitByPredicate_def stateSanityCheck_def slice_inv_def)
  ultimately show ?thesis using inv' ok holds by auto
qed

section \<open>Merging keeps the work\<close>

lemma merge_trackers_ok:
  assumes "slice_inv g s" "slice_inv g q"
  shows "tracker_safe (tracker_merge (slice_tracker s) (slice_tracker q))"
    and "trackerGrouper (tracker_merge (slice_tracker s) (slice_tracker q)) = g"
    and "tracked (tracker_merge (slice_tracker s) (slice_tracker q)) k = Some e \<Longrightarrow>
      tracked (slice_tracker s) k = Some e \<or> tracked (slice_tracker q) k = Some e"
    and "tracked (slice_tracker s) k = Some e \<or> tracked (slice_tracker q) k = Some e \<Longrightarrow>
      \<exists>e'. tracked (tracker_merge (slice_tracker s) (slice_tracker q)) k = Some e'"
proof -
  from assms have safe: "tracker_safe (slice_tracker s)" "tracker_safe (slice_tracker q)"
    and g: "trackerGrouper (slice_tracker q) = trackerGrouper (slice_tracker s)"
    "trackerGrouper (slice_tracker s) = g"
    by (auto simp: slice_inv_def)
  note gm = safe [THEN safe.good_go_map]
  show "tracker_safe (tracker_merge (slice_tracker s) (slice_tracker q))"
    by (rule tracker_merge_safe [OF safe g(1)])
  show "trackerGrouper (tracker_merge (slice_tracker s) (slice_tracker q)) = g"
    by (simp add: g)
  show "tracked (slice_tracker s) k = Some e \<or> tracked (slice_tracker q) k = Some e"
    if "tracked (tracker_merge (slice_tracker s) (slice_tracker q)) k = Some e"
    by (rule tracker_merge_from [OF gm that])
  show "\<exists>e'. tracked (tracker_merge (slice_tracker s) (slice_tracker q)) k = Some e'"
    if "tracked (slice_tracker s) k = Some e \<or> tracked (slice_tracker q) k = Some e"
    using that tracker_merge_dom [OF gm] by blast
qed

text \<open>The three merges build their result in the same way from a scope that contains both.\<close>

lemma merged_slice_ok:
  assumes inv: "slice_inv g s" "slice_inv g q"
    and v: "valid_scope sc"
    and scope: "\<And>t. Scope_Contains (slice_scope s) t \<or> Scope_Contains (slice_scope q) t \<Longrightarrow> Scope_Contains sc t"
    and range: "ContainsRange (ScopeRange sc) (slice_range s)" "ContainsRange (ScopeRange sc) (slice_range q)"
  shows "\<exists>its. mergeIterators s q = Inr its \<and>
     slice_inv g (newSlice cfg sc its (tracker_merge (slice_tracker s) (slice_tracker q))) \<and>
     keeps_work [s, q] [newSlice cfg sc its (tracker_merge (slice_tracker s) (slice_tracker q))]"
proof -
  from inv mergeIterators_ok [of s q] obtain its where
    its: "mergeIterators s q = Inr its" "iters_ordered its"
    "cover its = cover (slice_iterators s) \<union> cover (slice_iterators q)"
    and within: "\<forall>r. iters_within r (slice_iterators s) \<and> iters_within r (slice_iterators q) \<longrightarrow>
      iters_within r its"
    by (auto simp: slice_inv_def)
  let ?m = "newSlice cfg sc its (tracker_merge (slice_tracker s) (slice_tracker q))"
  note tr = merge_trackers_ok [OF inv]
  have "iters_within (ScopeRange sc) its"
    using within inv range iters_within_mono by (auto simp: slice_inv_def)
  then have "slice_inv g ?m"
    using v its(2) tr(1,2)
  proof (intro newSlice_inv)
    show "Scope_Contains sc (GetTask e) \<and> valid_key (exec_key e)"
      if "tracked (tracker_merge (slice_tracker s) (slice_tracker q)) k = Some e" for k e
      using tr(3) [OF that] scope inv by (auto simp: slice_inv_def)
  qed
  moreover have "loads ?m t" if "loads s t \<or> loads q t" for t
  proof -
    from that scope have "Scope_Contains sc t" by (auto simp: loads_def)
    with that its(3) show ?thesis by (auto simp: loads_def newSlice_Contains)
  qed
  then have "keeps_work [s, q] [?m]"
    using tr(3,4) by (intro keeps_workI; simp add: holds_def; blast)
  ultimately show ?thesis using its(1) by blast
qed

lemma mergeByRange_ok:
  assumes "slice_inv g s" "slice_inv g q" "CanMergeByRange (slice_scope s) (slice_scope q)"
  shows "\<exists>m. mergeByRange cfg s q = Inr m \<and> slice_inv g m \<and> keeps_work [s, q] [m]"
proof -
  from assms have v: "valid_scope (slice_scope s)" "valid_scope (slice_scope q)"
    by (auto simp: slice_inv_def)
  from MergeByRange_ok [OF v assms(3)] obtain sc where sc:
    "MergeByRange (slice_scope s) (slice_scope q) = Inr sc" "valid_scope sc"
    "ContainsRange (ScopeRange sc) (slice_range s)" "ContainsRange (ScopeRange sc) (slice_range q)"
    by (auto simp: range_simps)
  from merged_slice_ok [OF assms(1,2) sc(2) _ sc(3,4), of cfg] MergeByRange_Contains [OF v sc(1)] sc(1)
  show ?thesis by (auto simp: mergeByRange_def)
qed

lemma mergeByPredicate_ok:
  assumes "slice_inv g s" "slice_inv g q" "slice_range s = slice_range q"
  shows "\<exists>m. mergeByPredicate cfg s q = Inr m \<and> slice_inv g m \<and> keeps_work [s, q] [m] \<and>
     slice_range m = slice_range s"
proof -
  from assms have v: "valid_scope (slice_scope s)" "valid_scope (slice_scope q)"
    and can: "CanMergeByPredicate (slice_scope s) (slice_scope q)"
    by (auto simp: slice_inv_def CanMergeByPredicate_def Range_Equals_eq)
  from MergeByPredicate_ok [OF v can] obtain sc where sc:
    "MergeByPredicate (slice_scope s) (slice_scope q) = Inr sc" "valid_scope sc"
    "ScopeRange sc = slice_range s"
    "\<forall>t. Scope_Contains sc t \<longleftrightarrow> Scope_Contains (slice_scope s) t \<or> Scope_Contains (slice_scope q) t"
    by blast
  have "ContainsRange (ScopeRange sc) (slice_range s)" "ContainsRange (ScopeRange sc) (slice_range q)"
    using sc(3) assms(3) by (simp_all add: range_simps)
  from merged_slice_ok [OF assms(1,2) sc(2) _ this, of cfg] sc show ?thesis
    by (auto simp: mergeByPredicate_def)
qed

lemma CompactWithSlice_ok:
  assumes "slice_inv g s" "slice_inv g q"
  shows "\<exists>m. CompactWithSlice cfg s q = Inr m \<and> slice_inv g m \<and> keeps_work [s, q] [m] \<and>
     slice_range m = \<lparr>InclusiveMin = min (InclusiveMin (slice_range s)) (InclusiveMin (slice_range q)),
                      ExclusiveMax = max (ExclusiveMax (slice_range s)) (ExclusiveMax (slice_range q))\<rparr>"
proof -
  let ?r = "\<lparr>InclusiveMin = min (InclusiveMin (slice_range s)) (InclusiveMin (slice_range q)),
             ExclusiveMax = max (ExclusiveMax (slice_range s)) (ExclusiveMax (slice_range q))\<rparr>"
  let ?sc = "NewScope ?r (OrPredicates (slice_predicate s) (slice_predicate q))"
  from assms have v: "valid_scope (slice_scope s)" "valid_scope (slice_scope q)"
    by (auto simp: slice_inv_def)
  then have "valid_range ?r" by (auto simp: valid_scope_def valid_range_def min_def max_def)
  then have new: "NewRange (MinKey (InclusiveMin (slice_range s)) (InclusiveMin (slice_range q)))
      (MaxKey (ExclusiveMax (slice_range s)) (ExclusiveMax (slice_range q))) = Inr ?r"
    unfolding NewRange_Inr_iff valid_range_def by simp
  have or: "canonical (OrPredicates (slice_predicate s) (slice_predicate q)) \<and>
      (\<forall>t. Test (OrPredicates (slice_predicate s) (slice_predicate q)) t \<longleftrightarrow>
           Test (slice_predicate s) t \<or> Test (slice_predicate q) t)"
    using AndOr_ok(2) v by (simp add: valid_scope_def)
  have "valid_scope ?sc"
    using or \<open>valid_range ?r\<close> by (simp add: valid_scope_def NewScope_def)
  moreover have "Scope_Contains ?sc t"
    if "Scope_Contains (slice_scope s) t \<or> Scope_Contains (slice_scope q) t" for t
    using that or
    by (auto simp: Scope_Contains_def NewScope_def range_simps min_le_iff_disj less_max_iff_disj)
  moreover have "ContainsRange (ScopeRange ?sc) (slice_range s)" "ContainsRange (ScopeRange ?sc) (slice_range q)"
    by (simp_all add: NewScope_def range_simps)
  ultimately obtain its where "mergeIterators s q = Inr its"
    "slice_inv g (newSlice cfg ?sc its (tracker_merge (slice_tracker s) (slice_tracker q)))"
    "keeps_work [s, q] [newSlice cfg ?sc its (tracker_merge (slice_tracker s) (slice_tracker q))]"
    using merged_slice_ok [OF assms, of ?sc cfg] by blast
  moreover from assms have "stateSanityCheck s = Inr ()" "stateSanityCheck q = Inr ()"
    by (auto simp: stateSanityCheck_def slice_inv_def)
  ultimately show ?thesis
    using new by (auto simp: CompactWithSlice_def NewScope_def)
qed

text \<open>The slices of a list in the order of their ranges, which may touch but do not overlap.\<close>

definition slices_ordered :: "'e queue_slice list \<Rightarrow> bool" where
  "slices_ordered ss \<longleftrightarrow>
     sorted_wrt (\<lambda>a b. ExclusiveMax (slice_range a) \<le> InclusiveMin (slice_range b)) ss"

lemma slices_ordered_filter: "slices_ordered ss \<Longrightarrow> slices_ordered (filter P ss)"
  unfolding slices_ordered_def by (rule sorted_wrt_filter)

lemma appendMergedSlice_filter:
  "appendMergedSlice ms s = ms @ filter (\<lambda>r. \<not> Scope_IsEmpty (slice_scope r)) [s]"
  by (simp add: appendMergedSlice_def)

text \<open>
  The outcome of a merge; the bounds say that the results start no earlier and end no later
  than the two slices, and that none starts after both the later start and the earlier end.
\<close>

definition merge_ok ::
    "grouper \<Rightarrow> 'e queue_slice \<Rightarrow> 'e queue_slice \<Rightarrow> queue_panic + 'e queue_slice list \<Rightarrow> bool" where
  "merge_ok g s q res \<longleftrightarrow>
     (\<exists>rs. res = Inr rs \<and> (\<forall>r \<in> set rs. slice_inv g r) \<and> slices_ordered rs \<and> keeps_work [s, q] rs \<and>
        (\<forall>r \<in> set rs.
           min (InclusiveMin (slice_range s)) (InclusiveMin (slice_range q)) \<le> InclusiveMin (slice_range r) \<and>
           ExclusiveMax (slice_range r) \<le> max (ExclusiveMax (slice_range s)) (ExclusiveMax (slice_range q)) \<and>
           InclusiveMin (slice_range r) \<le>
             max (max (InclusiveMin (slice_range s)) (InclusiveMin (slice_range q)))
                 (min (ExclusiveMax (slice_range s)) (ExclusiveMax (slice_range q)))))"

lemma merge_okI:
  assumes "\<forall>r \<in> set rs. slice_inv g r" "slices_ordered rs" "keeps_work [s, q] rs"
    and "\<forall>r \<in> set rs.
           min (InclusiveMin (slice_range s)) (InclusiveMin (slice_range q)) \<le> InclusiveMin (slice_range r) \<and>
           ExclusiveMax (slice_range r) \<le> max (ExclusiveMax (slice_range s)) (ExclusiveMax (slice_range q)) \<and>
           InclusiveMin (slice_range r) \<le>
             max (max (InclusiveMin (slice_range s)) (InclusiveMin (slice_range q)))
                 (min (ExclusiveMax (slice_range s)) (ExclusiveMax (slice_range q)))"
  shows "merge_ok g s q (Inr (filter (\<lambda>r. \<not> Scope_IsEmpty (slice_scope r)) rs))"
  using assms slices_ordered_filter [OF assms(2)]
    keeps_work_trans [OF assms(3) keeps_work_drop_empty [OF assms(1)]]
  by (simp add: merge_ok_def)

lemma CanMergeWithSlice_eq:
  assumes "slice_inv g s" "slice_inv g q"
  shows "CanMergeWithSlice s q = Inr (Range_CanMerge (slice_range s) (slice_range q))"
  using assms by (simp add: CanMergeWithSlice_def Slice_Scope_def stateSanityCheck_def slice_inv_def)

lemma merge_in_order_ok:
  assumes inv: "slice_inv g s" "slice_inv g q"
    and can: "Range_CanMerge (slice_range s) (slice_range q)"
    and le: "InclusiveMin (slice_range s) \<le> InclusiveMin (slice_range q)"
  shows "merge_ok g s q (merge_in_order cfg s q)"
proof (cases "CanMergeByRange (slice_scope s) (slice_scope q)")
  case True
  from mergeByRange_ok [OF inv True, of cfg] obtain m where
    m: "mergeByRange cfg s q = Inr m" "slice_inv g m" "keeps_work [s, q] [m]" by blast
  have "MergeByRange (slice_scope s) (slice_scope q) = Inr sc \<Longrightarrow> ScopeRange sc =
      \<lparr>InclusiveMin = min (InclusiveMin (slice_range s)) (InclusiveMin (slice_range q)),
       ExclusiveMax = max (ExclusiveMax (slice_range s)) (ExclusiveMax (slice_range q))\<rparr>" for sc
    using MergeByRange_ok [OF _ _ True] inv by (auto simp: slice_inv_def)
  then have "slice_range m =
      \<lparr>InclusiveMin = min (InclusiveMin (slice_range s)) (InclusiveMin (slice_range q)),
       ExclusiveMax = max (ExclusiveMax (slice_range s)) (ExclusiveMax (slice_range q))\<rparr>"
    using m(1) by (auto simp: mergeByRange_def bind_result_Inr_iff)
  with m True CanMergeWithSlice_eq [OF inv] can show ?thesis
    by (auto simp: merge_in_order_def merge_ok_def slices_ordered_def le_max_iff_disj min_le_iff_disj)
next
  case False
  let ?qmin = "InclusiveMin (slice_range q)" and ?qmax = "ExclusiveMax (slice_range q)"
    and ?smin = "InclusiveMin (slice_range s)" and ?smax = "ExclusiveMax (slice_range s)"
  from inv have v: "?smin \<le> ?smax" "?qmin \<le> ?qmax"
    by (auto simp: slice_inv_def valid_scope_def valid_range_def)
  have key: "valid_key ?smax" "valid_key ?qmin" "valid_key ?qmax"
    using inv by (auto simp: slice_inv_def valid_scope_def valid_range_def)
  from can have touch: "?qmin \<le> ?smax" by (simp add: range_simps)
  have split_iff: "slice_inv g x \<Longrightarrow> CanSplitByRange (slice_scope x) k \<longleftrightarrow>
      InclusiveMin (slice_range x) \<le> k \<and> k \<le> ExclusiveMax (slice_range x)" for x :: "'a queue_slice" and k
    by (simp add: CanSplitByRange_def slice_inv_def valid_scope_def Range_CanSplit_iff)
  from splitByRange_ok [OF inv(1) _ key(2), of cfg] le touch obtain l r where
    lr: "splitByRange cfg s ?qmin = Inr (l, r)" "slice_inv g l" "slice_inv g r" "keeps_work [s] [l, r]"
    and rl: "slice_range l = \<lparr>InclusiveMin = ?smin, ExclusiveMax = ?qmin\<rparr>"
    and rr: "slice_range r = \<lparr>InclusiveMin = ?qmin, ExclusiveMax = ?smax\<rparr>"
    by (auto simp: split_iff [OF inv(1)])
  have sane: "Slice_CanSplitByRange q k = Inr (?qmin \<le> k \<and> k \<le> ?qmax)" for k
    using inv(2) split_iff [OF inv(2)]
    by (simp add: Slice_CanSplitByRange_def stateSanityCheck_def slice_inv_def)
  show ?thesis
  proof (cases "?smax \<le> ?qmax")
    case True
    from splitByRange_ok [OF inv(2) _ key(1), of cfg] True touch obtain ql qr where
      q: "splitByRange cfg q ?smax = Inr (ql, qr)" "slice_inv g ql" "slice_inv g qr" "keeps_work [q] [ql, qr]"
      and rql: "slice_range ql = \<lparr>InclusiveMin = ?qmin, ExclusiveMax = ?smax\<rparr>"
      and rqr: "slice_range qr = \<lparr>InclusiveMin = ?smax, ExclusiveMax = ?qmax\<rparr>"
      by (auto simp: split_iff [OF inv(2)])
    from mergeByPredicate_ok [OF lr(3) q(2), of cfg] rr rql obtain m where
      m: "mergeByPredicate cfg r ql = Inr m" "slice_inv g m" "keeps_work [r, ql] [m]"
      "slice_range m = slice_range r" by auto
    have "keeps_work [s, q] [l, m, qr]"
      by (rule keeps_work_chain [OF keeps_work_append [OF lr(4) q(4)]
            keeps_work_append [OF keeps_work_refl [of "[l, qr]"] m(3)]]) auto
    then have "merge_ok g s q (Inr (filter (\<lambda>r. \<not> Scope_IsEmpty (slice_scope r)) [l, m, qr]))"
      using lr(2) m(2,4) q(3) rl rr rqr le touch True v
      by (intro merge_okI) (auto simp: slices_ordered_def)
    moreover have "merge_in_order cfg s q = Inr (filter (\<lambda>r. \<not> Scope_IsEmpty (slice_scope r)) [l, m, qr])"
      using False can lr(1) q(1) m(1) rr touch True
      by (simp add: merge_in_order_def CanMergeWithSlice_eq [OF inv] sane appendMergedSlice_filter Let_def)
    ultimately show ?thesis by simp
  next
    case small: False
    have "CanSplitByRange (slice_scope r) ?qmax"
      using small v rr by (simp add: split_iff [OF lr(3)])
    from splitByRange_ok [OF lr(3) this key(3), of cfg] obtain rm rt where
      r: "splitByRange cfg r ?qmax = Inr (rm, rt)" "slice_inv g rm" "slice_inv g rt" "keeps_work [r] [rm, rt]"
      and rrm: "slice_range rm = slice_range q"
      and rrt: "slice_range rt = \<lparr>InclusiveMin = ?qmax, ExclusiveMax = ?smax\<rparr>"
      unfolding rr task_range.simps range_eta by blast
    from mergeByPredicate_ok [OF r(2) inv(2), of cfg] rrm obtain m where
      m: "mergeByPredicate cfg rm q = Inr m" "slice_inv g m" "keeps_work [rm, q] [m]"
      "slice_range m = slice_range rm" by auto
    have "keeps_work [s, q] [l, m, rt]"
    proof -
      have "keeps_work [s, q] [l, rm, rt, q]"
        by (rule keeps_work_chain [OF keeps_work_append [OF lr(4) keeps_work_refl [of "[q]"]]
              keeps_work_append [OF r(4) keeps_work_refl [of "[l, q]"]]]) auto
      then show ?thesis
        by (rule keeps_work_chain [OF _ keeps_work_append [OF m(3) keeps_work_refl [of "[l, rt]"]]]) auto
    qed
    then have "merge_ok g s q (Inr (filter (\<lambda>r. \<not> Scope_IsEmpty (slice_scope r)) [l, m, rt]))"
      using lr(2) m(2,4) r(3) rl rrm rrt le touch small v
      by (intro merge_okI) (auto simp: slices_ordered_def)
    moreover have "merge_in_order cfg s q = Inr (filter (\<lambda>r. \<not> Scope_IsEmpty (slice_scope r)) [l, m, rt])"
      using False can lr(1) r(1) m(1) rr touch small
      by (simp add: merge_in_order_def CanMergeWithSlice_eq [OF inv] sane appendMergedSlice_filter Let_def)
    ultimately show ?thesis by simp
  qed
qed

lemma MergeWithSlice_ok:
  assumes inv: "slice_inv g s" "slice_inv g q" and can: "Range_CanMerge (slice_range s) (slice_range q)"
  shows "merge_ok g s q (MergeWithSlice cfg s q)"
proof (cases "InclusiveMin (slice_range s) \<le> InclusiveMin (slice_range q)")
  case True
  with merge_in_order_ok [OF inv can, of cfg] inv show ?thesis
    by (auto simp: MergeWithSlice_def Slice_Scope_def stateSanityCheck_def slice_inv_def)
next
  case False
  from can have "Range_CanMerge (slice_range q) (slice_range s)" by (simp add: range_simps)
  with merge_in_order_ok [OF inv(2,1), of cfg] False
  have "merge_ok g q s (merge_in_order cfg q s)" by simp
  then have "merge_ok g s q (merge_in_order cfg q s)"
    unfolding merge_ok_def keeps_work_def by (simp add: disj_commute conj_commute min.commute max.commute)
  with False inv show ?thesis
    by (auto simp: MergeWithSlice_def Slice_Scope_def stateSanityCheck_def slice_inv_def)
qed

text \<open>
  C12. Merging two slices whose ranges overlap or touch never panics: the resulting slices
  satisfy the slice invariant, their ranges are in order and do not overlap, every task that
  either slice still had to load is loaded by one of them, and they track the same keys with
  executables of the two slices.
\<close>

theorem MergeWithSlice_keeps_work:
  assumes "slice_inv g s" "slice_inv g q" "Range_CanMerge (slice_range s) (slice_range q)"
  shows "\<exists>rs. MergeWithSlice cfg s q = Inr rs \<and> (\<forall>r \<in> set rs. slice_inv g r) \<and>
     slices_ordered rs \<and> keeps_work [s, q] rs"
  using MergeWithSlice_ok [OF assms, of cfg] unfolding merge_ok_def by blast

text \<open>
  Splitting a slice by range, at a key within the range, or by predicate, never panics and
  keeps all the work of the slice in two slices that satisfy the slice invariant.
\<close>

theorem Slice_Split_keeps_work:
  assumes "slice_inv g s"
  shows "(\<forall>k. valid_key k \<and> InclusiveMin (slice_range s) \<le> k \<and> k \<le> ExclusiveMax (slice_range s) \<longrightarrow>
            (\<exists>l r. Slice_SplitByRange cfg s k = Inr (l, r) \<and> slice_inv g l \<and> slice_inv g r \<and>
                   slices_ordered [l, r] \<and> keeps_work [s] [l, r])) \<and>
         (\<forall>p. canonical p \<longrightarrow>
            (\<exists>a b. Slice_SplitByPredicate cfg s p = Inr (a, b) \<and> slice_inv g a \<and> slice_inv g b \<and>
                   slice_range a = slice_range s \<and> slice_range b = slice_range s \<and>
                   keeps_work [s] [a, b]))"
proof (intro conjI allI impI)
  fix k assume k: "valid_key k \<and> InclusiveMin (slice_range s) \<le> k \<and> k \<le> ExclusiveMax (slice_range s)"
  with assms have can: "CanSplitByRange (slice_scope s) k"
    by (simp add: CanSplitByRange_def slice_inv_def valid_scope_def Range_CanSplit_iff)
  from splitByRange_ok [OF assms can, of cfg] assms can k
  show "\<exists>l r. Slice_SplitByRange cfg s k = Inr (l, r) \<and> slice_inv g l \<and> slice_inv g r \<and>
      slices_ordered [l, r] \<and> keeps_work [s] [l, r]"
    by (auto simp: Slice_SplitByRange_def Slice_CanSplitByRange_def stateSanityCheck_def
        slice_inv_def slices_ordered_def)
next
  fix p assume "canonical p"
  from splitByPredicate_ok [OF assms this, of cfg]
  show "\<exists>a b. Slice_SplitByPredicate cfg s p = Inr (a, b) \<and> slice_inv g a \<and> slice_inv g b \<and>
      slice_range a = slice_range s \<and> slice_range b = slice_range s \<and> keeps_work [s] [a, b]"
    by blast
qed

section \<open>Shrinking and clearing lose no task\<close>

lemma group_predicate_ok:
  assumes "\<forall>k \<in> set ks. key_of_grouper g k"
  shows "\<exists>p. GroupPredicate g ks = Inr p \<and> canonical p \<and> (\<forall>t. GroupKey g t \<in> set ks \<longrightarrow> Test p t)"
proof (cases g)
  case GrouperNamespaceID
  have "\<exists>ids. namespace_ids ks = Inr ids \<and> (\<forall>n. NamespaceKey n \<in> set ks \<longrightarrow> n \<in> set ids)"
    using assms unfolding GrouperNamespaceID
    by (induction ks rule: namespace_ids.induct) auto
  with GrouperNamespaceID show ?thesis by (auto simp: NewNamespacePredicate_def)
next
  case GrouperStateMachineNamespaceIDAndDestination
  have "\<exists>gs. outbound_groups ks = Inr gs \<and> (\<forall>n. OutboundKey n \<in> set ks \<longrightarrow> n \<in> set gs)"
    using assms unfolding GrouperStateMachineNamespaceIDAndDestination
    by (induction ks rule: outbound_groups.induct) auto
  moreover have "KeyTyped t = outbound_group t" for t
    by (simp add: KeyTyped_def outbound_group_def Let_def)
  ultimately show ?thesis using GrouperStateMachineNamespaceIDAndDestination
    by (auto simp: NewOutboundTaskPredicate_def)
qed

lemma within_first:
  assumes "iters_ordered (i # its)" "iters_within r (i # its)"
  shows "iters_within (r\<lparr>InclusiveMin := InclusiveMin (Iter_Range i)\<rparr>) (i # its)"
proof -
  have "InclusiveMin (Iter_Range i) \<le> InclusiveMin (Iter_Range j)" if "j \<in> set its" for j
    using assms(1) that by (auto simp: valid_range_def dest!: bspec)
  with assms show ?thesis by (auto simp: iters_within_def list_all_iff range_simps)
qed

lemma iters_within_lower:
  "iters_within (r\<lparr>InclusiveMin := a\<rparr>) its \<Longrightarrow> b \<le> a \<Longrightarrow> iters_within (r\<lparr>InclusiveMin := b\<rparr>) its"
  by (rule iters_within_mono) (auto simp: range_simps)

lemma shrinkRange_new_min:
  assumes inv: "slice_inv g s" and max: "ExclusiveMax (slice_range s) \<le> MaximumKey"
    and shrink: "tracker_shrink (slice_tracker s) = (tr', pmin, n)"
    and imin: "imin = (case slice_iterators s of [] \<Rightarrow> MaximumKey | i # _ \<Rightarrow> InclusiveMin (Iter_Range i))"
    and newMin: "newMin = (if min pmin imin = MaximumKey then ExclusiveMax (slice_range s) else min pmin imin)"
  shows "InclusiveMin (slice_range s) \<le> newMin" "newMin \<le> ExclusiveMax (slice_range s)"
    and "tracked tr' k = Some e \<Longrightarrow> newMin \<le> k"
    and "iters_within ((slice_range s)\<lparr>InclusiveMin := newMin\<rparr>) (slice_iterators s)"
    and "valid_key newMin"
proof -
  let ?min = "InclusiveMin (slice_range s)" and ?max = "ExclusiveMax (slice_range s)"
  from inv have v: "?min \<le> ?max" "valid_key ?max" and its: "iters_ordered (slice_iterators s)"
    "iters_within (slice_range s) (slice_iterators s)" and tr: "tracker_safe (slice_tracker s)"
    and valid: "\<And>k e. tracked (slice_tracker s) k = Some e \<Longrightarrow> valid_key (exec_key e)"
    and cont: "\<And>k e. tracked (slice_tracker s) k = Some e \<Longrightarrow> Scope_Contains (slice_scope s) (GetTask e)"
    by (auto simp: slice_inv_def valid_scope_def valid_range_def)
  note pmin = safe.tracker_shrink_min [OF tr shrink]
  have key: "?min \<le> k \<and> k < ?max \<and> pmin \<le> k \<and> valid_key k" if "tracked tr' k = Some e" for k e
  proof -
    from that have t: "tracked (slice_tracker s) k = Some e"
      using safe.tracker_shrink_tracked [OF tr shrink] by blast
    from that pmin(1) have "pmin \<le> k" by blast
    with cont [OF t] valid [OF t] tracked_key [OF safe.good_keyed [OF tr] t] show ?thesis
      by (auto simp: Scope_Contains_def exec_key_def range_simps)
  qed
  have i: "imin = MaximumKey \<or> (?min \<le> imin \<and> imin \<le> ?max \<and> valid_key imin)"
    using its by (auto simp: imin range_simps valid_range_def split: list.splits)
  from pmin(2) key have "pmin = MaximumKey \<or> (?min \<le> pmin \<and> pmin \<le> ?max \<and> valid_key pmin)"
    by (meson domD less_imp_le)
  with v i max show "?min \<le> newMin" "newMin \<le> ?max" "valid_key newMin"
    unfolding newMin by (auto simp: min_def split: if_splits)
  show "newMin \<le> k" if "tracked tr' k = Some e"
    using key [OF that] max unfolding newMin by (auto simp: min_def split: if_splits)
  show "iters_within ((slice_range s)\<lparr>InclusiveMin := newMin\<rparr>) (slice_iterators s)"
  proof (cases "slice_iterators s")
    case (Cons i rest)
    then have "imin = InclusiveMin (Iter_Range i)" by (simp add: imin)
    moreover have "InclusiveMin (Iter_Range i) \<le> ?max"
      using its Cons by (auto simp: valid_range_def range_simps)
    ultimately have "newMin \<le> InclusiveMin (Iter_Range i)"
      using max unfolding newMin by (auto simp: min_def split: if_splits)
    with its within_first show ?thesis unfolding Cons by (blast intro: iters_within_lower)
  qed simp
qed

lemma shrinkRange_ok:
  assumes inv: "slice_inv g s" and max: "ExclusiveMax (slice_range s) \<le> MaximumKey"
    and sh: "shrinkRange s = (s', n)"
  shows "slice_inv g s' \<and> slice_iterators s' = slice_iterators s \<and>
     InclusiveMin (slice_range s) \<le> InclusiveMin (slice_range s') \<and>
     ExclusiveMax (slice_range s') = ExclusiveMax (slice_range s) \<and>
     (\<forall>t. loads s t \<longrightarrow> loads s' t) \<and>
     (\<forall>k e. holds s' k e \<longleftrightarrow> holds s k e \<and> State e \<noteq> TaskStateAcked)"
proof -
  from inv have v: "valid_scope (slice_scope s)" and tr: "tracker_safe (slice_tracker s)"
    and cont: "\<And>k e. tracked (slice_tracker s) k = Some e \<Longrightarrow> Scope_Contains (slice_scope s) (GetTask e) \<and> valid_key (exec_key e)"
    by (auto simp: slice_inv_def)
  obtain tr' pmin where shrink: "tracker_shrink (slice_tracker s) = (tr', pmin, n)"
    using sh by (auto simp: shrinkRange_def Let_def split: prod.splits)
  define imin where "imin = (case slice_iterators s of [] \<Rightarrow> MaximumKey | i # _ \<Rightarrow> InclusiveMin (Iter_Range i))"
  define newMin where
    "newMin = (if min pmin imin = MaximumKey then ExclusiveMax (slice_range s) else min pmin imin)"
  note facts = safe.tracker_shrink_ok [OF tr shrink]
    and tracked' = safe.tracker_shrink_tracked [OF tr shrink]
    and nm = shrinkRange_new_min [OF inv max shrink imin_def newMin_def]
  have s': "s' = s\<lparr>slice_tracker := tr',
      slice_scope := (slice_scope s)\<lparr>ScopeRange := (slice_range s)\<lparr>InclusiveMin := newMin\<rparr>\<rparr>\<rparr>"
    using sh unfolding newMin_def imin_def by (simp add: shrinkRange_def shrink Let_def)
  have "Scope_Contains (slice_scope s') (GetTask e) \<and> valid_key (exec_key e)" if "tracked tr' k = Some e" for k e
  proof -
    from that tracked' have t: "tracked (slice_tracker s) k = Some e" by blast
    with nm(3) [OF that] cont [OF t] tracked_key [OF safe.good_keyed [OF tr] t] show ?thesis
      by (auto simp: s' Scope_Contains_def range_simps exec_key_def)
  qed
  then have "slice_inv g s'"
    using inv v facts nm by (auto simp: s' slice_inv_def valid_scope_def valid_range_def)
  moreover have "loads s' t" if "loads s t" for t
    using that cover_within [OF nm(4), of "GetKey t"]
    by (auto simp: loads_def s' Scope_Contains_def)
  ultimately show ?thesis
    using nm(1) tracked' by (auto simp: s' holds_def)
qed

lemma shrinkPredicate_ok:
  assumes inv: "slice_inv g s"
  shows "\<exists>s'. shrinkPredicate cfg s = Inr s' \<and> slice_inv g s' \<and>
     slice_iterators s' = slice_iterators s \<and> slice_range s' = slice_range s \<and>
     slice_tracker s' = slice_tracker s \<and> (\<forall>t. loads s t \<longrightarrow> loads s' t)"
proof (cases "slice_iterators s \<noteq> [] \<or> length (pendingPerKey (slice_tracker s)) > shrinkPredicateMaxPendingKeys")
  case True
  with inv show ?thesis by (auto simp: shrinkPredicate_def)
next
  case False
  from inv have tr: "tracker_safe (slice_tracker s)" "trackerGrouper (slice_tracker s) = g"
    by (auto simp: slice_inv_def)
  then have "\<forall>k \<in> set (map fst (pendingPerKey (slice_tracker s))). key_of_grouper g k"
    by (auto simp: tracker_safe_def)
  from group_predicate_ok [OF this] obtain p where
    p: "GroupPredicate g (map fst (pendingPerKey (slice_tracker s))) = Inr p" "canonical p"
    and test: "\<And>t. GroupKey g t \<in> fst ` set (pendingPerKey (slice_tracker s)) \<Longrightarrow> Test p t"
    by auto
  let ?s = "s\<lparr>slice_scope := (slice_scope s)\<lparr>ScopePredicate := p\<rparr>\<rparr>"
  have "Scope_Contains (slice_scope ?s) (GetTask e)" if "tracked (slice_tracker s) k = Some e" for k e
    using safe_counter [OF tr(1) that] test inv that tr(2)
    by (auto simp: Scope_Contains_def group_of_def slice_inv_def)
  then have "slice_inv g ?s"
    using inv p(2) by (auto simp: slice_inv_def valid_scope_def)
  from ensure_size_inv [OF this, of cfg] False p(1) tr(2) show ?thesis
    by (auto simp: shrinkPredicate_def loads_def)
qed

lemma ShrinkScope_ok:
  assumes inv: "slice_inv g s" and max: "ExclusiveMax (slice_range s) \<le> MaximumKey"
  shows "\<exists>s' n. ShrinkScope cfg s = Inr (s', n) \<and> slice_inv g s' \<and>
     slice_iterators s' = slice_iterators s \<and>
     InclusiveMin (slice_range s) \<le> InclusiveMin (slice_range s') \<and>
     ExclusiveMax (slice_range s') = ExclusiveMax (slice_range s) \<and>
     (\<forall>t. loads s t \<longrightarrow> loads s' t) \<and>
     (\<forall>k e. holds s' k e \<longleftrightarrow> holds s k e \<and> State e \<noteq> TaskStateAcked)"
proof -
  obtain s1 n where s1: "shrinkRange s = (s1, n)" by fastforce
  note r = shrinkRange_ok [OF inv max s1]
  from shrinkPredicate_ok [of g s1 cfg] r obtain s2 where
    "shrinkPredicate cfg s1 = Inr s2" "slice_inv g s2"
    "slice_iterators s2 = slice_iterators s1" "slice_range s2 = slice_range s1"
    "slice_tracker s2 = slice_tracker s1" "\<forall>t. loads s1 t \<longrightarrow> loads s2 t" by blast
  with r s1 inv show ?thesis
    by (auto simp: ShrinkScope_def stateSanityCheck_def slice_inv_def holds_def)
qed

text \<open>
  C16. Shrinking the scope of a slice never panics, forgets exactly the
  acknowledged executables, only moves the lower bound of the range up, and keeps in scope
  every task that is still to be loaded and every executable that is not acknowledged.
\<close>

theorem ShrinkScope_safe:
  assumes "slice_inv g s"
  shows "\<exists>s' n. ShrinkScope cfg s = Inr (s', n) \<and> slice_inv g s' \<and>
     InclusiveMin (slice_range s) \<le> InclusiveMin (slice_range s') \<and>
     ExclusiveMax (slice_range s') = ExclusiveMax (slice_range s) \<and>
     (\<forall>t. loads s t \<longrightarrow> loads s' t) \<and>
     (\<forall>k e. holds s' k e \<longleftrightarrow> holds s k e \<and> State e \<noteq> TaskStateAcked) \<and>
     (\<forall>k e. holds s k e \<and> State e \<noteq> TaskStateAcked \<longrightarrow> Scope_Contains (slice_scope s') (GetTask e))"
proof -
  from ShrinkScope_ok [OF assms slice_inv_max [OF assms], of cfg] obtain s' n where s': "ShrinkScope cfg s = Inr (s', n)"
    "slice_inv g s'" "InclusiveMin (slice_range s) \<le> InclusiveMin (slice_range s')"
    "ExclusiveMax (slice_range s') = ExclusiveMax (slice_range s)" "\<forall>t. loads s t \<longrightarrow> loads s' t"
    "\<forall>k e. holds s' k e \<longleftrightarrow> holds s k e \<and> State e \<noteq> TaskStateAcked" by blast
  from s'(2) have "\<forall>k e. holds s' k e \<longrightarrow> Scope_Contains (slice_scope s') (GetTask e)"
    by (auto simp: slice_inv_def holds_def)
  with s' show ?thesis by blast
qed

lemma Slice_Clear_ok:
  assumes inv: "slice_inv g s" and max: "ExclusiveMax (slice_range s) \<le> MaximumKey"
  shows "\<exists>s' cancelled. Slice_Clear cfg s = Inr (s', cancelled) \<and> slice_inv g s' \<and>
     (\<forall>k e. \<not> holds s' k e) \<and> (\<forall>t. loads s t \<longrightarrow> loads s' t) \<and>
     (\<forall>k e. holds s k e \<and> State e \<noteq> TaskStateAcked \<longrightarrow>
        loads s' (GetTask e) \<and> Cancel e \<in> set cancelled) \<and>
     ExclusiveMax (slice_range s') = ExclusiveMax (slice_range s) \<and>
     InclusiveMin (slice_range s) \<le> InclusiveMin (slice_range s')"
proof -
  from ShrinkScope_ok [OF assms, of cfg] obtain s1 n where s1: "ShrinkScope cfg s = Inr (s1, n)"
    "slice_inv g s1" "slice_iterators s1 = slice_iterators s" "\<forall>t. loads s t \<longrightarrow> loads s1 t"
    "\<forall>k e. holds s1 k e \<longleftrightarrow> holds s k e \<and> State e \<noteq> TaskStateAcked"
    and b: "InclusiveMin (slice_range s) \<le> InclusiveMin (slice_range s1)"
    "ExclusiveMax (slice_range s1) = ExclusiveMax (slice_range s)" by blast
  let ?s = "s1\<lparr>slice_iterators := [NewIterator (slice_range s1)],
               slice_tracker := newExecutableTracker (trackerGrouper (slice_tracker s1))\<rparr>"
  let ?c = "map (Cancel \<circ> snd) (pendingExecutables (slice_tracker s1))"
  have eq: "Slice_Clear cfg s = Inr (?s, ?c)"
    using s1(1) by (simp add: Slice_Clear_def tracker_clear_def)
  have inv': "slice_inv g ?s"
    using s1(2) by (auto simp: slice_inv_def valid_scope_def tracker_safe_new range_simps)
  have all: "loads ?s t" if "Scope_Contains (slice_scope s1) t" for t
    using that by (simp add: loads_def Scope_Contains_def)
  have held: "loads ?s (GetTask e) \<and> Cancel e \<in> set ?c"
    if "holds s k e" "State e \<noteq> TaskStateAcked" for k e
  proof -
    from that s1(5) have h: "tracked (slice_tracker s1) k = Some e" by (auto simp: holds_def)
    then have "Cancel e \<in> set ?c" by (force dest: tracked_in_set)
    moreover from h s1(2) have "Scope_Contains (slice_scope s1) (GetTask e)"
      by (auto simp: slice_inv_def)
    ultimately show ?thesis using all by blast
  qed
  have "\<forall>t. loads s t \<longrightarrow> loads ?s t" using s1(4) all by (auto simp: loads_def)
  moreover have "\<forall>k e. \<not> holds ?s k e" by (simp add: holds_def)
  ultimately show ?thesis using eq inv' held b by auto
qed

text \<open>
  Clearing a slice cancels and forgets its executables and loses no task: whatever it still
  had to load or held unacknowledged is loaded again by the cleared slice.
\<close>

theorem Slice_Clear_reloads:
  assumes "slice_inv g s"
  shows "\<exists>s' cancelled. Slice_Clear cfg s = Inr (s', cancelled) \<and> slice_inv g s' \<and>
     (\<forall>k e. \<not> holds s' k e) \<and> (\<forall>t. loads s t \<longrightarrow> loads s' t) \<and>
     (\<forall>k e. holds s k e \<and> State e \<noteq> TaskStateAcked \<longrightarrow>
        loads s' (GetTask e) \<and> Cancel e \<in> set cancelled)"
  using Slice_Clear_ok [OF assms slice_inv_max [OF assms], of cfg] by blast

section \<open>Selecting tasks\<close>

text \<open>
  The iterators of the slice read a store in key order;
  \<open>to_select\<close> are the tasks of the store the slice would still deliver, in order.
\<close>

definition slice_backed :: "'e fn_provider \<Rightarrow> task list \<Rightarrow> 'e queue_slice \<Rightarrow> bool" where
  "slice_backed provider db s \<longleftrightarrow>
     (\<forall>i \<in> set (slice_iterators s). iter_pending provider db i (in_range (Iter_Range i) db))"

definition unread :: "task list \<Rightarrow> 'e queue_slice \<Rightarrow> task list" where
  "unread db s = concat (map (\<lambda>i. in_range (Iter_Range i) db) (slice_iterators s))"

definition to_select :: "task list \<Rightarrow> 'e queue_slice \<Rightarrow> task list" where
  "to_select db s = filter (Test (slice_predicate s)) (unread db s)"

lemma tracker_add_grouper [simp]: "trackerGrouper (tracker_add t e) = trackerGrouper t"
  by (simp add: tracker_add_def)

lemma slice_inv_drop_iter:
  "slice_inv g s \<Longrightarrow> slice_iterators s = i # rest \<Longrightarrow> slice_inv g (s\<lparr>slice_iterators := rest\<rparr>)"
  by (auto simp: slice_inv_def)

lemma slice_inv_advance_iter:
  assumes "slice_inv g s" "slice_iterators s = i # rest"
    and "InclusiveMin (Iter_Range i) \<le> InclusiveMin (Iter_Range j)"
    and "InclusiveMin (Iter_Range j) \<le> ExclusiveMax (Iter_Range j)"
    and "ExclusiveMax (Iter_Range j) = ExclusiveMax (Iter_Range i)" "valid_key (InclusiveMin (Iter_Range j))"
  shows "slice_inv g (s\<lparr>slice_iterators := j # rest\<rparr>)"
  using assms by (auto simp: slice_inv_def valid_range_def range_simps)

lemma slice_inv_add:
  assumes "slice_inv g s" "Scope_Contains (slice_scope s) t" "valid_key (GetKey t)"
  shows "slice_inv g (s\<lparr>slice_tracker := tracker_add (slice_tracker s) (NewExecutable t)\<rparr>)"
  using assms by (auto simp: slice_inv_def tracker_safe_add NewExecutable_def exec_key_def split: if_splits)

text \<open>One step of the iterator at the head: nothing left, or the next task of its range.\<close>

lemma head_iterator_step:
  assumes inv: "slice_inv g s" and its: "slice_iterators s = i # rest" and bk: "slice_backed provider db s"
    and ne: "in_range (Iter_Range i) db = t # ts"
  shows "\<exists>i1 i2. Iter_HasNext provider i = Some (True, i1) \<and>
     Iter_Next provider i1 = Some (Inr (Inr t, i2)) \<and> ContainsKey (slice_range s) (GetKey t) \<and> valid_key (GetKey t) \<and>
     in_range (Iter_Range i2) db = ts \<and> slice_inv g (s\<lparr>slice_iterators := i2 # rest\<rparr>) \<and>
     slice_backed provider db (s\<lparr>slice_iterators := i2 # rest\<rparr>)"
proof -
  let ?max = "ExclusiveMax (Iter_Range i)"
  from bk its ne have p: "iter_pending provider db i (t # ts)" by (auto simp: slice_backed_def)
  from inv its have vmax: "valid_key ?max" by (simp add: slice_inv_def valid_range_def)
  from Iter_HasNext_decides [OF p] obtain i1 where
    i1: "Iter_HasNext provider i = Some (True, i1)" "iter_pending provider db i1 (t # ts)"
    "remainingRange i1 = remainingRange i" by auto
  from Iter_Next_delivers [OF i1(2)] obtain i2 k where
    i2: "Next (GetKey t) = Inr k" "Iter_Next provider i1 = Some (Inr (Inr t, i2))"
    "remainingRange i2 = (remainingRange i1)\<lparr>InclusiveMin := k\<rparr>" "iter_pending provider db i2 ts" by blast
  have "t \<in> set (in_range (Iter_Range i) db)" using ne by simp
  then have t: "t \<in> set db" "InclusiveMin (Iter_Range i) \<le> GetKey t" "GetKey t < ?max"
    by (auto simp: in_range_def range_simps)
  from p have "store_ok db" by (simp add: iter_pending_def backed_def)
  with t(1) have vk: "valid_key (GetKey t)" "GetKey t \<noteq> MaximumKey"
    by (auto simp: store_ok_def list_all_iff)
  from Next_is_successor_raw [OF vk] i2(1) vmax t(3) have k: "GetKey t < k" "k \<le> ?max" "valid_key k" by auto
  have r2: "Iter_Range i2 = (Iter_Range i)\<lparr>InclusiveMin := k\<rparr>"
    using i1(3) i2(3) by (simp add: Iter_Range_def)
  have "slice_inv g (s\<lparr>slice_iterators := i2 # rest\<rparr>)"
    by (rule slice_inv_advance_iter [OF inv its]) (use k t(2) r2 in auto)
  moreover have "ts = in_range (Iter_Range i2) db"
    using i2(4) by (simp add: iter_pending_def Iter_Range_def)
  moreover from this have "slice_backed provider db (s\<lparr>slice_iterators := i2 # rest\<rparr>)"
    using bk its i2(4) r2 by (auto simp: slice_backed_def)
  moreover have "ContainsKey (slice_range s) (GetKey t)"
    using inv its t by (auto simp: slice_inv_def range_simps)
  ultimately show ?thesis using i1 i2(2) vk(1) by blast
qed

lemma select_loop_ok:
  assumes "slice_inv g s" "slice_backed provider db s" "length acc \<le> n"
  shows "\<exists>s'. select_loop provider n s acc =
       Some (Inr (Inr (acc @ map NewExecutable (take (n - length acc) (to_select db s))), s')) \<and>
     slice_inv g s' \<and> slice_backed provider db s' \<and> slice_scope s' = slice_scope s \<and>
     to_select db s' = drop (n - length acc) (to_select db s) \<and>
     dom (tracked (slice_tracker s')) = dom (tracked (slice_tracker s)) \<union>
       GetKey ` set (take (n - length acc) (to_select db s)) \<and>
     (length (to_select db s) < n - length acc \<longrightarrow> slice_iterators s' = []) \<and>
     (\<forall>k e. tracked (slice_tracker s') k = Some e \<longrightarrow> tracked (slice_tracker s) k = Some e \<or>
        (\<exists>t \<in> set (to_select db s). k = GetKey t \<and> e = NewExecutable t))"
  using assms
proof (induction "length (slice_iterators s) + length (unread db s)" arbitrary: s acc rule: less_induct)
  case less
  show ?case
  proof (cases "length acc < n \<and> slice_iterators s \<noteq> []")
    case False
    then consider "length acc = n" | "slice_iterators s = []" using less.prems(3) by linarith
    then show ?thesis
      using less.prems by cases (auto simp: select_loop.simps to_select_def unread_def)
  next
    case True
    then obtain i rest where its: "slice_iterators s = i # rest" and room: "length acc < n"
      by (cases "slice_iterators s") auto
    show ?thesis
    proof (cases "in_range (Iter_Range i) db")
      case Nil
      let ?s = "s\<lparr>slice_iterators := rest\<rparr>"
      from less.prems(2) its Nil have "iter_pending provider db i []" by (auto simp: slice_backed_def)
      from Iter_HasNext_decides [OF this] obtain i1 where
        "Iter_HasNext provider i = Some (False, i1)" by auto
      then have step: "select_loop provider n s acc = select_loop provider n ?s acc"
        using room its by (subst select_loop.simps) simp
      have same: "unread db ?s = unread db s" "to_select db ?s = to_select db s"
        using its Nil by (simp_all add: to_select_def unread_def)
      have "slice_backed provider db ?s" using less.prems(2) its by (simp add: slice_backed_def)
      with less.hyps [of ?s acc] slice_inv_drop_iter [OF less.prems(1) its] less.prems(3) its same
      show ?thesis unfolding step by simp
    next
      case (Cons t ts)
      from head_iterator_step [OF less.prems(1) its less.prems(2) Cons] obtain i1 i2 where
        i: "Iter_HasNext provider i = Some (True, i1)" "Iter_Next provider i1 = Some (Inr (Inr t, i2))"
        "ContainsKey (slice_range s) (GetKey t)" "in_range (Iter_Range i2) db = ts" "valid_key (GetKey t)"
        and inv: "slice_inv g (s\<lparr>slice_iterators := i2 # rest\<rparr>)"
        and bk: "slice_backed provider db (s\<lparr>slice_iterators := i2 # rest\<rparr>)" by blast
      let ?s = "s\<lparr>slice_iterators := i2 # rest\<rparr>"
      show ?thesis
      proof (cases "Test (slice_predicate s) t")
        case False
        then have "select_loop provider n s acc = select_loop provider n ?s acc"
          using room its i by (subst select_loop.simps) simp
        moreover have "to_select db s = to_select db ?s" "length (unread db ?s) < length (unread db s)"
          using its i(4) Cons False by (simp_all add: to_select_def unread_def)
        ultimately show ?thesis
          using less.hyps [of ?s acc] inv bk less.prems(3) its by simp
      next
        case True
        let ?e = "NewExecutable t"
        let ?u = "?s\<lparr>slice_tracker := tracker_add (slice_tracker ?s) ?e\<rparr>"
        have step: "select_loop provider n s acc = select_loop provider n ?u (acc @ [?e])"
          using room its i True by (subst select_loop.simps) simp
        have sel: "to_select db s = t # to_select db ?u" and less: "length (unread db ?u) < length (unread db s)"
          using its i(4) Cons True by (simp_all add: to_select_def unread_def)
        have inv_u: "slice_inv g ?u"
          by (rule slice_inv_add [OF inv _ i(5)]) (use i(3) True in \<open>simp add: Scope_Contains_def\<close>)
        have bk_u: "slice_backed provider db ?u" using bk by (simp add: slice_backed_def)
        have Suc_room: "n - length acc = Suc (n - length (acc @ [?e]))" using room by simp
        have dom_u: "dom (tracked (slice_tracker ?u)) = insert (GetKey t) (dom (tracked (slice_tracker s)))"
          by (auto simp: exec_key_def NewExecutable_def split: if_splits)
        have old: "tracked (slice_tracker ?u) k = (if k = GetKey t then Some ?e else tracked (slice_tracker s) k)" for k
          by (simp add: exec_key_def NewExecutable_def)
        have meas: "length (slice_iterators ?u) + length (unread db ?u) < length (slice_iterators s) + length (unread db s)"
          using its less by simp
        have room_u: "length (acc @ [?e]) \<le> n" using room by simp
        from less.hyps [OF meas inv_u bk_u room_u] obtain s' where s': "select_loop provider n ?u (acc @ [?e]) =
            Some (Inr (Inr ((acc @ [?e]) @ map NewExecutable (take (n - length (acc @ [?e])) (to_select db ?u))), s'))"
          "slice_inv g s'" "slice_backed provider db s'" "slice_scope s' = slice_scope ?u"
          "to_select db s' = drop (n - length (acc @ [?e])) (to_select db ?u)"
          "dom (tracked (slice_tracker s')) = dom (tracked (slice_tracker ?u)) \<union>
             GetKey ` set (take (n - length (acc @ [?e])) (to_select db ?u))"
          "length (to_select db ?u) < n - length (acc @ [?e]) \<longrightarrow> slice_iterators s' = []"
          "\<forall>k e. tracked (slice_tracker s') k = Some e \<longrightarrow> tracked (slice_tracker ?u) k = Some e \<or>
             (\<exists>t \<in> set (to_select db ?u). k = GetKey t \<and> e = NewExecutable t)"
          by (elim exE conjE)
        have "tracked (slice_tracker s) k = Some e \<or> (\<exists>t \<in> set (to_select db s). k = GetKey t \<and> e = NewExecutable t)"
          if "tracked (slice_tracker s') k = Some e" for k e
        proof -
          from s'(8) that consider "tracked (slice_tracker ?u) k = Some e"
            | "\<exists>t \<in> set (to_select db ?u). k = GetKey t \<and> e = NewExecutable t" by blast
          then show ?thesis
          proof cases
            case 1
            then show ?thesis unfolding old by (cases "k = GetKey t") (simp_all add: sel)
          next
            case 2
            then show ?thesis by (simp add: sel)
          qed
        qed
        with s'(2,3,4,5,6,7) show ?thesis unfolding step s'(1) sel Suc_room dom_u
          by (intro exI [of _ s']) simp
      qed
    qed
  qed
qed

text \<open>
  C11. Over a store in key order \<open>SelectTasks\<close> terminates without a panic or an error and returns
  executables for exactly the next \<open>batchSize\<close> tasks, in key order, that are in the slice's
  iterators and match its predicate; the slice tracks these in addition to what it tracked, has
  the rest still to select, and keeps its invariant.
\<close>

theorem SelectTasks_next_batch:
  assumes "slice_inv g s" "slice_backed provider db s"
  shows "\<exists>s'. SelectTasks provider batchSize s =
       Some (Inr (Inr (map NewExecutable (take batchSize (to_select db s))), s')) \<and>
     to_select db s' = drop batchSize (to_select db s) \<and>
     dom (tracked (slice_tracker s')) = dom (tracked (slice_tracker s)) \<union>
       GetKey ` set (take batchSize (to_select db s)) \<and>
     slice_inv g s' \<and> slice_backed provider db s' \<and> slice_scope s' = slice_scope s"
  using assms select_loop_ok [OF assms, of "[]" batchSize]
  by (cases "slice_iterators s = []")
    (auto simp: SelectTasks_def slice_inv_def to_select_def unread_def)

section \<open>A sample slice for the witnesses\<close>

definition sample_config :: slice_config where
  "sample_config = \<lparr>maxPredicateSizeFn = 0, EmptyPredicateProtoSize = 2\<rparr>"

definition sample_slice :: "int \<Rightarrow> int \<Rightarrow> string set \<Rightarrow> task \<Rightarrow> 'e queue_slice" where
  "sample_slice lo hi ns t =
     (let s = NewSlice sample_config
        (NewScope \<lparr>InclusiveMin = Key 0 lo, ExclusiveMax = Key 0 hi\<rparr> (NamespacePredicate ns)) GrouperNamespaceID
      in s\<lparr>slice_tracker := tracker_add (slice_tracker s) (NewExecutable t)\<rparr>)"

lemma NewSlice_sample_scope:
  "slice_scope (NewSlice sample_config sc g) = sc"
  by (simp add: NewSlice_def ensurePredicateSizeLimit_def sample_config_def)

lemma NewSlice_iterators: "slice_iterators (NewSlice cfg sc g) = [NewIterator (ScopeRange sc)]"
  by (simp add: NewSlice_def)

lemma sample_slice_scope:
  "slice_scope (sample_slice lo hi ns t) =
     NewScope \<lparr>InclusiveMin = Key 0 lo, ExclusiveMax = Key 0 hi\<rparr> (NamespacePredicate ns)"
  by (simp add: sample_slice_def Let_def NewSlice_sample_scope)

lemma sample_slice_inv:
  assumes "0 \<le> lo" "lo \<le> n" "n < hi" "hi \<le> MaxInt64" "x \<in> ns" "finite ns"
  shows "slice_inv GrouperNamespaceID (sample_slice lo hi ns (sample_task n x))"
  unfolding sample_slice_def Let_def
proof (rule slice_inv_add [OF NewSlice_inv])
  show "valid_scope (NewScope \<lparr>InclusiveMin = Key 0 lo, ExclusiveMax = Key 0 hi\<rparr> (NamespacePredicate ns))"
    using assms by (simp add: valid_scope_def valid_range_def NewScope_def key_le_iff)
  show "valid_key (GetKey (sample_task n x))" using assms by (simp add: sample_task_def)
  show "Scope_Contains (slice_scope (NewSlice sample_config
      (NewScope \<lparr>InclusiveMin = Key 0 lo, ExclusiveMax = Key 0 hi\<rparr> (NamespacePredicate ns)) GrouperNamespaceID))
      (sample_task n x)"
    using assms unfolding NewSlice_sample_scope
    by (simp add: Scope_Contains_def NewScope_def range_simps key_le_iff key_less_iff sample_task_def)
qed

theorem MergeWithSlice_keeps_work_witness:
  "let s = sample_slice 0 6 {''a''} (sample_task 3 ''a'') :: unit queue_slice;
       q = sample_slice 2 9 {''b''} (sample_task 7 ''b'')
   in \<exists>rs. MergeWithSlice sample_config s q = Inr rs \<and> (\<forall>r \<in> set rs. slice_inv GrouperNamespaceID r) \<and>
        slices_ordered rs \<and> keeps_work [s, q] rs"
  unfolding Let_def
  by (rule MergeWithSlice_keeps_work)
    (auto intro!: sample_slice_inv simp: sample_slice_scope NewScope_def range_simps key_le_iff MaxInt64_def)

theorem Slice_Split_keeps_work_witness:
  "let s = sample_slice 0 6 {''a''} (sample_task 3 ''a'') :: unit queue_slice
   in (\<forall>k. valid_key k \<and> InclusiveMin (slice_range s) \<le> k \<and> k \<le> ExclusiveMax (slice_range s) \<longrightarrow>
            (\<exists>l r. Slice_SplitByRange sample_config s k = Inr (l, r) \<and> slice_inv GrouperNamespaceID l \<and>
                   slice_inv GrouperNamespaceID r \<and> slices_ordered [l, r] \<and> keeps_work [s] [l, r])) \<and>
      (\<forall>p. canonical p \<longrightarrow>
            (\<exists>a b. Slice_SplitByPredicate sample_config s p = Inr (a, b) \<and> slice_inv GrouperNamespaceID a \<and>
                   slice_inv GrouperNamespaceID b \<and> slice_range a = slice_range s \<and>
                   slice_range b = slice_range s \<and> keeps_work [s] [a, b]))"
  unfolding Let_def by (rule Slice_Split_keeps_work) (auto intro!: sample_slice_inv simp: MaxInt64_def)

theorem ShrinkScope_safe_witness:
  "let s = sample_slice 0 6 {''a''} (sample_task 3 ''a'') :: unit queue_slice
   in \<exists>s' n. ShrinkScope sample_config s = Inr (s', n) \<and> slice_inv GrouperNamespaceID s' \<and>
     InclusiveMin (slice_range s) \<le> InclusiveMin (slice_range s') \<and>
     ExclusiveMax (slice_range s') = ExclusiveMax (slice_range s) \<and>
     (\<forall>t. loads s t \<longrightarrow> loads s' t) \<and>
     (\<forall>k e. holds s' k e \<longleftrightarrow> holds s k e \<and> State e \<noteq> TaskStateAcked) \<and>
     (\<forall>k e. holds s k e \<and> State e \<noteq> TaskStateAcked \<longrightarrow> Scope_Contains (slice_scope s') (GetTask e))"
  unfolding Let_def
  by (rule ShrinkScope_safe) (auto intro!: sample_slice_inv simp: MaxInt64_def)

theorem Slice_Clear_reloads_witness:
  "let s = sample_slice 0 6 {''a''} (sample_task 3 ''a'') :: unit queue_slice
   in \<exists>s' cancelled. Slice_Clear sample_config s = Inr (s', cancelled) \<and> slice_inv GrouperNamespaceID s' \<and>
     (\<forall>k e. \<not> holds s' k e) \<and> (\<forall>t. loads s t \<longrightarrow> loads s' t) \<and>
     (\<forall>k e. holds s k e \<and> State e \<noteq> TaskStateAcked \<longrightarrow>
        loads s' (GetTask e) \<and> Cancel e \<in> set cancelled)"
  unfolding Let_def
  by (rule Slice_Clear_reloads) (auto intro!: sample_slice_inv simp: MaxInt64_def)

theorem SelectTasks_next_batch_witness:
  "let db = [sample_task 1 ''a'', sample_task 4 ''b'']; p = one_page db :: unit fn_provider;
       s = sample_slice 0 6 {''a''} (sample_task 0 ''a'')
   in \<exists>s'. SelectTasks p 1 s = Some (Inr (Inr (map NewExecutable (take 1 (to_select db s))), s')) \<and>
     to_select db s' = drop 1 (to_select db s) \<and>
     dom (tracked (slice_tracker s')) = dom (tracked (slice_tracker s)) \<union>
       GetKey ` set (take 1 (to_select db s)) \<and>
     slice_inv GrouperNamespaceID s' \<and> slice_backed p db s' \<and> slice_scope s' = slice_scope s"
  unfolding Let_def
proof (rule SelectTasks_next_batch)
  show "slice_inv GrouperNamespaceID (sample_slice 0 6 {''a''} (sample_task 0 ''a''))"
    by (rule sample_slice_inv) (simp_all add: MaxInt64_def)
  show "slice_backed (one_page [sample_task 1 ''a'', sample_task 4 ''b''])
      [sample_task 1 ''a'', sample_task 4 ''b''] (sample_slice 0 6 {''a''} (sample_task 0 ''a''))"
    using iter_pending_new [OF one_page_backed [OF sample_store_ok]]
    by (simp add: slice_backed_def sample_slice_def Let_def NewSlice_iterators NewScope_def MaxInt64_def)
qed

end
