(* ===== verification/QueueReader.thy ===== *)
theory QueueReader
  imports QueueSlice
begin

text \<open>
  The queue reader: \<open>service/history/queues/reader.go\<close>. It keeps an ordered list of slices and
  the element to read from next. The list element pointer \<open>nextReadSlice\<close> is an index into the
  list, or the removed element itself when a slice is taken out of the list under it
  (\<open>container/list\<close> then answers \<open>Next\<close> with nil). The reader's outgoing calls (completion
  callback, scheduler, rescheduler, timers) are logged as events in \<open>reader_events\<close>; the rate
  limiter, the monitor's pending count, the clock and the scheduler's answer are arguments. The
  lock makes every operation one step; the event loop goroutine is the step \<open>eventLoop_step\<close>, and the
  channel \<open>notifyCh\<close>, which holds at most one element, the flag \<open>notified\<close>.
\<close>

section \<open>State\<close>

datatype 'e cursor = NoNextSlice | AtSlice nat | RemovedSlice "'e queue_slice"

datatype reader_event =
    Completed
  | TrySubmitted executable
  | Rescheduled executable
  | PausedFor pause_reason
and pause_reason = PollBackoff | ThrottleRetry | RetryBackoff | Requested int

text \<open>\<open>common/daemon.go\<close>\<close>

datatype daemon_status = DaemonStatusInitialized | DaemonStatusStarted | DaemonStatusStopped

record 'e reader =
  reader_status :: daemon_status
  slices :: "'e queue_slice list"
  nextReadSlice :: "'e cursor"
  notified :: bool
  throttled :: bool
  reader_events :: "reader_event list"

definition NewReader :: "'e queue_slice list \<Rightarrow> 'e reader" where
  "NewReader ss =
     \<lparr>reader_status = DaemonStatusInitialized, slices = ss, nextReadSlice = (if ss = [] then NoNextSlice else AtSlice 0),
      notified = False, throttled = False, reader_events = []\<rparr>"

definition log_event :: "reader_event \<Rightarrow> 'e reader \<Rightarrow> 'e reader" where
  "log_event ev r = r\<lparr>reader_events := reader_events r @ [ev]\<rparr>"

definition reader_notify :: "'e reader \<Rightarrow> 'e reader" where
  "reader_notify r = r\<lparr>notified := True\<rparr>"

definition Notify :: "'e reader \<Rightarrow> 'e reader" where
  "Notify r = reader_notify (r\<lparr>throttled := False\<rparr>)"

definition Start_reader :: "'e reader \<Rightarrow> 'e reader" where
  "Start_reader r =
     (if reader_status r = DaemonStatusInitialized
      then reader_notify (r\<lparr>reader_status := DaemonStatusStarted\<rparr>) else r)"

definition Stop_reader :: "'e reader \<Rightarrow> 'e reader" where
  "Stop_reader r =
     (if reader_status r = DaemonStatusStarted then r\<lparr>reader_status := DaemonStatusStopped\<rparr> else r)"

definition pauseLocked :: "pause_reason \<Rightarrow> 'e reader \<Rightarrow> 'e reader" where
  "pauseLocked reason r = log_event (PausedFor reason) (r\<lparr>throttled := True\<rparr>)"

definition Pause :: "int \<Rightarrow> 'e reader \<Rightarrow> 'e reader" where
  "Pause duration r = pauseLocked (Requested duration) r"

definition throttle_timer_fires :: "'e reader \<Rightarrow> 'e reader" where
  "throttle_timer_fires r = reader_notify (r\<lparr>throttled := False\<rparr>)"

text \<open>The first element of the list that has more tasks.\<close>

fun first_more :: "nat \<Rightarrow> 'e queue_slice list \<Rightarrow> queue_panic + 'e cursor" where
  "first_more i [] = Inr NoNextSlice"
| "first_more i (s # rest) =
     bind_result (MoreTasks s) (\<lambda>more. if more then Inr (AtSlice i) else first_more (Suc i) rest)"

definition resetNextReadSliceLocked :: "'e reader \<Rightarrow> queue_panic + 'e reader" where
  "resetNextReadSliceLocked r =
     bind_result (first_more 0 (slices r)) (\<lambda>c.
       let r = r\<lparr>nextReadSlice := c\<rparr>
       in Inr (if c \<noteq> NoNextSlice then reader_notify r else log_event Completed r))"

section \<open>Operations on the slice list\<close>

fun collect_scopes :: "'e queue_slice list \<Rightarrow> queue_panic + scope list" where
  "collect_scopes [] = Inr []"
| "collect_scopes (s # rest) =
     bind_result (Slice_Scope s) (\<lambda>sc. bind_result (collect_scopes rest) (\<lambda>scs. Inr (sc # scs)))"

definition Scopes :: "'e reader \<Rightarrow> queue_panic + scope list" where
  "Scopes r = collect_scopes (slices r)"

definition WalkSlices :: "('a \<Rightarrow> 'e queue_slice \<Rightarrow> 'a) \<Rightarrow> 'a \<Rightarrow> 'e reader \<Rightarrow> 'a" where
  "WalkSlices iterator a r = foldl iterator a (slices r)"

fun push_non_empty :: "'e queue_slice list \<Rightarrow> 'e queue_slice list \<Rightarrow> queue_panic + 'e queue_slice list" where
  "push_non_empty acc [] = Inr acc"
| "push_non_empty acc (s # rest) =
     bind_result (Slice_Scope s) (\<lambda>sc.
       push_non_empty (if Scope_IsEmpty sc then acc else acc @ [s]) rest)"

fun split_slices_loop ::
    "('e queue_slice \<Rightarrow> queue_panic + 'e queue_slice list \<times> bool) \<Rightarrow>
     'e queue_slice list \<Rightarrow> 'e queue_slice list \<Rightarrow> queue_panic + 'e queue_slice list" where
  "split_slices_loop splitter acc [] = Inr acc"
| "split_slices_loop splitter acc (s # rest) =
     bind_result (splitter s) (\<lambda>(newSlices, split).
       if \<not> split then split_slices_loop splitter (acc @ [s]) rest
       else bind_result (push_non_empty acc newSlices) (\<lambda>acc'. split_slices_loop splitter acc' rest))"

definition SplitSlices ::
    "('e queue_slice \<Rightarrow> queue_panic + 'e queue_slice list \<times> bool) \<Rightarrow> 'e reader \<Rightarrow> queue_panic + 'e reader" where
  "SplitSlices splitter r =
     bind_result (split_slices_loop splitter [] (slices r)) (\<lambda>ss.
       resetNextReadSliceLocked (r\<lparr>slices := ss\<rparr>))"

definition mergeOrAppendSlice ::
    "slice_config \<Rightarrow> 'e queue_slice list \<Rightarrow> 'e queue_slice \<Rightarrow> queue_panic + 'e queue_slice list" where
  "mergeOrAppendSlice cfg acc incomingSlice =
     bind_result (Slice_Scope incomingSlice) (\<lambda>sc.
     if Scope_IsEmpty sc then Inr acc
     else if acc = [] then Inr [incomingSlice]
     else bind_result (CanMergeWithSlice (last acc) incomingSlice) (\<lambda>can.
       if \<not> can then Inr (acc @ [incomingSlice])
       else bind_result (MergeWithSlice cfg (last acc) incomingSlice) (\<lambda>merged.
         Inr (butlast acc @ merged))))"

fun validateSlicesOrderedDisjoint :: "'e queue_slice list \<Rightarrow> queue_panic + unit" where
  "validateSlicesOrderedDisjoint (s # q # rest) =
     bind_result (Slice_Scope s) (\<lambda>sc. bind_result (Slice_Scope q) (\<lambda>qc.
       if CompareTo (ExclusiveMax (ScopeRange sc)) (InclusiveMin (ScopeRange qc)) > 0
       then Inl OverlappingSlices
       else validateSlicesOrderedDisjoint (q # rest)))"
| "validateSlicesOrderedDisjoint _ = Inr ()"

fun merge_or_append_all ::
    "slice_config \<Rightarrow> 'e queue_slice list \<Rightarrow> 'e queue_slice list \<Rightarrow> queue_panic + 'e queue_slice list" where
  "merge_or_append_all cfg acc [] = Inr acc"
| "merge_or_append_all cfg acc (s # rest) =
     bind_result (mergeOrAppendSlice cfg acc s) (\<lambda>acc'. merge_or_append_all cfg acc' rest)"

fun merge_slices_loop ::
    "slice_config \<Rightarrow> 'e queue_slice list \<Rightarrow> 'e queue_slice list \<Rightarrow> 'e queue_slice list \<Rightarrow>
     queue_panic + 'e queue_slice list" where
  "merge_slices_loop cfg acc (currentSlice # cs) (incomingSlice # is) =
     bind_result (Slice_Scope currentSlice) (\<lambda>csc. bind_result (Slice_Scope incomingSlice) (\<lambda>isc.
       if CompareTo (InclusiveMin (ScopeRange csc)) (InclusiveMin (ScopeRange isc)) < 0
       then bind_result (mergeOrAppendSlice cfg acc currentSlice)
              (\<lambda>acc'. merge_slices_loop cfg acc' cs (incomingSlice # is))
       else bind_result (mergeOrAppendSlice cfg acc incomingSlice)
              (\<lambda>acc'. merge_slices_loop cfg acc' (currentSlice # cs) is)))"
| "merge_slices_loop cfg acc [] is = merge_or_append_all cfg acc is"
| "merge_slices_loop cfg acc cs [] = merge_or_append_all cfg acc cs"

definition MergeSlices ::
    "slice_config \<Rightarrow> 'e queue_slice list \<Rightarrow> 'e reader \<Rightarrow> queue_panic + 'e reader" where
  "MergeSlices cfg incomingSlices r =
     (if incomingSlices = [] then Inr r
      else bind_result (validateSlicesOrderedDisjoint incomingSlices) (\<lambda>_.
           bind_result (merge_slices_loop cfg [] (slices r) incomingSlices) (\<lambda>ss.
             resetNextReadSliceLocked (r\<lparr>slices := ss\<rparr>))))"

definition AppendSlices :: "'e queue_slice list \<Rightarrow> 'e reader \<Rightarrow> queue_panic + 'e reader" where
  "AppendSlices incomingSlices r =
     (if incomingSlices = [] then Inr r
      else bind_result (validateSlicesOrderedDisjoint incomingSlices) (\<lambda>_.
           bind_result
             (if slices r = [] then Inr ()
              else bind_result (Slice_Scope (last (slices r))) (\<lambda>lastScope.
                   bind_result (Slice_Scope (hd incomingSlices)) (\<lambda>firstScope.
                     if CompareTo (ExclusiveMax (ScopeRange lastScope)) (InclusiveMin (ScopeRange firstScope)) > 0
                     then Inl CanNotAppendSlice else Inr ()))) (\<lambda>_.
           bind_result (push_non_empty (slices r) incomingSlices) (\<lambda>ss.
             resetNextReadSliceLocked (r\<lparr>slices := ss\<rparr>)))))"

fun clear_slices_loop ::
    "slice_config \<Rightarrow> ('e queue_slice \<Rightarrow> bool) \<Rightarrow> 'e queue_slice list \<Rightarrow> queue_panic + 'e queue_slice list" where
  "clear_slices_loop cfg P [] = Inr []"
| "clear_slices_loop cfg P (s # rest) =
     bind_result (if P s then bind_result (Slice_Clear cfg s) (\<lambda>(s', _). Inr s') else Inr s) (\<lambda>s'.
     bind_result (clear_slices_loop cfg P rest) (\<lambda>rest'. Inr (s' # rest')))"

definition ClearSlices ::
    "slice_config \<Rightarrow> ('e queue_slice \<Rightarrow> bool) \<Rightarrow> 'e reader \<Rightarrow> queue_panic + 'e reader" where
  "ClearSlices cfg P r =
     bind_result (clear_slices_loop cfg P (slices r)) (\<lambda>ss. resetNextReadSliceLocked (r\<lparr>slices := ss\<rparr>))"

text \<open>\<open>prev\<close> is always the last of the elements that have been passed.\<close>

fun compact_slices_loop ::
    "slice_config \<Rightarrow> ('e queue_slice \<Rightarrow> bool) \<Rightarrow> 'e queue_slice list \<Rightarrow> 'e queue_slice list \<Rightarrow>
     queue_panic + 'e queue_slice list" where
  "compact_slices_loop cfg P passed [] = Inr passed"
| "compact_slices_loop cfg P passed (s # rest) =
     (if passed = [] \<or> \<not> P s then compact_slices_loop cfg P (passed @ [s]) rest
      else bind_result (CompactWithSlice cfg (last passed) s) (\<lambda>compacted.
        compact_slices_loop cfg P (butlast passed @ [compacted]) rest))"

definition CompactSlices ::
    "slice_config \<Rightarrow> ('e queue_slice \<Rightarrow> bool) \<Rightarrow> 'e reader \<Rightarrow> queue_panic + 'e reader" where
  "CompactSlices cfg P r =
     bind_result (compact_slices_loop cfg P [] (slices r)) (\<lambda>ss. resetNextReadSliceLocked (r\<lparr>slices := ss\<rparr>))"

fun shrink_slices_loop ::
    "slice_config \<Rightarrow> 'e queue_slice list \<Rightarrow> queue_panic + 'e queue_slice list \<times> int" where
  "shrink_slices_loop cfg [] = Inr ([], 0)"
| "shrink_slices_loop cfg (s # rest) =
     bind_result (ShrinkScope cfg s) (\<lambda>(s', n).
     bind_result (shrink_slices_loop cfg rest) (\<lambda>(rest', m). Inr (s' # rest', n + m)))"

text \<open>
  Removing the elements with an empty scope: a pointer to a kept element still points to it, a
  pointer to a removed element keeps the element but loses the list.
\<close>

definition keep_slice :: "'e queue_slice \<Rightarrow> bool" where
  "keep_slice s \<longleftrightarrow> \<not> Scope_IsEmpty (slice_scope s)"

definition cursor_after_removal :: "'e queue_slice list \<Rightarrow> 'e cursor \<Rightarrow> 'e cursor" where
  "cursor_after_removal ss c =
     (case c of
        AtSlice i \<Rightarrow> if keep_slice (ss ! i) then AtSlice (length (filter keep_slice (take i ss)))
                     else RemovedSlice (ss ! i)
      | _ \<Rightarrow> c)"

definition ShrinkSlices :: "slice_config \<Rightarrow> 'e reader \<Rightarrow> queue_panic + 'e reader \<times> int" where
  "ShrinkSlices cfg r =
     bind_result (shrink_slices_loop cfg (slices r)) (\<lambda>(ss, tasksCompleted).
       Inr (r\<lparr>slices := filter keep_slice ss,
              nextReadSlice := cursor_after_removal ss (nextReadSlice r)\<rparr>, tasksCompleted))"

section \<open>Loading and submitting\<close>

record ('e) reader_env =
  env_provider :: "'e fn_provider"
  BatchSize :: nat
  MaxPendingTasksCount :: int
  totalPendingTaskCount :: int
  rateLimitContextDone :: bool
  clockNow :: int
  schedulerAccepts :: "executable \<Rightarrow> bool"
  IsResourceExhausted :: "'e \<Rightarrow> bool"

definition verifyPendingTaskSize :: "'e reader_env \<Rightarrow> bool" where
  "verifyPendingTaskSize env \<longleftrightarrow> totalPendingTaskCount env < MaxPendingTasksCount env"

definition reader_submit :: "'e reader_env \<Rightarrow> 'e reader \<Rightarrow> executable \<Rightarrow> 'e reader" where
  "reader_submit env r e =
     (if clockNow env < FireTime (exec_key e) + ScheduledTaskMinPrecision
      then log_event (Rescheduled e) r
      else if schedulerAccepts env e then log_event (TrySubmitted e) r
      else log_event (Rescheduled e) (log_event (TrySubmitted e) r))"

definition cursor_slice :: "'e reader \<Rightarrow> 'e queue_slice option" where
  "cursor_slice r = (case nextReadSlice r of
     NoNextSlice \<Rightarrow> None | AtSlice i \<Rightarrow> Some (slices r ! i) | RemovedSlice s \<Rightarrow> Some s)"

definition set_cursor_slice :: "'e queue_slice \<Rightarrow> 'e reader \<Rightarrow> 'e reader" where
  "set_cursor_slice s r = (case nextReadSlice r of
     NoNextSlice \<Rightarrow> r | AtSlice i \<Rightarrow> r\<lparr>slices := (slices r)[i := s]\<rparr>
   | RemovedSlice _ \<Rightarrow> r\<lparr>nextReadSlice := RemovedSlice s\<rparr>)"

definition next_element :: "'e reader \<Rightarrow> 'e cursor" where
  "next_element r = (case nextReadSlice r of
     AtSlice i \<Rightarrow> if Suc i < length (slices r) then AtSlice (Suc i) else NoNextSlice
   | _ \<Rightarrow> NoNextSlice)"

definition loadAndSubmitTasks :: "'e reader_env \<Rightarrow> 'e reader \<Rightarrow> (queue_panic + 'e reader) option" where
  "loadAndSubmitTasks env r0 =
     (if rateLimitContextDone env then Some (Inr r0)
      else
        let r = (if \<not> verifyPendingTaskSize env then pauseLocked PollBackoff r0 else r0)
        in if throttled r then Some (Inr r)
           else case cursor_slice r of
             None \<Rightarrow> Some (Inr (log_event Completed r))
           | Some loadSlice \<Rightarrow>
             (case SelectTasks (env_provider env) (BatchSize env) loadSlice of
                None \<Rightarrow> None
              | Some (Inl panic) \<Rightarrow> Some (Inl panic)
              | Some (Inr (Inl err, s)) \<Rightarrow>
                  Some (Inr (pauseLocked (if IsResourceExhausted env err then ThrottleRetry else RetryBackoff)
                              (set_cursor_slice s r)))
              | Some (Inr (Inr tasks, s)) \<Rightarrow>
                  Some (bind_result (MoreTasks s) (\<lambda>more.
                    let r = foldl (reader_submit env) (set_cursor_slice s r) tasks
                    in if more then Inr (reader_notify r)
                       else let r = r\<lparr>nextReadSlice := next_element r\<rparr>
                            in if nextReadSlice r \<noteq> NoNextSlice then Inr (reader_notify r)
                               else Inr (log_event Completed r)))))"

text \<open>
  One round of the event loop: it waits for a notification, which it consumes, and ends when the
  reader is stopped.
\<close>

definition eventLoop_step :: "'e reader_env \<Rightarrow> 'e reader \<Rightarrow> (queue_panic + 'e reader) option" where
  "eventLoop_step env r =
     (if reader_status r \<noteq> DaemonStatusStarted \<or> \<not> notified r then Some (Inr r)
      else loadAndSubmitTasks env (r\<lparr>notified := False\<rparr>))"

section \<open>Merging slices into the list\<close>

abbreviation smin :: "'e queue_slice \<Rightarrow> task_key" where
  "smin s \<equiv> InclusiveMin (slice_range s)"

abbreviation smax :: "'e queue_slice \<Rightarrow> task_key" where
  "smax s \<equiv> ExclusiveMax (slice_range s)"

definition slices_inv :: "grouper \<Rightarrow> 'e queue_slice list \<Rightarrow> bool" where
  "slices_inv g ss \<longleftrightarrow> list_all (slice_inv g) ss \<and> slices_ordered ss"

lemma slice_inv_valid: "slice_inv g s \<Longrightarrow> smin s \<le> smax s"
  by (simp add: slice_inv_def valid_scope_def valid_range_def)

lemma slice_inv_Scope [simp]: "slice_inv g s \<Longrightarrow> Slice_Scope s = Inr (slice_scope s)"
  by (simp add: Slice_Scope_def stateSanityCheck_def slice_inv_def)

lemma slice_inv_MoreTasks [simp]: "slice_inv g s \<Longrightarrow> MoreTasks s = Inr (slice_iterators s \<noteq> [])"
  by (simp add: MoreTasks_def stateSanityCheck_def slice_inv_def)

lemma slices_inv_simps [simp]:
  "slices_inv g []"
  "slices_inv g (s # ss) \<longleftrightarrow> slice_inv g s \<and> slices_inv g ss \<and> (\<forall>q \<in> set ss. smax s \<le> smin q)"
  "slices_inv g (ss @ qs) \<longleftrightarrow> slices_inv g ss \<and> slices_inv g qs \<and>
     (\<forall>s \<in> set ss. \<forall>q \<in> set qs. smax s \<le> smin q)"
  by (auto simp: slices_inv_def slices_ordered_def sorted_wrt_append)

lemma slices_inv_memD: "slices_inv g ss \<Longrightarrow> s \<in> set ss \<Longrightarrow> slice_inv g s"
  by (simp add: slices_inv_def list_all_iff)

lemma slices_inv_head: "slices_inv g (s # ss) \<Longrightarrow> q \<in> set ss \<Longrightarrow> smin s \<le> smin q"
  using slice_inv_valid [of g s] by (auto intro: order_trans)

lemma keeps_work_append_right: "keeps_work as bs \<Longrightarrow> keeps_work (cs @ as) (cs @ bs)"
  by (rule keeps_work_append [OF keeps_work_refl])

lemma mergeOrAppendSlice_ok:
  assumes acc: "slices_inv g acc" and x: "slice_inv g x"
    and le: "acc \<noteq> [] \<longrightarrow> smin (last acc) \<le> smin x" and M: "\<forall>r \<in> set acc. smax r \<le> M"
  shows "\<exists>acc'. mergeOrAppendSlice cfg acc x = Inr acc' \<and> slices_inv g acc' \<and>
     keeps_work (acc @ [x]) acc' \<and> (\<forall>r \<in> set acc'. smax r \<le> max M (smax x)) \<and>
     (acc' \<noteq> [] \<longrightarrow> smin (last acc') \<le> max (smin x) (min M (smax x)))"
proof (cases "Scope_IsEmpty (slice_scope x)")
  case True
  from keeps_work_append_right [OF keeps_work_drop_empty [of "[x]" g], of acc] x True
  have "keeps_work (acc @ [x]) acc" by simp
  with True assms show ?thesis
    by (auto simp: mergeOrAppendSlice_def le_max_iff_disj)
next
  case False
  show ?thesis
  proof (cases acc rule: rev_cases)
    case Nil
    with False x show ?thesis
      by (auto simp: mergeOrAppendSlice_def keeps_work_refl le_max_iff_disj)
  next
    case (snoc init L)
    then have L: "slice_inv g L" and init: "slices_inv g init" "\<forall>r \<in> set init. smax r \<le> smin L"
      and Lx: "smin L \<le> smin x" "smax L \<le> M" using acc le M by auto
    note v = slice_inv_valid [OF L] slice_inv_valid [OF x]
    show ?thesis
    proof (cases "Range_CanMerge (slice_range L) (slice_range x)")
      case no: False
      then have "smax L < smin x" using Lx v by (auto simp: range_simps)
      with acc init x v have "slices_inv g (acc @ [x])"
        unfolding snoc by (auto simp: less_imp_le)
      with no False x L M snoc CanMergeWithSlice_eq [OF L x] show ?thesis
        by (auto simp: mergeOrAppendSlice_def keeps_work_refl le_max_iff_disj)
    next
      case True
      from MergeWithSlice_ok [OF L x True, of cfg] obtain rs where
        rs: "MergeWithSlice cfg L x = Inr rs" "\<forall>r \<in> set rs. slice_inv g r" "slices_ordered rs"
        "keeps_work [L, x] rs"
        and b: "\<forall>r \<in> set rs. min (smin L) (smin x) \<le> smin r \<and> smax r \<le> max (smax L) (smax x) \<and>
          smin r \<le> max (max (smin L) (smin x)) (min (smax L) (smax x))"
        unfolding merge_ok_def by blast
      have low: "\<forall>r \<in> set rs. smin L \<le> smin r" using b Lx by (simp add: min_def)
      have "slices_inv g (init @ rs)"
        using init rs(2,3) low by (auto simp: slices_inv_def list_all_iff intro: order_trans)
          (auto simp: slices_ordered_def sorted_wrt_append intro: order_trans)
      moreover have "keeps_work (acc @ [x]) (init @ rs)"
        using keeps_work_append_right [OF rs(4), of init] by (simp add: snoc)
      moreover have "smax r \<le> max M (smax x)" if "r \<in> set (init @ rs)" for r
        using that b M Lx snoc by (auto simp: le_max_iff_disj)
      moreover have "smin (last (init @ rs)) \<le> max (smin x) (min M (smax x))" if ne: "init @ rs \<noteq> []"
      proof (cases "rs = []")
        case True
        with ne have "last init \<in> set init" by simp
        with init slice_inv_valid slices_inv_memD have "smin (last init) \<le> smin L"
          by (meson order_trans)
        with True Lx show ?thesis by (simp add: le_max_iff_disj) (meson order_trans)
      next
        case False
        with b Lx have "smin (last rs) \<le> max (smin x) (min (smax L) (smax x))"
          by (metis last_in_set max.absorb2)
        also have "\<dots> \<le> max (smin x) (min M (smax x))" using Lx by (meson max.mono min.mono order_refl)
        finally show ?thesis using False by simp
      qed
      moreover have "mergeOrAppendSlice cfg acc x = Inr (init @ rs)"
        using False True x L snoc rs(1) CanMergeWithSlice_eq [OF L x] by (simp add: mergeOrAppendSlice_def)
      ultimately show ?thesis by blast
    qed
  qed
qed

text \<open>
  The state of the merge loop between two steps: \<open>C\<close> and \<open>D\<close> bound the ends of what has been
  taken from the two lists, and the last merged slice starts no later than what is to come.
\<close>

definition merge_state ::
    "grouper \<Rightarrow> 'e queue_slice list \<Rightarrow> 'e queue_slice list \<Rightarrow> 'e queue_slice list \<Rightarrow> task_key \<Rightarrow> task_key \<Rightarrow> bool" where
  "merge_state g acc xs ys C D \<longleftrightarrow>
     slices_inv g acc \<and> slices_inv g xs \<and> slices_inv g ys \<and>
     (\<forall>x \<in> set xs. C \<le> smin x) \<and> (\<forall>y \<in> set ys. D \<le> smin y) \<and>
     (\<forall>r \<in> set acc. smax r \<le> max C D) \<and>
     (acc \<noteq> [] \<longrightarrow> (\<forall>z \<in> set xs \<union> set ys. smin (last acc) \<le> smin z))"

lemma merge_state_swap: "merge_state g acc xs ys C D \<Longrightarrow> merge_state g acc ys xs D C"
  by (auto simp: merge_state_def max.commute)

text \<open>The work is kept, and no slice ends later than the slices did.\<close>

definition moves_work :: "'e queue_slice list \<Rightarrow> 'e queue_slice list \<Rightarrow> bool" where
  "moves_work as bs \<longleftrightarrow>
     keeps_work as bs \<and> (\<forall>M. (\<forall>s \<in> set as. smax s \<le> M) \<longrightarrow> (\<forall>s \<in> set bs. smax s \<le> M))"

lemma moves_work_refl: "moves_work ss ss"
  by (simp add: moves_work_def keeps_work_refl)

lemma moves_work_trans: "moves_work as bs \<Longrightarrow> moves_work bs cs \<Longrightarrow> moves_work as cs"
  unfolding moves_work_def using keeps_work_trans by blast

lemma moves_work_append: "moves_work as bs \<Longrightarrow> moves_work cs ds \<Longrightarrow> moves_work (as @ cs) (bs @ ds)"
  unfolding moves_work_def set_append using keeps_work_append by blast

lemma moves_work_same_set: "set as = set bs \<Longrightarrow> moves_work as bs"
  by (auto simp: moves_work_def keeps_work_def)

lemma moves_work_chain:
  "moves_work as bs \<Longrightarrow> moves_work cs ds \<Longrightarrow> set as = set as' \<Longrightarrow> set bs = set cs \<Longrightarrow>
   set ds = set ds' \<Longrightarrow> moves_work as' ds'"
  by (rule moves_work_trans [OF _ moves_work_trans [of bs cs ds']], rule moves_work_trans [of as' as bs])
    (simp_all add: moves_work_same_set moves_work_trans [of cs ds ds'] moves_work_same_set [of bs cs])

lemma merge_state_step:
  assumes st: "merge_state g acc (x # xs) ys C D" and first: "\<forall>y \<in> set ys. smin x \<le> smin y"
  shows "\<exists>acc'. mergeOrAppendSlice cfg acc x = Inr acc' \<and> merge_state g acc' xs ys (smax x) D \<and>
     moves_work (acc @ [x]) acc'"
proof -
  from st have acc: "slices_inv g acc" and x: "slice_inv g x" and xs: "slices_inv g xs" "\<forall>q \<in> set xs. smax x \<le> smin q"
    and ys: "slices_inv g ys" "\<forall>y \<in> set ys. D \<le> smin y" and C: "C \<le> smin x"
    and M: "\<forall>r \<in> set acc. smax r \<le> max C D" and le: "acc \<noteq> [] \<longrightarrow> smin (last acc) \<le> smin x"
    by (auto simp: merge_state_def)
  from mergeOrAppendSlice_ok [OF acc x le M, of cfg] obtain acc' where
    a0: "mergeOrAppendSlice cfg acc x = Inr acc'" "slices_inv g acc'" "keeps_work (acc @ [x]) acc'"
    and b: "\<forall>r \<in> set acc'. smax r \<le> max (max C D) (smax x)"
    and l: "acc' \<noteq> [] \<longrightarrow> smin (last acc') \<le> max (smin x) (min (max C D) (smax x))" by blast
  have "\<forall>r \<in> set acc'. smax r \<le> N" if "\<forall>s \<in> set (acc @ [x]). smax s \<le> N" for N
  proof -
    from that have N: "\<forall>r \<in> set acc. smax r \<le> N" "max N (smax x) = N" by (simp_all add: max_absorb1)
    from mergeOrAppendSlice_ok [OF acc x le N(1), of cfg] a0(1) N(2) show ?thesis by simp
  qed
  with a0 have a: "mergeOrAppendSlice cfg acc x = Inr acc'" "slices_inv g acc'" "moves_work (acc @ [x]) acc'"
    unfolding moves_work_def by blast+
  have xv: "smin x \<le> smax x" by (rule slice_inv_valid [OF x])
  have "max (max C D) (smax x) = max (smax x) D"
    using order_trans [OF C xv] by (metis max.absorb2 max.assoc max.commute)
  with b have "\<forall>r \<in> set acc'. smax r \<le> max (smax x) D" by simp
  moreover have "smin (last acc') \<le> smin z" if "acc' \<noteq> []" "z \<in> set xs \<union> set ys" for z
  proof -
    have "max (smin x) (min (max C D) (smax x)) \<le> smin z"
    proof (cases "z \<in> set xs")
      case True
      with xs(2) xv have "smax x \<le> smin z" "smin x \<le> smin z" by (auto intro: order_trans)
      then show ?thesis by (simp add: min_le_iff_disj)
    next
      case False
      with that(2) first ys(2) C have "smin x \<le> smin z" "D \<le> smin z" "C \<le> smin z"
        by (auto intro: order_trans)
      then show ?thesis by (simp add: min_le_iff_disj)
    qed
    with l that(1) show ?thesis by (meson order_trans)
  qed
  ultimately have "merge_state g acc' xs ys (smax x) D"
    using a(2) xs ys by (auto simp: merge_state_def)
  with a show ?thesis by blast
qed

lemma merge_or_append_all_ok:
  assumes "merge_state g acc xs [] C D"
  shows "\<exists>acc'. merge_or_append_all cfg acc xs = Inr acc' \<and> slices_inv g acc' \<and> moves_work (acc @ xs) acc'"
  using assms
proof (induction xs arbitrary: acc C)
  case Nil
  then show ?case by (auto simp: merge_state_def moves_work_refl)
next
  case (Cons x xs)
  from merge_state_step [OF Cons.prems, of cfg] obtain acc1 where
    a: "mergeOrAppendSlice cfg acc x = Inr acc1" "merge_state g acc1 xs [] (smax x) D"
    "moves_work (acc @ [x]) acc1" by auto
  from Cons.IH [OF a(2)] obtain acc' where
    "merge_or_append_all cfg acc1 xs = Inr acc'" "slices_inv g acc'" "moves_work (acc1 @ xs) acc'" by blast
  with a moves_work_trans [OF moves_work_append [OF a(3) moves_work_refl [of xs]]] show ?case by auto
qed

lemma merge_slices_loop_ok:
  assumes "merge_state g acc cs ys C D"
  shows "\<exists>acc'. merge_slices_loop cfg acc cs ys = Inr acc' \<and> slices_inv g acc' \<and>
     moves_work (acc @ cs @ ys) acc'"
  using assms
proof (induction cfg acc cs ys arbitrary: C D rule: merge_slices_loop.induct)
  case (1 cfg acc c cs y ys)
  from 1(3) have inv: "slice_inv g c" "slice_inv g y" and
    l: "slices_inv g (c # cs)" "slices_inv g (y # ys)"
    by (auto simp: merge_state_def)
  from slices_inv_head [OF l(1)] slices_inv_head [OF l(2)]
  have cs: "\<forall>q \<in> set cs. smin c \<le> smin q" and ys: "\<forall>q \<in> set ys. smin y \<le> smin q" by auto
  show ?case
  proof (cases "smin c < smin y")
    case True
    with ys have "\<forall>q \<in> set (y # ys). smin c \<le> smin q" by (auto intro: less_imp_le order_trans)
    from merge_state_step [OF 1(3) this, of cfg] obtain acc1 where
      a: "mergeOrAppendSlice cfg acc c = Inr acc1" "merge_state g acc1 cs (y # ys) (smax c) D"
      "moves_work (acc @ [c]) acc1" by auto
    from 1(1) [OF _ a(2), of "slice_scope c" "slice_scope y"] inv True obtain acc' where
      b: "merge_slices_loop cfg acc1 cs (y # ys) = Inr acc'" "slices_inv g acc'"
      "moves_work (acc1 @ cs @ (y # ys)) acc'" by auto
    with a inv True moves_work_trans [OF moves_work_append [OF a(3) moves_work_refl [of "cs @ y # ys"]] b(3)]
    show ?thesis by auto
  next
    case False
    with cs have "\<forall>q \<in> set (c # cs). smin y \<le> smin q" by (auto intro: order_trans)
    from merge_state_step [OF merge_state_swap [OF 1(3)] this, of cfg] obtain acc1 where
      a: "mergeOrAppendSlice cfg acc y = Inr acc1" "merge_state g acc1 ys (c # cs) (smax y) C"
      "moves_work (acc @ [y]) acc1" by auto
    from 1(2) [OF _ merge_state_swap [OF a(2)], of "slice_scope c" "slice_scope y"] inv False obtain acc' where
      b: "merge_slices_loop cfg acc1 (c # cs) ys = Inr acc'" "slices_inv g acc'"
      "moves_work (acc1 @ (c # cs) @ ys) acc'" by auto
    have "moves_work (acc @ (c # cs) @ (y # ys)) acc'"
      by (rule moves_work_chain [OF moves_work_append [OF a(3) moves_work_refl [of "c # cs @ ys"]] b(3)]) auto
    with a inv False b(1,2) show ?thesis by auto
  qed
next
  case (2 cfg acc ys)
  with merge_or_append_all_ok [OF merge_state_swap] show ?case by auto
next
  case (3 cfg acc c cs)
  with merge_or_append_all_ok [of g acc "c # cs"] show ?case by auto
qed

lemma validate_slices_ok:
  "slices_inv g ss \<Longrightarrow> validateSlicesOrderedDisjoint ss = Inr ()"
  by (induction ss rule: validateSlicesOrderedDisjoint.induct) (auto simp: not_less)

lemma merge_slices_ok:
  assumes "slices_inv g ss" "slices_inv g qs"
  shows "\<exists>rs. merge_slices_loop cfg [] ss qs = Inr rs \<and> slices_inv g rs \<and> moves_work (ss @ qs) rs"
proof -
  have "\<exists>k. \<forall>z \<in> set (ss @ qs). k \<le> smin z"
  proof (cases "ss @ qs = []")
    case False
    then have "\<forall>z \<in> set (ss @ qs). Min (smin ` set (ss @ qs)) \<le> smin z" by (auto intro: Min_le)
    then show ?thesis by blast
  qed simp
  then obtain k where "merge_state g [] ss qs k k" using assms by (auto simp: merge_state_def)
  from merge_slices_loop_ok [OF this, of cfg] show ?thesis by simp
qed

section \<open>The list operations keep the work of the reader\<close>

text \<open>The cursor is at the first slice that has more tasks.\<close>

definition cursor_ok :: "'e reader \<Rightarrow> bool" where
  "cursor_ok r = (case nextReadSlice r of
     NoNextSlice \<Rightarrow> \<forall>s \<in> set (slices r). slice_iterators s = []
   | AtSlice i \<Rightarrow> i < length (slices r) \<and> slice_iterators (slices r ! i) \<noteq> [] \<and>
                  (\<forall>j < i. slice_iterators (slices r ! j) = [])
   | RemovedSlice _ \<Rightarrow> False)"

lemma first_more_ok:
  assumes "list_all (slice_inv g) ss"
  shows "first_more i ss = Inr NoNextSlice \<and> (\<forall>s \<in> set ss. slice_iterators s = []) \<or>
    (\<exists>k < length ss. first_more i ss = Inr (AtSlice (i + k)) \<and> slice_iterators (ss ! k) \<noteq> [] \<and>
       (\<forall>j < k. slice_iterators (ss ! j) = []))"
  using assms
proof (induction ss arbitrary: i)
  case (Cons s ss)
  have more: "MoreTasks s = Inr (slice_iterators s \<noteq> [])"
    using Cons.prems by (intro slice_inv_MoreTasks [of g]) simp
  show ?case
  proof (cases "slice_iterators s = []")
    case True
    from Cons.IH [of "Suc i"] Cons.prems consider
      "first_more (Suc i) ss = Inr NoNextSlice" "\<forall>s \<in> set ss. slice_iterators s = []"
      | k where "k < length ss" "first_more (Suc i) ss = Inr (AtSlice (Suc i + k))"
        "slice_iterators (ss ! k) \<noteq> []" "\<forall>j < k. slice_iterators (ss ! j) = []" by auto
    then show ?thesis
    proof cases
      case 1
      with True more show ?thesis by simp
    next
      case (2 k)
      have "\<forall>j < Suc k. slice_iterators ((s # ss) ! j) = []"
        using 2(4) True by (auto simp: nth_Cons split: nat.splits)
      with 2 True more show ?thesis by (intro disjI2 exI [of _ "Suc k"]) simp
    qed
  next
    case False
    with more show ?thesis by (intro disjI2 exI [of _ 0]) simp
  qed
qed simp

lemma resetNextReadSlice_ok:
  assumes "slices_inv g (slices r)"
  shows "\<exists>r'. resetNextReadSliceLocked r = Inr r' \<and> slices r' = slices r \<and> cursor_ok r' \<and>
    (nextReadSlice r' = NoNextSlice \<longrightarrow> reader_events r' = reader_events r @ [Completed]) \<and>
    (nextReadSlice r' \<noteq> NoNextSlice \<longrightarrow> notified r')"
  using first_more_ok [of g "slices r" 0] assms
  by (auto simp: resetNextReadSliceLocked_def slices_inv_def cursor_ok_def reader_notify_def
      log_event_def Let_def)

lemma MergeSlices_ok:
  assumes "slices_inv g (slices r)" "slices_inv g qs" "qs \<noteq> []"
  shows "\<exists>r'. MergeSlices cfg qs r = Inr r' \<and> slices_inv g (slices r') \<and>
    moves_work (slices r @ qs) (slices r') \<and> cursor_ok r'"
proof -
  from merge_slices_ok [OF assms(1,2), of cfg] obtain rs where
    rs: "merge_slices_loop cfg [] (slices r) qs = Inr rs" "slices_inv g rs" "moves_work (slices r @ qs) rs"
    by blast
  from resetNextReadSlice_ok [of g "r\<lparr>slices := rs\<rparr>"] rs assms(3) validate_slices_ok [OF assms(2)]
  show ?thesis by (auto simp: MergeSlices_def)
qed

text \<open>
  C3. Merging an ordered, disjoint list of slices into the reader's list never panics: the new
  list is ordered and disjoint again, every slice in it satisfies the slice invariant, no task
  to be loaded and no tracked executable is lost, and the reader continues at the first slice
  that has tasks to load.
\<close>

theorem MergeSlices_keeps_work:
  assumes "slices_inv g (slices r)" "slices_inv g incoming" "incoming \<noteq> []"
  shows "\<exists>r'. MergeSlices cfg incoming r = Inr r' \<and> slices_inv g (slices r') \<and>
    keeps_work (slices r @ incoming) (slices r') \<and> cursor_ok r'"
  using MergeSlices_ok [OF assms, of cfg] by (auto simp: moves_work_def)

theorem MergeSlices_keeps_work_witness:
  "let a = sample_slice 0 6 {''a''} (sample_task 3 ''a'') :: unit queue_slice;
       b = sample_slice 6 9 {''a''} (sample_task 7 ''a'');
       c = sample_slice 2 8 {''b''} (sample_task 5 ''b'')
   in \<exists>r'. MergeSlices sample_config [c] (NewReader [a, b]) = Inr r' \<and>
        slices_inv GrouperNamespaceID (slices r') \<and>
        keeps_work (slices (NewReader [a, b]) @ [c]) (slices r') \<and> cursor_ok r'"
  unfolding Let_def
  by (rule MergeSlices_keeps_work)
    (auto intro!: sample_slice_inv simp: NewReader_def sample_slice_scope NewScope_def key_le_iff MaxInt64_def)

lemma compact_slices_loop_ok:
  assumes "slices_inv g (passed @ rest)"
  shows "\<exists>ss. compact_slices_loop cfg P passed rest = Inr ss \<and> slices_inv g ss \<and>
     moves_work (passed @ rest) ss \<and> length ss \<le> length (passed @ rest)"
  using assms
proof (induction rest arbitrary: passed)
  case Nil
  then show ?case by (simp add: moves_work_refl)
next
  case (Cons s rest)
  show ?case
  proof (cases "passed = [] \<or> \<not> P s")
    case True
    with Cons.IH [of "passed @ [s]"] Cons.prems show ?thesis by auto
  next
    case False
    then obtain init L where passed: "passed = init @ [L]" by (metis rev_exhaust)
    with Cons.prems have inv: "slice_inv g L" "slice_inv g s" and Ls: "smax L \<le> smin s" by auto
    note v = slice_inv_valid [OF inv(1)] slice_inv_valid [OF inv(2)]
    from CompactWithSlice_ok [OF inv, of cfg] obtain m where
      m: "CompactWithSlice cfg L s = Inr m" "slice_inv g m" "keeps_work [L, s] [m]"
      "slice_range m = \<lparr>InclusiveMin = min (smin L) (smin s), ExclusiveMax = max (smax L) (smax s)\<rparr>"
      by blast
    have "smin L \<le> smin s" "smax L \<le> smax s" using v Ls order_trans by blast+
    with m(4) have mm: "smin m = smin L" "smax m = smax s" by (simp_all add: min_def max_def)
    have mw: "moves_work [L, s] [m]"
      unfolding moves_work_def using m(3) mm(2) by (metis list.set_intros set_ConsD empty_iff list.set(1))
    note mm
    with Cons.prems m(2) have "slices_inv g ((init @ [m]) @ rest)" by (auto simp: passed)
    from Cons.IH [OF this] obtain ss where
      ss: "compact_slices_loop cfg P (init @ [m]) rest = Inr ss" "slices_inv g ss"
      "moves_work ((init @ [m]) @ rest) ss" "length ss \<le> length ((init @ [m]) @ rest)" by blast
    have "moves_work (passed @ s # rest) ss"
      by (rule moves_work_chain [OF moves_work_append [OF mw moves_work_refl [of "init @ rest"]] ss(3)])
        (auto simp: passed)
    with ss m(1) False show ?thesis by (auto simp: passed)
  qed
qed

text \<open>
  C19. Compacting neighbouring slices keeps the list ordered and disjoint, does not make it
  longer, and loses no task and no tracked executable, whichever slices are chosen.
\<close>

theorem CompactSlices_keeps_work:
  assumes "slices_inv g (slices r)"
  shows "\<exists>r'. CompactSlices cfg P r = Inr r' \<and> slices_inv g (slices r') \<and>
    length (slices r') \<le> length (slices r) \<and> keeps_work (slices r) (slices r') \<and> cursor_ok r'"
proof -
  from compact_slices_loop_ok [of g "[]" "slices r" cfg P] assms obtain ss where
    ss: "compact_slices_loop cfg P [] (slices r) = Inr ss" "slices_inv g ss" "moves_work (slices r) ss"
    "length ss \<le> length (slices r)" by auto
  from resetNextReadSlice_ok [of g "r\<lparr>slices := ss\<rparr>"] ss show ?thesis
    by (auto simp: CompactSlices_def moves_work_def)
qed

theorem CompactSlices_keeps_work_witness:
  "let a = sample_slice 0 6 {''a''} (sample_task 3 ''a'') :: unit queue_slice;
       b = sample_slice 7 9 {''b''} (sample_task 7 ''b''); r = NewReader [a, b]
   in \<exists>r'. CompactSlices sample_config (\<lambda>_. True) r = Inr r' \<and> slices_inv GrouperNamespaceID (slices r') \<and>
        length (slices r') \<le> length (slices r) \<and> keeps_work (slices r) (slices r') \<and> cursor_ok r'"
  unfolding Let_def
  by (rule CompactSlices_keeps_work)
    (auto intro!: sample_slice_inv simp: NewReader_def sample_slice_scope NewScope_def key_le_iff MaxInt64_def)

section \<open>Shrinking under the cursor\<close>

definition shrunk :: "grouper \<Rightarrow> 'e queue_slice \<Rightarrow> 'e queue_slice \<Rightarrow> bool" where
  "shrunk g s s' \<longleftrightarrow> slice_inv g s' \<and> slice_iterators s' = slice_iterators s \<and>
     smin s \<le> smin s' \<and> smax s' = smax s \<and> (\<forall>t. loads s t \<longrightarrow> loads s' t) \<and>
     (\<forall>k e. holds s' k e \<longleftrightarrow> holds s k e \<and> State e \<noteq> TaskStateAcked)"

lemma shrink_slices_loop_ok:
  assumes "\<forall>s \<in> set ss. slice_inv g s \<and> smax s \<le> MaximumKey"
  shows "\<exists>ss' n. shrink_slices_loop cfg ss = Inr (ss', n) \<and>
     list_all2 (shrunk g) ss ss'"
  using assms
proof (induction ss)
  case (Cons s ss)
  from Cons obtain rest n where rest: "shrink_slices_loop cfg ss = Inr (rest, n)"
    "list_all2 (shrunk g) ss rest" by auto
  from ShrinkScope_ok [of g s cfg] Cons.prems obtain s' m where s': "ShrinkScope cfg s = Inr (s', m)"
    "slice_inv g s'" "slice_iterators s' = slice_iterators s" "smin s \<le> smin s'" "smax s' = smax s"
    "\<forall>t. loads s t \<longrightarrow> loads s' t" "\<forall>k e. holds s' k e \<longleftrightarrow> holds s k e \<and> State e \<noteq> TaskStateAcked"
    by auto
  then have "shrunk g s s'" by (simp add: shrunk_def)
  with s'(1) rest show ?case by simp
qed simp

text \<open>What shrinking leaves in the list, with the slices of an empty scope taken out.\<close>

lemma ShrinkSlices_ok:
  assumes "\<forall>s \<in> set (slices r). slice_inv g s \<and> smax s \<le> MaximumKey"
  shows "\<exists>r' n. ShrinkSlices cfg r = Inr (r', n) \<and> (\<forall>s \<in> set (slices r'). slice_inv g s) \<and>
     (\<forall>t. (\<exists>s \<in> set (slices r). loads s t) \<longrightarrow> (\<exists>s \<in> set (slices r'). loads s t)) \<and>
     (\<forall>k e. (\<exists>s \<in> set (slices r). holds s k e) \<and> State e \<noteq> TaskStateAcked \<longleftrightarrow>
            (\<exists>s \<in> set (slices r'). holds s k e))"
proof -
  from shrink_slices_loop_ok [OF assms, of cfg] obtain ss n where
    ss: "shrink_slices_loop cfg (slices r) = Inr (ss, n)"
    and l: "list_all2 (shrunk g) (slices r) ss" by blast
  have fwd: "\<exists>s' \<in> set ss. shrunk g s s'" if "s \<in> set (slices r)" for s
    by (rule list_all2_left [OF l that])
  have bwd: "\<exists>s \<in> set (slices r). shrunk g s s'" if "s' \<in> set ss" for s'
    by (rule list_all2_right [OF l that])
  have kept: "s' \<in> set (filter keep_slice ss)" if "s' \<in> set ss" "loads s' t \<or> holds s' k e" for s' t k e
    using that slice_inv_no_work [of g s'] bwd [OF that(1)]
    by (auto simp: keep_slice_def shrunk_def)
  have loads: "\<exists>s \<in> set (filter keep_slice ss). loads s t" if "s \<in> set (slices r)" "loads s t" for s t
    using fwd [OF that(1)] that(2) kept unfolding shrunk_def by blast
  have holds: "(\<exists>s \<in> set (slices r). holds s k e) \<and> State e \<noteq> TaskStateAcked \<longleftrightarrow>
      (\<exists>s \<in> set (filter keep_slice ss). holds s k e)" for k e
  proof
    assume "(\<exists>s \<in> set (slices r). holds s k e) \<and> State e \<noteq> TaskStateAcked"
    then obtain s where "s \<in> set (slices r)" "holds s k e" "State e \<noteq> TaskStateAcked" by blast
    with fwd kept show "\<exists>s \<in> set (filter keep_slice ss). holds s k e"
      unfolding shrunk_def by blast
  next
    assume "\<exists>s \<in> set (filter keep_slice ss). holds s k e"
    then obtain s' where "s' \<in> set ss" "holds s' k e" by auto
    with bwd show "(\<exists>s \<in> set (slices r). holds s k e) \<and> State e \<noteq> TaskStateAcked"
      unfolding shrunk_def by meson
  qed
  show ?thesis using ss bwd loads holds by (auto simp: ShrinkSlices_def shrunk_def)
qed

lemma empty_scope_selects_nothing:
  assumes "slice_inv g s" "Scope_IsEmpty (slice_scope s)"
  shows "to_select db s = []"
proof -
  have "\<not> Test (slice_predicate s) t" if "t \<in> set (unread db s)" for t
  proof -
    from that obtain i where "i \<in> set (slice_iterators s)" "ContainsKey (Iter_Range i) (GetKey t)"
      by (auto simp: unread_def in_range_def)
    with assms(1) have "ContainsKey (slice_range s) (GetKey t)"
      by (auto simp: slice_inv_def iters_within_def list_all_iff range_simps)
    with Scope_IsEmpty_Contains [OF assms(2), of t] show ?thesis by (simp add: Scope_Contains_def)
  qed
  then show ?thesis by (simp add: to_select_def filter_empty_conv)
qed

text \<open>
  C22. \<open>ShrinkSlices\<close> does not move the cursor. If it removes the slice the cursor is at, the next
  call of \<open>loadAndSubmitTasks\<close> loads nothing, leaves the cursor at no slice and reports
  completion, whatever slices with tasks to load are left in the list.
\<close>

theorem ShrinkSlices_strands_cursor:
  assumes inv: "\<forall>s \<in> set (slices r). slice_inv g s \<and> smax s \<le> MaximumKey"
    and at: "nextReadSlice r = AtSlice i" "i < length (slices r)"
    and sh: "ShrinkSlices cfg r = Inr (r', n)" "nextReadSlice r' = RemovedSlice s"
    and bk: "slice_backed (env_provider env) db s"
    and ok: "\<not> throttled r" "\<not> rateLimitContextDone env" "verifyPendingTaskSize env" "0 < BatchSize env"
  shows "\<exists>r''. loadAndSubmitTasks env r' = Some (Inr r'') \<and> slices r'' = slices r' \<and>
     nextReadSlice r'' = NoNextSlice \<and> reader_events r'' = reader_events r' @ [Completed]"
proof -
  from shrink_slices_loop_ok [OF inv, of cfg] sh(1) obtain ss where
    ss: "shrink_slices_loop cfg (slices r) = Inr (ss, n)" "length ss = length (slices r)"
    "\<forall>j < length ss. slice_inv g (ss ! j)"
    and r': "r' = r\<lparr>slices := filter keep_slice ss, nextReadSlice := cursor_after_removal ss (nextReadSlice r)\<rparr>"
    by (auto simp: ShrinkSlices_def list_all2_conv_all_nth shrunk_def)
  from sh(2) at r' have s: "s = ss ! i" "\<not> keep_slice s"
    by (auto simp: cursor_after_removal_def split: if_splits)
  with ss at(2) have s_inv: "slice_inv g s" and none: "to_select db s = []"
    using empty_scope_selects_nothing [of g s db] by (auto simp: keep_slice_def)
  obtain s' where sel: "SelectTasks (env_provider env) (BatchSize env) s = Some (Inr (Inr [], s'))"
    and s': "slice_inv g s'" "slice_iterators s' = []"
  proof (cases "slice_iterators s = []")
    case True
    with s_inv that show ?thesis by (auto simp: SelectTasks_def slice_inv_def)
  next
    case False
    from select_loop_ok [OF s_inv bk, of "[]" "BatchSize env"] none ok(4) obtain s' where
      "select_loop (env_provider env) (BatchSize env) s [] = Some (Inr (Inr [], s'))"
      "slice_inv g s'" "slice_iterators s' = []" by auto
    with False s_inv that show ?thesis by (auto simp: SelectTasks_def slice_inv_def)
  qed
  from s' have "MoreTasks s' = Inr False" using slice_inv_MoreTasks [OF s'(1)] by simp
  with sel sh(2) ok r' show ?thesis
    by (simp add: loadAndSubmitTasks_def cursor_slice_def set_cursor_slice_def next_element_def
        log_event_def Let_def)
qed

definition stranded_reader :: "unit reader" where
  "stranded_reader = NewReader
     [(NewSlice sample_config (NewScope \<lparr>InclusiveMin = Key 0 0, ExclusiveMax = Key 0 6\<rparr> UniversalImpl)
         GrouperNamespaceID)\<lparr>slice_iterators := [NewIterator \<lparr>InclusiveMin = Key 0 6, ExclusiveMax = Key 0 6\<rparr>]\<rparr>,
      NewSlice sample_config (NewScope \<lparr>InclusiveMin = Key 0 6, ExclusiveMax = Key 0 9\<rparr> UniversalImpl)
         GrouperNamespaceID]"

definition sample_env :: "unit reader_env" where
  "sample_env = \<lparr>env_provider = one_page [sample_task 7 ''a''], BatchSize = 5, MaxPendingTasksCount = 10,
     totalPendingTaskCount = 0, rateLimitContextDone = False, clockNow = 0,
     schedulerAccepts = (\<lambda>_. True), IsResourceExhausted = (\<lambda>_. False)\<rparr>"

lemma stranded_shrinks:
  "ShrinkSlices sample_config stranded_reader =
     Inr (stranded_reader
            \<lparr>slices := tl (slices stranded_reader),
             nextReadSlice := RemovedSlice
               ((hd (slices stranded_reader))\<lparr>slice_scope :=
                  NewScope \<lparr>InclusiveMin = Key 0 6, ExclusiveMax = Key 0 6\<rparr> UniversalImpl\<rparr>)\<rparr>, 0)"
  by code_simp

theorem ShrinkSlices_strands_cursor_witness:
  "\<exists>r' n s r''. ShrinkSlices sample_config stranded_reader = Inr (r', n) \<and>
     nextReadSlice r' = RemovedSlice s \<and> (\<exists>q \<in> set (slices r'). slice_iterators q \<noteq> []) \<and>
     loadAndSubmitTasks sample_env r' = Some (Inr r'') \<and> slices r'' = slices r' \<and>
     nextReadSlice r'' = NoNextSlice \<and> reader_events r'' = reader_events r' @ [Completed]"
proof -
  let ?s = "(hd (slices stranded_reader))\<lparr>slice_scope :=
    NewScope \<lparr>InclusiveMin = Key 0 6, ExclusiveMax = Key 0 6\<rparr> UniversalImpl\<rparr>"
  let ?r = "stranded_reader\<lparr>slices := tl (slices stranded_reader), nextReadSlice := RemovedSlice ?s\<rparr>"
  have inv: "\<forall>s \<in> set (slices stranded_reader). slice_inv GrouperNamespaceID s \<and> smax s \<le> MaximumKey"
    by (simp add: stranded_reader_def NewReader_def NewSlice_def ensurePredicateSizeLimit_def
        sample_config_def slice_inv_def NewScope_def valid_scope_def valid_range_def tracker_safe_new
        range_simps key_le_iff MaximumKey_def NewKey_def MaxInt64_def)
  have ok: "store_ok [sample_task 7 ''a'']"
    by (simp add: store_ok_def sample_task_def key_less_iff MaximumKey_def NewKey_def MaxInt64_def)
  have bk: "slice_backed (env_provider sample_env) [sample_task 7 ''a''] ?s"
    using iter_pending_new [OF one_page_backed [OF ok]]
    by (simp add: slice_backed_def sample_env_def stranded_reader_def NewReader_def MaxInt64_def)
  from ShrinkSlices_strands_cursor [OF inv _ _ stranded_shrinks _ bk, of 0]
  obtain r'' where "loadAndSubmitTasks sample_env ?r = Some (Inr r'')" "slices r'' = slices ?r"
    "nextReadSlice r'' = NoNextSlice" "reader_events r'' = reader_events ?r @ [Completed]"
    by (auto simp: stranded_reader_def NewReader_def sample_env_def verifyPendingTaskSize_def)
  moreover have "\<exists>q \<in> set (slices ?r). slice_iterators q \<noteq> []"
    by (simp add: stranded_reader_def NewReader_def NewSlice_iterators)
  moreover have "nextReadSlice ?r = RemovedSlice ?s" by simp
  ultimately show ?thesis using stranded_shrinks by blast
qed

end
