(* ===== verification/ReaderGroup.thy ===== *)
theory ReaderGroup
  imports QueueReader
begin

text \<open>
  The readers of a queue: \<open>service/history/queues/reader_group.go\<close>, and what it means that an
  operation on them loses no work. A reader is found by its ID in a map; the code changes it through a
  pointer, the model puts the changed reader back under its ID. The initializer is a parameter.
\<close>

section \<open>The group\<close>

record 'e reader_group =
  group_status :: daemon_status
  readerMap :: "(int \<times> 'e reader) list"

type_synonym 'e initializer = "int \<Rightarrow> 'e queue_slice list \<Rightarrow> 'e reader"

definition NewReaderGroup :: "'e reader_group" where
  "NewReaderGroup = \<lparr>group_status = DaemonStatusInitialized, readerMap = []\<rparr>"

definition isStarted :: "'e reader_group \<Rightarrow> bool" where
  "isStarted rg \<longleftrightarrow> group_status rg = DaemonStatusStarted"

definition Start_group :: "'e reader_group \<Rightarrow> 'e reader_group" where
  "Start_group rg =
     (if group_status rg = DaemonStatusInitialized
      then rg\<lparr>group_status := DaemonStatusStarted, readerMap := map (\<lambda>(k, r). (k, Start_reader r)) (readerMap rg)\<rparr>
      else rg)"

definition Stop_group :: "'e reader_group \<Rightarrow> 'e reader_group" where
  "Stop_group rg =
     (if group_status rg = DaemonStatusStarted
      then rg\<lparr>group_status := DaemonStatusStopped, readerMap := map (\<lambda>(k, r). (k, Stop_reader r)) (readerMap rg)\<rparr>
      else rg)"

definition ReaderByID :: "'e reader_group \<Rightarrow> int \<Rightarrow> 'e reader option" where
  "ReaderByID rg readerID = map_of (readerMap rg) readerID"

definition put_reader :: "int \<Rightarrow> 'e reader \<Rightarrow> 'e reader_group \<Rightarrow> 'e reader_group" where
  "put_reader readerID r rg = rg\<lparr>readerMap := AList.update readerID r (readerMap rg)\<rparr>"

definition newReaderLocked ::
    "'e initializer \<Rightarrow> int \<Rightarrow> 'e queue_slice list \<Rightarrow> 'e reader_group \<Rightarrow> queue_panic + 'e reader \<times> 'e reader_group" where
  "newReaderLocked init readerID ss rg =
     (let r = init readerID ss in
      if ReaderByID rg readerID \<noteq> None then Inl ReaderAlreadyExists
      else let r = (if isStarted rg then Start_reader r else r) in Inr (r, put_reader readerID r rg))"

definition GetOrCreateReader ::
    "'e initializer \<Rightarrow> int \<Rightarrow> 'e reader_group \<Rightarrow> queue_panic + 'e reader \<times> 'e reader_group" where
  "GetOrCreateReader init readerID rg =
     (case ReaderByID rg readerID of
        Some r \<Rightarrow> Inr (r, rg)
      | None \<Rightarrow> newReaderLocked init readerID [] rg)"

text \<open>The reader is stopped and unreachable afterwards.\<close>

definition RemoveReader :: "int \<Rightarrow> 'e reader_group \<Rightarrow> 'e reader_group" where
  "RemoveReader readerID rg =
     (case ReaderByID rg readerID of
        None \<Rightarrow> rg
      | Some _ \<Rightarrow> rg\<lparr>readerMap := AList.delete readerID (readerMap rg)\<rparr>)"

text \<open>\<open>ForEach\<close> with an operation that changes the reader and adds to a sum, in the order of the map.\<close>

fun for_each_reader ::
    "('e reader \<Rightarrow> queue_panic + 'e reader \<times> int) \<Rightarrow> (int \<times> 'e reader) list \<Rightarrow> queue_panic + (int \<times> 'e reader) list \<times> int" where
  "for_each_reader f [] = Inr ([], 0)"
| "for_each_reader f ((k, r) # rest) =
     bind_result (f r) (\<lambda>(r', n).
     bind_result (for_each_reader f rest) (\<lambda>(rest', m). Inr ((k, r') # rest', n + m)))"

definition ForEach ::
    "('e reader \<Rightarrow> queue_panic + 'e reader \<times> int) \<Rightarrow> 'e reader_group \<Rightarrow> queue_panic + 'e reader_group \<times> int" where
  "ForEach f rg = bind_result (for_each_reader f (readerMap rg)) (\<lambda>(m, n). Inr (rg\<lparr>readerMap := m\<rparr>, n))"

text \<open>
  What the readers and slices report to the monitor (\<open>monitor.go\<close>): the numbers of slices and of
  pending executables of every slice.
\<close>

definition all_slices :: "'e reader_group \<Rightarrow> 'e queue_slice list" where
  "all_slices rg = concat (map (\<lambda>(k, r). slices r) (readerMap rg))"

definition GetTotalSliceCount :: "'e reader_group \<Rightarrow> int" where
  "GetTotalSliceCount rg = sum_list (map (\<lambda>(k, r). int (length (slices r))) (readerMap rg))"

definition GetSliceCount :: "'e reader_group \<Rightarrow> int \<Rightarrow> int" where
  "GetSliceCount rg readerID = (case ReaderByID rg readerID of Some r \<Rightarrow> int (length (slices r)) | None \<Rightarrow> 0)"

definition GetSlicePendingTaskCount :: "'e queue_slice \<Rightarrow> int" where
  "GetSlicePendingTaskCount s = int (length (pendingExecutables (slice_tracker s)))"

definition GetTotalPendingTaskCount :: "'e reader_group \<Rightarrow> int" where
  "GetTotalPendingTaskCount rg = sum_list (map GetSlicePendingTaskCount (all_slices rg))"

section \<open>Carrying work over\<close>

text \<open>
  A list of slices covers a task if one of the slices still loads it or tracks an executable under its
  key. \<open>carries db as bs\<close>: what \<open>as\<close> covers is covered by \<open>bs\<close>, or its executable was acknowledged; the
  executables of \<open>bs\<close> are those of \<open>as\<close> or new ones. The tasks are those of the store \<open>db\<close>.
\<close>

definition covers :: "'e queue_slice list \<Rightarrow> task \<Rightarrow> bool" where
  "covers ss t \<longleftrightarrow> (\<exists>s \<in> set ss. loads s t \<or> (\<exists>e. holds s (GetKey t) e))"

definition acked :: "'e queue_slice list \<Rightarrow> task_key \<Rightarrow> bool" where
  "acked ss k \<longleftrightarrow> (\<exists>s \<in> set ss. \<exists>e. holds s k e \<and> State e = TaskStateAcked)"

definition held_from :: "task set \<Rightarrow> 'e queue_slice list \<Rightarrow> bool" where
  "held_from db ss \<longleftrightarrow> (\<forall>s \<in> set ss. \<forall>k e. holds s k e \<longrightarrow> GetTask e \<in> db \<and> exec_key e = k)"

definition carries :: "task set \<Rightarrow> 'e queue_slice list \<Rightarrow> 'e queue_slice list \<Rightarrow> bool" where
  "carries db as bs \<longleftrightarrow> (held_from db as \<longrightarrow>
     held_from db bs \<and>
     (\<forall>t \<in> db. covers as t \<longrightarrow> covers bs t \<or> acked as (GetKey t)) \<and>
     (\<forall>k. acked bs k \<longrightarrow> acked as k))"

lemma carries_refl: "carries db ss ss"
  by (simp add: carries_def)

lemma carries_trans: "carries db as bs \<Longrightarrow> carries db bs cs \<Longrightarrow> carries db as cs"
  unfolding carries_def by blast

lemma covers_append [simp]: "covers (xs @ ys) t \<longleftrightarrow> covers xs t \<or> covers ys t"
  by (auto simp: covers_def)

lemma acked_append [simp]: "acked (xs @ ys) k \<longleftrightarrow> acked xs k \<or> acked ys k"
  by (auto simp: acked_def)

lemma held_from_append [simp]: "held_from db (xs @ ys) \<longleftrightarrow> held_from db xs \<and> held_from db ys"
  by (auto simp: held_from_def)

lemma carries_nil [simp]: "covers [] t \<longleftrightarrow> False" "acked [] k \<longleftrightarrow> False" "held_from db []"
  by (simp_all add: covers_def acked_def held_from_def)

lemma carries_append:
  "carries db as bs \<Longrightarrow> carries db cs ds \<Longrightarrow> carries db (as @ cs) (bs @ ds)"
  unfolding carries_def by auto

lemma carries_same_set: "set as = set bs \<Longrightarrow> carries db as bs"
  by (simp add: carries_def covers_def acked_def held_from_def)

lemma carries_chain:
  "set as = set as' \<Longrightarrow> carries db as' bs \<Longrightarrow> set bs = set bs' \<Longrightarrow> carries db bs' cs \<Longrightarrow> set cs = set cs' \<Longrightarrow> carries db as cs'"
  by (meson carries_same_set carries_trans)

lemma carries_superset: "set as \<subseteq> set bs \<Longrightarrow> held_from db bs \<Longrightarrow> (\<forall>k. acked bs k \<longrightarrow> acked as k) \<Longrightarrow> carries db as bs"
  by (auto simp: carries_def covers_def)

lemma keeps_work_carries: "keeps_work as bs \<Longrightarrow> carries db as bs"
  unfolding carries_def keeps_work_def covers_def acked_def held_from_def by blast

lemma moves_work_carries: "moves_work as bs \<Longrightarrow> carries db as bs"
  by (simp add: moves_work_def keeps_work_carries)

text \<open>Slices without work, such as those with an empty scope, may be dropped or added.\<close>

lemma carries_idle:
  assumes "\<forall>s \<in> set ss. (\<forall>k e. \<not> holds s k e)"
  shows "held_from db ss" "acked ss k \<longleftrightarrow> False"
  using assms by (auto simp: held_from_def acked_def)

section \<open>Invariants\<close>

text \<open>The slices of a reader in order, within the range that is readable.\<close>

definition slices_ok :: "grouper \<Rightarrow> task_key \<Rightarrow> 'e queue_slice list \<Rightarrow> bool" where
  "slices_ok g M ss \<longleftrightarrow> slices_inv g ss \<and> (\<forall>s \<in> set ss. smax s \<le> M)"

definition group_ok :: "grouper \<Rightarrow> task_key \<Rightarrow> 'e reader_group \<Rightarrow> bool" where
  "group_ok g M rg \<longleftrightarrow> go_map (readerMap rg) \<and> (\<forall>(k, r) \<in> set (readerMap rg). slices_ok g M (slices r))"

lemma slices_ok_simps [simp]:
  "slices_ok g M []"
  "slices_ok g M (s # ss) \<longleftrightarrow> slice_inv g s \<and> smax s \<le> M \<and> slices_ok g M ss \<and> (\<forall>q \<in> set ss. smax s \<le> smin q)"
  "slices_ok g M (ss @ qs) \<longleftrightarrow> slices_ok g M ss \<and> slices_ok g M qs \<and> (\<forall>s \<in> set ss. \<forall>q \<in> set qs. smax s \<le> smin q)"
  by (auto simp: slices_ok_def)

lemma slices_ok_mono: "slices_ok g M ss \<Longrightarrow> M \<le> N \<Longrightarrow> slices_ok g N ss"
  by (auto simp: slices_ok_def intro: order_trans)

lemma group_ok_mono: "group_ok g M rg \<Longrightarrow> M \<le> N \<Longrightarrow> group_ok g N rg"
  by (auto simp: group_ok_def intro: slices_ok_mono)

lemma group_ok_reader: "group_ok g M rg \<Longrightarrow> ReaderByID rg k = Some r \<Longrightarrow> slices_ok g M (slices r)"
  by (auto simp: group_ok_def ReaderByID_def dest: map_of_SomeD)

lemma ReaderByID_put [simp]:
  "ReaderByID (put_reader k r rg) j = (if j = k then Some r else ReaderByID rg j)"
  by (simp add: ReaderByID_def put_reader_def update_conv')

lemma group_ok_put: "group_ok g M rg \<Longrightarrow> slices_ok g M (slices r) \<Longrightarrow> group_ok g M (put_reader k r rg)"
  using set_update_distinct [of "readerMap rg" k r]
  by (auto simp: group_ok_def put_reader_def intro: go_map_update)

lemma group_status_put [simp]: "group_status (put_reader k r rg) = group_status rg"
  by (simp add: put_reader_def)

text \<open>The slices of the group apart from one reader.\<close>

definition other_slices :: "int \<Rightarrow> 'e reader_group \<Rightarrow> 'e queue_slice list" where
  "other_slices k rg = concat (map (\<lambda>(j, r). if j = k then [] else slices r) (readerMap rg))"

lemma set_all_slices: "set (all_slices rg) = (\<Union>(k, r) \<in> set (readerMap rg). set (slices r))"
  by (auto simp: all_slices_def)

lemma set_other_slices: "set (other_slices k rg) = (\<Union>(j, r) \<in> {p \<in> set (readerMap rg). fst p \<noteq> k}. set (slices r))"
  by (auto simp: other_slices_def split: if_splits) force

lemma all_slices_reader:
  assumes "group_ok g M rg" "ReaderByID rg k = Some r"
  shows "set (all_slices rg) = set (other_slices k rg @ slices r)"
proof -
  from assms have m: "(k, r') \<in> set (readerMap rg) \<longleftrightarrow> r' = r" for r'
    using eq_key_imp_eq_value [of "readerMap rg" k] by (auto simp: group_ok_def ReaderByID_def dest: map_of_SomeD)
  show ?thesis
  proof (intro set_eqI iffI)
    fix s assume "s \<in> set (all_slices rg)"
    then obtain j r' where "(j, r') \<in> set (readerMap rg)" "s \<in> set (slices r')" by (auto simp: set_all_slices)
    with m show "s \<in> set (other_slices k rg @ slices r)"
      by (cases "j = k") (auto simp: set_other_slices)
  next
    fix s assume "s \<in> set (other_slices k rg @ slices r)"
    with m show "s \<in> set (all_slices rg)" by (auto simp: set_other_slices set_all_slices)
  qed
qed

lemma all_slices_absent:
  "ReaderByID rg k = None \<Longrightarrow> set (all_slices rg) = set (other_slices k rg)"
  by (auto simp: set_other_slices set_all_slices ReaderByID_def map_of_eq_None_iff)

lemma all_slices_put:
  assumes "group_ok g M rg"
  shows "set (all_slices (put_reader k r rg)) = set (other_slices k rg @ slices r)"
  using assms set_update_distinct [of "readerMap rg" k r]
  by (auto simp: set_all_slices set_other_slices put_reader_def group_ok_def)

lemma other_slices_put [simp]: "other_slices k (put_reader k r rg) = other_slices k rg"
proof -
  have "concat (map (\<lambda>(j, r). if j = k then [] else slices r) (AList.update k r m)) =
      concat (map (\<lambda>(j, r). if j = k then [] else slices r) m)" for m :: "(int \<times> 'a reader) list"
    by (induction m) auto
  then show ?thesis by (simp add: other_slices_def put_reader_def)
qed

text \<open>Changing one reader so that it hands slices to another carries the work of the group.\<close>

lemma put_reader_carries:
  assumes "group_ok g M rg" "ReaderByID rg k = Some r" "carries db (slices r) (slices r')"
  shows "carries db (all_slices rg) (all_slices (put_reader k r' rg))"
  by (rule carries_chain [OF all_slices_reader [OF assms(1,2)] carries_append [OF carries_refl assms(3)]
        refl carries_refl]) (simp add: all_slices_put [OF assms(1)])

lemma GetOrCreate_ok:
  assumes ok: "group_ok g M rg" and new: "\<And>k ss. slices (init k ss) = ss"
  shows "\<exists>r rg'. GetOrCreateReader init k rg = Inr (r, rg') \<and> group_ok g M rg' \<and> ReaderByID rg' k = Some r \<and>
     set (all_slices rg') = set (all_slices rg) \<and> set (other_slices k rg') = set (other_slices k rg) \<and>
     group_status rg' = group_status rg \<and> (\<forall>j. j \<noteq> k \<longrightarrow> ReaderByID rg' j = ReaderByID rg j)"
proof (cases "ReaderByID rg k")
  case None
  define r where "r = (if isStarted rg then Start_reader (init k []) else init k [])"
  have "slices r = []" by (simp add: r_def new Start_reader_def reader_notify_def)
  with None ok all_slices_absent [OF None] all_slices_put [OF ok, of k r] group_ok_put [OF ok, of r k] show ?thesis
    by (simp add: GetOrCreateReader_def newReaderLocked_def r_def Let_def)
next
  case (Some r)
  with ok show ?thesis by (simp add: GetOrCreateReader_def)
qed

end
