(* ===== verification/ReaderWork.thy ===== *)
theory ReaderWork
  imports ReaderGroup
begin

text \<open>
  Every operation of a reader on its list of slices keeps the list in order and carries the work over:
  the facts about \<open>QueueReader\<close> that the actions on reader groups and the queue itself rest on. The
  operations that take a callback (\<open>SplitSlices\<close>, \<open>ClearSlices\<close>) are given here with what the callbacks
  of the actions need: they may append to a list of their caller, and they tell slices apart by
  identity, which is the position in the list.
\<close>

section \<open>Callbacks\<close>

fun split_indexed ::
    "(nat \<Rightarrow> 'e queue_slice \<Rightarrow> queue_panic + 'e queue_slice list \<times> bool \<times> 'e queue_slice list) \<Rightarrow> nat \<Rightarrow>
     'e queue_slice list \<Rightarrow> 'e queue_slice list \<Rightarrow> 'e queue_slice list \<Rightarrow>
     queue_panic + 'e queue_slice list \<times> 'e queue_slice list" where
  "split_indexed f i acc taken [] = Inr (acc, taken)"
| "split_indexed f i acc taken (s # rest) =
     bind_result (f i s) (\<lambda>(newSlices, split, mv).
       if \<not> split then split_indexed f (Suc i) (acc @ [s]) (taken @ mv) rest
       else bind_result (push_non_empty acc newSlices) (\<lambda>acc'. split_indexed f (Suc i) acc' (taken @ mv) rest))"

definition SplitSlices_with ::
    "(nat \<Rightarrow> 'e queue_slice \<Rightarrow> queue_panic + 'e queue_slice list \<times> bool \<times> 'e queue_slice list) \<Rightarrow> 'e reader \<Rightarrow>
     queue_panic + 'e reader \<times> 'e queue_slice list" where
  "SplitSlices_with f r =
     bind_result (split_indexed f 0 [] [] (slices r)) (\<lambda>(ss, taken).
     bind_result (resetNextReadSliceLocked (r\<lparr>slices := ss\<rparr>)) (\<lambda>r'. Inr (r', taken)))"

fun clear_indexed ::
    "slice_config \<Rightarrow> (nat \<Rightarrow> bool) \<Rightarrow> nat \<Rightarrow> 'e queue_slice list \<Rightarrow> queue_panic + 'e queue_slice list" where
  "clear_indexed cfg P i [] = Inr []"
| "clear_indexed cfg P i (s # rest) =
     bind_result (if P i then bind_result (Slice_Clear cfg s) (\<lambda>(s', _). Inr s') else Inr s) (\<lambda>s'.
     bind_result (clear_indexed cfg P (Suc i) rest) (\<lambda>rest'. Inr (s' # rest')))"

definition ClearSlices_with :: "slice_config \<Rightarrow> (nat \<Rightarrow> bool) \<Rightarrow> 'e reader \<Rightarrow> queue_panic + 'e reader" where
  "ClearSlices_with cfg P r =
     bind_result (clear_indexed cfg P 0 (slices r)) (\<lambda>ss. resetNextReadSliceLocked (r\<lparr>slices := ss\<rparr>))"

text \<open>A callback that looks at the slice only makes these the operations of the reader.\<close>

lemma split_indexed_plain:
  "split_slices_loop (\<lambda>s. bind_result (f s) (\<lambda>(n, sp, mv). Inr (n, sp))) acc ss =
     bind_result (split_indexed (\<lambda>_. f) i acc taken ss) (\<lambda>(ss', _). Inr ss')"
proof (induction ss arbitrary: i acc taken)
  case (Cons s ss)
  show ?case
  proof (cases "f s")
    case (Inr x)
    obtain n sp mv where x: "x = (n, sp, mv)" by (cases x)
    show ?thesis
    proof (cases sp)
      case True
      with Inr x Cons.IH [of _ "Suc i" "taken @ mv"] show ?thesis
        by (cases "push_non_empty acc n") simp_all
    next
      case False
      with Inr x Cons.IH [of "acc @ [s]" "Suc i" "taken @ mv"] show ?thesis by simp
    qed
  qed simp
qed simp

lemma SplitSlices_plain:
  "SplitSlices (\<lambda>s. bind_result (f s) (\<lambda>(n, sp, mv). Inr (n, sp))) r =
     bind_result (SplitSlices_with (\<lambda>_. f) r) (\<lambda>(r', _). Inr r')"
  unfolding SplitSlices_def SplitSlices_with_def split_indexed_plain [where i = 0 and taken = "[]"]
  by (cases "split_indexed (\<lambda>_. f) 0 [] [] (slices r)") (auto simp: bind_result_assoc split: prod.splits)

lemma ClearSlices_plain: "ClearSlices cfg (\<lambda>_. b) r = ClearSlices_with cfg (\<lambda>_. b) r"
proof -
  have "clear_slices_loop cfg (\<lambda>_. b) ss = clear_indexed cfg (\<lambda>_. b) i ss" for i and ss :: "'a queue_slice list"
    by (induction ss arbitrary: i) simp_all
  then show ?thesis by (simp add: ClearSlices_def ClearSlices_with_def)
qed

section \<open>Shrinking and clearing\<close>

lemma reset_slices:
  assumes "slices_inv g (slices r)"
  shows "\<exists>r'. resetNextReadSliceLocked r = Inr r' \<and> slices r' = slices r"
  using resetNextReadSlice_ok [OF assms] by blast

lemma slices_ok_pointwise:
  assumes "list_all2 (\<lambda>s s'. slice_inv g s' \<and> smin s \<le> smin s' \<and> smax s' = smax s) ss ss'" "slices_ok g M ss"
  shows "slices_ok g M ss'"
  using assms
proof (induction rule: list_all2_induct)
  case (Cons s ss s' ss')
  have "smax s' \<le> smin q'" if "q' \<in> set ss'" for q'
    using list_all2_right [OF Cons.hyps(2) that] Cons.prems Cons.hyps(1) by (auto intro: order_trans)
  with Cons show ?case by auto
qed simp

lemma slices_ok_filter: "slices_ok g M ss \<Longrightarrow> slices_ok g M (filter P ss)"
  by (induction ss) auto

lemma shrunk_carries: "shrunk g s s' \<Longrightarrow> carries db [s] [s']"
  by (auto simp: shrunk_def carries_def covers_def acked_def held_from_def)

lemma carries_pointwise: "list_all2 (\<lambda>s s'. carries db [s] [s']) ss ss' \<Longrightarrow> carries db ss ss'"
proof (induction rule: list_all2_induct)
  case Nil
  show ?case by (rule carries_refl)
next
  case (Cons s ss s' ss')
  from carries_append [OF Cons.hyps(1) Cons.IH] show ?case by simp
qed

lemma carries_drop_empty:
  assumes "\<forall>s \<in> set ss. slice_inv g s"
  shows "carries db ss (filter (\<lambda>s. \<not> Scope_IsEmpty (slice_scope s)) ss)"
  by (rule keeps_work_carries [OF keeps_work_drop_empty [OF assms]])

lemma slices_ok_invs: "slices_ok g M ss \<Longrightarrow> \<forall>s \<in> set ss. slice_inv g s"
  by (auto simp: slices_ok_def dest: slices_inv_memD)

lemma Shrink_carries:
  assumes ok: "slices_ok g M (slices r)" and M: "M \<le> MaximumKey"
  shows "\<exists>r' n. ShrinkSlices cfg r = Inr (r', n) \<and> slices_ok g M (slices r') \<and> carries db (slices r) (slices r')"
proof -
  from ok M have "\<forall>s \<in> set (slices r). slice_inv g s \<and> smax s \<le> MaximumKey"
    using slices_ok_invs [OF ok] by (auto simp: slices_ok_def intro: order_trans)
  from shrink_slices_loop_ok [OF this, of cfg] obtain ss n where
    ss: "shrink_slices_loop cfg (slices r) = Inr (ss, n)" "list_all2 (shrunk g) (slices r) ss" by blast
  have ok': "slices_ok g M ss"
    by (rule slices_ok_pointwise [OF list_all2_mono [OF ss(2)] ok]) (simp add: shrunk_def)
  have "carries db (slices r) ss"
    by (rule carries_pointwise [OF list_all2_mono [OF ss(2)]]) (rule shrunk_carries)
  then have "carries db (slices r) (filter keep_slice ss)"
    unfolding keep_slice_def using carries_trans carries_drop_empty [OF slices_ok_invs [OF ok']] by blast
  with ss(1) slices_ok_filter [OF ok'] show ?thesis by (auto simp: ShrinkSlices_def)
qed

text \<open>A cleared slice loads its unacknowledged tasks again; that keys are unique in the store is needed here.\<close>

lemma Clear_carries:
  assumes inv: "slice_inv g s" and max: "smax s \<le> MaximumKey" and db: "inj_on GetKey db"
  shows "\<exists>s' c. Slice_Clear cfg s = Inr (s', c) \<and> slice_inv g s' \<and> smin s \<le> smin s' \<and> smax s' = smax s \<and> carries db [s] [s']"
proof -
  from Slice_Clear_ok [OF inv max, of cfg] obtain s' c where s': "Slice_Clear cfg s = Inr (s', c)" "slice_inv g s'"
    "\<forall>k e. \<not> holds s' k e" "\<forall>t. loads s t \<longrightarrow> loads s' t"
    "\<forall>k e. holds s k e \<and> State e \<noteq> TaskStateAcked \<longrightarrow> loads s' (GetTask e) \<and> Cancel e \<in> set c"
    "smax s' = smax s" "smin s \<le> smin s'" by blast
  have "carries db [s] [s']"
    unfolding carries_def
  proof (intro impI conjI ballI allI)
    assume held: "held_from db [s]"
    show "held_from db [s']" using s'(3) by (simp add: held_from_def)
    fix t assume t: "t \<in> db" "covers [s] t"
    show "covers [s'] t \<or> acked [s] (GetKey t)"
    proof (cases "loads s t")
      case True
      with s'(4) show ?thesis by (simp add: covers_def)
    next
      case False
      with t(2) obtain e where e: "holds s (GetKey t) e" by (auto simp: covers_def)
      with held have "GetTask e \<in> db" "GetKey (GetTask e) = GetKey t" by (auto simp: held_from_def exec_key_def)
      with db t(1) have "GetTask e = t" by (auto dest: inj_onD)
      with e s'(5) show ?thesis by (auto simp: covers_def acked_def)
    qed
  next
    fix k assume "acked [s'] k"
    with s'(3) show "acked [s] k" by (simp add: acked_def)
  qed
  with s' show ?thesis by blast
qed

lemma clear_indexed_ok:
  assumes "\<forall>s \<in> set ss. slice_inv g s \<and> smax s \<le> MaximumKey" "inj_on GetKey db"
  shows "\<exists>ss'. clear_indexed cfg P i ss = Inr ss' \<and>
    list_all2 (\<lambda>s s'. (slice_inv g s' \<and> smin s \<le> smin s' \<and> smax s' = smax s) \<and> carries db [s] [s']) ss ss'"
  using assms(1)
proof (induction ss arbitrary: i)
  case (Cons s ss)
  from Cons obtain rest where "clear_indexed cfg P (Suc i) ss = Inr rest"
    "list_all2 (\<lambda>s s'. (slice_inv g s' \<and> smin s \<le> smin s' \<and> smax s' = smax s) \<and> carries db [s] [s']) ss rest" by fastforce
  moreover from Clear_carries [of g s db cfg] Cons.prems assms(2) obtain s' c where
    "Slice_Clear cfg s = Inr (s', c)" "slice_inv g s'" "smin s \<le> smin s'" "smax s' = smax s" "carries db [s] [s']" by auto
  ultimately show ?case using Cons.prems carries_refl by (cases "P i") auto
qed simp

lemma ClearSlices_carries:
  assumes ok: "slices_ok g M (slices r)" and M: "M \<le> MaximumKey" and db: "inj_on GetKey db"
  shows "\<exists>r'. ClearSlices_with cfg P r = Inr r' \<and> slices_ok g M (slices r') \<and> carries db (slices r) (slices r')"
proof -
  from ok M have "\<forall>s \<in> set (slices r). slice_inv g s \<and> smax s \<le> MaximumKey"
    using slices_ok_invs [OF ok] by (auto simp: slices_ok_def intro: order_trans)
  from clear_indexed_ok [OF this db, of cfg P 0] obtain ss where ss: "clear_indexed cfg P 0 (slices r) = Inr ss"
    and l: "list_all2 (\<lambda>s s'. (slice_inv g s' \<and> smin s \<le> smin s' \<and> smax s' = smax s) \<and> carries db [s] [s']) (slices r) ss" by blast
  have ok': "slices_ok g M ss" by (rule slices_ok_pointwise [OF list_all2_mono [OF l] ok]) simp
  have "carries db (slices r) ss" by (rule carries_pointwise [OF list_all2_mono [OF l]]) simp
  moreover from reset_slices [of g "r\<lparr>slices := ss\<rparr>"] ok' obtain r' where
    "resetNextReadSliceLocked (r\<lparr>slices := ss\<rparr>) = Inr r'" "slices r' = ss" by (auto simp: slices_ok_def)
  ultimately show ?thesis using ss ok' by (simp add: ClearSlices_with_def)
qed

section \<open>Splitting, merging, appending, compacting\<close>

text \<open>
  What the callback of a split may do with a slice: it hands over slices to keep and slices to take
  away, within the range of the slice, that carry its work.
\<close>

definition split_ok ::
    "grouper \<Rightarrow> task set \<Rightarrow> 'e queue_slice \<Rightarrow> queue_panic + 'e queue_slice list \<times> bool \<times> 'e queue_slice list \<Rightarrow> bool" where
  "split_ok g db s res \<longleftrightarrow>
     (\<exists>n sp mv. res = Inr (n, sp, mv) \<and> slices_inv g (if sp then n else [s]) \<and> slices_inv g mv \<and>
        (\<forall>q \<in> set (if sp then n else []) \<union> set mv. smin s \<le> smin q \<and> smax q \<le> smax s) \<and>
        carries db [s] ((if sp then n else [s]) @ mv))"

lemma push_non_empty_eq:
  "\<forall>s \<in> set ss. slice_inv g s \<Longrightarrow>
   push_non_empty acc ss = Inr (acc @ filter (\<lambda>s. \<not> Scope_IsEmpty (slice_scope s)) ss)"
  by (induction ss arbitrary: acc) auto

lemma slices_inv_filter: "slices_inv g ss \<Longrightarrow> slices_inv g (filter P ss)"
  by (induction ss) auto

lemma carries_fst:
  "carries db as (bs @ cs) \<Longrightarrow> carries db bs bs' \<Longrightarrow> carries db as (bs' @ cs)"
  by (rule carries_trans [OF _ carries_append [OF _ carries_refl]])

lemma split_indexed_ok:
  assumes "slices_inv g ss" "\<And>i s. s \<in> set ss \<Longrightarrow> split_ok g db s (f i s)"
    and "slices_inv g acc" "slices_inv g taken" "\<forall>q \<in> set acc \<union> set taken. \<forall>s \<in> set ss. smax q \<le> smin s"
  shows "\<exists>ss' taken'. split_indexed f i acc taken ss = Inr (ss', taken') \<and> slices_inv g ss' \<and> slices_inv g taken' \<and>
    carries db (acc @ taken @ ss) (ss' @ taken') \<and>
    (\<forall>M. (\<forall>s \<in> set (acc @ taken @ ss). smax s \<le> M) \<longrightarrow> (\<forall>s \<in> set (ss' @ taken'). smax s \<le> M))"
  using assms
proof (induction ss arbitrary: i acc taken)
  case Nil
  then show ?case by (simp add: carries_refl)
next
  case (Cons s ss)
  from Cons.prems(2) [of s i] obtain n sp mv where f: "f i s = Inr (n, sp, mv)"
    and inv: "slices_inv g (if sp then n else [s])" "slices_inv g mv"
    and within: "\<forall>q \<in> set (if sp then n else []) \<union> set mv. smin s \<le> smin q \<and> smax q \<le> smax s"
    and car: "carries db [s] ((if sp then n else [s]) @ mv)" by (auto simp: split_ok_def)
  define ns where "ns = (if sp then filter (\<lambda>s. \<not> Scope_IsEmpty (slice_scope s)) n else [s])"
  have s: "slice_inv g s" "slices_inv g ss" "\<forall>q \<in> set ss. smax s \<le> smin q" using Cons.prems(1) by auto
  have ns: "slices_inv g ns" using inv s(1) by (auto simp: ns_def intro: slices_inv_filter)
  have nsw: "\<forall>q \<in> set ns \<union> set mv. smin s \<le> smin q \<and> smax q \<le> smax s"
    using within by (auto simp: ns_def split: if_splits)
  have n_inv: "sp \<Longrightarrow> \<forall>q \<in> set n. slice_inv g q" using inv(1) by (auto dest: slices_inv_memD)
  have car': "carries db [s] (ns @ mv)"
  proof (cases sp)
    case True
    with car have "carries db [s] (n @ mv)" by simp
    from carries_fst [OF this carries_drop_empty [OF n_inv [OF True]]] True show ?thesis by (simp add: ns_def)
  next
    case False
    with car show ?thesis by (simp add: ns_def)
  qed
  have step: "split_indexed f i acc taken (s # ss) = split_indexed f (Suc i) (acc @ ns) (taken @ mv) ss"
    using f push_non_empty_eq [of n g acc] n_inv by (cases sp) (simp_all add: ns_def)
  have "\<exists>ss' taken'. split_indexed f (Suc i) (acc @ ns) (taken @ mv) ss = Inr (ss', taken') \<and> slices_inv g ss' \<and> slices_inv g taken' \<and>
      carries db ((acc @ ns) @ (taken @ mv) @ ss) (ss' @ taken') \<and>
      (\<forall>M. (\<forall>s \<in> set ((acc @ ns) @ (taken @ mv) @ ss). smax s \<le> M) \<longrightarrow> (\<forall>s \<in> set (ss' @ taken'). smax s \<le> M))"
  proof (rule Cons.IH)
    show "slices_inv g (acc @ ns)" "slices_inv g (taken @ mv)"
      using Cons.prems(3-5) ns nsw inv(2) by (auto intro: order_trans)
    show "\<forall>q \<in> set (acc @ ns) \<union> set (taken @ mv). \<forall>s \<in> set ss. smax q \<le> smin s"
      using Cons.prems(5) nsw s(3) by (auto intro: order_trans)
  qed (use Cons.prems s in auto)
  then obtain ss' taken' where rec: "split_indexed f (Suc i) (acc @ ns) (taken @ mv) ss = Inr (ss', taken')"
    "slices_inv g ss'" "slices_inv g taken'" "carries db ((acc @ ns) @ (taken @ mv) @ ss) (ss' @ taken')"
    "\<forall>M. (\<forall>s \<in> set ((acc @ ns) @ (taken @ mv) @ ss). smax s \<le> M) \<longrightarrow> (\<forall>s \<in> set (ss' @ taken'). smax s \<le> M)" by blast
  have "carries db (acc @ taken @ s # ss) (ss' @ taken')"
    by (rule carries_chain [OF _ carries_append [OF car' carries_refl [of db "acc @ taken @ ss"]] _ rec(4) refl]) auto
  moreover have "\<forall>s \<in> set (ss' @ taken'). smax s \<le> M" if "\<forall>q \<in> set (acc @ taken @ s # ss). smax q \<le> M" for M
  proof (rule rec(5) [THEN spec, THEN mp], rule ballI)
    fix q assume "q \<in> set ((acc @ ns) @ (taken @ mv) @ ss)"
    then consider "q \<in> set (acc @ taken @ s # ss)" | "q \<in> set ns \<union> set mv" by auto
    then show "smax q \<le> M" by cases (use that nsw in \<open>auto intro: order_trans\<close>)
  qed
  ultimately show ?case unfolding step using rec(1-3) by blast
qed

lemma SplitSlices_carries:
  assumes ok: "slices_ok g M (slices r)" and f: "\<And>i s. s \<in> set (slices r) \<Longrightarrow> split_ok g db s (f i s)"
  shows "\<exists>r' taken. SplitSlices_with f r = Inr (r', taken) \<and> slices_ok g M (slices r') \<and> slices_ok g M taken \<and>
    carries db (slices r) (slices r' @ taken)"
proof -
  from ok have inv: "slices_inv g (slices r)" by (simp add: slices_ok_def)
  from split_indexed_ok [OF inv, of db f "[]" "[]" 0] f obtain ss taken where
    s: "split_indexed f 0 [] [] (slices r) = Inr (ss, taken)" "slices_inv g ss" "slices_inv g taken"
    "carries db (slices r) (ss @ taken)"
    "\<forall>M. (\<forall>s \<in> set (slices r). smax s \<le> M) \<longrightarrow> (\<forall>s \<in> set (ss @ taken). smax s \<le> M)" by auto
  from reset_slices [of g "r\<lparr>slices := ss\<rparr>"] s(2) obtain r' where
    "resetNextReadSliceLocked (r\<lparr>slices := ss\<rparr>) = Inr r'" "slices r' = ss" by auto
  with s ok show ?thesis by (auto simp: SplitSlices_with_def slices_ok_def)
qed

lemma MergeSlices_carries:
  assumes "slices_ok g M (slices r)" "slices_ok g M qs"
  shows "\<exists>r'. MergeSlices cfg qs r = Inr r' \<and> slices_ok g M (slices r') \<and> carries db (slices r @ qs) (slices r')"
proof (cases "qs = []")
  case True
  with assms show ?thesis by (auto simp: MergeSlices_def carries_refl)
next
  case False
  with MergeSlices_ok [of g r qs cfg] assms obtain r' where
    "MergeSlices cfg qs r = Inr r'" "slices_inv g (slices r')" "moves_work (slices r @ qs) (slices r')"
    by (auto simp: slices_ok_def)
  with assms moves_work_carries [OF this(3)] show ?thesis by (auto simp: slices_ok_def moves_work_def)
qed

lemma AppendSlices_carries:
  assumes "slices_ok g M (slices r)" "slices_ok g N qs" "M \<le> N" "\<forall>q \<in> set qs. M \<le> smin q"
  shows "\<exists>r'. AppendSlices qs r = Inr r' \<and> slices_ok g N (slices r') \<and> carries db (slices r @ qs) (slices r')"
proof (cases "qs = []")
  case True
  with assms show ?thesis by (auto simp: AppendSlices_def carries_refl intro: slices_ok_mono)
next
  case False
  let ?qs = "filter (\<lambda>s. \<not> Scope_IsEmpty (slice_scope s)) qs"
  have inv: "\<forall>s \<in> set qs. slice_inv g s" by (rule slices_ok_invs [OF assms(2)])
  from False obtain q qs' where q: "qs = q # qs'" by (cases qs) auto
  have last: "bind_result (Slice_Scope (last (slices r))) (\<lambda>lastScope.
      bind_result (Slice_Scope (hd qs)) (\<lambda>firstScope.
        if CompareTo (ExclusiveMax (ScopeRange lastScope)) (InclusiveMin (ScopeRange firstScope)) > 0
        then Inl CanNotAppendSlice else Inr ())) = Inr ()" if "slices r \<noteq> []"
  proof -
    from that assms(1) have "slice_inv g (last (slices r))" "smax (last (slices r)) \<le> M"
      using slices_ok_invs [OF assms(1)] last_in_set [OF that] by (auto simp: slices_ok_def)
    with inv q assms(4) show ?thesis by (auto simp: not_less intro: order_trans)
  qed
  have ok: "slices_ok g N (slices r @ ?qs)"
    using assms slices_ok_filter [OF assms(2)] slices_ok_mono [OF assms(1,3)]
    by (auto simp: slices_ok_def intro: order_trans)
  from reset_slices [of g "r\<lparr>slices := slices r @ ?qs\<rparr>"] ok obtain r' where
    r': "resetNextReadSliceLocked (r\<lparr>slices := slices r @ ?qs\<rparr>) = Inr r'" "slices r' = slices r @ ?qs"
    by (auto simp: slices_ok_def)
  have "AppendSlices qs r = Inr r'"
    using False validate_slices_ok [of g qs] assms(2) last push_non_empty_eq [OF inv, of "slices r"] r'(1)
    by (cases "slices r = []") (simp_all add: AppendSlices_def slices_ok_def)
  moreover have "carries db (slices r @ qs) (slices r')"
    unfolding r'(2) by (rule carries_append [OF carries_refl carries_drop_empty [OF inv]])
  ultimately show ?thesis using ok r'(2) by auto
qed

lemma CompactSlices_carries:
  assumes "slices_ok g M (slices r)"
  shows "\<exists>r'. CompactSlices cfg P r = Inr r' \<and> slices_ok g M (slices r') \<and> carries db (slices r) (slices r') \<and>
    length (slices r') \<le> length (slices r)"
proof -
  from compact_slices_loop_ok [of g "[]" "slices r" cfg P] assms obtain ss where
    ss: "compact_slices_loop cfg P [] (slices r) = Inr ss" "slices_inv g ss" "moves_work (slices r) ss"
    "length ss \<le> length (slices r)" by (auto simp: slices_ok_def)
  from reset_slices [of g "r\<lparr>slices := ss\<rparr>"] ss(2) obtain r' where
    "resetNextReadSliceLocked (r\<lparr>slices := ss\<rparr>) = Inr r'" "slices r' = ss" by auto
  with ss moves_work_carries [OF ss(3)] assms show ?thesis
    by (auto simp: CompactSlices_def slices_ok_def moves_work_def)
qed

end
