(* ===== verification/PriorityQueue.thy ===== *)
theory PriorityQueue
  imports Prelude
begin

text \<open>
  The priority queue of \<open>common/collection/priority_queue.go\<close> over Go's \<open>container/heap\<close>. The items are
  a list, the binary heap of the library. The contract \<open>min_queue\<close> is what the clients rely on; it is
  proved for the heap under every comparison that is a strict weak order.
\<close>

section \<open>The binary heap\<close>

definition swap :: "nat \<Rightarrow> nat \<Rightarrow> 'a list \<Rightarrow> 'a list" where
  "swap i j xs = xs[i := xs ! j, j := xs ! i]"

definition parent :: "nat \<Rightarrow> nat" where
  "parent j = (j - 1) div 2"

function heap_up :: "('a \<Rightarrow> 'a \<Rightarrow> bool) \<Rightarrow> nat \<Rightarrow> 'a list \<Rightarrow> 'a list" where
  "heap_up lt j xs =
     (let i = parent j in
      if i = j \<or> \<not> lt (xs ! j) (xs ! i) then xs else heap_up lt i (swap i j xs))"
  by pat_completeness auto
termination by (relation "measure (\<lambda>(lt, j, xs). j)") (auto simp: parent_def)

function heap_down :: "('a \<Rightarrow> 'a \<Rightarrow> bool) \<Rightarrow> nat \<Rightarrow> nat \<Rightarrow> 'a list \<Rightarrow> 'a list" where
  "heap_down lt i n xs =
     (let j1 = 2 * i + 1 in
      if j1 \<ge> n then xs
      else let j = (if j1 + 1 < n \<and> lt (xs ! (j1 + 1)) (xs ! j1) then j1 + 1 else j1) in
           if \<not> lt (xs ! j) (xs ! i) then xs else heap_down lt j n (swap i j xs))"
  by pat_completeness auto
termination by (relation "measure (\<lambda>(lt, i, n, xs). n - i)") (auto split: if_splits)

declare heap_up.simps [simp del] heap_down.simps [simp del]

definition heap_Init :: "('a \<Rightarrow> 'a \<Rightarrow> bool) \<Rightarrow> 'a list \<Rightarrow> 'a list" where
  "heap_Init lt xs = fold (\<lambda>i. heap_down lt i (length xs)) (rev [0..<length xs div 2]) xs"

definition heap_Push :: "('a \<Rightarrow> 'a \<Rightarrow> bool) \<Rightarrow> 'a \<Rightarrow> 'a list \<Rightarrow> 'a list" where
  "heap_Push lt x xs = (let xs = xs @ [x] in heap_up lt (length xs - 1) xs)"

text \<open>\<open>Swap(0, -1)\<close> on an empty heap panics.\<close>

definition heap_Pop :: "('a \<Rightarrow> 'a \<Rightarrow> bool) \<Rightarrow> 'a list \<Rightarrow> ('a \<times> 'a list) option" where
  "heap_Pop lt xs =
     (if xs = [] then None
      else let n = length xs - 1; ys = heap_down lt 0 n (swap 0 n xs)
           in Some (ys ! n, take n ys))"

section \<open>The queue\<close>

record 'a priority_queue =
  compareLess :: "'a \<Rightarrow> 'a \<Rightarrow> bool"
  pq_items :: "'a list"

definition NewPriorityQueue :: "('a \<Rightarrow> 'a \<Rightarrow> bool) \<Rightarrow> 'a priority_queue" where
  "NewPriorityQueue lt = \<lparr>compareLess = lt, pq_items = []\<rparr>"

definition NewPriorityQueueWithItems :: "('a \<Rightarrow> 'a \<Rightarrow> bool) \<Rightarrow> 'a list \<Rightarrow> 'a priority_queue" where
  "NewPriorityQueueWithItems lt items = \<lparr>compareLess = lt, pq_items = heap_Init lt items\<rparr>"

definition pq_IsEmpty :: "'a priority_queue \<Rightarrow> bool" where
  "pq_IsEmpty pq \<longleftrightarrow> length (pq_items pq) = 0"

definition pq_Peek :: "'a priority_queue \<Rightarrow> 'a option" where
  "pq_Peek pq = (if pq_IsEmpty pq then None else Some (pq_items pq ! 0))"

definition pq_Add :: "'a \<Rightarrow> 'a priority_queue \<Rightarrow> 'a priority_queue" where
  "pq_Add item pq = pq\<lparr>pq_items := heap_Push (compareLess pq) item (pq_items pq)\<rparr>"

definition pq_Remove :: "'a priority_queue \<Rightarrow> ('a \<times> 'a priority_queue) option" where
  "pq_Remove pq =
     (case heap_Pop (compareLess pq) (pq_items pq) of
        None \<Rightarrow> None
      | Some (x, xs) \<Rightarrow> Some (x, pq\<lparr>pq_items := xs\<rparr>))"

section \<open>Order\<close>

text \<open>The comparisons that a heap needs: not below is total and transitive.\<close>

definition weak_order :: "('a \<Rightarrow> 'a \<Rightarrow> bool) \<Rightarrow> bool" where
  "weak_order lt \<longleftrightarrow>
     (\<forall>x y. lt x y \<longrightarrow> \<not> lt y x) \<and> (\<forall>x y z. \<not> lt y x \<longrightarrow> \<not> lt z y \<longrightarrow> \<not> lt z x)"

lemma weak_orderD:
  assumes "weak_order lt"
  shows "lt x y \<Longrightarrow> \<not> lt y x" "\<not> lt y x \<Longrightarrow> \<not> lt z y \<Longrightarrow> \<not> lt z x" "\<not> lt x x"
  using assms unfolding weak_order_def by blast+

lemma weak_order_key: "weak_order (\<lambda>x y. f x < (f y :: 'b :: linorder))"
  by (auto simp: weak_order_def)

section \<open>Heaps\<close>

text \<open>
  The heap property at the positions below \<open>n\<close> whose parent is at \<open>m\<close> or later, and the two weaker
  forms in which it is violated at one position while an item moves up or down.
\<close>

definition heap_from :: "('a \<Rightarrow> 'a \<Rightarrow> bool) \<Rightarrow> nat \<Rightarrow> nat \<Rightarrow> 'a list \<Rightarrow> bool" where
  "heap_from lt m n xs \<longleftrightarrow>
     (\<forall>c < n. 0 < c \<and> m \<le> parent c \<longrightarrow> \<not> lt (xs ! c) (xs ! parent c))"

definition heap_but_down :: "('a \<Rightarrow> 'a \<Rightarrow> bool) \<Rightarrow> nat \<Rightarrow> nat \<Rightarrow> nat \<Rightarrow> 'a list \<Rightarrow> bool" where
  "heap_but_down lt m i n xs \<longleftrightarrow>
     (\<forall>c < n. 0 < c \<and> m \<le> parent c \<longrightarrow>
        (if parent c = i then (0 < i \<and> m \<le> parent i \<longrightarrow> \<not> lt (xs ! c) (xs ! parent i))
         else \<not> lt (xs ! c) (xs ! parent c)))"

definition heap_but_up :: "('a \<Rightarrow> 'a \<Rightarrow> bool) \<Rightarrow> nat \<Rightarrow> 'a list \<Rightarrow> bool" where
  "heap_but_up lt j xs \<longleftrightarrow>
     (\<forall>c < length xs. 0 < c \<and> c \<noteq> j \<longrightarrow>
        \<not> lt (xs ! c) (xs ! parent c) \<and> (parent c = j \<and> 0 < j \<longrightarrow> \<not> lt (xs ! c) (xs ! parent j)))"

lemma parent_less: "0 < c \<Longrightarrow> parent c < c"
  by (simp add: parent_def)

lemma parent_children: "0 < c \<Longrightarrow> parent c = i \<longleftrightarrow> c = 2 * i + 1 \<or> c = 2 * i + 2"
  by (auto simp: parent_def)

lemma length_swap [simp]: "length (swap i j xs) = length xs"
  by (simp add: swap_def)

lemma nth_swap:
  "i < length xs \<Longrightarrow> j < length xs \<Longrightarrow> swap i j xs ! k = (if k = j then xs ! i else if k = i then xs ! j else xs ! k)"
  by (auto simp: swap_def nth_list_update)

lemma mset_swap_heap [simp]: "i < length xs \<Longrightarrow> j < length xs \<Longrightarrow> mset (swap i j xs) = mset xs"
  unfolding swap_def by (simp add: mset_swap)

lemma heap_root:
  assumes "weak_order lt" "heap_from lt 0 n xs" "c < n"
  shows "\<not> lt (xs ! c) (xs ! 0)"
  using assms(3)
proof (induction c rule: less_induct)
  case (less c)
  show ?case
  proof (cases "c = 0")
    case True
    with weak_orderD(3) [OF assms(1)] show ?thesis by simp
  next
    case False
    then have "parent c < c" "parent c < n" using parent_less [of c] less.prems by auto
    with less.IH have "\<not> lt (xs ! parent c) (xs ! 0)" by blast
    moreover from assms(2) False less.prems have "\<not> lt (xs ! c) (xs ! parent c)"
      by (auto simp: heap_from_def)
    ultimately show ?thesis using weak_orderD(2) [OF assms(1)] by blast
  qed
qed

lemma heap_up_ok:
  assumes "weak_order lt" "j < length xs" "heap_but_up lt j xs"
  shows "mset (heap_up lt j xs) = mset xs \<and> length (heap_up lt j xs) = length xs \<and>
     heap_from lt 0 (length xs) (heap_up lt j xs)"
  using assms
proof (induction lt j xs rule: heap_up.induct)
  case (1 lt j xs)
  let ?i = "parent j"
  show ?case
  proof (cases "?i = j \<or> \<not> lt (xs ! j) (xs ! ?i)")
    case True
    then have "j = 0 \<or> \<not> lt (xs ! j) (xs ! ?i)" using parent_less [of j] by auto
    with "1.prems"(3) have "heap_from lt 0 (length xs) xs"
      by (auto simp: heap_from_def heap_but_up_def)
    with True show ?thesis by (subst (1 2 3) heap_up.simps) (simp add: Let_def)
  next
    case False
    then have j: "0 < j" "?i < j" "?i < length xs" "lt (xs ! j) (xs ! ?i)"
      using "1.prems"(2) parent_less [of j] by (cases "j = 0"; auto simp: parent_def)+
    note wo = weak_orderD [OF "1.prems"(1)]
    let ?ys = "swap ?i j xs"
    have nth: "?ys ! k = (if k = j then xs ! ?i else if k = ?i then xs ! j else xs ! k)" for k
      using j "1.prems"(2) by (simp add: nth_swap)
    have "heap_but_up lt ?i ?ys"
      unfolding heap_but_up_def
    proof (intro allI impI)
      fix c assume c: "c < length ?ys" "0 < c \<and> c \<noteq> ?i"
      have old: "c \<noteq> j \<Longrightarrow> \<not> lt (xs ! c) (xs ! parent c)"
        "c \<noteq> j \<Longrightarrow> parent c = j \<Longrightarrow> \<not> lt (xs ! c) (xs ! ?i)"
        using "1.prems"(3) c j by (auto simp: heap_but_up_def)
      have gp: "0 < ?i \<Longrightarrow> \<not> lt (xs ! ?i) (xs ! parent ?i)"
        using "1.prems"(3) j by (auto simp: heap_but_up_def)
      have pc: "parent c < c" using c(2) parent_less by blast
      have "\<not> lt (?ys ! c) (?ys ! parent c)"
      proof (cases "c = j")
        case True
        with j wo(1) show ?thesis by (simp add: nth)
      next
        case False
        show ?thesis
        proof (cases "parent c = ?i")
          case True
          with old(1) False have "\<not> lt (xs ! c) (xs ! ?i)" by simp
          then have "\<not> lt (xs ! c) (xs ! j)" using wo(1,2) j(4) by blast
          with True False c j show ?thesis by (simp add: nth)
        next
          case 2: False
          with old False c j show ?thesis by (auto simp: nth)
        qed
      qed
      moreover have "\<not> lt (?ys ! c) (?ys ! parent ?i)" if "parent c = ?i" "0 < ?i"
      proof -
        have "parent ?i < ?i" using parent_less that(2) by blast
        then have ne: "parent ?i \<noteq> j" "parent ?i \<noteq> ?i" using j by auto
        show ?thesis
        proof (cases "c = j")
          case True
          with gp that(2) ne show ?thesis by (simp add: nth)
        next
          case False
          with old(1) that have "\<not> lt (xs ! c) (xs ! ?i)" by simp
          with gp that(2) wo(2) have "\<not> lt (xs ! c) (xs ! parent ?i)" by blast
          with False c ne show ?thesis by (simp add: nth)
        qed
      qed
      ultimately show "\<not> lt (?ys ! c) (?ys ! parent c) \<and> (parent c = ?i \<and> 0 < ?i \<longrightarrow> \<not> lt (?ys ! c) (?ys ! parent ?i))"
        by blast
    qed
    with "1.IH" [OF refl False "1.prems"(1)] j "1.prems"(2) False show ?thesis
      by (subst (1 2 3) heap_up.simps) (simp add: Let_def)
  qed
qed

lemma heap_down_ok:
  assumes "weak_order lt" "i < n" "n \<le> length xs" "m \<le> i" "heap_but_down lt m i n xs"
  shows "mset (heap_down lt i n xs) = mset xs \<and> length (heap_down lt i n xs) = length xs \<and>
     heap_from lt m n (heap_down lt i n xs) \<and> (\<forall>k \<ge> n. heap_down lt i n xs ! k = xs ! k)"
  using assms
proof (induction lt i n xs rule: heap_down.induct)
  case (1 lt i n xs)
  note wo = weak_orderD [OF "1.prems"(1)]
  let ?j1 = "2 * i + 1"
  define j where "j = (if ?j1 + 1 < n \<and> lt (xs ! (?j1 + 1)) (xs ! ?j1) then ?j1 + 1 else ?j1)"
  have eq: "heap_down lt i n xs =
      (if n \<le> ?j1 \<or> \<not> lt (xs ! j) (xs ! i) then xs else heap_down lt j n (swap i j xs))"
    by (subst heap_down.simps) (simp add: Let_def j_def)
  show ?case
  proof (cases "n \<le> ?j1 \<or> \<not> lt (xs ! j) (xs ! i)")
    case True
    have "\<not> lt (xs ! c) (xs ! parent c)" if c: "c < n" "0 < c" "m \<le> parent c" for c
    proof (cases "parent c = i")
      case p: True
      then have "c = ?j1 \<or> c = ?j1 + 1" using parent_children c(2) by auto
      with True c(1) have "\<not> lt (xs ! j) (xs ! i)" by auto
      moreover have "\<not> lt (xs ! c) (xs ! j)"
        using \<open>c = ?j1 \<or> c = ?j1 + 1\<close> c(1) wo(1,3) by (auto simp: j_def)
      ultimately show ?thesis using p wo(2) by blast
    next
      case False
      with "1.prems"(5) c show ?thesis by (auto simp: heap_but_down_def)
    qed
    with True show ?thesis by (simp add: eq heap_from_def)
  next
    case False
    then have j: "?j1 < n" "lt (xs ! j) (xs ! i)" by auto
    then have jn: "j < n" "j = ?j1 \<or> j = ?j1 + 1" "0 < j" by (auto simp: j_def)
    then have pj: "parent j = i" using parent_children [of j i] by auto
    have len: "i < length xs" "j < length xs" using "1.prems"(2,3) jn by auto
    let ?ys = "swap i j xs"
    have nth: "?ys ! k = (if k = j then xs ! i else if k = i then xs ! j else xs ! k)" for k
      using len by (simp add: nth_swap)
    have ij: "i < j" using jn by auto
    have "heap_but_down lt m j n ?ys"
      unfolding heap_but_down_def
    proof (intro allI impI)
      fix c assume c: "c < n" "0 < c \<and> m \<le> parent c"
      have old: "parent c \<noteq> i \<Longrightarrow> \<not> lt (xs ! c) (xs ! parent c)"
        "parent c = i \<Longrightarrow> 0 < i \<Longrightarrow> m \<le> parent i \<Longrightarrow> \<not> lt (xs ! c) (xs ! parent i)"
        using "1.prems"(5) c by (auto simp: heap_but_down_def)
      have least: "parent c = i \<Longrightarrow> \<not> lt (xs ! c) (xs ! j)"
        using parent_children [of c i] c wo(1,3) by (auto simp: j_def)
      have pc: "parent c < c" using c(2) parent_less by blast
      show "if parent c = j then 0 < j \<and> m \<le> parent j \<longrightarrow> \<not> lt (?ys ! c) (?ys ! parent j)
            else \<not> lt (?ys ! c) (?ys ! parent c)"
      proof (cases "parent c = j")
        case True
        then have "c \<noteq> i" "c \<noteq> j" "parent c \<noteq> i" using pc ij by auto
        with old(1) True show ?thesis by (simp add: pj nth)
      next
        case pcj: False
        consider "c = j" | "c = i" | "c \<noteq> i" "c \<noteq> j" "parent c = i" | "c \<noteq> i" "c \<noteq> j" "parent c \<noteq> i" by blast
        then have "\<not> lt (?ys ! c) (?ys ! parent c)"
        proof cases
          case 1
          with j(2) wo(1) pj ij show ?thesis by (simp add: nth)
        next
          case 2
          from 2 pc pj jn have "parent i \<noteq> i" "parent i \<noteq> j" using ij by auto
          moreover have "\<not> lt (xs ! j) (xs ! parent i)"
            using "1.prems"(5) jn pj 2 c by (auto simp: heap_but_down_def \<open>parent j = i\<close> "1.prems"(4) split: if_splits)
          ultimately show ?thesis using 2 ij by (simp add: nth)
        next
          case 3
          with least show ?thesis using ij by (simp add: nth)
        next
          case 4
          with old(1) pcj show ?thesis by (simp add: nth)
        qed
        with pcj show ?thesis by simp
      qed
    qed
    note but = this
    have "mset (heap_down lt j n ?ys) = mset ?ys \<and> length (heap_down lt j n ?ys) = length ?ys \<and>
        heap_from lt m n (heap_down lt j n ?ys) \<and> (\<forall>k \<ge> n. heap_down lt j n ?ys ! k = ?ys ! k)"
    proof (rule "1.IH" [OF refl _ j_def])
      show "m \<le> j" using "1.prems"(4) ij by (rule less_imp_le [OF le_less_trans])
    qed (use False "1.prems"(1,3) jn(1) but in \<open>simp_all only: length_swap not_le not_not de_Morgan_disj\<close>)
    moreover have "heap_down lt i n xs = heap_down lt j n ?ys" using False by (simp only: eq if_False)
    moreover have "?ys ! k = xs ! k" if "n \<le> k" for k using that jn ij by (simp add: nth)
    ultimately show ?thesis using len by simp
  qed
qed

lemma heap_Init_ok:
  assumes "weak_order lt"
  shows "mset (heap_Init lt xs) = mset xs \<and> heap_from lt 0 (length xs) (heap_Init lt xs)"
proof -
  let ?n = "length xs"
  have "\<And>ys. length ys = ?n \<Longrightarrow> heap_from lt k ?n ys \<Longrightarrow> k \<le> ?n div 2 \<Longrightarrow>
      (let zs = fold (\<lambda>i. heap_down lt i ?n) (rev [0..<k]) ys in mset zs = mset ys \<and> length zs = ?n \<and> heap_from lt 0 ?n zs)" for k
  proof (induction k)
    case (Suc k)
    have k: "k < ?n" using Suc.prems(3) by linarith
    have "heap_but_down lt k k ?n ys"
      unfolding heap_but_down_def
    proof (intro allI impI)
      fix c assume c: "c < ?n" "0 < c \<and> k \<le> parent c"
      have "0 < k \<Longrightarrow> \<not> k \<le> parent k" using parent_less [of k] by simp
      with Suc.prems(2) c show "if parent c = k then 0 < k \<and> k \<le> parent k \<longrightarrow> \<not> lt (ys ! c) (ys ! parent k)
          else \<not> lt (ys ! c) (ys ! parent c)" by (auto simp: heap_from_def)
    qed
    from heap_down_ok [OF assms k _ order_refl this] Suc.prems(1)
    have "mset (heap_down lt k ?n ys) = mset ys" "length (heap_down lt k ?n ys) = ?n" "heap_from lt k ?n (heap_down lt k ?n ys)"
      by auto
    with Suc.IH [of "heap_down lt k ?n ys"] Suc.prems(3) show ?case by (simp add: Let_def)
  qed (simp add: Let_def)
  moreover have "heap_from lt (?n div 2) ?n xs"
    by (auto simp: heap_from_def parent_def)
  ultimately show ?thesis by (simp add: heap_Init_def Let_def)
qed

lemma heap_Push_ok:
  assumes "weak_order lt" "heap_from lt 0 (length xs) xs"
  shows "mset (heap_Push lt x xs) = add_mset x (mset xs) \<and> heap_from lt 0 (length (heap_Push lt x xs)) (heap_Push lt x xs)"
proof -
  have "heap_but_up lt (length xs) (xs @ [x])"
    unfolding heap_but_up_def
  proof (intro allI impI)
    fix c assume c: "c < length (xs @ [x])" "0 < c \<and> c \<noteq> length xs"
    then have "parent c < c" "c < length xs" using parent_less by auto
    with assms(2) c show "\<not> lt ((xs @ [x]) ! c) ((xs @ [x]) ! parent c) \<and>
        (parent c = length xs \<and> 0 < length xs \<longrightarrow> \<not> lt ((xs @ [x]) ! c) ((xs @ [x]) ! parent (length xs)))"
      by (auto simp: heap_from_def nth_append)
  qed
  from heap_up_ok [OF assms(1) _ this] show ?thesis by (simp add: heap_Push_def Let_def)
qed

lemma heap_Pop_ok:
  assumes wo: "weak_order lt" and h: "heap_from lt 0 (length xs) xs" and "xs \<noteq> []"
  shows "\<exists>x ys. heap_Pop lt xs = Some (x, ys) \<and> mset xs = add_mset x (mset ys) \<and>
     heap_from lt 0 (length ys) ys \<and> (\<forall>y \<in> set xs. \<not> lt y x)"
proof -
  define n where "n = length xs - 1"
  have n: "length xs = Suc n" using assms(3) by (simp add: n_def)
  let ?zs = "swap 0 n xs"
  have nth: "?zs ! k = (if k = n then xs ! 0 else if k = 0 then xs ! n else xs ! k)" for k
    using n by (simp add: nth_swap)
  have min: "\<forall>y \<in> set xs. \<not> lt y (xs ! 0)"
    using heap_root [OF wo h] by (auto simp: in_set_conv_nth)
  have down: "mset (heap_down lt 0 n ?zs) = mset xs \<and> length (heap_down lt 0 n ?zs) = Suc n \<and>
      heap_from lt 0 n (heap_down lt 0 n ?zs) \<and> heap_down lt 0 n ?zs ! n = xs ! 0"
  proof (cases "n = 0")
    case True
    have "heap_down lt 0 n ?zs = ?zs" by (subst heap_down.simps) (simp add: True)
    with True n nth [of 0] show ?thesis by (simp add: heap_from_def)
  next
    case False
    have "heap_but_down lt 0 0 n ?zs"
      unfolding heap_but_down_def
    proof (intro allI impI)
      fix c assume c: "c < n" "0 < c \<and> 0 \<le> parent c"
      then have "parent c < c" by (simp add: parent_less)
      with h c n show "if parent c = 0 then 0 < (0::nat) \<and> 0 \<le> parent 0 \<longrightarrow> \<not> lt (?zs ! c) (?zs ! parent 0)
          else \<not> lt (?zs ! c) (?zs ! parent c)" by (auto simp: heap_from_def nth)
    qed
    from heap_down_ok [OF wo _ _ order_refl this] False n show ?thesis by (simp add: nth)
  qed
  let ?ys = "heap_down lt 0 n ?zs"
  have "heap_Pop lt xs = Some (?ys ! n, take n ?ys)" using assms(3) by (simp add: heap_Pop_def Let_def n_def)
  moreover have "?ys = take n ?ys @ [?ys ! n]"
    using down by (metis lessI take_Suc_conv_app_nth take_all order_refl)
  then have "mset ?ys = add_mset (?ys ! n) (mset (take n ?ys))"
    by (metis mset_append mset_single_iff_right add_mset_add_single mset.simps(1) mset.simps(2))
  moreover have "heap_from lt 0 (length (take n ?ys)) (take n ?ys)"
  proof -
    have "\<not> lt (take n ?ys ! c) (take n ?ys ! parent c)" if "c < n" "0 < c" for c
      using down that parent_less [of c] by (simp add: heap_from_def)
    with down show ?thesis by (simp add: heap_from_def)
  qed
  ultimately show ?thesis using down min by auto
qed

section \<open>The contract\<close>

text \<open>
  What a client of a priority queue relies on: the queue is a multiset, \<open>rem\<close> takes a least element out
  of it. \<open>before q\<close> is the comparison of the queue.
\<close>

locale min_queue =
  fixes new_queue :: "('a \<Rightarrow> 'a \<Rightarrow> bool) \<Rightarrow> 'a list \<Rightarrow> 'q"
    and add :: "'a \<Rightarrow> 'q \<Rightarrow> 'q"
    and rem :: "'q \<Rightarrow> ('a \<times> 'q) option"
    and contents :: "'q \<Rightarrow> 'a multiset"
    and before :: "'q \<Rightarrow> 'a \<Rightarrow> 'a \<Rightarrow> bool"
    and good :: "'q \<Rightarrow> bool"
  assumes new_ok: "weak_order lt \<Longrightarrow> good (new_queue lt xs) \<and> contents (new_queue lt xs) = mset xs \<and> before (new_queue lt xs) = lt"
    and add_ok: "good q \<Longrightarrow> good (add x q) \<and> contents (add x q) = add_mset x (contents q) \<and> before (add x q) = before q"
    and rem_None: "good q \<Longrightarrow> rem q = None \<longleftrightarrow> contents q = {#}"
    and rem_Some: "good q \<Longrightarrow> rem q = Some (x, q') \<Longrightarrow>
      good q' \<and> contents q = add_mset x (contents q') \<and> before q' = before q \<and> (\<forall>y \<in># contents q. \<not> before q y x)"
begin

fun drain :: "nat \<Rightarrow> 'q \<Rightarrow> 'a list" where
  "drain 0 q = []"
| "drain (Suc n) q = (case rem q of None \<Rightarrow> [] | Some (x, q') \<Rightarrow> x # drain n q')"

lemma drain_ok:
  assumes "good q"
  shows "mset (drain (size (contents q)) q) = contents q \<and>
    sorted_wrt (\<lambda>x y. \<not> before q y x) (drain (size (contents q)) q)"
  using assms
proof (induction "size (contents q)" arbitrary: q)
  case 0
  then show ?case by simp
next
  case (Suc n)
  then have "rem q \<noteq> None" using rem_None by fastforce
  then obtain x q' where r: "rem q = Some (x, q')" by auto
  note q' = rem_Some [OF Suc.prems r]
  with Suc.hyps(2) have n: "n = size (contents q')" by simp
  with Suc.hyps(1) [of q'] q' have IH: "mset (drain n q') = contents q'"
    "sorted_wrt (\<lambda>x y. \<not> before q y x) (drain n q')" by auto
  have "\<forall>y \<in> set (drain n q'). \<not> before q y x"
    using IH(1) q' by (metis insert_iff set_mset_add_mset_insert set_mset_mset)
  with IH r q' show ?case by (simp add: n [symmetric])
qed

end

definition pq_ok :: "'a priority_queue \<Rightarrow> bool" where
  "pq_ok pq \<longleftrightarrow> weak_order (compareLess pq) \<and> heap_from (compareLess pq) 0 (length (pq_items pq)) (pq_items pq)"

interpretation pq: min_queue NewPriorityQueueWithItems pq_Add pq_Remove "\<lambda>q. mset (pq_items q)" compareLess pq_ok
proof unfold_locales
  fix lt :: "'a \<Rightarrow> 'a \<Rightarrow> bool" and xs
  assume wo: "weak_order lt"
  have "length (heap_Init lt xs) = length xs" using heap_Init_ok [OF wo, of xs] by (metis size_mset)
  with heap_Init_ok [OF wo, of xs] wo
  show "pq_ok (NewPriorityQueueWithItems lt xs) \<and> mset (pq_items (NewPriorityQueueWithItems lt xs)) = mset xs \<and>
      compareLess (NewPriorityQueueWithItems lt xs) = lt"
    by (simp add: pq_ok_def NewPriorityQueueWithItems_def)
next
  fix q :: "'a priority_queue" and x
  assume "pq_ok q"
  then show "pq_ok (pq_Add x q) \<and> mset (pq_items (pq_Add x q)) = add_mset x (mset (pq_items q)) \<and> compareLess (pq_Add x q) = compareLess q"
    using heap_Push_ok [of "compareLess q" "pq_items q" x] by (simp add: pq_ok_def pq_Add_def)
next
  fix q :: "'a priority_queue"
  show "pq_ok q \<Longrightarrow> pq_Remove q = None \<longleftrightarrow> mset (pq_items q) = {#}"
    by (auto simp: pq_Remove_def heap_Pop_def Let_def)
next
  fix q q' :: "'a priority_queue" and x
  assume q: "pq_ok q" and r: "pq_Remove q = Some (x, q')"
  from r have "pq_items q \<noteq> []" by (auto simp: pq_Remove_def heap_Pop_def)
  with heap_Pop_ok [of "compareLess q" "pq_items q"] q r
  show "pq_ok q' \<and> mset (pq_items q) = add_mset x (mset (pq_items q')) \<and> compareLess q' = compareLess q \<and>
      (\<forall>y \<in># mset (pq_items q). \<not> compareLess q y x)"
    by (auto simp: pq_ok_def pq_Remove_def)
qed

text \<open>
  C21. A priority queue is a multiset with its least element at hand: built from a list, with further
  items added, it delivers on removal all its items, each once and in ascending order.
\<close>

theorem Queue_drains_sorted:
  assumes "weak_order lt"
  shows "let q = fold pq_Add added (NewPriorityQueueWithItems lt items); n = length (pq_items q)
    in mset (pq.drain n q) = mset (items @ added) \<and> sorted_wrt (\<lambda>x y. \<not> lt y x) (pq.drain n q)"
proof -
  have "pq_ok q \<Longrightarrow> pq_ok (fold pq_Add added q) \<and> mset (pq_items (fold pq_Add added q)) = mset (pq_items q) + mset added \<and>
      compareLess (fold pq_Add added q) = compareLess q" for q
  proof (induction added arbitrary: q)
    case (Cons a added)
    from pq.add_ok [OF Cons.prems, of a] Cons.IH [of "pq_Add a q"] show ?case by simp
  qed simp
  note add = this
  let ?q = "fold pq_Add added (NewPriorityQueueWithItems lt items)"
  from add pq.new_ok [OF assms, of items]
  have q: "pq_ok ?q" "mset (pq_items ?q) = mset items + mset added" "compareLess ?q = lt" by auto
  have "size (mset (pq_items ?q)) = length (pq_items ?q)" by (rule size_mset)
  with pq.drain_ok [OF q(1)] q(2,3) show ?thesis unfolding Let_def by (metis mset_append)
qed

theorem Queue_drains_sorted_witness:
  "let q = fold pq_Add [2, 7] (NewPriorityQueueWithItems (<) [5, 3, 9, 3 :: int]); n = length (pq_items q)
    in mset (pq.drain n q) = mset ([5, 3, 9, 3] @ [2, 7]) \<and> sorted_wrt (\<lambda>x y. \<not> y < x) (pq.drain n q)"
  by (rule Queue_drains_sorted) (auto simp: weak_order_def)

end
