(* ===== verification/QueueActions.thy ===== *)
theory QueueActions
  imports ReaderWork PriorityQueue
begin

text \<open>
  The actions of \<open>service/history/queues/action_*.go\<close> and the mitigator that chooses one for an alert.
  An action changes the readers of a group: it splits slices, moves parts of them to the next reader,
  clears or compacts them. The order in which a Go map is iterated is the order of the association
  list. Products with a \<open>float64\<close> and the sorting of ties by \<open>slices.SortFunc\<close> are arguments of which
  nothing is assumed. Two slices are the same slice object if they have the same position in the
  same reader.
\<close>

section \<open>Moving slices to the next reader\<close>

definition DefaultReaderId :: int where
  "DefaultReaderId = 0"

definition move_to_next ::
    "slice_config \<Rightarrow> 'e initializer \<Rightarrow> int \<Rightarrow> 'e queue_slice list \<Rightarrow> 'e reader_group \<Rightarrow> queue_panic + 'e reader_group" where
  "move_to_next cfg init readerID moved rg =
     bind_result (GetOrCreateReader init (readerID + 1) rg) (\<lambda>(nextReader, rg).
     bind_result (MergeSlices cfg moved nextReader) (\<lambda>nextReader. Inr (put_reader (readerID + 1) nextReader rg)))"

section \<open>A reader that is stuck\<close>

definition monitorWatermarkPrecision :: int where
  "monitorWatermarkPrecision = 10 ^ 9"

text \<open>The slice is cut at both ends of the stuck range; what is inside is taken away.\<close>

definition stuck_splitter ::
    "slice_config \<Rightarrow> task_range \<Rightarrow> 'e queue_slice \<Rightarrow> queue_panic + 'e queue_slice list \<times> bool \<times> 'e queue_slice list" where
  "stuck_splitter cfg stuckRange s =
     bind_result (Slice_Scope s) (\<lambda>sc.
     if ContainsRange stuckRange (ScopeRange sc) then Inr ([], True, [s])
     else
       bind_result (Slice_CanSplitByRange s (InclusiveMin stuckRange)) (\<lambda>can.
       bind_result
         (if can then bind_result (Slice_SplitByRange cfg s (InclusiveMin stuckRange)) (\<lambda>(left, right). Inr ([left], right))
          else Inr ([], s)) (\<lambda>(remaining, s).
       bind_result (Slice_CanSplitByRange s (ExclusiveMax stuckRange)) (\<lambda>can.
       bind_result
         (if can then bind_result (Slice_SplitByRange cfg s (ExclusiveMax stuckRange)) (\<lambda>(left, right). Inr (remaining @ [right], left))
          else Inr (remaining, s)) (\<lambda>(remaining, s).
       if remaining = [] then Inr ([], False, []) else Inr (remaining, True, [s]))))))"

definition readerStuck_Run ::
    "slice_config \<Rightarrow> 'e initializer \<Rightarrow> int \<Rightarrow> task_key \<Rightarrow> 'e reader_group \<Rightarrow> queue_panic + bool \<times> 'e reader_group" where
  "readerStuck_Run cfg init readerID watermark rg =
     (case ReaderByID rg readerID of
        None \<Rightarrow> Inr (False, rg)
      | Some reader \<Rightarrow>
          bind_result (NewRange watermark (NewKey (FireTime watermark + monitorWatermarkPrecision) (TaskID watermark))) (\<lambda>stuckRange.
          bind_result (SplitSlices_with (\<lambda>_. stuck_splitter cfg stuckRange) reader) (\<lambda>(reader, splitSlices).
          let rg = put_reader readerID reader rg in
          if splitSlices = [] then Inr (False, rg)
          else bind_result (move_to_next cfg init readerID splitSlices rg) (\<lambda>rg. Inr (True, rg)))))"

section \<open>Slices with a predicate in the default reader\<close>

definition moveSliceDefaultReaderMinPendingTaskCount :: int where
  "moveSliceDefaultReaderMinPendingTaskCount = 50"

definition moveSliceDefaultReaderMinSliceCount :: int where
  "moveSliceDefaultReaderMinSliceCount = 3"

definition predicate_splitter :: "'e queue_slice \<Rightarrow> queue_panic + 'e queue_slice list \<times> bool \<times> 'e queue_slice list" where
  "predicate_splitter s =
     bind_result (Slice_Scope s) (\<lambda>sc.
       if IsUniverisalPredicate (ScopePredicate sc) then Inr ([s], False, []) else Inr ([], True, [s]))"

definition slicePredicate_Run ::
    "slice_config \<Rightarrow> 'e initializer \<Rightarrow> int \<Rightarrow> 'e reader_group \<Rightarrow> queue_panic + bool \<times> 'e reader_group" where
  "slicePredicate_Run cfg init maxReaderCount rg =
     (case ReaderByID rg DefaultReaderId of
        None \<Rightarrow> Inr (False, rg)
      | Some reader \<Rightarrow>
          if maxReaderCount \<le> DefaultReaderId + 1 then Inr (False, rg)
          else
            let sliceCount = GetSliceCount rg DefaultReaderId;
                pendingTasks = WalkSlices (\<lambda>n s. n + GetSlicePendingTaskCount s) 0 reader;
                hasNonUniversalPredicate = WalkSlices (\<lambda>b s. b \<or> \<not> IsUniverisalPredicate (slice_predicate s)) False reader
            in if \<not> hasNonUniversalPredicate \<or>
                  (pendingTasks < moveSliceDefaultReaderMinPendingTaskCount \<and> sliceCount < moveSliceDefaultReaderMinSliceCount)
               then Inr (False, rg)
               else
                 bind_result (SplitSlices_with (\<lambda>_. predicate_splitter) reader) (\<lambda>(reader, moveSlices).
                 let rg = put_reader DefaultReaderId reader rg in
                 if moveSlices = [] then Inr (False, rg)
                 else bind_result (move_to_next cfg init DefaultReaderId moveSlices rg) (\<lambda>rg. Inr (True, rg))))"

section \<open>Groups with many pending tasks\<close>

definition add_counts :: "count_map \<Rightarrow> count_map \<Rightarrow> count_map" where
  "add_counts m counts = foldl (\<lambda>m (key, n). bump m key n) m counts"

fun count_groups :: "count_map \<Rightarrow> 'e queue_slice list \<Rightarrow> queue_panic + count_map" where
  "count_groups m [] = Inr m"
| "count_groups m (s # rest) = bind_result (TaskStats s) (\<lambda>counts. count_groups (add_counts m counts) rest)"

definition group_splitter ::
    "slice_config \<Rightarrow> predicate \<Rightarrow> 'e queue_slice \<Rightarrow> queue_panic + 'e queue_slice list \<times> bool \<times> 'e queue_slice list" where
  "group_splitter cfg p s =
     bind_result (Slice_Scope s) (\<lambda>sc.
     if Scope_IsEmpty (fst (SplitByPredicate sc p)) then Inr ([], False, [])
     else bind_result (Slice_SplitByPredicate cfg s p) (\<lambda>(split, remain). Inr ([remain], True, [split])))"

definition move_groups ::
    "slice_config \<Rightarrow> 'e initializer \<Rightarrow> grouper \<Rightarrow> int \<Rightarrow> int \<Rightarrow> 'e reader_group \<Rightarrow> queue_panic + bool \<times> 'e reader_group" where
  "move_groups cfg init g minTaskCount readerID rg =
     (case ReaderByID rg readerID of
        None \<Rightarrow> Inr (False, rg)
      | Some reader \<Rightarrow>
          bind_result (count_groups [] (slices reader)) (\<lambda>pendingTaskPerGroup.
          let groupsToMove = map fst (filter (\<lambda>(key, n). n \<ge> minTaskCount) pendingTaskPerGroup) in
          if groupsToMove = [] then Inr (False, rg)
          else
            bind_result (GroupPredicate g groupsToMove) (\<lambda>p.
            bind_result (SplitSlices_with (\<lambda>_. group_splitter cfg p) reader) (\<lambda>(reader, slicesToMove).
            bind_result (move_to_next cfg init readerID slicesToMove (put_reader readerID reader rg)) (\<lambda>rg. Inr (True, rg))))))"

text \<open>\<open>scale\<close> is the product of the threshold with the configured multiplier.\<close>

fun move_group_loop ::
    "slice_config \<Rightarrow> 'e initializer \<Rightarrow> grouper \<Rightarrow> (int \<Rightarrow> int) \<Rightarrow> int list \<Rightarrow> int \<Rightarrow> bool \<Rightarrow> 'e reader_group \<Rightarrow>
     queue_panic + bool \<times> 'e reader_group" where
  "move_group_loop cfg init g scale [] minTaskCount moved rg = Inr (moved, rg)"
| "move_group_loop cfg init g scale (readerID # rest) minTaskCount moved rg =
     (let minTaskCount = (if readerID \<noteq> DefaultReaderId then scale minTaskCount else minTaskCount) in
      bind_result (move_groups cfg init g minTaskCount readerID rg) (\<lambda>(m, rg).
        move_group_loop cfg init g scale rest minTaskCount (moved \<or> m) rg))"

definition moveGroup_Run ::
    "slice_config \<Rightarrow> 'e initializer \<Rightarrow> grouper \<Rightarrow> (int \<Rightarrow> int) \<Rightarrow> int \<Rightarrow> int \<Rightarrow> 'e reader_group \<Rightarrow> queue_panic + bool \<times> 'e reader_group" where
  "moveGroup_Run cfg init g scale maxReaderCount moveGroupTaskCountBase rg =
     move_group_loop cfg init g scale [DefaultReaderId..maxReaderCount - 2] moveGroupTaskCountBase False rg"

section \<open>Too many slices\<close>

text \<open>A slice is named by its reader and itself: slices of one reader with a non-empty scope differ.\<close>

type_synonym 'e candidate = "(int \<times> 'e queue_slice) \<times> task_key"

fun append_candidates ::
    "(scope \<Rightarrow> bool) \<Rightarrow> int \<Rightarrow> (task_range \<times> bool) option \<Rightarrow> 'e queue_slice list \<Rightarrow> queue_panic + 'e candidate list" where
  "append_candidates P readerID prev [] = Inr []"
| "append_candidates P readerID prev (s # rest) =
     bind_result (Slice_Scope s) (\<lambda>sc.
     let currentRange = ScopeRange sc; currentEligible = P sc in
     bind_result
       (case prev of
          Some (prevRange, True) \<Rightarrow>
            if currentEligible then
              (case Sub (InclusiveMin currentRange) (ExclusiveMax prevRange) of
                 Inl panic \<Rightarrow> Inl (KeyOverflow panic)
               | Inr distance \<Rightarrow> Inr [((readerID, s), distance)])
            else Inr []
        | _ \<Rightarrow> Inr []) (\<lambda>here.
     bind_result (append_candidates P readerID (Some (currentRange, currentEligible)) rest) (\<lambda>more. Inr (here @ more))))"

fun collect_candidates ::
    "(scope \<Rightarrow> bool) \<Rightarrow> (int \<Rightarrow> bool) \<Rightarrow> (int \<times> 'e reader) list \<Rightarrow> queue_panic + 'e candidate list" where
  "collect_candidates P R [] = Inr []"
| "collect_candidates P R ((readerID, reader) # rest) =
     (if \<not> R readerID then collect_candidates P R rest
      else bind_result (append_candidates P readerID None (slices reader)) (\<lambda>here.
           bind_result (collect_candidates P R rest) (\<lambda>more. Inr (here @ more))))"

definition pickCompactCandidates ::
    "('e candidate list \<Rightarrow> 'e candidate list) \<Rightarrow> 'e candidate list \<Rightarrow> int \<Rightarrow> (int \<times> 'e queue_slice) list" where
  "pickCompactCandidates sortByDistance candidates numSliceToCompact =
     map fst (take (nat (min numSliceToCompact (int (length candidates)))) (sortByDistance candidates))"

fun compact_readers ::
    "slice_config \<Rightarrow> (int \<Rightarrow> bool) \<Rightarrow> (int \<times> 'e queue_slice) list \<Rightarrow> (int \<times> 'e reader) list \<Rightarrow> queue_panic + (int \<times> 'e reader) list" where
  "compact_readers cfg R chosen [] = Inr []"
| "compact_readers cfg R chosen ((readerID, reader) # rest) =
     bind_result (if \<not> R readerID then Inr reader else CompactSlices cfg (\<lambda>s. (readerID, s) \<in> set chosen) reader) (\<lambda>reader.
     bind_result (compact_readers cfg R chosen rest) (\<lambda>rest. Inr ((readerID, reader) # rest)))"

definition findAndCompactLowSliceCount ::
    "slice_config \<Rightarrow> ('e candidate list \<Rightarrow> 'e candidate list) \<Rightarrow> (int \<Rightarrow> bool) \<Rightarrow> (scope \<Rightarrow> bool) \<Rightarrow> int \<Rightarrow> 'e reader_group \<Rightarrow>
     queue_panic + bool \<times> 'e reader_group" where
  "findAndCompactLowSliceCount cfg sortByDistance R P targetSliceCount rg =
     (let currentSliceCount = GetTotalSliceCount rg in
      if currentSliceCount \<le> targetSliceCount then Inr (True, rg)
      else
        bind_result (collect_candidates P R (readerMap rg)) (\<lambda>candidates.
        let chosen = pickCompactCandidates sortByDistance candidates (currentSliceCount - targetSliceCount) in
        bind_result (compact_readers cfg R chosen (readerMap rg)) (\<lambda>m.
        let rg = rg\<lparr>readerMap := m\<rparr> in Inr (GetTotalSliceCount rg \<le> targetSliceCount, rg))))"

text \<open>\<open>loadFactor n\<close> is \<open>int(float64(n) * targetLoadFactor)\<close>.\<close>

definition sliceCount_Run ::
    "slice_config \<Rightarrow> ('e candidate list \<Rightarrow> 'e candidate list) \<Rightarrow> (int \<Rightarrow> int) \<Rightarrow> int \<Rightarrow> 'e reader_group \<Rightarrow>
     queue_panic + bool \<times> 'e reader_group" where
  "sliceCount_Run cfg sortByDistance loadFactor critical rg =
     (if GetTotalSliceCount rg \<le> critical then Inr (False, rg)
      else
        bind_result (ForEach (ShrinkSlices cfg) rg) (\<lambda>(rg, _).
        if GetTotalSliceCount rg \<le> critical then Inr (False, rg)
        else
          let isDefault = (\<lambda>readerID. readerID = DefaultReaderId);
              isUniversal = (\<lambda>sc. IsUniverisalPredicate (ScopePredicate sc));
              compact = findAndCompactLowSliceCount cfg sortByDistance
          in bind_result (compact (\<lambda>i. \<not> isDefault i) (\<lambda>sc. \<not> isUniversal sc) (loadFactor critical) rg) (\<lambda>(done1, rg).
             if done1 then Inr (True, rg) else
             bind_result (compact isDefault (\<lambda>sc. \<not> isUniversal sc) (loadFactor critical) rg) (\<lambda>(done2, rg).
             if done2 then Inr (True, rg) else
             bind_result (compact (\<lambda>i. \<not> isDefault i) isUniversal critical rg) (\<lambda>(done3, rg).
             if done3 then Inr (True, rg) else
             bind_result (compact isDefault isUniversal critical rg) (\<lambda>(_, rg). Inr (True, rg)))))))"

section \<open>Too many pending tasks\<close>

definition clearSliceThrottleDuration :: int where
  "clearSliceThrottleDuration = 10 * 10 ^ 9"

text \<open>A slice object: the reader and the position at which the statistics found it.\<close>

type_synonym slice_ref = "int \<times> nat"

record pending_stats =
  tasksPerKey :: count_map
  pendingTasksPerKeyPerSlice :: "(slice_ref \<times> count_map) list"
  slicesPerKey :: "(group_key \<times> (slice_ref \<times> task_key) list) list"
  keysToClearPerSlice :: "(slice_ref \<times> group_key list) list"

definition stats_init :: pending_stats where
  "stats_init = \<lparr>tasksPerKey = [], pendingTasksPerKeyPerSlice = [], slicesPerKey = [], keysToClearPerSlice = []\<rparr>"

definition refs_at :: "('k \<times> 'v list) list \<Rightarrow> 'k \<Rightarrow> 'v list" where
  "refs_at m k = (case map_of m k of None \<Rightarrow> [] | Some xs \<Rightarrow> xs)"

definition gather_key :: "slice_ref \<Rightarrow> task_key \<Rightarrow> group_key \<times> int \<Rightarrow> pending_stats \<Rightarrow> pending_stats" where
  "gather_key ref lo p st =
     (case p of (key, n) \<Rightarrow>
        st\<lparr>tasksPerKey := bump (tasksPerKey st) key n,
           slicesPerKey := AList.update key (refs_at (slicesPerKey st) key @ [(ref, lo)]) (slicesPerKey st)\<rparr>)"

fun gather_slices :: "int \<Rightarrow> nat \<Rightarrow> 'e queue_slice list \<Rightarrow> pending_stats \<Rightarrow> queue_panic + pending_stats" where
  "gather_slices readerID i [] st = Inr st"
| "gather_slices readerID i (s # rest) st =
     bind_result (TaskStats s) (\<lambda>pendingPerKey.
       gather_slices readerID (Suc i) rest
         (fold (gather_key (readerID, i) (InclusiveMin (slice_range s))) pendingPerKey
            (st\<lparr>pendingTasksPerKeyPerSlice := AList.update (readerID, i) pendingPerKey (pendingTasksPerKeyPerSlice st)\<rparr>)))"

fun gather_readers :: "(int \<times> 'e reader) list \<Rightarrow> pending_stats \<Rightarrow> queue_panic + pending_stats" where
  "gather_readers [] st = Inr st"
| "gather_readers ((readerID, reader) # rest) st =
     bind_result (gather_slices readerID 0 (slices reader) st) (gather_readers rest)"

text \<open>\<open>sortDescending\<close> sorts by the start of the slice, largest first.\<close>

definition gatherStatistics ::
    "((slice_ref \<times> task_key) list \<Rightarrow> (slice_ref \<times> task_key) list) \<Rightarrow> (int \<times> 'e reader) list \<Rightarrow> queue_panic + pending_stats" where
  "gatherStatistics sortDescending readers =
     bind_result (gather_readers readers stats_init) (\<lambda>st.
       Inr (st\<lparr>slicesPerKey := map (\<lambda>(key, refs). (key, sortDescending refs)) (slicesPerKey st)\<rparr>))"

text \<open>
  The loop of \<open>findSliceToClear\<close>: the group with most pending tasks is taken from the queue, and its
  newest slice is marked. The comparison of the queue reads the map \<open>tasksPerKey\<close> as it is.
\<close>

definition more_tasks :: "pending_stats \<Rightarrow> group_key \<Rightarrow> group_key \<Rightarrow> bool" where
  "more_tasks st this that \<longleftrightarrow> count_at (tasksPerKey st) this > count_at (tasksPerKey st) that"

definition refs_left :: "pending_stats \<Rightarrow> nat" where
  "refs_left st = sum_list (map (\<lambda>(k, refs). length refs) (slicesPerKey st))"

definition clear_next :: "group_key \<Rightarrow> slice_ref \<Rightarrow> (slice_ref \<times> task_key) list \<Rightarrow> int \<Rightarrow> pending_stats \<Rightarrow> pending_stats" where
  "clear_next key ref rest tasksCleared st =
     st\<lparr>slicesPerKey := AList.update key rest (slicesPerKey st),
        tasksPerKey := AList.update key (count_at (tasksPerKey st) key - tasksCleared) (tasksPerKey st),
        keysToClearPerSlice := AList.update ref (refs_at (keysToClearPerSlice st) ref @ [key]) (keysToClearPerSlice st)\<rparr>"

lemma refs_left_clear:
  assumes "refs_at (slicesPerKey st) key = x # rest"
  shows "refs_left (clear_next key ref rest n st) < refs_left st"
proof -
  have "refs_at m key = x # rest \<Longrightarrow>
      sum_list (map (\<lambda>(k, refs). length refs) (AList.update key rest m)) < sum_list (map (\<lambda>(k, refs). length refs) m)"
    for m :: "(group_key \<times> (slice_ref \<times> task_key) list) list"
    by (induction m) (auto simp: refs_at_def)
  with assms show ?thesis by (simp add: refs_left_def clear_next_def)
qed

function find_loop ::
    "int \<Rightarrow> int \<Rightarrow> group_key priority_queue \<Rightarrow> pending_stats \<Rightarrow> queue_panic + int \<times> pending_stats" where
  "find_loop targetPendingTasks currentPendingTasks pq st =
     (if currentPendingTasks > targetPendingTasks \<and> \<not> pq_IsEmpty pq then
        (case pq_Remove pq of
           None \<Rightarrow> Inl NoNextItem
         | Some (key, pq) \<Rightarrow>
             (case refs_at (slicesPerKey st) key of
                [] \<Rightarrow> Inl NoSliceForKey
              | (ref, lo) # rest \<Rightarrow>
                  let tasksCleared = count_at (refs_at (pendingTasksPerKeyPerSlice st) ref) key;
                      st = clear_next key ref rest tasksCleared st;
                      pq = pq\<lparr>compareLess := more_tasks st\<rparr>;
                      pq = (if count_at (tasksPerKey st) key > 0 then pq_Add key pq else pq)
                  in find_loop targetPendingTasks (currentPendingTasks - tasksCleared) pq st))
      else Inr (currentPendingTasks, st))"
  by pat_completeness auto
termination by (relation "measure (\<lambda>(target, current, pq, st). refs_left st)") (auto simp: refs_left_clear)

declare find_loop.simps [simp del]

definition findSliceToClear :: "int \<Rightarrow> pending_stats \<Rightarrow> queue_panic + pending_stats" where
  "findSliceToClear targetPendingTasks st =
     (let keys = map fst (tasksPerKey st);
          currentPendingTasks = sum_list (map snd (tasksPerKey st));
          pq = NewPriorityQueueWithItems (more_tasks st) keys
      in bind_result (find_loop targetPendingTasks currentPendingTasks pq st) (\<lambda>(_, st). Inr st))"

text \<open>
  \<open>refs\<close> names the slice objects of a reader as the loop finds them. Merging slices into a reader that
  is yet to be visited leaves the objects that are not merged; those that are merged are new.
\<close>

definition tag_merge_or_append ::
    "slice_config \<Rightarrow> (slice_ref option \<times> 'e queue_slice) list \<Rightarrow> slice_ref option \<times> 'e queue_slice \<Rightarrow>
     queue_panic + (slice_ref option \<times> 'e queue_slice) list" where
  "tag_merge_or_append cfg acc x =
     bind_result (Slice_Scope (snd x)) (\<lambda>sc.
     if Scope_IsEmpty sc then Inr acc
     else if acc = [] then Inr [x]
     else bind_result (CanMergeWithSlice (snd (last acc)) (snd x)) (\<lambda>can.
       if \<not> can then Inr (acc @ [x])
       else bind_result (MergeWithSlice cfg (snd (last acc)) (snd x)) (\<lambda>merged.
         Inr (butlast acc @ map (Pair None) merged))))"

fun tag_merge_all ::
    "slice_config \<Rightarrow> (slice_ref option \<times> 'e queue_slice) list \<Rightarrow> (slice_ref option \<times> 'e queue_slice) list \<Rightarrow>
     queue_panic + (slice_ref option \<times> 'e queue_slice) list" where
  "tag_merge_all cfg acc [] = Inr acc"
| "tag_merge_all cfg acc (x # rest) = bind_result (tag_merge_or_append cfg acc x) (\<lambda>acc'. tag_merge_all cfg acc' rest)"

fun tag_merge_loop ::
    "slice_config \<Rightarrow> (slice_ref option \<times> 'e queue_slice) list \<Rightarrow> (slice_ref option \<times> 'e queue_slice) list \<Rightarrow>
     (slice_ref option \<times> 'e queue_slice) list \<Rightarrow> queue_panic + (slice_ref option \<times> 'e queue_slice) list" where
  "tag_merge_loop cfg acc (c # cs) (i # is) =
     bind_result (Slice_Scope (snd c)) (\<lambda>csc. bind_result (Slice_Scope (snd i)) (\<lambda>isc.
       if CompareTo (InclusiveMin (ScopeRange csc)) (InclusiveMin (ScopeRange isc)) < 0
       then bind_result (tag_merge_or_append cfg acc c) (\<lambda>acc'. tag_merge_loop cfg acc' cs (i # is))
       else bind_result (tag_merge_or_append cfg acc i) (\<lambda>acc'. tag_merge_loop cfg acc' (c # cs) is)))"
| "tag_merge_loop cfg acc [] is = tag_merge_all cfg acc is"
| "tag_merge_loop cfg acc cs [] = tag_merge_all cfg acc cs"

definition refs_after_merge ::
    "slice_config \<Rightarrow> slice_ref option list \<Rightarrow> 'e queue_slice list \<Rightarrow> 'e queue_slice list \<Rightarrow> queue_panic + slice_ref option list" where
  "refs_after_merge cfg refs ss incoming =
     bind_result (tag_merge_loop cfg [] (zip refs ss) (map (Pair None) incoming)) (\<lambda>tagged. Inr (map fst tagged))"

definition marked :: "(slice_ref \<times> group_key list) list \<Rightarrow> slice_ref option list \<Rightarrow> nat \<Rightarrow> group_key list option" where
  "marked keysToClear refs i = (case (if i < length refs then refs ! i else None) of None \<Rightarrow> None | Some ref \<Rightarrow> map_of keysToClear ref)"

definition clear_splitter ::
    "slice_config \<Rightarrow> grouper \<Rightarrow> (nat \<Rightarrow> group_key list option) \<Rightarrow> nat \<Rightarrow> 'e queue_slice \<Rightarrow>
     queue_panic + 'e queue_slice list \<times> bool \<times> 'e queue_slice list" where
  "clear_splitter cfg g keysOf i s =
     (case keysOf i of
        None \<Rightarrow> Inr ([], False, [])
      | Some keys \<Rightarrow>
          bind_result (GroupPredicate g keys) (\<lambda>p.
          bind_result (Slice_SplitByPredicate cfg s p) (\<lambda>(split, remain).
          bind_result (Slice_Clear cfg split) (\<lambda>(split, _). Inr ([remain], True, [split])))))"

definition pause_reader :: "int \<Rightarrow> 'e reader_group \<Rightarrow> 'e reader_group" where
  "pause_reader readerID rg =
     (case ReaderByID rg readerID of
        None \<Rightarrow> rg
      | Some r \<Rightarrow> put_reader readerID (Pause clearSliceThrottleDuration r) rg)"

text \<open>One round of \<open>splitAndClearSlice\<close>; \<open>refs\<close> holds the slice objects of the readers to be visited.\<close>

definition split_and_clear_reader ::
    "slice_config \<Rightarrow> 'e initializer \<Rightarrow> grouper \<Rightarrow> int \<Rightarrow> (slice_ref \<times> group_key list) list \<Rightarrow> int \<Rightarrow>
     (int \<Rightarrow> slice_ref option list) \<Rightarrow> 'e reader_group \<Rightarrow> queue_panic + (int \<Rightarrow> slice_ref option list) \<times> 'e reader_group" where
  "split_and_clear_reader cfg init g maxReaderCount keysToClear readerID refs rg =
     (case ReaderByID rg readerID of
        None \<Rightarrow> Inr (refs, rg)
      | Some reader \<Rightarrow>
          let keysOf = marked keysToClear (refs readerID) in
          if readerID = maxReaderCount - 1 then
            bind_result (ClearSlices_with cfg (\<lambda>i. keysOf i \<noteq> None) reader) (\<lambda>reader'.
            let cleared = list_ex (\<lambda>i. keysOf i \<noteq> None) [0..<length (slices reader)];
                rg = put_reader readerID reader' rg
            in Inr (refs, if cleared then pause_reader readerID rg else rg))
          else
            bind_result (SplitSlices_with (clear_splitter cfg g keysOf) reader) (\<lambda>(reader, splitSlices).
            let rg = put_reader readerID reader rg in
            if splitSlices = [] then Inr (refs, rg)
            else
              bind_result (GetOrCreateReader init (readerID + 1) rg) (\<lambda>(nextReader, _).
              bind_result (refs_after_merge cfg (refs (readerID + 1)) (slices nextReader) splitSlices) (\<lambda>nextRefs.
              bind_result (move_to_next cfg init readerID splitSlices rg) (\<lambda>rg.
                Inr (refs(readerID + 1 := nextRefs), pause_reader (readerID + 1) rg))))))"

fun splitAndClearSlice ::
    "slice_config \<Rightarrow> 'e initializer \<Rightarrow> grouper \<Rightarrow> int \<Rightarrow> (slice_ref \<times> group_key list) list \<Rightarrow> int list \<Rightarrow>
     (int \<Rightarrow> slice_ref option list) \<Rightarrow> 'e reader_group \<Rightarrow> queue_panic + 'e reader_group" where
  "splitAndClearSlice cfg init g maxReaderCount keysToClear [] refs rg = Inr rg"
| "splitAndClearSlice cfg init g maxReaderCount keysToClear (readerID # rest) refs rg =
     bind_result (split_and_clear_reader cfg init g maxReaderCount keysToClear readerID refs rg) (\<lambda>(refs, rg).
       splitAndClearSlice cfg init g maxReaderCount keysToClear rest refs rg)"

definition slice_refs :: "'e reader_group \<Rightarrow> int \<Rightarrow> slice_ref option list" where
  "slice_refs rg readerID =
     (case ReaderByID rg readerID of
        None \<Rightarrow> []
      | Some reader \<Rightarrow> map (\<lambda>i. Some (readerID, i)) [0..<length (slices reader)])"

definition queuePendingTask_Run ::
    "slice_config \<Rightarrow> 'e initializer \<Rightarrow> grouper \<Rightarrow> ((slice_ref \<times> task_key) list \<Rightarrow> (slice_ref \<times> task_key) list) \<Rightarrow>
     (int \<Rightarrow> int) \<Rightarrow> int \<Rightarrow> int \<Rightarrow> 'e reader_group \<Rightarrow> queue_panic + bool \<times> 'e reader_group" where
  "queuePendingTask_Run cfg init g sortDescending loadFactor maxReaderCount critical rg =
     (if GetTotalPendingTaskCount rg \<le> critical then Inr (False, rg)
      else
        bind_result (ForEach (ShrinkSlices cfg) rg) (\<lambda>(rg, _).
        if GetTotalPendingTaskCount rg \<le> critical then Inr (False, rg)
        else
          bind_result (gatherStatistics sortDescending (readerMap rg)) (\<lambda>st.
          bind_result (findSliceToClear (loadFactor critical) st) (\<lambda>st.
          bind_result
            (splitAndClearSlice cfg init g maxReaderCount (keysToClearPerSlice st) (map fst (readerMap rg)) (slice_refs rg) rg)
            (\<lambda>rg. Inr (True, rg))))))"

section \<open>The mitigator\<close>

text \<open>\<open>Alert\<close> with its attributes, and what the actions take from the configuration.\<close>

datatype alert =
    QueuePendingTaskCountAlert int
  | ReaderStuckAlert int task_key
  | SliceCountAlert int

record 'e action_env =
  env_slices :: slice_config
  env_initializer :: "'e initializer"
  env_grouper :: grouper
  env_maxReaderCount :: int
  env_sortDescending :: "(slice_ref \<times> task_key) list \<Rightarrow> (slice_ref \<times> task_key) list"
  env_sortByDistance :: "'e candidate list \<Rightarrow> 'e candidate list"
  env_loadFactor :: "int \<Rightarrow> int"
  env_moveGroupTaskCountBase :: int
  env_moveGroupMultiply :: "int \<Rightarrow> int"

definition Mitigate :: "'e action_env \<Rightarrow> alert \<Rightarrow> 'e reader_group \<Rightarrow> queue_panic + 'e reader_group" where
  "Mitigate env al rg =
     bind_result
       (case al of
          QueuePendingTaskCountAlert critical \<Rightarrow>
            queuePendingTask_Run (env_slices env) (env_initializer env) (env_grouper env) (env_sortDescending env)
              (env_loadFactor env) (env_maxReaderCount env) critical rg
        | ReaderStuckAlert readerID watermark \<Rightarrow>
            readerStuck_Run (env_slices env) (env_initializer env) readerID watermark rg
        | SliceCountAlert critical \<Rightarrow>
            sliceCount_Run (env_slices env) (env_sortByDistance env) (env_loadFactor env) critical rg)
       (\<lambda>(_, rg). Inr rg)"

end
