(* ===== verification/ActionWork.thy ===== *)
theory ActionWork
  imports QueueActions
begin

text \<open>
  The actions of \<open>QueueActions\<close> carry the work of the reader group over: no task that a slice has still
  to load, and no executable that is in progress, is lost when slices are split, moved to the next
  reader, compacted, shrunk or cleared, for every outcome of the sorts and of the float products that
  are arguments of the actions.
\<close>

section \<open>Moving slices\<close>

text \<open>The initializer makes a reader of the slices it is given.\<close>

definition keeps_slices :: "'e initializer \<Rightarrow> bool" where
  "keeps_slices init \<longleftrightarrow> (\<forall>k ss. slices (init k ss) = ss)"

lemma move_ok:
  assumes ok: "group_ok g M rg" and r: "ReaderByID rg k = Some r"
    and r': "slices_ok g M (slices r')" and taken: "slices_ok g M taken"
    and car: "carries db (slices r) (slices r' @ taken)" and new: "keeps_slices init"
  shows "\<exists>rg'. move_to_next cfg init k taken (put_reader k r' rg) = Inr rg' \<and> group_ok g M rg' \<and>
    carries db (all_slices rg) (all_slices rg')"
proof -
  let ?rg1 = "put_reader k r' rg"
  have ok1: "group_ok g M ?rg1" by (rule group_ok_put [OF ok r'])
  from GetOrCreate_ok [OF ok1, of init "k + 1"] new [unfolded keeps_slices_def] obtain n rg2 where
    n: "GetOrCreateReader init (k + 1) ?rg1 = Inr (n, rg2)" "group_ok g M rg2" "ReaderByID rg2 (k + 1) = Some n"
    "set (all_slices rg2) = set (all_slices ?rg1)" by blast
  from MergeSlices_carries [OF group_ok_reader [OF n(2,3)] taken, of cfg db] obtain n' where
    n': "MergeSlices cfg taken n = Inr n'" "slices_ok g M (slices n')" "carries db (slices n @ taken) (slices n')" by blast
  let ?rg3 = "put_reader (k + 1) n' rg2"
  have s1: "set (all_slices rg) = set (other_slices k rg @ slices r)" by (rule all_slices_reader [OF ok r])
  have s2: "set (other_slices k rg @ slices r' @ taken) = set (other_slices (k + 1) rg2 @ slices n @ taken)"
    using n(4) all_slices_put [OF ok, of k r'] all_slices_reader [OF n(2,3)] by auto
  have s3: "set (other_slices (k + 1) rg2 @ slices n') = set (all_slices ?rg3)"
    by (simp add: all_slices_put [OF n(2)])
  have "carries db (all_slices rg) (all_slices ?rg3)"
    by (rule carries_chain [OF s1 carries_append [OF carries_refl car] s2 carries_append [OF carries_refl n'(3)] s3])
  with n(1) n'(1) group_ok_put [OF n(2) n'(2)] show ?thesis by (simp add: move_to_next_def)
qed

text \<open>A reader is split by a callback and what the callback takes goes to the next reader.\<close>

lemma split_and_move_ok:
  assumes ok: "group_ok g M rg" and r: "ReaderByID rg k = Some r"
    and f: "\<forall>i. \<forall>s \<in> set (slices r). split_ok g db s (f i s)" and new: "keeps_slices init"
  shows "\<exists>r' taken. SplitSlices_with f r = Inr (r', taken) \<and>
    group_ok g M (put_reader k r' rg) \<and> (taken = [] \<longrightarrow> carries db (all_slices rg) (all_slices (put_reader k r' rg))) \<and>
    slices_ok g M (slices r') \<and> slices_ok g M taken \<and>
    (\<exists>rg'. move_to_next cfg init k taken (put_reader k r' rg) = Inr rg' \<and> group_ok g M rg' \<and>
       carries db (all_slices rg) (all_slices rg'))"
proof -
  from SplitSlices_carries [OF group_ok_reader [OF ok r], of db f] f obtain r' taken where
    s: "SplitSlices_with f r = Inr (r', taken)" "slices_ok g M (slices r')" "slices_ok g M taken"
    "carries db (slices r) (slices r' @ taken)" by blast
  from move_ok [OF ok r s(2-4) new, of cfg] put_reader_carries [OF ok r, of db r'] group_ok_put [OF ok s(2)] s
  show ?thesis by auto
qed

section \<open>The callbacks\<close>

lemma cut_ok:
  assumes inv: "slice_inv g s" and can: "CanSplitByRange (slice_scope s) k" and id: "0 \<le> TaskID k" "TaskID k \<le> MaxInt64"
  shows "\<exists>l r. Slice_SplitByRange cfg s k = Inr (l, r) \<and> slice_inv g l \<and> slice_inv g r \<and>
    smin l = smin s \<and> smax l = k \<and> smin r = k \<and> smax r = smax s \<and> smin s \<le> k \<and> k \<le> smax s \<and> carries db [s] [l, r]"
proof -
  from inv can have k: "smin s \<le> k \<and> k \<le> smax s"
    by (simp add: CanSplitByRange_def slice_inv_def valid_scope_def Range_CanSplit_iff)
  moreover from inv have "valid_range (slice_range s)" by (simp add: slice_inv_def valid_scope_def)
  ultimately have "valid_key k" using valid_range_key id by blast
  with splitByRange_ok [OF inv can, of cfg] can inv k show ?thesis
    by (auto simp: Slice_SplitByRange_def Slice_CanSplitByRange_def stateSanityCheck_def slice_inv_def keeps_work_carries)
qed

lemma slice_inv_CanSplit [simp]: "slice_inv g s \<Longrightarrow> Slice_CanSplitByRange s k = Inr (CanSplitByRange (slice_scope s) k)"
  by (simp add: Slice_CanSplitByRange_def stateSanityCheck_def slice_inv_def)

lemma split_ok_Inr [simp]:
  "split_ok g db s (Inr (n, sp, mv)) \<longleftrightarrow>
     slices_inv g (if sp then n else [s]) \<and> slices_inv g mv \<and>
     (\<forall>q \<in> set (if sp then n else []) \<union> set mv. smin s \<le> smin q \<and> smax q \<le> smax s) \<and>
     carries db [s] ((if sp then n else [s]) @ mv)"
  unfolding split_ok_def by blast

lemma split_ok_none: "slice_inv g s \<Longrightarrow> split_ok g db s (Inr ([], False, []))"
  by (simp add: carries_refl)

lemma split_ok_take: "slice_inv g s \<Longrightarrow> split_ok g db s (Inr ([], True, [s]))"
  by (simp add: carries_refl)

lemma split_ok_parts:
  assumes "slices_inv g n" "slice_inv g q" "\<forall>p \<in> set (q # n). smin s \<le> smin p \<and> smax p \<le> smax s" "carries db [s] (n @ [q])"
  shows "split_ok g db s (Inr (n, True, [q]))"
  using assms by simp

lemma stuck_splitter_ok:
  assumes inv: "slice_inv g s" and range: "InclusiveMin st \<le> ExclusiveMax st"
    and lo: "0 \<le> TaskID (InclusiveMin st)" "TaskID (InclusiveMin st) \<le> MaxInt64"
    and hi: "0 \<le> TaskID (ExclusiveMax st)" "TaskID (ExclusiveMax st) \<le> MaxInt64"
  shows "split_ok g db s (stuck_splitter cfg st s)"
proof (cases "ContainsRange st (slice_range s)")
  case True
  with inv split_ok_take [OF inv] show ?thesis by (simp add: stuck_splitter_def)
next
  case out: False
  let ?lo = "InclusiveMin st" and ?hi = "ExclusiveMax st"
  show ?thesis
  proof (cases "CanSplitByRange (slice_scope s) ?lo")
    case True
    from cut_ok [OF inv True lo, of cfg db] obtain l q where lq: "Slice_SplitByRange cfg s ?lo = Inr (l, q)"
      "slice_inv g l" "slice_inv g q" "smin l = smin s" "smax l = ?lo" "smin q = ?lo" "smax q = smax s"
      "smin s \<le> ?lo" "?lo \<le> smax s" "carries db [s] [l, q]" by blast
    show ?thesis
    proof (cases "CanSplitByRange (slice_scope q) ?hi")
      case can: True
      from cut_ok [OF lq(3) can hi, of cfg db] obtain m h where mh: "Slice_SplitByRange cfg q ?hi = Inr (m, h)"
        "slice_inv g m" "slice_inv g h" "smin m = smin q" "smax m = ?hi" "smin h = ?hi" "smax h = smax q"
        "smin q \<le> ?hi" "?hi \<le> smax q" "carries db [q] [m, h]" by blast
      have "carries db [s] [l, h, m]"
        by (rule carries_chain [OF refl lq(10) _ carries_append [OF carries_refl [of db "[l]"] mh(10)]]) auto
      moreover have "smax l \<le> smin h" using lq mh range by simp
      moreover have "smin s \<le> ?hi" using lq(6,8) mh(8) by (simp add: order_trans)
      ultimately have "split_ok g db s (Inr ([l, h], True, [m]))"
        using lq mh by (intro split_ok_parts) auto
      with out True can inv lq mh show ?thesis by (simp add: stuck_splitter_def)
    next
      case False
      have "split_ok g db s (Inr ([l], True, [q]))" using lq by (intro split_ok_parts) auto
      with out True False inv lq show ?thesis by (simp add: stuck_splitter_def)
    qed
  next
    case no: False
    show ?thesis
    proof (cases "CanSplitByRange (slice_scope s) ?hi")
      case True
      from cut_ok [OF inv True hi, of cfg db] obtain m h where mh: "Slice_SplitByRange cfg s ?hi = Inr (m, h)"
        "slice_inv g m" "slice_inv g h" "smin m = smin s" "smax m = ?hi" "smin h = ?hi" "smax h = smax s"
        "smin s \<le> ?hi" "?hi \<le> smax s" "carries db [s] [m, h]" by blast
      have "carries db [s] [h, m]"
        by (rule carries_trans [OF mh(10) carries_same_set]) auto
      then have "split_ok g db s (Inr ([h], True, [m]))" using mh by (intro split_ok_parts) auto
      with out True no inv mh show ?thesis by (simp add: stuck_splitter_def)
    next
      case False
      with out no inv split_ok_none [OF inv] show ?thesis by (simp add: stuck_splitter_def)
    qed
  qed
qed

lemma predicate_splitter_ok:
  assumes inv: "slice_inv g s"
  shows "split_ok g db s (predicate_splitter s)"
  using inv by (simp add: predicate_splitter_def carries_refl)

lemma remain_and_split_ok:
  assumes "slice_inv g a" "slice_inv g b" "slice_range a = slice_range s" "slice_range b = slice_range s" "carries db [s] [a, b]"
  shows "split_ok g db s (Inr ([b], True, [a]))"
  using assms carries_trans [OF assms(5) carries_same_set [of "[a, b]" "[b, a]" db]]
  by (intro split_ok_parts) auto

lemma group_splitter_ok:
  assumes inv: "slice_inv g s" and p: "canonical p"
  shows "split_ok g db s (group_splitter cfg p s)"
proof -
  from splitByPredicate_ok [OF inv p, of cfg] obtain a b where
    ab: "Slice_SplitByPredicate cfg s p = Inr (a, b)" "slice_inv g a" "slice_inv g b"
    "slice_range a = slice_range s" "slice_range b = slice_range s" "keeps_work [s] [a, b]" by blast
  from remain_and_split_ok [OF ab(2-5) keeps_work_carries [OF ab(6)]] ab(1) inv split_ok_none [OF inv]
  show ?thesis by (simp add: group_splitter_def)
qed

lemma clear_splitter_ok:
  assumes inv: "slice_inv g s" and max: "smax s \<le> MaximumKey" and db: "inj_on GetKey db"
    and keys: "\<And>ks. keysOf i = Some ks \<Longrightarrow> \<forall>k \<in> set ks. key_of_grouper g k"
  shows "split_ok g db s (clear_splitter cfg g keysOf i s)"
proof (cases "keysOf i")
  case None
  with split_ok_none [OF inv] show ?thesis by (simp add: clear_splitter_def)
next
  case (Some ks)
  from group_predicate_ok [OF keys [OF Some]] obtain p where p: "GroupPredicate g ks = Inr p" "canonical p" by blast
  from splitByPredicate_ok [OF inv p(2), of cfg] obtain a b where
    ab: "Slice_SplitByPredicate cfg s p = Inr (a, b)" "slice_inv g a" "slice_inv g b"
    "slice_range a = slice_range s" "slice_range b = slice_range s" "keeps_work [s] [a, b]" by blast
  from Clear_carries [OF ab(2) _ db, of cfg] max ab(4) obtain a' c where
    a': "Slice_Clear cfg a = Inr (a', c)" "slice_inv g a'" "smin a \<le> smin a'" "smax a' = smax a" "carries db [a] [a']" by auto
  have "carries db [s] [b, a']"
    by (rule carries_chain [OF refl keeps_work_carries [OF ab(6)] _ carries_append [OF a'(5) carries_refl [of db "[b]"]]]) auto
  with ab a' have "split_ok g db s (Inr ([b], True, [a']))" by (intro split_ok_parts) auto
  with Some p ab(1) a'(1) show ?thesis by (simp add: clear_splitter_def)
qed

section \<open>The actions\<close>

text \<open>What an action owes the queue: it returns, and the work is carried over.\<close>

definition action_ok ::
    "grouper \<Rightarrow> task_key \<Rightarrow> task set \<Rightarrow> 'e reader_group \<Rightarrow> queue_panic + bool \<times> 'e reader_group \<Rightarrow> bool" where
  "action_ok g M db rg res \<longleftrightarrow>
     (\<exists>b rg'. res = Inr (b, rg') \<and> group_ok g M rg' \<and> carries db (all_slices rg) (all_slices rg'))"

lemma action_ok_Inr [simp]:
  "action_ok g M db rg (Inr (b, rg')) \<longleftrightarrow> group_ok g M rg' \<and> carries db (all_slices rg) (all_slices rg')"
  by (simp add: action_ok_def)

lemma action_ok_trans:
  "carries db (all_slices rg) (all_slices rg') \<Longrightarrow> action_ok g M db rg' res \<Longrightarrow> action_ok g M db rg res"
  unfolding action_ok_def using carries_trans by blast

lemma readerStuck_ok:
  assumes ok: "group_ok g M rg" and new: "keeps_slices init" and watermark: "valid_key watermark"
  shows "action_ok g M db rg (readerStuck_Run cfg init readerID watermark rg)"
proof (cases "ReaderByID rg readerID")
  case None
  with ok show ?thesis by (simp add: readerStuck_Run_def carries_refl)
next
  case (Some r)
  define hi where "hi = NewKey (FireTime watermark + monitorWatermarkPrecision) (TaskID watermark)"
  define st where "st = \<lparr>InclusiveMin = watermark, ExclusiveMax = hi\<rparr>"
  have le: "watermark \<le> hi"
    by (cases watermark) (simp add: hi_def NewKey_def key_le_iff monitorWatermarkPrecision_def)
  then have st: "NewRange watermark hi = Inr st" by (simp add: NewRange_def st_def)
  have f: "\<forall>i::nat. \<forall>s \<in> set (slices r). split_ok g db s (stuck_splitter cfg st s)"
    using slices_ok_invs [OF group_ok_reader [OF ok Some]] le watermark
    by (auto intro!: stuck_splitter_ok simp: st_def hi_def NewKey_def valid_key_def)
  from split_and_move_ok [OF ok Some f new, of cfg] obtain r' taken rg' where
    s: "SplitSlices_with (\<lambda>_. stuck_splitter cfg st) r = Inr (r', taken)" "group_ok g M (put_reader readerID r' rg)"
    "taken = [] \<Longrightarrow> carries db (all_slices rg) (all_slices (put_reader readerID r' rg))"
    "move_to_next cfg init readerID taken (put_reader readerID r' rg) = Inr rg'" "group_ok g M rg'"
    "carries db (all_slices rg) (all_slices rg')" by blast
  with Some st show ?thesis
    by (cases "taken = []") (simp_all add: readerStuck_Run_def Let_def flip: hi_def)
qed

lemma slicePredicate_ok:
  assumes ok: "group_ok g M rg" and new: "keeps_slices init"
  shows "action_ok g M db rg (slicePredicate_Run cfg init maxReaderCount rg)"
proof (cases "ReaderByID rg DefaultReaderId")
  case None
  with ok show ?thesis by (simp add: slicePredicate_Run_def carries_refl)
next
  case (Some r)
  have f: "\<forall>i::nat. \<forall>s \<in> set (slices r). split_ok g db s (predicate_splitter s)"
    using slices_ok_invs [OF group_ok_reader [OF ok Some]] by (auto intro!: predicate_splitter_ok)
  from split_and_move_ok [OF ok Some f new, of cfg] obtain r' taken rg' where
    s: "SplitSlices_with (\<lambda>_. predicate_splitter) r = Inr (r', taken)" "group_ok g M (put_reader DefaultReaderId r' rg)"
    "taken = [] \<Longrightarrow> carries db (all_slices rg) (all_slices (put_reader DefaultReaderId r' rg))"
    "move_to_next cfg init DefaultReaderId taken (put_reader DefaultReaderId r' rg) = Inr rg'" "group_ok g M rg'"
    "carries db (all_slices rg) (all_slices rg')" by blast
  with Some ok show ?thesis
    by (cases "taken = []") (simp_all add: slicePredicate_Run_def Let_def carries_refl)
qed

subsection \<open>Groups\<close>

lemma keys_add_counts: "fst ` set (add_counts m counts) \<subseteq> fst ` set m \<union> fst ` set counts"
proof (induction counts arbitrary: m)
  case (Cons p counts)
  obtain k n where p: "p = (k, n)" by (cases p)
  from Cons.IH [of "bump m k n"] show ?case unfolding p keys_bump by (simp add: add_counts_def)
qed (simp add: add_counts_def)

lemma slice_inv_TaskStats [simp]: "slice_inv g s \<Longrightarrow> TaskStats s = Inr (pendingPerKey (slice_tracker s))"
  by (simp add: TaskStats_def stateSanityCheck_def slice_inv_def)

lemma slice_inv_keys: "slice_inv g s \<Longrightarrow> \<forall>k \<in> fst ` set (pendingPerKey (slice_tracker s)). key_of_grouper g k"
  by (auto simp: slice_inv_def tracker_safe_def)

lemma count_groups_ok:
  assumes "\<forall>s \<in> set ss. slice_inv g s" "\<forall>k \<in> fst ` set m. key_of_grouper g k"
  shows "\<exists>m'. count_groups m ss = Inr m' \<and> (\<forall>k \<in> fst ` set m'. key_of_grouper g k)"
  using assms
proof (induction ss arbitrary: m)
  case (Cons s ss)
  have "\<forall>k \<in> fst ` set (add_counts m (pendingPerKey (slice_tracker s))). key_of_grouper g k"
    using Cons.prems keys_add_counts [of m "pendingPerKey (slice_tracker s)"] slice_inv_keys [of g s] by fastforce
  with Cons.IH [OF _ this] Cons.prems slice_inv_TaskStats [of g s] show ?case by simp
qed simp

lemma move_groups_ok:
  assumes ok: "group_ok g M rg" and new: "keeps_slices init"
  shows "action_ok g M db rg (move_groups cfg init g n readerID rg)"
proof (cases "ReaderByID rg readerID")
  case None
  with ok show ?thesis by (simp add: move_groups_def carries_refl)
next
  case (Some r)
  note inv = slices_ok_invs [OF group_ok_reader [OF ok Some]]
  from count_groups_ok [OF inv, of "[]"] obtain m where m: "count_groups [] (slices r) = Inr m"
    "\<forall>k \<in> fst ` set m. key_of_grouper g k" by auto
  let ?keys = "map fst (filter (\<lambda>(key, c). c \<ge> n) m)"
  from m(2) have "\<forall>k \<in> set ?keys. key_of_grouper g k" by auto
  from group_predicate_ok [OF this] obtain p where p: "GroupPredicate g ?keys = Inr p" "canonical p" by blast
  have f: "\<forall>i::nat. \<forall>s \<in> set (slices r). split_ok g db s (group_splitter cfg p s)"
    using inv p(2) by (auto intro!: group_splitter_ok)
  from split_and_move_ok [OF ok Some f new, of cfg] obtain r' taken rg' where
    s: "SplitSlices_with (\<lambda>_. group_splitter cfg p) r = Inr (r', taken)"
    "move_to_next cfg init readerID taken (put_reader readerID r' rg) = Inr rg'" "group_ok g M rg'"
    "carries db (all_slices rg) (all_slices rg')" by blast
  have "move_groups cfg init g n readerID rg = (if ?keys = [] then Inr (False, rg) else Inr (True, rg'))"
    using Some m(1) p(1) s(1,2) by (simp add: move_groups_def)
  with ok s(3,4) show ?thesis by (cases "?keys = []") (simp_all add: carries_refl)
qed

lemma move_group_loop_ok:
  assumes "group_ok g M rg" and new: "keeps_slices init"
  shows "action_ok g M db rg (move_group_loop cfg init g scale ids n b rg)"
  using assms(1)
proof (induction ids arbitrary: n b rg)
  case Nil
  then show ?case by (simp add: carries_refl)
next
  case (Cons readerID ids)
  let ?n = "if readerID \<noteq> DefaultReaderId then scale n else n"
  from move_groups_ok [OF Cons.prems new, of db cfg ?n readerID] obtain m rg' where
    m: "move_groups cfg init g ?n readerID rg = Inr (m, rg')" "group_ok g M rg'" "carries db (all_slices rg) (all_slices rg')"
    by (auto simp: action_ok_def)
  from action_ok_trans [OF m(3) Cons.IH [OF m(2), of ?n "b \<or> m"]] m(1) show ?case by simp
qed

lemma moveGroup_ok:
  assumes "group_ok g M rg" "keeps_slices init"
  shows "action_ok g M db rg (moveGroup_Run cfg init g scale maxReaderCount base rg)"
  unfolding moveGroup_Run_def by (rule move_group_loop_ok [OF assms])

subsection \<open>Operations on every reader\<close>

text \<open>An operation that carries the work of each reader carries the work of the group.\<close>

lemma for_each_ok:
  assumes "\<forall>(k, r) \<in> set m. \<exists>r' n. f r = Inr (r', n) \<and> slices_ok g M (slices r') \<and> carries db (slices r) (slices r')"
  shows "\<exists>m' n. for_each_reader f m = Inr (m', n) \<and> map fst m' = map fst m \<and> (\<forall>(k, r) \<in> set m'. slices_ok g M (slices r)) \<and>
    carries db (concat (map (\<lambda>(k, r). slices r) m)) (concat (map (\<lambda>(k, r). slices r) m'))"
  using assms
proof (induction m)
  case Nil
  show ?case by (simp add: carries_refl)
next
  case (Cons p m)
  obtain k r where p: "p = (k, r)" by (cases p)
  from Cons.prems p obtain r' n where r: "f r = Inr (r', n)" "slices_ok g M (slices r')" "carries db (slices r) (slices r')" by auto
  from Cons obtain m' l where m: "for_each_reader f m = Inr (m', l)" "map fst m' = map fst m" "\<forall>(k, r) \<in> set m'. slices_ok g M (slices r)"
    "carries db (concat (map (\<lambda>(k, r). slices r) m)) (concat (map (\<lambda>(k, r). slices r) m'))" by auto
  from p r m carries_append [OF r(3) m(4)] show ?case by auto
qed

lemma ForEach_ok:
  assumes ok: "group_ok g M rg"
    and f: "\<And>r. slices_ok g M (slices r) \<Longrightarrow> \<exists>r' n. f r = Inr (r', n) \<and> slices_ok g M (slices r') \<and> carries db (slices r) (slices r')"
  shows "\<exists>rg' n. ForEach f rg = Inr (rg', n) \<and> group_ok g M rg' \<and> carries db (all_slices rg) (all_slices rg') \<and>
    map fst (readerMap rg') = map fst (readerMap rg) \<and> group_status rg' = group_status rg"
proof -
  have "\<forall>(k, r) \<in> set (readerMap rg). \<exists>r' n. f r = Inr (r', n) \<and> slices_ok g M (slices r') \<and> carries db (slices r) (slices r')"
    using ok f by (fastforce simp: group_ok_def)
  from for_each_ok [OF this] show ?thesis
    using ok by (fastforce simp: ForEach_def group_ok_def all_slices_def)
qed

lemma ForEach_Shrink_ok:
  assumes "group_ok g M rg" "M \<le> MaximumKey"
  shows "\<exists>rg' n. ForEach (ShrinkSlices cfg) rg = Inr (rg', n) \<and> group_ok g M rg' \<and> carries db (all_slices rg) (all_slices rg') \<and>
    map fst (readerMap rg') = map fst (readerMap rg) \<and> group_status rg' = group_status rg"
  by (rule ForEach_ok [OF assms(1) Shrink_carries [OF _ assms(2)]])

subsection \<open>Too many slices\<close>

text \<open>The slices of a reader are in order, so the distance from one to the next is not negative.\<close>

lemma append_candidates_ok:
  assumes "slices_inv g ss" "\<forall>r b. prev = Some (r, b) \<longrightarrow> valid_key (ExclusiveMax r) \<and> (\<forall>s \<in> set ss. ExclusiveMax r \<le> smin s)"
  shows "\<exists>cs. append_candidates P k prev ss = Inr cs"
  using assms
proof (induction ss arbitrary: prev)
  case (Cons s ss)
  from Cons.prems(1) have s: "slice_inv g s" "valid_key (smin s)" "valid_key (smax s)" "slices_inv g ss" "\<forall>q \<in> set ss. smax s \<le> smin q"
    by (auto simp: slice_inv_def valid_scope_def valid_range_def)
  have "\<exists>cs. append_candidates P k (Some (slice_range s, P (slice_scope s))) ss = Inr cs"
    using s by (intro Cons.IH) auto
  then obtain cs where cs: "append_candidates P k (Some (slice_range s, P (slice_scope s))) ss = Inr cs" by blast
  show ?case
  proof (cases "\<exists>r. prev = Some (r, True) \<and> P (slice_scope s)")
    case True
    then obtain r where r: "prev = Some (r, True)" "P (slice_scope s)" by blast
    with Cons.prems(2) s(2) Sub_difference [of "smin s" "ExclusiveMax r"] obtain d where
      "Sub (smin s) (ExclusiveMax r) = Inr d" by auto
    with r s(1) cs show ?thesis by (simp add: Let_def)
  next
    case False
    with s(1) cs show ?thesis by (auto simp: Let_def split: option.split bool.split)
  qed
qed simp

lemma collect_candidates_ok:
  assumes "\<forall>(k, r) \<in> set m. slices_ok g M (slices r)"
  shows "\<exists>cs. collect_candidates P R m = Inr cs"
  using assms
proof (induction m)
  case (Cons p m)
  obtain k r where p: "p = (k, r)" by (cases p)
  from Cons.prems p have "slices_inv g (slices r)" by (simp add: slices_ok_def)
  from append_candidates_ok [OF this, of None P k] Cons p show ?case by auto
qed simp

lemma compact_readers_ok:
  assumes "\<forall>(k, r) \<in> set m. slices_ok g M (slices r)"
  shows "\<exists>m'. compact_readers cfg R chosen m = Inr m' \<and> map fst m' = map fst m \<and> (\<forall>(k, r) \<in> set m'. slices_ok g M (slices r)) \<and>
    carries db (concat (map (\<lambda>(k, r). slices r) m)) (concat (map (\<lambda>(k, r). slices r) m'))"
  using assms
proof (induction m)
  case Nil
  show ?case by (simp add: carries_refl)
next
  case (Cons p m)
  obtain k r where p: "p = (k, r)" by (cases p)
  from Cons.prems p have ok: "slices_ok g M (slices r)" by simp
  from CompactSlices_carries [OF ok, of cfg "\<lambda>s. (k, s) \<in> set chosen" db] ok obtain r' where r:
    "(if \<not> R k then Inr r else CompactSlices cfg (\<lambda>s. (k, s) \<in> set chosen) r) = (Inr r' :: queue_panic + 'a reader)"
    "slices_ok g M (slices r')" "carries db (slices r) (slices r')" by (cases "R k") (auto simp: carries_refl)
  from Cons obtain m' where m: "compact_readers cfg R chosen m = Inr m'" "map fst m' = map fst m"
    "\<forall>(k, r) \<in> set m'. slices_ok g M (slices r)"
    "carries db (concat (map (\<lambda>(k, r). slices r) m)) (concat (map (\<lambda>(k, r). slices r) m'))" by auto
  have "compact_readers cfg R chosen (p # m) = Inr ((k, r') # m')" using r(1) m(1) by (simp add: p)
  with p r(2) m(2,3) carries_append [OF r(3) m(4)] show ?case by auto
qed

lemma findAndCompact_ok:
  assumes ok: "group_ok g M rg"
  shows "action_ok g M db rg (findAndCompactLowSliceCount cfg sortByDistance R P target rg)"
proof (cases "GetTotalSliceCount rg \<le> target")
  case True
  with ok show ?thesis by (simp add: findAndCompactLowSliceCount_def carries_refl)
next
  case False
  from ok have m: "\<forall>(k, r) \<in> set (readerMap rg). slices_ok g M (slices r)" by (simp add: group_ok_def)
  from collect_candidates_ok [OF m] obtain cs where cs: "collect_candidates P R (readerMap rg) = Inr cs" by blast
  let ?chosen = "pickCompactCandidates sortByDistance cs (GetTotalSliceCount rg - target)"
  from compact_readers_ok [OF m, of cfg R ?chosen db] obtain m' where
    "compact_readers cfg R ?chosen (readerMap rg) = Inr m'" "map fst m' = map fst (readerMap rg)"
    "\<forall>(k, r) \<in> set m'. slices_ok g M (slices r)" "carries db (all_slices rg) (all_slices (rg\<lparr>readerMap := m'\<rparr>))"
    by (auto simp: all_slices_def)
  with False cs ok show ?thesis by (simp add: findAndCompactLowSliceCount_def Let_def group_ok_def)
qed

lemma action_ok_bind:
  assumes "action_ok g M db rg res"
    and "\<And>b rg'. group_ok g M rg' \<Longrightarrow> carries db (all_slices rg) (all_slices rg') \<Longrightarrow> action_ok g M db rg (f (b, rg'))"
  shows "action_ok g M db rg (bind_result res f)"
proof -
  from assms(1) obtain b rg' where "res = Inr (b, rg')" "group_ok g M rg'" "carries db (all_slices rg) (all_slices rg')"
    by (auto simp: action_ok_def)
  with assms(2) show ?thesis by simp
qed

lemma sliceCount_ok:
  assumes ok: "group_ok g M rg" and M: "M \<le> MaximumKey"
  shows "action_ok g M db rg (sliceCount_Run cfg sortByDistance loadFactor critical rg)"
proof (cases "GetTotalSliceCount rg \<le> critical")
  case True
  with ok show ?thesis by (simp add: sliceCount_Run_def carries_refl)
next
  case False
  from ForEach_Shrink_ok [OF ok M, of cfg db] obtain rg1 n where
    r1: "ForEach (ShrinkSlices cfg) rg = Inr (rg1, n)" "group_ok g M rg1" "carries db (all_slices rg) (all_slices rg1)" by blast
  have compact: "action_ok g M db rg (findAndCompactLowSliceCount cfg sortByDistance R P target rg')"
    if "group_ok g M rg'" "carries db (all_slices rg) (all_slices rg')" for R P target rg'
    by (rule action_ok_trans [OF that(2) findAndCompact_ok [OF that(1)]])
  have ret: "action_ok g M db rg (Inr (b, rg'))" if "group_ok g M rg'" "carries db (all_slices rg) (all_slices rg')" for b rg'
    using that by simp
  show ?thesis
    unfolding sliceCount_Run_def Let_def
    by (auto simp: False r1(1) split: if_splits intro!: action_ok_bind compact ret r1(2,3) simp del: action_ok_Inr)
qed

end
