(* ===== verification/ClearWork.thy ===== *)
theory ClearWork
  imports ActionWork
begin

text \<open>
  The action on too many pending tasks never panics: the bookkeeping of \<open>gatherStatistics\<close> and
  \<open>findSliceToClear\<close> is consistent, so that a group that still counts pending tasks always has a slice
  left to clear, and the loop stops at the target or when every group is marked. Then the properties
  of the actions together, on one environment of the mitigator.
\<close>

section \<open>The priority queue holds its items whatever the comparison says\<close>

lemma mset_heap_up: "j < length xs \<Longrightarrow> mset (heap_up lt j xs) = mset xs"
proof (induction lt j xs rule: heap_up.induct)
  case (1 lt j xs)
  have "parent j < length xs" using 1(2) by (simp add: parent_def)
  with 1 show ?case by (subst heap_up.simps) (simp add: Let_def)
qed

lemma mset_heap_down: "n \<le> length xs \<Longrightarrow> i < n \<Longrightarrow> mset (heap_down lt i n xs) = mset xs"
proof (induction lt i n xs rule: heap_down.induct)
  case (1 lt i n xs)
  let ?j1 = "2 * i + 1"
  let ?j = "if ?j1 + 1 < n \<and> lt (xs ! (?j1 + 1)) (xs ! ?j1) then ?j1 + 1 else ?j1"
  show ?case
  proof (cases "?j1 \<ge> n \<or> \<not> lt (xs ! ?j) (xs ! i)")
    case True
    then show ?thesis by (subst heap_down.simps) (auto simp: Let_def)
  next
    case False
    then have j: "?j < n" "lt (xs ! ?j) (xs ! i)" by auto
    have "heap_down lt i n xs = heap_down lt ?j n (swap i ?j xs)"
      using False by (subst heap_down.simps) (auto simp: Let_def)
    moreover have "mset (heap_down lt ?j n (swap i ?j xs)) = mset (swap i ?j xs)"
      using 1 False j by (intro "1.IH") auto
    ultimately show ?thesis using j(1) 1 by simp
  qed
qed

lemma mset_heap_Init: "mset (heap_Init lt xs) = mset xs"
proof -
  have "mset (fold (\<lambda>i. heap_down lt i (length xs)) is ys) = mset ys"
    if "\<forall>i \<in> set is. i < length xs" "length ys = length xs" for "is" ys
    using that
  proof (induction "is" arbitrary: ys)
    case (Cons i "is")
    then have m: "mset (heap_down lt i (length xs) ys) = mset ys" by (simp add: mset_heap_down)
    then have "length (heap_down lt i (length xs) ys) = length xs" using Cons.prems(2) by (metis size_mset)
    with Cons m show ?case by simp
  qed simp
  from this [of "rev [0..<length xs div 2]" xs] show ?thesis
    unfolding heap_Init_def by fastforce
qed

lemma pq_Remove_items:
  assumes "pq_items pq \<noteq> []"
  shows "\<exists>x q. pq_Remove pq = Some (x, q) \<and> mset (pq_items pq) = add_mset x (mset (pq_items q))"
proof -
  let ?xs = "pq_items pq" and ?lt = "compareLess pq"
  define n where "n = length ?xs - 1"
  define ys where "ys = heap_down ?lt 0 n (swap 0 n ?xs)"
  have n: "length ?xs = Suc n" using assms by (simp add: n_def)
  have m: "mset ys = mset ?xs"
  proof (cases "n = 0")
    case True
    with n show ?thesis unfolding ys_def by (subst heap_down.simps) simp
  next
    case False
    with n show ?thesis unfolding ys_def by (simp add: mset_heap_down)
  qed
  then have "length ys = Suc n" using n by (metis size_mset)
  then have "ys = take n ys @ [ys ! n]" by (metis lessI take_Suc_conv_app_nth take_all order_refl)
  then have "mset ys = add_mset (ys ! n) (mset (take n ys))"
    by (metis add_mset_add_single mset.simps(1) mset.simps(2) mset_append)
  moreover have "heap_Pop ?lt ?xs = Some (ys ! n, take n ys)"
    using assms by (simp add: heap_Pop_def Let_def n_def ys_def)
  ultimately show ?thesis using m by (simp add: pq_Remove_def)
qed

lemma pq_Add_items: "mset (pq_items (pq_Add x pq)) = add_mset x (mset (pq_items pq))"
  using mset_heap_up [of "length (pq_items pq)" "pq_items pq @ [x]" "compareLess pq"]
  by (simp add: pq_Add_def heap_Push_def Let_def)

section \<open>The statistics\<close>

lemma refs_at_update [simp]: "refs_at (AList.update k v m) k' = (if k' = k then v else refs_at m k')"
  by (simp add: refs_at_def update_conv')

text \<open>The pending tasks of a group in the slices that are listed for it.\<close>

definition listed :: "pending_stats \<Rightarrow> group_key \<Rightarrow> int" where
  "listed st k = sum_list (map (\<lambda>(ref, lo). count_at (refs_at (pendingTasksPerKeyPerSlice st) ref) k) (refs_at (slicesPerKey st) k))"

definition stats_ok :: "grouper \<Rightarrow> pending_stats \<Rightarrow> bool" where
  "stats_ok g st \<longleftrightarrow>
     (\<forall>k. count_at (tasksPerKey st) k = listed st k) \<and> go_map (tasksPerKey st) \<and>
     (\<forall>k \<in> fst ` set (tasksPerKey st). key_of_grouper g k) \<and>
     (\<forall>ref ks. map_of (keysToClearPerSlice st) ref = Some ks \<longrightarrow> (\<forall>k \<in> set ks. key_of_grouper g k))"

definition all_listed :: "pending_stats \<Rightarrow> bool" where
  "all_listed st \<longleftrightarrow> (\<forall>k \<in> fst ` set (tasksPerKey st). refs_at (slicesPerKey st) k \<noteq> [])"

definition seen_in :: "slice_ref set \<Rightarrow> pending_stats \<Rightarrow> bool" where
  "seen_in S st \<longleftrightarrow> (\<forall>k. fst ` set (refs_at (slicesPerKey st) k) \<subseteq> S)"

lemma gather_key_ok:
  assumes "stats_ok g st" "all_listed st" "seen_in S st" "ref \<in> S"
    and "count_at (refs_at (pendingTasksPerKeyPerSlice st) ref) k = n" "key_of_grouper g k"
  shows "stats_ok g (gather_key ref lo (k, n) st)" "all_listed (gather_key ref lo (k, n) st)"
    "seen_in S (gather_key ref lo (k, n) st)"
    "pendingTasksPerKeyPerSlice (gather_key ref lo (k, n) st) = pendingTasksPerKeyPerSlice st"
  using assms
  by (auto simp: stats_ok_def gather_key_def listed_def all_listed_def seen_in_def intro: go_map_bump)

lemma gather_keys_ok:
  assumes "stats_ok g st" "all_listed st" "seen_in S st" "ref \<in> S"
    and "\<forall>(k, n) \<in> set ps. count_at (refs_at (pendingTasksPerKeyPerSlice st) ref) k = n \<and> key_of_grouper g k"
  shows "stats_ok g (fold (gather_key ref lo) ps st) \<and> all_listed (fold (gather_key ref lo) ps st) \<and>
    seen_in S (fold (gather_key ref lo) ps st)"
  using assms
proof (induction ps arbitrary: st)
  case (Cons p ps)
  obtain k n where p: "p = (k, n)" by (cases p)
  from Cons.prems p have k: "count_at (refs_at (pendingTasksPerKeyPerSlice st) ref) k = n" "key_of_grouper g k" by auto
  note step = gather_key_ok [OF Cons.prems(1-4) k, of lo]
  from Cons.IH [OF step(1-3) Cons.prems(4)] Cons.prems(5) show ?case unfolding p fold_simps comp_def by (simp add: step(4))
qed simp

lemma listed_fresh:
  assumes "seen_in S st" "ref \<notin> S"
  shows "listed (st\<lparr>pendingTasksPerKeyPerSlice := AList.update ref m (pendingTasksPerKeyPerSlice st)\<rparr>) k = listed st k"
proof -
  have "\<forall>x \<in> set (refs_at (slicesPerKey st) k). fst x \<noteq> ref" using assms by (auto simp: seen_in_def)
  then show ?thesis unfolding listed_def by (intro arg_cong [where f = sum_list] map_cong) auto
qed

lemma gather_slices_ok:
  assumes "stats_ok g st" "all_listed st" "seen_in S st" "\<forall>s \<in> set ss. slice_inv g s" "\<forall>j \<ge> i. (readerID, j) \<notin> S"
  shows "\<exists>st'. gather_slices readerID i ss st = Inr st' \<and> stats_ok g st' \<and> all_listed st' \<and>
    seen_in (S \<union> {readerID} \<times> UNIV) st'"
  using assms
proof (induction ss arbitrary: i st S)
  case Nil
  then show ?case by (auto simp: seen_in_def)
next
  case (Cons s ss)
  let ?pending = "pendingPerKey (slice_tracker s)"
  define st1 where "st1 = st\<lparr>pendingTasksPerKeyPerSlice := AList.update (readerID, i) ?pending (pendingTasksPerKeyPerSlice st)\<rparr>"
  define st2 where "st2 = fold (gather_key (readerID, i) (smin s)) ?pending st1"
  from Cons.prems have inv: "slice_inv g s" and fresh: "(readerID, i) \<notin> S" by auto
  have ps: "\<forall>(k, n) \<in> set ?pending. count_at (refs_at (pendingTasksPerKeyPerSlice st1) (readerID, i)) k = n \<and> key_of_grouper g k"
    using inv slice_inv_keys [OF inv] by (auto simp: st1_def count_at_def slice_inv_def tracker_safe_def)
  have "stats_ok g st1"
    using Cons.prems(1) listed_fresh [OF Cons.prems(3) fresh] by (simp add: stats_ok_def st1_def)
  moreover have "all_listed st1" "seen_in (insert (readerID, i) S) st1"
    using Cons.prems(2,3) by (auto simp: st1_def all_listed_def seen_in_def)
  ultimately have st2: "stats_ok g st2" "all_listed st2" "seen_in (insert (readerID, i) S) st2"
    using gather_keys_ok [OF _ _ _ insertI1 ps, of S "smin s"] by (auto simp: st2_def)
  have "insert (readerID, i) S \<union> {readerID} \<times> UNIV = S \<union> {readerID} \<times> UNIV" by auto
  with Cons.IH [OF st2, of "Suc i"] Cons.prems(4,5) inv show ?case by (simp add: st1_def st2_def)
qed

lemma gather_readers_ok:
  assumes "stats_ok g st" "all_listed st" "seen_in S st" "\<forall>(k, r) \<in> set m. \<forall>s \<in> set (slices r). slice_inv g s"
    "go_map m" "\<forall>k \<in> fst ` set m. \<forall>j. (k, j) \<notin> S"
  shows "\<exists>st'. gather_readers m st = Inr st' \<and> stats_ok g st' \<and> all_listed st'"
  using assms
proof (induction m arbitrary: st S)
  case (Cons p m)
  obtain k r where p: "p = (k, r)" by (cases p)
  from gather_slices_ok [OF Cons.prems(1-3), of "slices r" 0 k] Cons.prems p obtain st1 where
    st1: "gather_slices k 0 (slices r) st = Inr st1" "stats_ok g st1" "all_listed st1" "seen_in (S \<union> {k} \<times> UNIV) st1" by auto
  from Cons.IH [OF st1(2-4)] Cons.prems p st1(1) show ?case by auto
qed simp

lemma gatherStatistics_ok:
  assumes ok: "group_ok g M rg" and sort: "\<And>refs. mset (sortDescending refs) = mset refs"
  shows "\<exists>st. gatherStatistics sortDescending (readerMap rg) = Inr st \<and> stats_ok g st \<and> all_listed st"
proof -
  from ok have m: "\<forall>(k, r) \<in> set (readerMap rg). \<forall>s \<in> set (slices r). slice_inv g s" "go_map (readerMap rg)"
    using slices_ok_invs by (auto simp: group_ok_def) blast
  have "stats_ok g stats_init" "all_listed stats_init" "seen_in {} stats_init"
    by (simp_all add: stats_ok_def stats_init_def listed_def refs_at_def count_at_def all_listed_def seen_in_def)
  from gather_readers_ok [OF this m] obtain st where
    st: "gather_readers (readerMap rg) stats_init = Inr st" "stats_ok g st" "all_listed st" by auto
  let ?st = "st\<lparr>slicesPerKey := map (\<lambda>(key, refs). (key, sortDescending refs)) (slicesPerKey st)\<rparr>"
  have refs: "mset (refs_at (slicesPerKey ?st) k) = mset (refs_at (slicesPerKey st) k)" for k
    by (simp add: refs_at_def map_of_map sort split: option.split)
  have "listed ?st k = listed st k" for k
  proof -
    let ?f = "\<lambda>(ref, lo :: task_key). count_at (refs_at (pendingTasksPerKeyPerSlice st) ref) k"
    have "sum_mset (image_mset ?f (mset (refs_at (slicesPerKey ?st) k))) = sum_mset (image_mset ?f (mset (refs_at (slicesPerKey st) k)))"
      by (simp only: refs)
    then show ?thesis by (simp only: listed_def mset_map [symmetric] sum_mset_sum_list) simp
  qed
  moreover have "refs_at (slicesPerKey ?st) k = [] \<longleftrightarrow> refs_at (slicesPerKey st) k = []" for k
    using refs [of k] by (metis mset_zero_iff)
  ultimately show ?thesis using st by (simp add: gatherStatistics_def stats_ok_def all_listed_def)
qed

section \<open>Finding the slices to clear\<close>

lemma sum_update: "sum_list (map snd (AList.update k v m)) = sum_list (map snd m) - count_at m k + v"
  by (induction m) (auto simp: count_at_def split: option.splits)

lemma count_positive_key: "count_at m k > 0 \<Longrightarrow> k \<in> fst ` set m"
  by (auto simp: count_at_def split: option.splits dest!: map_of_SomeD) force

text \<open>
  The state of the loop: the queue holds groups with a slice left to clear, once each, and all groups
  that still count pending tasks.
\<close>

definition loop_ok :: "grouper \<Rightarrow> int \<Rightarrow> group_key priority_queue \<Rightarrow> pending_stats \<Rightarrow> bool" where
  "loop_ok g current pq st \<longleftrightarrow>
     stats_ok g st \<and> current = sum_list (map snd (tasksPerKey st)) \<and> distinct (pq_items pq) \<and>
     (\<forall>k \<in> set (pq_items pq). k \<in> fst ` set (tasksPerKey st) \<and> refs_at (slicesPerKey st) k \<noteq> []) \<and>
     (\<forall>k. count_at (tasksPerKey st) k > 0 \<longrightarrow> k \<in> set (pq_items pq))"

lemma listed_clear_next:
  assumes "refs_at (slicesPerKey st) key = (ref, lo) # rest"
  shows "listed (clear_next key ref rest (count_at (refs_at (pendingTasksPerKeyPerSlice st) ref) key) st) k =
     (if k = key then listed st key - count_at (refs_at (pendingTasksPerKeyPerSlice st) ref) key else listed st k)"
  using assms by (simp add: listed_def clear_next_def)

lemma count_at_update: "count_at (AList.update k v m) k' = (if k' = k then v else count_at m k')"
  by (simp add: count_at_def update_conv')

lemma clear_next_ok:
  assumes ok: "stats_ok g st" and refs: "refs_at (slicesPerKey st) key = (ref, lo) # rest"
    and key: "key \<in> fst ` set (tasksPerKey st)"
    and n: "n = count_at (refs_at (pendingTasksPerKeyPerSlice st) ref) key"
  shows "stats_ok g (clear_next key ref rest n st)"
    "count_at (tasksPerKey (clear_next key ref rest n st)) k = count_at (tasksPerKey st) k - (if k = key then n else 0)"
    "fst ` set (tasksPerKey (clear_next key ref rest n st)) = fst ` set (tasksPerKey st)"
    "sum_list (map snd (tasksPerKey (clear_next key ref rest n st))) = sum_list (map snd (tasksPerKey st)) - n"
    "refs_at (slicesPerKey (clear_next key ref rest n st)) k = (if k = key then rest else refs_at (slicesPerKey st) k)"
proof -
  show keys: "fst ` set (tasksPerKey (clear_next key ref rest n st)) = fst ` set (tasksPerKey st)"
    using key by (auto simp: clear_next_def dom_update)
  have keysToClear: "\<forall>k \<in> set (refs_at (keysToClearPerSlice st) ref). key_of_grouper g k"
  proof (cases "map_of (keysToClearPerSlice st) ref")
    case (Some ks)
    with ok show ?thesis unfolding stats_ok_def by (metis option.simps(5) refs_at_def)
  qed (simp add: refs_at_def)
  then show "stats_ok g (clear_next key ref rest n st)"
    using ok key keys listed_clear_next [OF refs] unfolding stats_ok_def
    by (auto simp: n clear_next_def count_at_update update_conv' intro: go_map_update)
  show "count_at (tasksPerKey (clear_next key ref rest n st)) k = count_at (tasksPerKey st) k - (if k = key then n else 0)"
    by (simp add: clear_next_def count_at_update)
  show "sum_list (map snd (tasksPerKey (clear_next key ref rest n st))) = sum_list (map snd (tasksPerKey st)) - n"
    by (simp add: clear_next_def sum_update)
  show "refs_at (slicesPerKey (clear_next key ref rest n st)) k = (if k = key then rest else refs_at (slicesPerKey st) k)"
    by (simp add: clear_next_def)
qed

lemma loop_step_ok:
  assumes ok: "loop_ok g current pq st" and rem: "pq_Remove pq = Some (key, pq')"
    and items: "mset (pq_items pq) = add_mset key (mset (pq_items pq'))"
    and refs: "refs_at (slicesPerKey st) key = (ref, lo) # rest"
    and n: "n = count_at (refs_at (pendingTasksPerKeyPerSlice st) ref) key" and st': "st' = clear_next key ref rest n st"
    and pq'': "pq'' = (if count_at (tasksPerKey st') key > 0
      then pq_Add key (pq'\<lparr>compareLess := more_tasks st'\<rparr>) else pq'\<lparr>compareLess := more_tasks st'\<rparr>)"
  shows "loop_ok g (current - n) pq'' st'"
proof -
  from items have "distinct (key # pq_items pq') \<longleftrightarrow> distinct (pq_items pq)" and
    set: "set (pq_items pq) = insert key (set (pq_items pq'))"
    by (metis mset.simps(2) mset_eq_imp_distinct_iff, metis set_mset_add_mset_insert set_mset_mset)
  then have d: "key \<notin> set (pq_items pq')" "distinct (pq_items pq')" using ok by (auto simp: loop_ok_def)
  from ok set have key: "key \<in> fst ` set (tasksPerKey st)" and stats: "stats_ok g st" by (auto simp: loop_ok_def)
  note next_ok = clear_next_ok [OF stats refs key n, folded st']
  let ?add = "count_at (tasksPerKey st') key > 0"
  have m: "mset (pq_items pq'') = (if ?add then add_mset key (mset (pq_items pq')) else mset (pq_items pq'))"
    by (simp add: pq'' pq_Add_items)
  then have "set (pq_items pq'') = (if ?add then insert key (set (pq_items pq')) else set (pq_items pq'))"
    by (metis set_mset_add_mset_insert set_mset_mset)
  moreover have "distinct (pq_items pq'')"
    using m d by (metis distinct.simps(2) mset.simps(2) mset_eq_imp_distinct_iff)
  moreover have "rest \<noteq> []" if ?add
  proof
    assume "rest = []"
    moreover have "count_at (tasksPerKey st') key = listed st' key" using next_ok(1) by (simp add: stats_ok_def)
    ultimately show False using that next_ok(5) [of key] by (simp add: listed_def)
  qed
  ultimately show ?thesis
    using ok set d next_ok unfolding loop_ok_def by (auto split: if_splits)
qed

lemma find_loop_ok:
  assumes "loop_ok g current pq st"
  shows "\<exists>c st'. find_loop target current pq st = Inr (c, st') \<and> stats_ok g st' \<and> c = sum_list (map snd (tasksPerKey st')) \<and>
    (c \<le> target \<or> (\<forall>k. count_at (tasksPerKey st') k \<le> 0))"
  using assms
proof (induction "refs_left st" arbitrary: current pq st rule: less_induct)
  case less
  show ?case
  proof (cases "current > target \<and> \<not> pq_IsEmpty pq")
    case False
    with less.prems have "current \<le> target \<or> (\<forall>k. count_at (tasksPerKey st) k \<le> 0)"
      by (auto simp: loop_ok_def pq_IsEmpty_def not_less [symmetric])
    with False less.prems show ?thesis by (subst find_loop.simps) (auto simp: loop_ok_def)
  next
    case True
    then have "pq_items pq \<noteq> []" by (simp add: pq_IsEmpty_def)
    from pq_Remove_items [OF this] obtain key pq' where
      rem: "pq_Remove pq = Some (key, pq')" "mset (pq_items pq) = add_mset key (mset (pq_items pq'))" by blast
    then have "key \<in> set (pq_items pq)" by (metis set_mset_mset union_single_eq_member)
    then obtain ref lo rest where refs: "refs_at (slicesPerKey st) key = (ref, lo) # rest"
      using less.prems by (fastforce simp: loop_ok_def neq_Nil_conv)
    define n where "n = count_at (refs_at (pendingTasksPerKeyPerSlice st) ref) key"
    define st' where "st' = clear_next key ref rest n st"
    define pq'' where "pq'' = (if count_at (tasksPerKey st') key > 0
      then pq_Add key (pq'\<lparr>compareLess := more_tasks st'\<rparr>) else pq'\<lparr>compareLess := more_tasks st'\<rparr>)"
    have "find_loop target current pq st = find_loop target (current - n) pq'' st'"
      using True rem(1) refs by (subst find_loop.simps) (simp add: Let_def n_def st'_def pq''_def)
    moreover have "refs_left st' < refs_left st" unfolding st'_def by (rule refs_left_clear [OF refs])
    ultimately show ?thesis
      using less.hyps [OF _ loop_step_ok [OF less.prems rem refs n_def st'_def pq''_def]] by simp
  qed
qed

lemma findSliceToClear_ok:
  assumes "stats_ok g st" "all_listed st"
  shows "\<exists>st'. findSliceToClear target st = Inr st' \<and> stats_ok g st' \<and>
    (sum_list (map snd (tasksPerKey st')) \<le> target \<or> (\<forall>k. count_at (tasksPerKey st') k \<le> 0))"
proof -
  let ?pq = "NewPriorityQueueWithItems (more_tasks st) (map fst (tasksPerKey st))"
  have items: "mset (pq_items ?pq) = mset (map fst (tasksPerKey st))" by (simp add: NewPriorityQueueWithItems_def mset_heap_Init)
  have "set (pq_items ?pq) = fst ` set (tasksPerKey st)" "distinct (pq_items ?pq)"
    using mset_eq_setD [OF items] mset_eq_imp_distinct_iff [OF items] assms(1) by (simp_all add: stats_ok_def)
  then have "loop_ok g (sum_list (map snd (tasksPerKey st))) ?pq st"
    using assms count_positive_key by (auto simp: loop_ok_def all_listed_def)
  from find_loop_ok [OF this, of target] show ?thesis by (auto simp: findSliceToClear_def Let_def)
qed

section \<open>Clearing them\<close>

text \<open>Without the names of the slices the merge of the tagged slices is the merge of the reader.\<close>

lemma tag_merge_or_append_plain:
  "mergeOrAppendSlice cfg (map snd acc) (snd x) = bind_result (tag_merge_or_append cfg acc x) (\<lambda>acc'. Inr (map snd acc'))"
proof (cases "acc = []")
  case True
  then show ?thesis by (simp add: mergeOrAppendSlice_def tag_merge_or_append_def bind_result_assoc if_distrib [of "\<lambda>r. bind_result r f" for f] cong: if_cong)
next
  case False
  then show ?thesis
    by (simp add: mergeOrAppendSlice_def tag_merge_or_append_def bind_result_assoc last_map map_butlast o_def
        if_distrib [of "\<lambda>r. bind_result r f" for f] cong: if_cong)
qed

lemma tag_merge_all_plain:
  "merge_or_append_all cfg (map snd acc) (map snd xs) = bind_result (tag_merge_all cfg acc xs) (\<lambda>acc'. Inr (map snd acc'))"
proof (induction xs arbitrary: acc)
  case (Cons x xs)
  then show ?case
    by (cases "tag_merge_or_append cfg acc x") (simp_all add: tag_merge_or_append_plain)
qed simp

lemma tag_merge_loop_plain:
  "merge_slices_loop cfg (map snd acc) (map snd cs) (map snd ys) =
     bind_result (tag_merge_loop cfg acc cs ys) (\<lambda>acc'. Inr (map snd acc'))"
proof (induction cfg acc cs ys rule: tag_merge_loop.induct)
  case (1 cfg acc c cs y ys)
  show ?case
  proof (cases "Slice_Scope (snd c)")
    case c: (Inr csc)
    show ?thesis
    proof (cases "Slice_Scope (snd y)")
      case (Inr isc)
      with 1 c show ?thesis
        by (cases "tag_merge_or_append cfg acc c"; cases "tag_merge_or_append cfg acc y")
          (simp_all add: tag_merge_or_append_plain)
    qed (use c in simp)
  qed simp
next
  case (2 cfg acc ys)
  then show ?case using tag_merge_all_plain by simp
next
  case (3 cfg acc c cs)
  then show ?case using tag_merge_all_plain [of cfg acc "c # cs"] by simp
qed

lemma refs_after_merge_ok:
  assumes "slices_ok g M ss" "slices_ok g M qs"
  shows "\<exists>refs'. refs_after_merge cfg refs ss qs = Inr refs'"
proof -
  have "slices_inv g (take n ss)" for n
    using assms(1) by (metis append_take_drop_id slices_ok_def slices_ok_simps(3))
  from merge_slices_ok [OF this [of "length refs"], of qs cfg] assms(2) obtain rs where
    "merge_slices_loop cfg [] (take (length refs) ss) qs = Inr rs" by (auto simp: slices_ok_def)
  moreover have "map snd (zip refs ss) = take (length refs) ss" by (simp add: map_snd_zip_take) (metis min.commute take_take take_all order_refl)
  moreover have "map snd (map (Pair (None :: slice_ref option)) qs) = qs" by (simp add: o_def)
  ultimately have "bind_result (tag_merge_loop cfg [] (zip refs ss) (map (Pair (None :: slice_ref option)) qs)) (\<lambda>acc'. Inr (map snd acc')) = Inr rs"
    using tag_merge_loop_plain [of cfg "[]" "zip refs ss" "map (Pair (None :: slice_ref option)) qs"] by (metis list.map(1))
  then show ?thesis by (auto simp: refs_after_merge_def simp: bind_result_Inr_iff)
qed

lemma slices_Pause [simp]: "slices (Pause d r) = slices r"
  by (simp add: Pause_def pauseLocked_def log_event_def)

lemma pause_reader_ok:
  assumes "group_ok g M rg"
  shows "group_ok g M (pause_reader k rg)" "carries db (all_slices rg) (all_slices (pause_reader k rg))"
  using assms put_reader_carries [OF assms] group_ok_put [OF assms] group_ok_reader [OF assms]
  by (auto simp: pause_reader_def carries_refl split: option.split)

definition clear_keys_ok :: "grouper \<Rightarrow> (slice_ref \<times> group_key list) list \<Rightarrow> bool" where
  "clear_keys_ok g m \<longleftrightarrow> (\<forall>ref ks. map_of m ref = Some ks \<longrightarrow> (\<forall>k \<in> set ks. key_of_grouper g k))"

lemma marked_keys: "clear_keys_ok g m \<Longrightarrow> marked m refs i = Some ks \<Longrightarrow> \<forall>k \<in> set ks. key_of_grouper g k"
  unfolding clear_keys_ok_def marked_def by (auto split: option.splits)

lemma split_and_clear_reader_ok:
  assumes ok: "group_ok g M rg" and M: "M \<le> MaximumKey" and db: "inj_on GetKey db"
    and new: "keeps_slices init" and keys: "clear_keys_ok g m"
  shows "\<exists>refs' rg'. split_and_clear_reader cfg init g maxReaderCount m k refs rg = Inr (refs', rg') \<and>
    group_ok g M rg' \<and> carries db (all_slices rg) (all_slices rg')"
proof (cases "ReaderByID rg k")
  case None
  with ok show ?thesis by (simp add: split_and_clear_reader_def carries_refl)
next
  case (Some r)
  let ?keysOf = "marked m (refs k)"
  note rok = group_ok_reader [OF ok Some]
  show ?thesis
  proof (cases "k = maxReaderCount - 1")
    case True
    from ClearSlices_carries [OF rok M db, of cfg "\<lambda>i. ?keysOf i \<noteq> None"] obtain r' where
      r': "ClearSlices_with cfg (\<lambda>i. ?keysOf i \<noteq> None) r = Inr r'" "slices_ok g M (slices r')" "carries db (slices r) (slices r')" by blast
    note ok1 = group_ok_put [OF ok r'(2), of k] put_reader_carries [OF ok Some r'(3)]
    note ok2 = pause_reader_ok [OF ok1(1), where k = k]
    from Some True r'(1) ok1 ok2 carries_trans [OF ok1(2) ok2(2)] show ?thesis
      by (auto simp: split_and_clear_reader_def Let_def)
  next
    case False
    have f: "\<forall>i. \<forall>s \<in> set (slices r). split_ok g db s (clear_splitter cfg g ?keysOf i s)"
      using slices_ok_invs [OF rok] rok M marked_keys [OF keys]
      by (auto intro!: clear_splitter_ok [OF _ _ db] simp: slices_ok_def intro: order_trans)
    from split_and_move_ok [OF ok Some f new, of cfg] obtain r' taken rg' where
      s: "SplitSlices_with (clear_splitter cfg g ?keysOf) r = Inr (r', taken)" "group_ok g M (put_reader k r' rg)"
      "taken = [] \<Longrightarrow> carries db (all_slices rg) (all_slices (put_reader k r' rg))" "slices_ok g M taken"
      "move_to_next cfg init k taken (put_reader k r' rg) = Inr rg'" "group_ok g M rg'"
      "carries db (all_slices rg) (all_slices rg')" by blast
    from GetOrCreate_ok [OF s(2), of init "k + 1"] new [unfolded keeps_slices_def] obtain n rg2 where
      n: "GetOrCreateReader init (k + 1) (put_reader k r' rg) = Inr (n, rg2)" "group_ok g M rg2" "ReaderByID rg2 (k + 1) = Some n" by blast
    from refs_after_merge_ok [OF group_ok_reader [OF n(2,3)] s(4), of cfg "refs (k + 1)"] obtain nextRefs where
      "refs_after_merge cfg (refs (k + 1)) (slices n) taken = Inr nextRefs" by blast
    note eq = this n(1) s(1,5) Some False
    note p = pause_reader_ok [OF s(6), where k = "k + 1"]
    show ?thesis
    proof (cases "taken = []")
      case True
      with eq s(2,3) show ?thesis by (simp add: split_and_clear_reader_def Let_def)
    next
      case taken: False
      with eq p carries_trans [OF s(7) p(2)] show ?thesis by (simp add: split_and_clear_reader_def Let_def)
    qed
  qed
qed

lemma splitAndClearSlice_ok:
  assumes "group_ok g M rg" and M: "M \<le> MaximumKey" and db: "inj_on GetKey db"
    and new: "keeps_slices init" and keys: "clear_keys_ok g m"
  shows "\<exists>rg'. splitAndClearSlice cfg init g maxReaderCount m ids refs rg = Inr rg' \<and> group_ok g M rg' \<and>
    carries db (all_slices rg) (all_slices rg')"
  using assms(1)
proof (induction ids arbitrary: refs rg)
  case Nil
  then show ?case by (simp add: carries_refl)
next
  case (Cons k ids)
  from split_and_clear_reader_ok [OF Cons.prems M db new keys, of cfg maxReaderCount k refs] obtain refs1 rg1 where
    r: "split_and_clear_reader cfg init g maxReaderCount m k refs rg = Inr (refs1, rg1)" "group_ok g M rg1"
    "carries db (all_slices rg) (all_slices rg1)" by blast
  from Cons.IH [OF r(2), of refs1] r(1) carries_trans [OF r(3)] show ?case by auto
qed

lemma queuePendingTask_ok:
  assumes ok: "group_ok g M rg" and M: "M \<le> MaximumKey" and db: "inj_on GetKey db"
    and new: "keeps_slices init" and sort: "\<And>refs. mset (sortDescending refs) = mset refs"
  shows "action_ok g M db rg (queuePendingTask_Run cfg init g sortDescending loadFactor maxReaderCount critical rg)"
proof (cases "GetTotalPendingTaskCount rg \<le> critical")
  case True
  with ok show ?thesis by (simp add: queuePendingTask_Run_def carries_refl)
next
  case False
  from ForEach_Shrink_ok [OF ok M, of cfg db] obtain rg1 n where
    r1: "ForEach (ShrinkSlices cfg) rg = Inr (rg1, n)" "group_ok g M rg1" "carries db (all_slices rg) (all_slices rg1)" by blast
  from gatherStatistics_ok [OF r1(2) sort] obtain st where
    st: "gatherStatistics sortDescending (readerMap rg1) = Inr st" "stats_ok g st" "all_listed st" by blast
  from findSliceToClear_ok [OF st(2,3), of "loadFactor critical"] obtain st' where
    st': "findSliceToClear (loadFactor critical) st = Inr st'" "stats_ok g st'" by blast
  then have keys: "clear_keys_ok g (keysToClearPerSlice st')" by (simp add: stats_ok_def clear_keys_ok_def)
  from splitAndClearSlice_ok [OF r1(2) M db new keys, of cfg maxReaderCount "map fst (readerMap rg1)" "slice_refs rg1"]
  obtain rg2 where r2: "splitAndClearSlice cfg init g maxReaderCount (keysToClearPerSlice st') (map fst (readerMap rg1)) (slice_refs rg1) rg1 = Inr rg2"
    "group_ok g M rg2" "carries db (all_slices rg1) (all_slices rg2)" by blast
  have "queuePendingTask_Run cfg init g sortDescending loadFactor maxReaderCount critical rg =
      (if GetTotalPendingTaskCount rg1 \<le> critical then Inr (False, rg1) else Inr (True, rg2))"
    using False r1(1) st(1) st'(1) r2(1) by (simp add: queuePendingTask_Run_def)
  with r1(2,3) r2(2) carries_trans [OF r1(3) r2(3)] show ?thesis by simp
qed

section \<open>The mitigator\<close>

text \<open>
  What is assumed of the environment: the initializer makes a reader of the slices it is given, and the
  sort of the slices of a group is a permutation.
\<close>

definition env_ok :: "'e action_env \<Rightarrow> bool" where
  "env_ok env \<longleftrightarrow> keeps_slices (env_initializer env) \<and> (\<forall>refs. mset (env_sortDescending env refs) = mset refs)"

definition mitigated ::
    "grouper \<Rightarrow> task_key \<Rightarrow> task set \<Rightarrow> 'e reader_group \<Rightarrow> queue_panic + 'e reader_group \<Rightarrow> bool" where
  "mitigated g M db rg res \<longleftrightarrow> (\<exists>rg'. res = Inr rg' \<and> group_ok g M rg' \<and> carries db (all_slices rg) (all_slices rg'))"

lemma action_ok_mitigated: "action_ok g M db rg res \<Longrightarrow> mitigated g M db rg (bind_result res (\<lambda>(_, rg). Inr rg))"
  by (auto simp: action_ok_def mitigated_def)

text \<open>An alert on a stuck reader names the key of a task.\<close>

definition alert_ok :: "alert \<Rightarrow> bool" where
  "alert_ok al \<longleftrightarrow> (case al of ReaderStuckAlert readerID watermark \<Rightarrow> valid_key watermark | _ \<Rightarrow> True)"

lemma Mitigate_ok:
  assumes ok: "group_ok (env_grouper env) M rg" and M: "M \<le> MaximumKey" and db: "inj_on GetKey db" and env: "env_ok env"
    and al: "alert_ok al"
  shows "mitigated (env_grouper env) M db rg (Mitigate env al rg)"
proof (cases al)
  case (QueuePendingTaskCountAlert critical)
  from env have "keeps_slices (env_initializer env)" "\<And>refs. mset (env_sortDescending env refs) = mset refs" by (auto simp: env_ok_def)
  from action_ok_mitigated [OF queuePendingTask_ok [OF ok M db this]] QueuePendingTaskCountAlert
  show ?thesis by (simp add: Mitigate_def)
next
  case (ReaderStuckAlert readerID watermark)
  from env have "keeps_slices (env_initializer env)" by (simp add: env_ok_def)
  moreover from al ReaderStuckAlert have "valid_key watermark" by (simp add: alert_ok_def)
  ultimately show ?thesis
    using action_ok_mitigated [OF readerStuck_ok [OF ok]] ReaderStuckAlert by (simp add: Mitigate_def)
next
  case (SliceCountAlert critical)
  from action_ok_mitigated [OF sliceCount_ok [OF ok M]] SliceCountAlert show ?thesis by (simp add: Mitigate_def)
qed

section \<open>Properties\<close>

definition sample_group :: "unit reader_group" where
  "sample_group = \<lparr>group_status = DaemonStatusStarted,
     readerMap = [(DefaultReaderId, NewReader [sample_slice 0 6 {''a''} (sample_task 3 ''a'')])]\<rparr>"

definition sample_actions :: "unit action_env" where
  "sample_actions = \<lparr>env_slices = sample_config, env_initializer = (\<lambda>k ss. NewReader ss), env_grouper = GrouperNamespaceID,
     env_maxReaderCount = 2, env_sortDescending = (\<lambda>refs. refs), env_sortByDistance = (\<lambda>cs. cs),
     env_loadFactor = (\<lambda>n. n div 2), env_moveGroupTaskCountBase = 1, env_moveGroupMultiply = (\<lambda>n. 2 * n)\<rparr>"

lemma NewReader_slices [simp]: "slices (NewReader ss) = ss"
  by (simp add: NewReader_def split: list.split)

lemma sample_group_ok: "group_ok GrouperNamespaceID (Key 0 6) sample_group"
  using sample_slice_inv [of 0 3 6 "''a''" "{''a''}"]
  by (simp add: group_ok_def sample_group_def sample_slice_scope NewScope_def MaxInt64_def)

lemma sample_actions_ok: "env_ok sample_actions" "env_grouper sample_actions = GrouperNamespaceID"
  by (simp_all add: env_ok_def sample_actions_def keeps_slices_def)

lemma sample_bound: "Key 0 6 \<le> MaximumKey" "inj_on GetKey {sample_task 3 ''a''}"
  by (simp_all add: MaximumKey_def NewKey_def key_le_iff MaxInt64_def)

text \<open>
  C2. Whatever alert the monitor raises, the mitigation loses no work: it returns, the readers still
  hold slices in order, every task of the store that a slice had to load or an executable in progress
  stood for is still covered, unless its executable was acknowledged, and no executable is invented
  or acknowledged on the way. No action panics.
\<close>

theorem Mitigate_keeps_work:
  assumes "group_ok (env_grouper env) M rg" "M \<le> MaximumKey" "inj_on GetKey db" "env_ok env" "alert_ok al"
  shows "\<exists>rg'. Mitigate env al rg = Inr rg' \<and> group_ok (env_grouper env) M rg' \<and> carries db (all_slices rg) (all_slices rg')"
  using Mitigate_ok [OF assms] by (simp add: mitigated_def)

theorem Mitigate_keeps_work_witness:
  "\<exists>rg'. Mitigate sample_actions (QueuePendingTaskCountAlert 0) sample_group = Inr rg' \<and> group_ok GrouperNamespaceID (Key 0 6) rg' \<and>
     carries {sample_task 3 ''a''} (all_slices sample_group) (all_slices rg')"
  using Mitigate_keeps_work [of sample_actions "Key 0 6" sample_group "{sample_task 3 ''a''}" "QueuePendingTaskCountAlert 0"]
    sample_group_ok sample_actions_ok sample_bound by (simp add: alert_ok_def)

text \<open>
  C18. The two actions of the checkpoint, which move slices with a predicate and groups with many pending
  tasks to the next readers, never panic and carry the work over.
\<close>

theorem Move_actions_keep_work:
  assumes "group_ok g M rg" "keeps_slices init"
  shows "(\<exists>b rg'. slicePredicate_Run cfg init maxReaderCount rg = Inr (b, rg') \<and> group_ok g M rg' \<and>
            carries db (all_slices rg) (all_slices rg')) \<and>
         (\<exists>b rg'. moveGroup_Run cfg init g scale maxReaderCount base rg = Inr (b, rg') \<and> group_ok g M rg' \<and>
            carries db (all_slices rg) (all_slices rg'))"
  using slicePredicate_ok [OF assms] moveGroup_ok [OF assms] by (simp add: action_ok_def)

theorem Move_actions_keep_work_witness:
  "\<exists>b rg'. moveGroup_Run sample_config (\<lambda>k ss. NewReader ss) GrouperNamespaceID (\<lambda>n. 2 * n) 2 1 sample_group = Inr (b, rg') \<and>
     group_ok GrouperNamespaceID (Key 0 6) rg' \<and> carries {sample_task 3 ''a''} (all_slices sample_group) (all_slices rg')"
  by (rule Move_actions_keep_work [THEN conjunct2, OF sample_group_ok]) (simp add: keeps_slices_def)



end
