(* ===== verification/QueueState.thy ===== *)
theory QueueState
  imports TaskRange "HOL-Library.List_Lexorder" "HOL-Library.Char_ord"
begin

text \<open>
  What a queue persists: \<open>service/history/queues/convert.go\<close>. A message of the API is a record or, for
  the predicate with its type and attributes, a datatype with one constructor per type. The keys of a
  Go map are listed in an order that is an argument, with the one assumption that every key is listed.
\<close>

section \<open>The messages\<close>

record proto_key =
  PbFireTime :: "int \<times> int"
  PbTaskId :: int

record proto_range =
  PbInclusiveMin :: proto_key
  PbExclusiveMax :: proto_key

datatype proto_predicate =
    UniversalPredicateAttributes
  | EmptyPredicateAttributes
  | AndPredicateAttributes "proto_predicate list"
  | OrPredicateAttributes "proto_predicate list"
  | NotPredicateAttributes proto_predicate
  | NamespaceIdPredicateAttributes "string list"
  | TaskTypePredicateAttributes "int list"
  | DestinationPredicateAttributes "string list"
  | OutboundTaskGroupPredicateAttributes "string list"
  | OutboundTaskPredicateAttributes "task_group list"
  | OtherPredicateType int

record proto_scope =
  PbRange :: proto_range
  PbPredicate :: proto_predicate

record proto_queue_state =
  ReaderStates :: "(int \<times> proto_scope list) list"
  ExclusiveReaderHighWatermark :: proto_key

record queue_state =
  readerScopes :: "(int \<times> scope list) list"
  exclusiveReaderHighWatermark :: task_key

text \<open>The order in which the keys of a map are listed.\<close>

record key_lists =
  string_keys :: "string set \<Rightarrow> string list"
  type_keys :: "int set \<Rightarrow> int list"
  group_keys :: "task_group set \<Rightarrow> task_group list"

section \<open>Keys and ranges\<close>

text \<open>\<open>timestamppb.New\<close> has whole seconds and nanoseconds; \<open>AsTime\<close> puts them together.\<close>

definition ToPersistenceTaskKey :: "task_key \<Rightarrow> proto_key" where
  "ToPersistenceTaskKey key =
     \<lparr>PbFireTime = (FireTime key div 10 ^ 9, FireTime key mod 10 ^ 9), PbTaskId = TaskID key\<rparr>"

definition FromPersistenceTaskKey :: "proto_key \<Rightarrow> task_key" where
  "FromPersistenceTaskKey key = NewKey (fst (PbFireTime key) * 10 ^ 9 + snd (PbFireTime key)) (PbTaskId key)"

definition ToPersistenceRange :: "task_range \<Rightarrow> proto_range" where
  "ToPersistenceRange r =
     \<lparr>PbInclusiveMin = ToPersistenceTaskKey (InclusiveMin r), PbExclusiveMax = ToPersistenceTaskKey (ExclusiveMax r)\<rparr>"

definition FromPersistenceRange :: "proto_range \<Rightarrow> queue_panic + task_range" where
  "FromPersistenceRange r =
     NewRange (FromPersistenceTaskKey (PbInclusiveMin r)) (FromPersistenceTaskKey (PbExclusiveMax r))"

section \<open>Predicates\<close>

definition ToPersistenceNamespaceIDPredicate :: "key_lists \<Rightarrow> string set \<Rightarrow> proto_predicate" where
  "ToPersistenceNamespaceIDPredicate en ids = NamespaceIdPredicateAttributes (string_keys en ids)"

definition ToPersistenceTaskTypePredicate :: "key_lists \<Rightarrow> int set \<Rightarrow> proto_predicate" where
  "ToPersistenceTaskTypePredicate en tys = TaskTypePredicateAttributes (type_keys en tys)"

definition ToPersistenceDestinationPredicate :: "key_lists \<Rightarrow> string set \<Rightarrow> proto_predicate" where
  "ToPersistenceDestinationPredicate en ds = DestinationPredicateAttributes (string_keys en ds)"

definition ToPersistenceOutboundTaskGroupPredicate :: "key_lists \<Rightarrow> string set \<Rightarrow> proto_predicate" where
  "ToPersistenceOutboundTaskGroupPredicate en gs = OutboundTaskGroupPredicateAttributes (string_keys en gs)"

definition ToPersistenceOutboundTaskPredicate :: "key_lists \<Rightarrow> task_group set \<Rightarrow> proto_predicate" where
  "ToPersistenceOutboundTaskPredicate en gs = OutboundTaskPredicateAttributes (group_keys en gs)"

fun ToPersistencePredicate :: "key_lists \<Rightarrow> predicate \<Rightarrow> proto_predicate" where
  "ToPersistencePredicate en UniversalImpl = UniversalPredicateAttributes"
| "ToPersistencePredicate en EmptyImpl = EmptyPredicateAttributes"
| "ToPersistencePredicate en (AndImpl ps) = AndPredicateAttributes (map (ToPersistencePredicate en) ps)"
| "ToPersistencePredicate en (OrImpl ps) = OrPredicateAttributes (map (ToPersistencePredicate en) ps)"
| "ToPersistencePredicate en (NotImpl p) = NotPredicateAttributes (ToPersistencePredicate en p)"
| "ToPersistencePredicate en (NamespacePredicate ids) = ToPersistenceNamespaceIDPredicate en ids"
| "ToPersistencePredicate en (TypePredicate tys) = ToPersistenceTaskTypePredicate en tys"
| "ToPersistencePredicate en (DestinationPredicate ds) = ToPersistenceDestinationPredicate en ds"
| "ToPersistencePredicate en (OutboundTaskGroupPredicate gs) = ToPersistenceOutboundTaskGroupPredicate en gs"
| "ToPersistencePredicate en (OutboundTaskPredicate gs) = ToPersistenceOutboundTaskPredicate en gs"

text \<open>The elements are converted in turn; the first panic ends the loop.\<close>

fun all_results :: "('e + 'a) list \<Rightarrow> 'e + 'a list" where
  "all_results [] = Inr []"
| "all_results (r # rs) = bind_result r (\<lambda>x. bind_result (all_results rs) (\<lambda>xs. Inr (x # xs)))"

definition constructed :: "predicate_panic + predicate \<Rightarrow> queue_panic + predicate" where
  "constructed r = (case r of Inl panic \<Rightarrow> Inl (PredicateConstructor panic) | Inr p \<Rightarrow> Inr p)"

fun FromPersistencePredicate :: "proto_predicate \<Rightarrow> queue_panic + predicate" where
  "FromPersistencePredicate UniversalPredicateAttributes = Inr UniversalImpl"
| "FromPersistencePredicate EmptyPredicateAttributes = Inr EmptyImpl"
| "FromPersistencePredicate (AndPredicateAttributes ps) =
     bind_result (all_results (map FromPersistencePredicate ps)) (\<lambda>qs. constructed (AndPred qs))"
| "FromPersistencePredicate (OrPredicateAttributes ps) =
     bind_result (all_results (map FromPersistencePredicate ps)) (\<lambda>qs. constructed (OrPred qs))"
| "FromPersistencePredicate (NotPredicateAttributes p) =
     bind_result (FromPersistencePredicate p) (\<lambda>q. Inr (NotPred q))"
| "FromPersistencePredicate (NamespaceIdPredicateAttributes ids) = Inr (NewNamespacePredicate ids)"
| "FromPersistencePredicate (TaskTypePredicateAttributes tys) = Inr (NewTypePredicate tys)"
| "FromPersistencePredicate (DestinationPredicateAttributes ds) = Inr (NewDestinationPredicate ds)"
| "FromPersistencePredicate (OutboundTaskGroupPredicateAttributes gs) = Inr (NewOutboundTaskGroupPredicate gs)"
| "FromPersistencePredicate (OutboundTaskPredicateAttributes gs) = Inr (NewOutboundTaskPredicate gs)"
| "FromPersistencePredicate (OtherPredicateType n) = Inl (UnknownPredicateType n)"

section \<open>Scopes and the state\<close>

definition ToPersistenceScope :: "key_lists \<Rightarrow> scope \<Rightarrow> proto_scope" where
  "ToPersistenceScope en sc =
     \<lparr>PbRange = ToPersistenceRange (ScopeRange sc), PbPredicate = ToPersistencePredicate en (ScopePredicate sc)\<rparr>"

definition FromPersistenceScope :: "proto_scope \<Rightarrow> queue_panic + scope" where
  "FromPersistenceScope sc =
     bind_result (FromPersistenceRange (PbRange sc)) (\<lambda>r.
     bind_result (FromPersistencePredicate (PbPredicate sc)) (\<lambda>p. Inr (NewScope r p)))"

definition ToPersistenceQueueState :: "key_lists \<Rightarrow> queue_state \<Rightarrow> proto_queue_state" where
  "ToPersistenceQueueState en st =
     \<lparr>ReaderStates = map (\<lambda>(readerID, scopes). (readerID, map (ToPersistenceScope en) scopes)) (readerScopes st),
      ExclusiveReaderHighWatermark = ToPersistenceTaskKey (exclusiveReaderHighWatermark st)\<rparr>"

definition FromPersistenceQueueState :: "proto_queue_state \<Rightarrow> queue_panic + queue_state" where
  "FromPersistenceQueueState st =
     bind_result (all_results (map (\<lambda>(readerID, scopes).
         bind_result (all_results (map FromPersistenceScope scopes)) (\<lambda>scopes. Inr (readerID, scopes))) (ReaderStates st)))
       (\<lambda>m. Inr \<lparr>readerScopes = m, exclusiveReaderHighWatermark = FromPersistenceTaskKey (ExclusiveReaderHighWatermark st)\<rparr>)"

section \<open>Nothing is lost on the way\<close>

definition lists_keys :: "key_lists \<Rightarrow> bool" where
  "lists_keys en \<longleftrightarrow>
     (\<forall>S. finite S \<longrightarrow> set (string_keys en S) = S) \<and> (\<forall>S. finite S \<longrightarrow> set (type_keys en S) = S) \<and>
     (\<forall>S. finite S \<longrightarrow> set (group_keys en S) = S)"

lemma task_key_roundtrip [simp]: "FromPersistenceTaskKey (ToPersistenceTaskKey k) = k"
  by (cases k) (simp add: FromPersistenceTaskKey_def ToPersistenceTaskKey_def NewKey_def)

lemma range_roundtrip: "InclusiveMin r \<le> ExclusiveMax r \<Longrightarrow> FromPersistenceRange (ToPersistenceRange r) = Inr r"
  by (cases r) (simp add: FromPersistenceRange_def ToPersistenceRange_def NewRange_def)

lemma all_results_Inr: "(\<And>x. x \<in> set xs \<Longrightarrow> f x = Inr (g x)) \<Longrightarrow> all_results (map f xs) = Inr (map g xs)"
  by (induction xs) auto

text \<open>The constructors give back a conjunction or disjunction whose members are canonical.\<close>

lemma and_flatten_members:
  assumes "\<forall>p \<in> set (cur @ ps). canonical p" "\<forall>p \<in> set ps. \<not> is_and p \<and> \<not> trivial p" "distinct (map norm (cur @ ps))"
  shows "and_flatten cur ps = Inr (cur @ ps)"
  using assms
proof (induction ps arbitrary: cur)
  case (Cons p ps)
  have "norm p \<notin> norm ` set cur" "\<forall>c \<in> set cur. Equals c p \<longleftrightarrow> norm c = norm p" using Cons.prems(1,3) by (auto simp: Equals_norm)
  then have "\<forall>c \<in> set cur. \<not> Equals c p" by (metis image_eqI)
  then have app: "appendPredicates cur [p] = cur @ [p]" by (simp add: appendPredicates_def list_ex_iff)
  have "and_flatten cur (p # ps) = and_flatten (cur @ [p]) ps"
    using Cons.prems(2) app by (cases p) (simp_all add: is_and_def trivial_def)
  also have "\<dots> = Inr ((cur @ [p]) @ ps)" by (rule Cons.IH) (use Cons.prems in auto)
  finally show ?case by simp
qed simp

lemma or_flatten_members:
  assumes "\<forall>p \<in> set (cur @ ps). canonical p" "\<forall>p \<in> set ps. \<not> is_or p \<and> \<not> trivial p" "distinct (map norm (cur @ ps))"
  shows "or_flatten cur ps = Inr (cur @ ps)"
  using assms
proof (induction ps arbitrary: cur)
  case (Cons p ps)
  have "norm p \<notin> norm ` set cur" "\<forall>c \<in> set cur. Equals c p \<longleftrightarrow> norm c = norm p" using Cons.prems(1,3) by (auto simp: Equals_norm)
  then have "\<forall>c \<in> set cur. \<not> Equals c p" by (metis image_eqI)
  then have app: "appendPredicates cur [p] = cur @ [p]" by (simp add: appendPredicates_def list_ex_iff)
  have "or_flatten cur (p # ps) = or_flatten (cur @ [p]) ps"
    using Cons.prems(2) app by (cases p) (simp_all add: is_or_def trivial_def)
  also have "\<dots> = Inr ((cur @ [p]) @ ps)" by (rule Cons.IH) (use Cons.prems in auto)
  finally show ?case by simp
qed simp

lemma two_members: "2 \<le> length ps \<Longrightarrow> \<exists>a b cs. ps = a # b # cs"
  by (cases ps rule: list.exhaust; cases "tl ps"; auto)

lemma AndPred_members:
  assumes "canonical (AndImpl ps)"
  shows "AndPred ps = Inr (AndImpl ps)"
proof -
  from assms two_members [of ps] obtain a b cs where ps: "ps = a # b # cs" by auto
  have "and_flatten [] ps = Inr ps" using assms and_flatten_members [of "[]" ps] by (auto simp: list_all_iff)
  with ps show ?thesis by (simp add: AndPred_def and_build_def)
qed

lemma OrPred_members:
  assumes "canonical (OrImpl ps)"
  shows "OrPred ps = Inr (OrImpl ps)"
proof -
  from assms two_members [of ps] obtain a b cs where ps: "ps = a # b # cs" by auto
  have "or_flatten [] ps = Inr ps" using assms or_flatten_members [of "[]" ps] by (auto simp: list_all_iff)
  with ps show ?thesis by (simp add: OrPred_def or_build_def)
qed

lemma NotPred_member: "canonical (NotImpl p) \<Longrightarrow> NotPred p = NotImpl p"
  by (cases p) (simp_all add: NotPred_def is_not_def trivial_def)

lemma predicate_roundtrip:
  assumes "lists_keys en" "canonical p"
  shows "FromPersistencePredicate (ToPersistencePredicate en p) = Inr p"
  using assms(2)
proof (induction p)
  case (AndImpl ps)
  have "FromPersistencePredicate (ToPersistencePredicate en p) = Inr p" if "p \<in> set ps" for p
    using AndImpl that by (auto simp: list_all_iff)
  then have "all_results (map (\<lambda>p. FromPersistencePredicate (ToPersistencePredicate en p)) ps) = Inr (map (\<lambda>p. p) ps)"
    by (rule all_results_Inr)
  with AndPred_members [OF AndImpl.prems] show ?case by (simp add: o_def constructed_def)
next
  case (OrImpl ps)
  have "FromPersistencePredicate (ToPersistencePredicate en p) = Inr p" if "p \<in> set ps" for p
    using OrImpl that by (auto simp: list_all_iff)
  then have "all_results (map (\<lambda>p. FromPersistencePredicate (ToPersistencePredicate en p)) ps) = Inr (map (\<lambda>p. p) ps)"
    by (rule all_results_Inr)
  with OrPred_members [OF OrImpl.prems] show ?case by (simp add: o_def constructed_def)
next
  case (NotImpl p)
  then show ?case using NotPred_member [OF NotImpl.prems] by simp
qed (use assms(1) in \<open>simp_all add: lists_keys_def ToPersistenceNamespaceIDPredicate_def NewNamespacePredicate_def
    ToPersistenceTaskTypePredicate_def NewTypePredicate_def ToPersistenceDestinationPredicate_def NewDestinationPredicate_def
    ToPersistenceOutboundTaskGroupPredicate_def NewOutboundTaskGroupPredicate_def
    ToPersistenceOutboundTaskPredicate_def NewOutboundTaskPredicate_def\<close>)

text \<open>A scope with an ordered range and a canonical predicate.\<close>

definition proper_scope :: "scope \<Rightarrow> bool" where
  "proper_scope sc \<longleftrightarrow> InclusiveMin (ScopeRange sc) \<le> ExclusiveMax (ScopeRange sc) \<and> canonical (ScopePredicate sc)"

lemma valid_scope_proper: "valid_scope sc \<Longrightarrow> proper_scope sc"
  by (simp add: valid_scope_def valid_range_def proper_scope_def)

lemma scope_roundtrip:
  "lists_keys en \<Longrightarrow> proper_scope sc \<Longrightarrow> FromPersistenceScope (ToPersistenceScope en sc) = Inr sc"
  by (simp add: FromPersistenceScope_def ToPersistenceScope_def range_roundtrip predicate_roundtrip proper_scope_def NewScope_def)

lemma state_roundtrip:
  assumes en: "lists_keys en" and ok: "\<forall>(readerID, scopes) \<in> set (readerScopes st). \<forall>sc \<in> set scopes. proper_scope sc"
  shows "FromPersistenceQueueState (ToPersistenceQueueState en st) = Inr st"
proof -
  let ?f = "\<lambda>(readerID, scopes). bind_result (all_results (map FromPersistenceScope scopes)) (\<lambda>scopes. Inr (readerID, scopes))"
  have "?f (readerID, map (ToPersistenceScope en) scopes) = Inr (readerID, scopes)"
    if "(readerID, scopes) \<in> set (readerScopes st)" for readerID scopes
  proof -
    have "all_results (map (\<lambda>sc. FromPersistenceScope (ToPersistenceScope en sc)) scopes) = Inr (map (\<lambda>sc. sc) scopes)"
      using ok that by (intro all_results_Inr scope_roundtrip [OF en]) auto
    then show ?thesis by (simp add: o_def)
  qed
  then have "all_results (map (\<lambda>x. ?f (case x of (readerID, scopes) \<Rightarrow> (readerID, map (ToPersistenceScope en) scopes))) (readerScopes st)) =
      Inr (map (\<lambda>x. x) (readerScopes st))"
    by (intro all_results_Inr) auto
  then show ?thesis
    by (simp add: FromPersistenceQueueState_def ToPersistenceQueueState_def o_def)
qed

section \<open>Properties\<close>


definition sorted_key_lists :: key_lists where
  "sorted_key_lists =
     \<lparr>string_keys = sorted_list_of_set, type_keys = sorted_list_of_set,
      group_keys = (\<lambda>S. concat (map (\<lambda>a. concat (map (\<lambda>b. concat (map (\<lambda>c.
          if \<lparr>TaskGroup = a, NamespaceID = b, Destination = c\<rparr> \<in> S then [\<lparr>TaskGroup = a, NamespaceID = b, Destination = c\<rparr>] else [])
        (sorted_list_of_set (Destination ` S)))) (sorted_list_of_set (NamespaceID ` S)))) (sorted_list_of_set (TaskGroup ` S))))\<rparr>"

lemma sorted_key_lists_ok: "lists_keys sorted_key_lists"
proof -
  have "set (group_keys sorted_key_lists S) = S" if "finite S" for S
  proof (intro set_eqI iffI)
    fix x assume "x \<in> set (group_keys sorted_key_lists S)"
    then show "x \<in> S" by (auto simp: sorted_key_lists_def split: if_splits)
  next
    fix x assume x: "x \<in> S"
    obtain a b c where abc: "x = \<lparr>TaskGroup = a, NamespaceID = b, Destination = c\<rparr>" by (cases x)
    then have "a \<in> TaskGroup ` S" "b \<in> NamespaceID ` S" "c \<in> Destination ` S" using x by force+
    with x abc that show "x \<in> set (group_keys sorted_key_lists S)" by (auto simp: sorted_key_lists_def)
  qed
  then show ?thesis by (auto simp: lists_keys_def sorted_key_lists_def)
qed


end
