(* ===== verification/QueueBase.thy ===== *)
theory QueueBase
  imports ClearWork QueueState
begin

text \<open>
  The queue of one category of tasks of a shard: \<open>service/history/queues/queue_base.go\<close>. What the shard
  answers (its range ID, the watermark below which no task will be written any more, whether a call
  to persistence returned an error) and the clock are arguments of the operations; the calls to
  persistence that an operation makes are part of its result.
\<close>

section \<open>The state\<close>

record 'e queue_env =
  q_category :: category_type
  q_actions :: "'e action_env"
  q_keys :: key_lists

record 'e queue_base =
  lastRangeID :: int
  exclusiveDeletionHighWatermark :: task_key
  nonReadableScope :: scope
  readerGroup :: "'e reader_group"
  nextForceNewSliceTime :: int

datatype persistence_call =
    RangeCompleteHistoryTasks task_key task_key
  | SetQueueState int proto_queue_state

section \<open>Loading a queue\<close>

fun load_readers ::
    "'e action_env \<Rightarrow> (int \<times> scope list) list \<Rightarrow> task_key \<Rightarrow> 'e reader_group \<Rightarrow> queue_panic + task_key \<times> 'e reader_group" where
  "load_readers env [] watermark rg = Inr (watermark, rg)"
| "load_readers env ((readerID, scopes) # rest) watermark rg =
     (case scopes of
        [] \<Rightarrow> load_readers env rest watermark rg
      | sc # _ \<Rightarrow>
          bind_result (newReaderLocked (env_initializer env) readerID
              (map (\<lambda>sc. NewSlice (env_slices env) sc (env_grouper env)) scopes) rg) (\<lambda>(_, rg).
            load_readers env rest (MinKey watermark (InclusiveMin (ScopeRange sc))) rg))"

definition initial_state :: "'e queue_env \<Rightarrow> queue_panic + queue_state" where
  "initial_state env =
     (let ackLevel = NewKey DefaultFireTime 0 in
      case q_category env of
        CategoryTypeScheduled \<Rightarrow> Inr \<lparr>readerScopes = [], exclusiveReaderHighWatermark = ackLevel\<rparr>
      | CategoryTypeImmediate \<Rightarrow>
          (case Next ackLevel of
             Inl panic \<Rightarrow> Inl (KeyOverflow panic)
           | Inr key \<Rightarrow> Inr \<lparr>readerScopes = [], exclusiveReaderHighWatermark = key\<rparr>))"

definition newQueueBase :: "'e queue_env \<Rightarrow> proto_queue_state option \<Rightarrow> queue_panic + 'e queue_base" where
  "newQueueBase env persisted =
     bind_result (case persisted of Some state \<Rightarrow> FromPersistenceQueueState state | None \<Rightarrow> initial_state env) (\<lambda>st.
     let high = exclusiveReaderHighWatermark st in
     bind_result (load_readers (q_actions env) (readerScopes st) high NewReaderGroup) (\<lambda>(deletion, rg).
     bind_result (NewRange high MaximumKey) (\<lambda>r.
       Inr \<lparr>lastRangeID = -1, exclusiveDeletionHighWatermark = deletion,
            nonReadableScope = NewScope r UniversalImpl, readerGroup = rg, nextForceNewSliceTime = 0\<rparr>)))"

definition Start_queue :: "'e queue_base \<Rightarrow> 'e queue_base" where
  "Start_queue q = q\<lparr>readerGroup := Start_group (readerGroup q)\<rparr>"

definition Stop_queue :: "'e queue_base \<Rightarrow> 'e queue_base" where
  "Stop_queue q = q\<lparr>readerGroup := Stop_group (readerGroup q)\<rparr>"

section \<open>New tasks\<close>

definition forceNewSliceDuration :: int where
  "forceNewSliceDuration = 5 * 60 * 10 ^ 9"

definition processNewRange :: "'e queue_env \<Rightarrow> task_key \<Rightarrow> int \<Rightarrow> 'e queue_base \<Rightarrow> queue_panic + 'e queue_base" where
  "processNewRange env newMaxKey now q =
     (let acts = q_actions env; cfg = env_slices acts in
      bind_result
        (if CanSplitByRange (nonReadableScope q) newMaxKey then
           bind_result (SplitByRange (nonReadableScope q) newMaxKey) (\<lambda>(newReadScope, rest).
             Inr ([NewSlice cfg newReadScope (env_grouper acts)], q\<lparr>nonReadableScope := rest\<rparr>))
         else Inr ([], q)) (\<lambda>(newSlices, q).
      case ReaderByID (readerGroup q) DefaultReaderId of
        None \<Rightarrow>
          bind_result (newReaderLocked (env_initializer acts) DefaultReaderId newSlices (readerGroup q)) (\<lambda>(_, rg).
            Inr (q\<lparr>readerGroup := rg\<rparr>))
      | Some reader \<Rightarrow>
          if now > nextForceNewSliceTime q then
            bind_result (AppendSlices newSlices reader) (\<lambda>reader.
              Inr (q\<lparr>readerGroup := put_reader DefaultReaderId reader (readerGroup q),
                     nextForceNewSliceTime := now + forceNewSliceDuration\<rparr>))
          else
            bind_result (MergeSlices cfg newSlices reader) (\<lambda>reader.
              Inr (q\<lparr>readerGroup := put_reader DefaultReaderId reader (readerGroup q)\<rparr>))))"

section \<open>Checkpoints\<close>

text \<open>The loop over the readers: their scopes, the lowest start of a scope, and the group without idle readers.\<close>

fun checkpoint_readers ::
    "(int \<times> 'e reader) list \<Rightarrow> task_key \<Rightarrow> 'e reader_group \<Rightarrow> queue_panic + (int \<times> scope list) list \<times> task_key \<times> 'e reader_group" where
  "checkpoint_readers [] watermark rg = Inr ([], watermark, rg)"
| "checkpoint_readers ((readerID, reader) # rest) watermark rg =
     bind_result (Scopes reader) (\<lambda>scopes.
     if scopes = [] \<and> readerID \<noteq> DefaultReaderId then checkpoint_readers rest watermark (RemoveReader readerID rg)
     else
       bind_result
         (checkpoint_readers rest
            (case scopes of [] \<Rightarrow> watermark | sc # _ \<Rightarrow> MinKey watermark (InclusiveMin (ScopeRange sc))) rg)
         (\<lambda>(m, watermark, rg). Inr ((readerID, scopes) # m, watermark, rg)))"

definition updateShardRangeID :: "int \<Rightarrow> 'e queue_base \<Rightarrow> bool \<times> 'e queue_base" where
  "updateShardRangeID newRangeID q =
     (if lastRangeID q < newRangeID then (True, q\<lparr>lastRangeID := newRangeID\<rparr>) else (False, q))"

definition rangeCompleteTasks :: "'e queue_env \<Rightarrow> task_key \<Rightarrow> task_key \<Rightarrow> persistence_call" where
  "rangeCompleteTasks env old new =
     (if q_category env = CategoryTypeScheduled
      then RangeCompleteHistoryTasks (Key (FireTime old) 0) (Key (FireTime new) 0)
      else RangeCompleteHistoryTasks old new)"

definition updateQueueState :: "'e queue_env \<Rightarrow> int \<Rightarrow> (int \<times> scope list) list \<Rightarrow> 'e queue_base \<Rightarrow> persistence_call" where
  "updateQueueState env tasksCompleted m q =
     SetQueueState tasksCompleted (ToPersistenceQueueState (q_keys env)
       \<lparr>readerScopes = filter (\<lambda>(readerID, scopes). scopes \<noteq> []) m,
        exclusiveReaderHighWatermark = InclusiveMin (ScopeRange (nonReadableScope q))\<rparr>)"

text \<open>
  \<open>completeOk\<close>: the call that deletes tasks returned no error. The outcome of the last call changes
  nothing but the timer.
\<close>

definition checkpoint ::
    "'e queue_env \<Rightarrow> int \<Rightarrow> bool \<Rightarrow> 'e queue_base \<Rightarrow> queue_panic + persistence_call list \<times> 'e queue_base" where
  "checkpoint env newRangeID completeOk q =
     (let acts = q_actions env; cfg = env_slices acts; init = env_initializer acts in
      bind_result (ForEach (ShrinkSlices cfg) (readerGroup q)) (\<lambda>(rg, tasksCompleted).
      bind_result
        (if env_moveGroupTaskCountBase acts > 0
         then moveGroup_Run cfg init (env_grouper acts) (env_moveGroupMultiply acts) (env_maxReaderCount acts)
                (env_moveGroupTaskCountBase acts) rg
         else slicePredicate_Run cfg init (env_maxReaderCount acts) rg) (\<lambda>(_, rg).
      bind_result (checkpoint_readers (readerMap rg) (InclusiveMin (ScopeRange (nonReadableScope q))) rg) (\<lambda>(m, newWatermark, rg).
      let q = q\<lparr>readerGroup := rg\<rparr>;
          old = exclusiveDeletionHighWatermark q;
          grown = CompareTo newWatermark old > 0;
          (rangeIDChanged, q) = (if grown then (False, q) else updateShardRangeID newRangeID q)
      in if grown \<or> (rangeIDChanged \<and> CompareTo newWatermark MinimumKey > 0) then
           if \<not> completeOk then Inr ([rangeCompleteTasks env old newWatermark], q)
           else
             let q = q\<lparr>exclusiveDeletionHighWatermark := newWatermark\<rparr>
             in Inr ([rangeCompleteTasks env old newWatermark, updateQueueState env tasksCompleted m q], q)
         else Inr ([updateQueueState env tasksCompleted m q], q)))))"

section \<open>Alerts\<close>

definition notifyReaders :: "'e reader_group \<Rightarrow> 'e reader_group" where
  "notifyReaders rg = rg\<lparr>readerMap := map (\<lambda>(readerID, r). (readerID, Notify r)) (readerMap rg)\<rparr>"

definition handleAlert ::
    "'e queue_env \<Rightarrow> alert option \<Rightarrow> int \<Rightarrow> bool \<Rightarrow> 'e queue_base \<Rightarrow> queue_panic + persistence_call list \<times> 'e queue_base" where
  "handleAlert env al newRangeID completeOk q =
     (case al of
        None \<Rightarrow> Inr ([], q)
      | Some al \<Rightarrow>
          bind_result (Mitigate (q_actions env) al (readerGroup q)) (\<lambda>rg.
          bind_result (checkpoint env newRangeID completeOk (q\<lparr>readerGroup := rg\<rparr>)) (\<lambda>(calls, q).
            Inr (calls, q\<lparr>readerGroup := notifyReaders (readerGroup q)\<rparr>))))"

end
