(* ===== verification/QueueWork.thy ===== *)
theory QueueWork
  imports QueueBase
begin

text \<open>
  The operations of a queue keep its invariant and carry its work: loading covers what the persisted
  scopes contain, a new range covers what was not readable before, and a checkpoint persists scopes that
  contain what its slices cover and deletes only below them.
\<close>

section \<open>The invariant\<close>

abbreviation readMax :: "'e queue_base \<Rightarrow> task_key" where
  "readMax q \<equiv> InclusiveMin (ScopeRange (nonReadableScope q))"

abbreviation queue_slices :: "'e queue_base \<Rightarrow> 'e queue_slice list" where
  "queue_slices q \<equiv> all_slices (readerGroup q)"

definition queue_ok :: "grouper \<Rightarrow> 'e queue_base \<Rightarrow> bool" where
  "queue_ok g q \<longleftrightarrow>
     nonReadableScope q = NewScope \<lparr>InclusiveMin = readMax q, ExclusiveMax = MaximumKey\<rparr> UniversalImpl \<and>
     valid_key (readMax q) \<and> group_ok g (readMax q) (readerGroup q)"

definition queue_env_ok :: "'e queue_env \<Rightarrow> bool" where
  "queue_env_ok env \<longleftrightarrow> env_ok (q_actions env) \<and> lists_keys (q_keys env)"

abbreviation q_grouper :: "'e queue_env \<Rightarrow> grouper" where
  "q_grouper env \<equiv> env_grouper (q_actions env)"

lemma queue_env_okD: "queue_env_ok env \<Longrightarrow> env_ok (q_actions env) \<and> keeps_slices (env_initializer (q_actions env)) \<and> lists_keys (q_keys env)"
  by (simp add: queue_env_ok_def env_ok_def)

section \<open>New slices\<close>

lemma NewSlice_sel [simp]:
  "slice_range (NewSlice cfg sc g) = ScopeRange sc" "slice_iterators (NewSlice cfg sc g) = [NewIterator (ScopeRange sc)]"
  "\<not> holds (NewSlice cfg sc g) k e"
  by (simp_all add: NewSlice_def holds_def newExecutableTracker_def tracked_def)

lemma NewSlice_loads: "Scope_Contains sc t \<Longrightarrow> loads (NewSlice cfg sc g) t"
  using ensure_size_Contains [of "\<lparr>slice_destroyed = False, slice_scope = sc, slice_iterators = [NewIterator (ScopeRange sc)],
    slice_tracker = newExecutableTracker g\<rparr>" t cfg]
  by (simp add: loads_def cover_def) (simp add: NewSlice_def Scope_Contains_def)

text \<open>The slices made of a list of scopes in order.\<close>

definition scopes_ok :: "task_key \<Rightarrow> scope list \<Rightarrow> bool" where
  "scopes_ok M scs \<longleftrightarrow> (\<forall>sc \<in> set scs. valid_scope sc \<and> ExclusiveMax (ScopeRange sc) \<le> M) \<and>
     sorted_wrt (\<lambda>a b. ExclusiveMax (ScopeRange a) \<le> InclusiveMin (ScopeRange b)) scs"

lemma scopes_ok_simps [simp]:
  "scopes_ok M []"
  "scopes_ok M (sc # scs) \<longleftrightarrow> valid_scope sc \<and> ExclusiveMax (ScopeRange sc) \<le> M \<and> scopes_ok M scs \<and>
     (\<forall>b \<in> set scs. ExclusiveMax (ScopeRange sc) \<le> InclusiveMin (ScopeRange b))"
  by (auto simp: scopes_ok_def)

lemma slices_of_scopes: "scopes_ok M scs \<Longrightarrow> slices_ok g M (map (\<lambda>sc. NewSlice cfg sc g) scs)"
  by (induction scs) (auto intro: NewSlice_inv)

lemma scopes_of_slices: "slices_ok g M ss \<Longrightarrow> scopes_ok M (map slice_scope ss)"
  by (induction ss) (auto simp: slice_inv_def)

section \<open>Loading\<close>

lemma newReaderLocked_ok:
  assumes ok: "group_ok g M rg" and absent: "ReaderByID rg k = None" and new: "keeps_slices init" and ss: "slices_ok g M ss"
  shows "\<exists>r rg'. newReaderLocked init k ss rg = Inr (r, rg') \<and> group_ok g M rg' \<and>
    set (all_slices rg') = set (all_slices rg @ ss) \<and> (\<forall>j. ReaderByID rg' j = (if j = k then Some r else ReaderByID rg j))"
proof -
  define r where "r = (if isStarted rg then Start_reader (init k ss) else init k ss)"
  have r: "slices r = ss" using new by (simp add: r_def keeps_slices_def Start_reader_def reader_notify_def)
  with absent all_slices_absent [OF absent] all_slices_put [OF ok, of k r] group_ok_put [OF ok, of r k] ss show ?thesis
    by (simp add: newReaderLocked_def r_def Let_def)
qed

lemma load_readers_ok:
  assumes "group_ok (env_grouper env) M rg" "go_map m" "\<forall>k \<in> fst ` set m. ReaderByID rg k = None"
    and "\<forall>(k, scs) \<in> set m. scopes_ok M scs" and new: "keeps_slices (env_initializer env)"
  shows "\<exists>w' rg'. load_readers env m w rg = Inr (w', rg') \<and> group_ok (env_grouper env) M rg' \<and>
    (\<forall>s. s \<in> set (all_slices rg') \<longleftrightarrow> s \<in> set (all_slices rg) \<or>
       (\<exists>(k, scs) \<in> set m. \<exists>sc \<in> set scs. s = NewSlice (env_slices env) sc (env_grouper env)))"
  using assms(1-4)
proof (induction m arbitrary: w rg)
  case (Cons p m)
  obtain k scs where p: "p = (k, scs)" by (cases p)
  show ?case
  proof (cases scs)
    case Nil
    with Cons p show ?thesis by simp
  next
    case scs: (Cons sc scs')
    let ?ss = "map (\<lambda>sc. NewSlice (env_slices env) sc (env_grouper env)) scs"
    from Cons.prems p have absent: "ReaderByID rg k = None" "scopes_ok M scs" by auto
    from newReaderLocked_ok [OF Cons.prems(1) absent(1) new slices_of_scopes [OF absent(2)]] obtain r rg1 where
      r: "newReaderLocked (env_initializer env) k ?ss rg = Inr (r, rg1)" "group_ok (env_grouper env) M rg1"
      "set (all_slices rg1) = set (all_slices rg @ ?ss)" "\<forall>j. ReaderByID rg1 j = (if j = k then Some r else ReaderByID rg j)" by blast
    have "\<forall>j \<in> fst ` set m. ReaderByID rg1 j = None" using Cons.prems(2,3) p r(4) by auto
    from Cons.IH [OF r(2) _ this, of "MinKey w (InclusiveMin (ScopeRange sc))"] Cons.prems(2,4) p r(1,3) scs
    show ?thesis by auto
  qed
qed simp

section \<open>What the queue covers\<close>

text \<open>A task is covered by a slice, or it is not readable yet; in a persisted state, by a scope.\<close>

definition queue_covers :: "'e queue_base \<Rightarrow> task \<Rightarrow> bool" where
  "queue_covers q t \<longleftrightarrow> covers (queue_slices q) t \<or> readMax q \<le> GetKey t"

definition state_covers :: "queue_state \<Rightarrow> task \<Rightarrow> bool" where
  "state_covers st t \<longleftrightarrow>
     (\<exists>(k, scs) \<in> set (readerScopes st). \<exists>sc \<in> set scs. Scope_Contains sc t) \<or> exclusiveReaderHighWatermark st \<le> GetKey t"

definition state_ok :: "queue_state \<Rightarrow> bool" where
  "state_ok st \<longleftrightarrow> go_map (readerScopes st) \<and> valid_key (exclusiveReaderHighWatermark st) \<and>
     (\<forall>(k, scs) \<in> set (readerScopes st). scopes_ok (exclusiveReaderHighWatermark st) scs)"

definition queue_carries :: "task set \<Rightarrow> 'e queue_base \<Rightarrow> 'e queue_base \<Rightarrow> bool" where
  "queue_carries db q q' \<longleftrightarrow> (held_from db (queue_slices q) \<longrightarrow>
     held_from db (queue_slices q') \<and>
     (\<forall>t \<in> db. queue_covers q t \<longrightarrow> queue_covers q' t \<or> acked (queue_slices q) (GetKey t)) \<and>
     (\<forall>k. acked (queue_slices q') k \<longrightarrow> acked (queue_slices q) k))"

lemma carries_queue: "carries db (queue_slices q) (queue_slices q') \<Longrightarrow> readMax q' = readMax q \<Longrightarrow> queue_carries db q q'"
  by (auto simp: carries_def queue_carries_def queue_covers_def)

lemma queue_carries_trans: "queue_carries db p q \<Longrightarrow> queue_carries db q r \<Longrightarrow> queue_carries db p r"
  unfolding queue_carries_def by blast

lemma NextKey_initial: "valid_key (NewKey DefaultFireTime 0)" "Next (NewKey DefaultFireTime 0) = Inr (NewKey DefaultFireTime 1)"
  "valid_key (NewKey DefaultFireTime 1)"
  by (simp_all add: NewKey_def DefaultFireTime_def Next_def MaxInt64_def i64_def)

lemma initial_state_ok:
  "\<exists>st. initial_state env = Inr st \<and> state_ok st \<and> readerScopes st = [] \<and> exclusiveReaderHighWatermark st \<le> NewKey DefaultFireTime 1"
  by (cases "q_category env")
    (simp_all add: initial_state_def state_ok_def NextKey_initial Let_def, simp_all add: NewKey_def key_le_iff)

lemma newQueueBase_state:
  assumes env: "queue_env_ok env" and st: "state_ok st"
    and loaded: "(case persisted of Some state \<Rightarrow> FromPersistenceQueueState state | None \<Rightarrow> initial_state env) = Inr st"
  shows "\<exists>q. newQueueBase env persisted = Inr q \<and> queue_ok (q_grouper env) q \<and> readMax q = exclusiveReaderHighWatermark st \<and>
    (\<forall>t. state_covers st t \<longrightarrow> queue_covers q t) \<and> (\<forall>s \<in> set (queue_slices q). \<forall>k e. \<not> holds s k e)"
proof -
  let ?high = "exclusiveReaderHighWatermark st"
  let ?acts = "q_actions env"
  have new: "keeps_slices (env_initializer ?acts)" using queue_env_okD [OF env] by simp
  have empty: "group_ok (q_grouper env) ?high (NewReaderGroup :: 'a reader_group)" "\<forall>k. ReaderByID (NewReaderGroup :: 'a reader_group) k = None"
    "all_slices (NewReaderGroup :: 'a reader_group) = []"
    by (simp_all add: group_ok_def NewReaderGroup_def ReaderByID_def all_slices_def)
  from load_readers_ok [OF empty(1), of "readerScopes st" ?high] st empty(2) new obtain w rg where
    rg: "load_readers ?acts (readerScopes st) ?high NewReaderGroup = Inr (w, rg)" "group_ok (q_grouper env) ?high rg"
    "\<forall>s. s \<in> set (all_slices rg) \<longleftrightarrow> (\<exists>(k, scs) \<in> set (readerScopes st). \<exists>sc \<in> set scs. s = NewSlice (env_slices ?acts) sc (q_grouper env))"
    by (auto simp: state_ok_def empty(3))
  have range: "NewRange ?high MaximumKey = Inr \<lparr>InclusiveMin = ?high, ExclusiveMax = MaximumKey\<rparr>"
    using st by (simp add: NewRange_Inr_iff state_ok_def valid_key_bounds)
  let ?q = "\<lparr>lastRangeID = -1, exclusiveDeletionHighWatermark = w,
      nonReadableScope = NewScope \<lparr>InclusiveMin = ?high, ExclusiveMax = MaximumKey\<rparr> UniversalImpl, readerGroup = rg, nextForceNewSliceTime = 0\<rparr>"
  have "newQueueBase env persisted = Inr ?q"
    by (simp add: newQueueBase_def loaded rg(1) range Let_def)
  moreover have "queue_covers ?q t" if t: "state_covers st t" for t
  proof (cases "?high \<le> GetKey t")
    case True
    then show ?thesis by (simp add: queue_covers_def NewScope_def)
  next
    case False
    with t obtain k scs sc where "(k, scs) \<in> set (readerScopes st)" "sc \<in> set scs" "Scope_Contains sc t"
      by (auto simp: state_covers_def)
    then have "NewSlice (env_slices ?acts) sc (q_grouper env) \<in> set (all_slices rg)" "loads (NewSlice (env_slices ?acts) sc (q_grouper env)) t"
      using rg(3) by (blast, simp add: NewSlice_loads)
    then show ?thesis by (auto simp: queue_covers_def covers_def)
  qed
  moreover have "\<forall>s \<in> set (all_slices rg). \<forall>k e. \<not> holds s k e" using rg(3) by auto
  ultimately show ?thesis using rg(2) st by (auto simp: queue_ok_def NewScope_def state_ok_def)
qed

section \<open>New ranges\<close>

lemma processNewRange_ok:
  assumes env: "queue_env_ok env" and ok: "queue_ok (q_grouper env) q" and key: "valid_key newMaxKey"
  shows "\<exists>q'. processNewRange env newMaxKey now q = Inr q' \<and> queue_ok (q_grouper env) q' \<and> queue_carries db q q' \<and>
    readMax q' = (if readMax q \<le> newMaxKey \<and> newMaxKey \<le> MaximumKey then newMaxKey else readMax q)"
proof -
  let ?acts = "q_actions env" and ?R = "readMax q" and ?rg = "readerGroup q"
  let ?can = "?R \<le> newMaxKey \<and> newMaxKey \<le> MaximumKey"
  define high where "high = (if ?can then newMaxKey else ?R)"
  define sc where "sc = NewScope \<lparr>InclusiveMin = ?R, ExclusiveMax = newMaxKey\<rparr> UniversalImpl"
  define rest where "rest = NewScope \<lparr>InclusiveMin = high, ExclusiveMax = MaximumKey\<rparr> UniversalImpl"
  define ss :: "'a queue_slice list" where "ss = (if ?can then [NewSlice (env_slices ?acts) sc (q_grouper env)] else [])"
  have non: "nonReadableScope q = NewScope \<lparr>InclusiveMin = ?R, ExclusiveMax = MaximumKey\<rparr> UniversalImpl"
    and keys: "valid_key ?R" "valid_key MaximumKey" and rg: "group_ok (q_grouper env) ?R ?rg"
    using ok by (auto simp: queue_ok_def MaximumKey_def NewKey_def MaxInt64_def)
  note R = valid_key_bounds [OF keys(1), THEN conjunct2]
  have new: "keeps_slices (env_initializer ?acts)" using queue_env_okD [OF env] by simp
  have high: "?R \<le> high" "high \<le> MaximumKey" using R by (auto simp: high_def)
  have high_key: "valid_key high" using keys(1) key by (simp add: high_def)
  have can: "CanSplitByRange (nonReadableScope q) newMaxKey \<longleftrightarrow> ?can"
    by (subst non) (simp add: CanSplitByRange_def NewScope_def Range_CanSplit_iff valid_range_def R keys)
  have split: "(if CanSplitByRange (nonReadableScope q) newMaxKey then
         bind_result (SplitByRange (nonReadableScope q) newMaxKey) (\<lambda>(newReadScope, rest).
             Inr ([NewSlice (env_slices ?acts) newReadScope (q_grouper env)], q\<lparr>nonReadableScope := rest\<rparr>))
         else Inr ([], q)) = (Inr (ss, q\<lparr>nonReadableScope := rest\<rparr>) :: queue_panic + 'a queue_slice list \<times> 'a queue_base)"
  proof (cases ?can)
    case True
    then have "SplitByRange (NewScope \<lparr>InclusiveMin = ?R, ExclusiveMax = MaximumKey\<rparr> UniversalImpl) newMaxKey = Inr (sc, rest)"
      by (simp add: SplitByRange_def CanSplitByRange_def Range_CanSplit_iff Range_Split_eq NewScope_def valid_range_def R keys sc_def rest_def high_def)
    then have "SplitByRange (nonReadableScope q) newMaxKey = Inr (sc, rest)" by (subst non)
    with True can show ?thesis by (simp add: ss_def)
  next
    case False
    then have "high = ?R" by (auto simp: high_def)
    then have "rest = nonReadableScope q" by (subst non) (simp add: rest_def)
    then have "q\<lparr>nonReadableScope := rest\<rparr> = q" by simp
    moreover have "ss = []" unfolding ss_def using False by (rule if_not_P)
    moreover have "\<not> CanSplitByRange (nonReadableScope q) newMaxKey" using False can by blast
    ultimately show ?thesis by simp
  qed
  have ss: "slices_ok (q_grouper env) high ss" "\<forall>s \<in> set ss. ?R \<le> smin s" "\<forall>s \<in> set ss. \<forall>k e. \<not> holds s k e"
    by (auto simp: ss_def sc_def high_def NewScope_def valid_scope_def valid_range_def keys(1) key intro!: NewSlice_inv)
  have covered: "covers ss t \<or> high \<le> GetKey t" if "?R \<le> GetKey t" for t
  proof (cases "?can \<and> GetKey t < newMaxKey")
    case True
    with that have "Scope_Contains sc t" by (simp add: sc_def NewScope_def Scope_Contains_def range_simps)
    from NewSlice_loads [OF this] True show ?thesis by (auto simp: ss_def covers_def)
  next
    case False
    with that show ?thesis by (auto simp: high_def)
  qed
  note rg' = group_ok_mono [OF rg high(1)]
  obtain rg2 t2 where step: "processNewRange env newMaxKey now q =
      Inr (q\<lparr>nonReadableScope := rest, readerGroup := rg2, nextForceNewSliceTime := t2\<rparr>)"
    and rg2: "group_ok (q_grouper env) high rg2" and car: "carries db (all_slices ?rg @ ss) (all_slices rg2)"
  proof (cases "ReaderByID ?rg DefaultReaderId")
    case None
    from newReaderLocked_ok [OF rg' None new ss(1)] obtain r rg2 where
      "newReaderLocked (env_initializer ?acts) DefaultReaderId ss ?rg = Inr (r, rg2)" "group_ok (q_grouper env) high rg2"
      "set (all_slices rg2) = set (all_slices ?rg @ ss)" by blast
    with None split show ?thesis
      by (intro that [of "nextForceNewSliceTime q" rg2]) (simp_all add: processNewRange_def Let_def carries_same_set)
  next
    case (Some r)
    note rok = group_ok_reader [OF rg Some]
    have put: "group_ok (q_grouper env) high (put_reader DefaultReaderId r' ?rg)"
        "carries db (all_slices ?rg @ ss) (all_slices (put_reader DefaultReaderId r' ?rg))"
      if r': "slices_ok (q_grouper env) high (slices r')" "carries db (slices r @ ss) (slices r')" for r'
    proof -
      show "group_ok (q_grouper env) high (put_reader DefaultReaderId r' ?rg)" by (rule group_ok_put [OF rg' r'(1)])
      show "carries db (all_slices ?rg @ ss) (all_slices (put_reader DefaultReaderId r' ?rg))"
        by (rule carries_chain [OF _ carries_append [OF carries_refl r'(2)] refl carries_refl])
          (use all_slices_reader [OF rg Some] all_slices_put [OF rg] in auto)
    qed
    from AppendSlices_carries [OF rok ss(1) high(1) ss(2), of db] obtain ra where
      ra: "AppendSlices ss r = Inr ra" "slices_ok (q_grouper env) high (slices ra)" "carries db (slices r @ ss) (slices ra)" by blast
    from MergeSlices_carries [OF slices_ok_mono [OF rok high(1)] ss(1), of "env_slices ?acts" db] obtain rm where
      rm: "MergeSlices (env_slices ?acts) ss r = Inr rm" "slices_ok (q_grouper env) high (slices rm)" "carries db (slices r @ ss) (slices rm)" by blast
    show ?thesis
    proof (cases "now > nextForceNewSliceTime q")
      case True
      with Some split ra(1) put [OF ra(2,3)] show ?thesis
        by (intro that [of "now + forceNewSliceDuration" "put_reader DefaultReaderId ra ?rg"]) (simp_all add: processNewRange_def Let_def)
    next
      case False
      with Some split rm(1) put [OF rm(2,3)] show ?thesis
        by (intro that [of "nextForceNewSliceTime q" "put_reader DefaultReaderId rm ?rg"]) (simp_all add: processNewRange_def Let_def)
    qed
  qed
  let ?q = "q\<lparr>nonReadableScope := rest, readerGroup := rg2, nextForceNewSliceTime := t2\<rparr>"
  have max: "readMax ?q = high" by (simp add: rest_def NewScope_def)
  have idle: "held_from db ss" "\<And>k. \<not> acked ss k" using ss(3) by (auto simp: held_from_def acked_def)
  have "queue_carries db q ?q"
    unfolding queue_carries_def queue_covers_def max
    using car covered idle unfolding carries_def by (auto)
  moreover have "queue_ok (q_grouper env) ?q" unfolding queue_ok_def max using rg2 high_key by (simp add: rest_def)
  ultimately show ?thesis using step max by (auto simp: high_def)
qed

section \<open>Checkpoints\<close>

lemma Scopes_ok: "\<forall>s \<in> set (slices r). slice_inv g s \<Longrightarrow> Scopes r = Inr (map slice_scope (slices r))"
proof -
  have "\<forall>s \<in> set ss. slice_inv g s \<Longrightarrow> collect_scopes ss = Inr (map slice_scope ss)" for ss :: "'a queue_slice list"
    by (induction ss) auto
  then show "\<forall>s \<in> set (slices r). slice_inv g s \<Longrightarrow> Scopes r = Inr (map slice_scope (slices r))" by (simp add: Scopes_def)
qed

lemma RemoveReader_ok:
  assumes "group_ok g M rg" "ReaderByID rg k = Some r" "slices r = []"
  shows "group_ok g M (RemoveReader k rg)" "set (all_slices (RemoveReader k rg)) = set (all_slices rg)"
    "j \<noteq> k \<Longrightarrow> ReaderByID (RemoveReader k rg) j = ReaderByID rg j"
proof -
  have set: "set (AList.delete k (readerMap rg)) = {p \<in> set (readerMap rg). fst p \<noteq> k}"
    by (auto simp: AList.delete_eq)
  show "group_ok g M (RemoveReader k rg)"
    using assms set by (auto simp: RemoveReader_def group_ok_def intro: go_map_delete)
  show "set (all_slices (RemoveReader k rg)) = set (all_slices rg)"
    using all_slices_reader [OF assms(1,2)] assms(2,3) set
    by (simp add: RemoveReader_def set_all_slices set_other_slices)
  show "j \<noteq> k \<Longrightarrow> ReaderByID (RemoveReader k rg) j = ReaderByID rg j"
    using assms(2) by (simp add: RemoveReader_def ReaderByID_def delete_conv')
qed

abbreviation kept_scopes :: "(int \<times> scope list) list \<Rightarrow> (int \<times> scope list) list" where
  "kept_scopes m \<equiv> filter (\<lambda>(readerID, scopes). scopes \<noteq> []) m"

lemma checkpoint_readers_ok:
  assumes "group_ok g M rg" "go_map rest" "\<forall>(k, r) \<in> set rest. ReaderByID rg k = Some r"
  shows "\<exists>m w' rg'. checkpoint_readers rest w rg = Inr (m, w', rg') \<and> group_ok g M rg' \<and>
    set (all_slices rg') = set (all_slices rg) \<and> w' \<le> w \<and> (\<forall>(k, r) \<in> set rest. \<forall>s \<in> set (slices r). w' \<le> smin s) \<and>
    kept_scopes m = kept_scopes (map (\<lambda>(k, r). (k, map slice_scope (slices r))) rest)"
  using assms
proof (induction rest arbitrary: w rg)
  case Nil
  then show ?case by simp
next
  case (Cons p rest)
  obtain k r where p: "p = (k, r)" by (cases p)
  from Cons.prems p have r: "ReaderByID rg k = Some r" by simp
  note rok = group_ok_reader [OF Cons.prems(1) r]
  have sc: "Scopes r = Inr (map slice_scope (slices r))" by (rule Scopes_ok [OF slices_ok_invs [OF rok]])
  from Cons.prems(2,3) p have rest: "go_map rest" "\<forall>(j, q) \<in> set rest. ReaderByID rg j = Some q \<and> j \<noteq> k" by force+
  show ?case
  proof (cases "slices r = [] \<and> k \<noteq> DefaultReaderId")
    case True
    note rem = RemoveReader_ok [OF Cons.prems(1) r]
    have "\<forall>(j, q) \<in> set rest. ReaderByID (RemoveReader k rg) j = Some q" using rest(2) rem(3) True by auto
    from Cons.IH [OF rem(1) rest(1) this, of w] rem(2) True sc p show ?thesis by simp
  next
    case False
    let ?w = "case map slice_scope (slices r) of [] \<Rightarrow> w | sc # _ \<Rightarrow> MinKey w (InclusiveMin (ScopeRange sc))"
    have rest_readers: "\<forall>(j, q) \<in> set rest. ReaderByID rg j = Some q" using rest(2) by auto
    from Cons.IH [OF Cons.prems(1) rest(1) rest_readers, of ?w] obtain m w' rg' where
      ih: "checkpoint_readers rest ?w rg = Inr (m, w', rg')" "group_ok g M rg'" "set (all_slices rg') = set (all_slices rg)"
      "w' \<le> ?w" "\<forall>(k, r) \<in> set rest. \<forall>s \<in> set (slices r). w' \<le> smin s"
      "kept_scopes m = kept_scopes (map (\<lambda>(k, r). (k, map slice_scope (slices r))) rest)" by blast
    have w: "?w \<le> w" "\<forall>s \<in> set (slices r). ?w \<le> smin s"
    proof -
      show "?w \<le> w" by (cases "slices r") auto
      show "\<forall>s \<in> set (slices r). ?w \<le> smin s"
      proof (cases "slices r")
        case (Cons a as)
        with rok have "slices_inv g (a # as)" by (simp add: slices_ok_def)
        from slices_inv_head [OF this] Cons show ?thesis by (auto intro: min.coboundedI2)
      qed simp
    qed
    have "checkpoint_readers (p # rest) w rg = Inr ((k, map slice_scope (slices r)) # m, w', rg')"
    proof (cases "slices r")
      case Nil
      with False have "k = DefaultReaderId" by simp
      with Nil sc ih(1) show ?thesis by (simp add: p)
    next
      case (Cons a as)
      with sc ih(1) show ?thesis by (simp add: p)
    qed
    with p ih w show ?thesis by (auto intro: order_trans)
  qed
qed

text \<open>
  What a call to persistence may ask for, with respect to the queue after the checkpoint: only tasks
  below every slice are deleted, and the persisted scopes contain those of the slices.
\<close>

fun call_ok :: "key_lists \<Rightarrow> 'e queue_base \<Rightarrow> persistence_call \<Rightarrow> bool" where
  "call_ok en q (RangeCompleteHistoryTasks lo hi) \<longleftrightarrow>
     (\<forall>t :: task. 0 \<le> TaskID (GetKey t) \<and> GetKey t < hi \<longrightarrow> GetKey t < readMax q \<and> (\<forall>s \<in> set (queue_slices q). GetKey t < smin s))"
| "call_ok en q (SetQueueState n p) \<longleftrightarrow>
     (\<exists>st. p = ToPersistenceQueueState en st \<and> state_ok st \<and> exclusiveReaderHighWatermark st = readMax q \<and>
        (\<forall>s \<in> set (queue_slices q). \<exists>(k, scs) \<in> set (readerScopes st). slice_scope s \<in> set scs))"

lemma rangeComplete_ok:
  assumes "w \<le> readMax q" "\<forall>s \<in> set (queue_slices q). w \<le> smin s"
  shows "call_ok en q (rangeCompleteTasks env old w)"
proof -
  have below: "GetKey t < w" if "0 \<le> TaskID (GetKey t)" "GetKey t < Key (FireTime w) 0 \<or> GetKey t < w" for t :: task
    using that by (cases "GetKey t"; cases w) (auto simp: key_less_iff)
  have "GetKey t < readMax q \<and> (\<forall>s \<in> set (queue_slices q). GetKey t < smin s)"
    if "0 \<le> TaskID (GetKey t)" "GetKey t < Key (FireTime w) 0 \<or> GetKey t < w" for t :: task
    using below [OF that] assms by (auto intro: less_le_trans)
  then show ?thesis by (simp add: rangeCompleteTasks_def)
qed

lemma updateQueueState_ok:
  assumes ok: "queue_ok g q" and m: "kept_scopes m = kept_scopes (map (\<lambda>(k, r). (k, map slice_scope (slices r))) rs)"
    and rs: "go_map rs" "\<forall>(k, r) \<in> set rs. slices_ok g (readMax q) (slices r)"
    and all: "\<forall>s \<in> set (queue_slices q). \<exists>(k, r) \<in> set rs. s \<in> set (slices r)"
  shows "call_ok (q_keys env) q (updateQueueState env n m q)"
proof -
  let ?st = "\<lparr>readerScopes = kept_scopes m, exclusiveReaderHighWatermark = readMax q\<rparr>"
  have mem: "(k, scs) \<in> set (kept_scopes m) \<longleftrightarrow> scs \<noteq> [] \<and> (\<exists>r. (k, r) \<in> set rs \<and> scs = map slice_scope (slices r))" for k scs
    unfolding m by auto
  have "map fst (map (\<lambda>(k, r). (k, map slice_scope (slices r))) rs) = map fst rs" by auto
  then have "go_map (map (\<lambda>(k, r). (k, map slice_scope (slices r))) rs)" using rs(1) by (simp only:)
  then have "go_map (kept_scopes m)" unfolding m by (rule go_map_filter)
  moreover have "scopes_ok (readMax q) scs" if "(k, scs) \<in> set (kept_scopes m)" for k scs
    using that rs(2) scopes_of_slices unfolding mem by fastforce
  moreover have "valid_key (readMax q)" using ok by (simp add: queue_ok_def)
  ultimately have "state_ok ?st" by (auto simp: state_ok_def)
  moreover have "\<exists>(k, scs) \<in> set (readerScopes ?st). slice_scope s \<in> set scs" if "s \<in> set (queue_slices q)" for s
  proof -
    from all that obtain k r where kr: "(k, r) \<in> set rs" "s \<in> set (slices r)" by blast
    then have "(k, map slice_scope (slices r)) \<in> set (kept_scopes m)" unfolding mem by auto
    with kr(2) show ?thesis by force
  qed
  ultimately show ?thesis unfolding updateQueueState_def call_ok.simps by (intro exI [of _ ?st]) auto
qed

lemma checkpoint_ok:
  assumes env: "queue_env_ok env" and ok: "queue_ok (q_grouper env) q"
  shows "\<exists>calls q'. checkpoint env newRangeID completeOk q = Inr (calls, q') \<and> queue_ok (q_grouper env) q' \<and>
    readMax q' = readMax q \<and> carries db (queue_slices q) (queue_slices q') \<and> (\<forall>c \<in> set calls. call_ok (q_keys env) q' c)"
proof -
  let ?acts = "q_actions env" and ?g = "q_grouper env" and ?R = "readMax q"
  let ?cfg = "env_slices ?acts" and ?init = "env_initializer ?acts"
  from ok have rg: "group_ok ?g ?R (readerGroup q)" and R: "?R \<le> MaximumKey" by (auto simp: queue_ok_def valid_key_bounds)
  have new: "keeps_slices ?init" using queue_env_okD [OF env] by simp
  from ForEach_Shrink_ok [OF rg R, of ?cfg db] obtain rg1 n where
    r1: "ForEach (ShrinkSlices ?cfg) (readerGroup q) = Inr (rg1, n)" "group_ok ?g ?R rg1" "carries db (queue_slices q) (all_slices rg1)" by blast
  let ?run = "if env_moveGroupTaskCountBase ?acts > 0
      then moveGroup_Run ?cfg ?init ?g (env_moveGroupMultiply ?acts) (env_maxReaderCount ?acts) (env_moveGroupTaskCountBase ?acts) rg1
      else slicePredicate_Run ?cfg ?init (env_maxReaderCount ?acts) rg1"
  have "action_ok ?g ?R db rg1 ?run"
    using moveGroup_ok [OF r1(2) new] slicePredicate_ok [OF r1(2) new] by simp
  then obtain b rg2 where r2: "?run = Inr (b, rg2)" "group_ok ?g ?R rg2" "carries db (all_slices rg1) (all_slices rg2)"
    by (auto simp: action_ok_def)
  have m2: "go_map (readerMap rg2)" "\<forall>(k, r) \<in> set (readerMap rg2). ReaderByID rg2 k = Some r"
    "\<forall>(k, r) \<in> set (readerMap rg2). slices_ok ?g ?R (slices r)"
    using r2(2) by (auto simp: group_ok_def ReaderByID_def)
  from checkpoint_readers_ok [OF r2(2) m2(1,2), of ?R] obtain m w rg3 where
    r3: "checkpoint_readers (readerMap rg2) ?R rg2 = Inr (m, w, rg3)" "group_ok ?g ?R rg3" "set (all_slices rg3) = set (all_slices rg2)"
    "w \<le> ?R" "\<forall>(k, r) \<in> set (readerMap rg2). \<forall>s \<in> set (slices r). w \<le> smin s"
    "kept_scopes m = kept_scopes (map (\<lambda>(k, r). (k, map slice_scope (slices r))) (readerMap rg2))" by blast
  have car: "carries db (queue_slices q) (all_slices rg3)"
    using carries_trans [OF carries_trans [OF r1(3) r2(3)] carries_same_set] r3(3) by auto
  have result: "queue_ok ?g q' \<and> readMax q' = readMax q \<and> carries db (queue_slices q) (queue_slices q') \<and>
      call_ok (q_keys env) q' (rangeCompleteTasks env old w) \<and> call_ok (q_keys env) q' (updateQueueState env n m q')"
    if q': "nonReadableScope q' = nonReadableScope q" "readerGroup q' = rg3" for q' :: "'a queue_base" and old
  proof (intro conjI)
    show ok': "queue_ok ?g q'" using ok q' r3(2) by (simp add: queue_ok_def)
    show "readMax q' = readMax q" "carries db (queue_slices q) (queue_slices q')" using q' car by simp_all
    show "call_ok (q_keys env) q' (rangeCompleteTasks env old w)"
      using q' r3(3,4,5) by (intro rangeComplete_ok) (auto simp: set_all_slices)
    show "call_ok (q_keys env) q' (updateQueueState env n m q')"
      by (rule updateQueueState_ok [OF ok' r3(6) m2(1)]) (use q' r3(3) m2(3) in \<open>auto simp: set_all_slices\<close>)
  qed
  let ?q3 = "q\<lparr>readerGroup := rg3\<rparr>"
  let ?grown = "CompareTo w (exclusiveDeletionHighWatermark q) > 0"
  let ?q4 = "if ?grown then ?q3 else snd (updateShardRangeID newRangeID ?q3)"
  let ?q5 = "?q4\<lparr>exclusiveDeletionHighWatermark := w\<rparr>"
  let ?del = "rangeCompleteTasks env (exclusiveDeletionHighWatermark q) w"
  have q4: "nonReadableScope ?q4 = nonReadableScope q" "readerGroup ?q4 = rg3" by (auto simp: updateShardRangeID_def)
  have eq: "checkpoint env newRangeID completeOk q =
      Inr (if ?grown \<or> (fst (updateShardRangeID newRangeID ?q3) \<and> CompareTo w MinimumKey > 0)
           then if \<not> completeOk then ([?del], ?q4) else ([?del, updateQueueState env n m ?q5], ?q5)
           else ([updateQueueState env n m ?q4], ?q4))"
    by (simp add: checkpoint_def Let_def r1(1) r2(1) r3(1) split: prod.split)
  show ?thesis
    unfolding eq using result [OF q4] result [of ?q5] q4 by (auto split del: if_split split: if_split)
qed

lemma notifyReaders_slices [simp]: "all_slices (notifyReaders rg) = all_slices rg"
  unfolding all_slices_def notifyReaders_def
  by (auto simp: Notify_def reader_notify_def intro!: arg_cong [where f = concat])

lemma notifyReaders_group_ok [simp]: "group_ok g M (notifyReaders rg) \<longleftrightarrow> group_ok g M rg"
proof -
  have "map fst (readerMap (notifyReaders rg)) = map fst (readerMap rg)" by (auto simp: notifyReaders_def)
  moreover have "(\<forall>(k, r) \<in> set (readerMap (notifyReaders rg)). slices_ok g M (slices r)) \<longleftrightarrow>
      (\<forall>(k, r) \<in> set (readerMap rg). slices_ok g M (slices r))"
    by (auto simp: notifyReaders_def Notify_def reader_notify_def split: prod.splits)
  ultimately show ?thesis unfolding group_ok_def by (simp only:)
qed

lemma handleAlert_ok:
  assumes env: "queue_env_ok env" and ok: "queue_ok (q_grouper env) q" and db: "inj_on GetKey db"
    and al: "\<forall>a. al = Some a \<longrightarrow> alert_ok a"
  shows "\<exists>calls q'. handleAlert env al newRangeID completeOk q = Inr (calls, q') \<and> queue_ok (q_grouper env) q' \<and>
      readMax q' = readMax q \<and> carries db (queue_slices q) (queue_slices q') \<and> (\<forall>c \<in> set calls. call_ok (q_keys env) q' c)"
proof (cases al)
  case None
  with ok show ?thesis by (simp add: handleAlert_def carries_refl)
next
  case (Some al')
  from ok have rg: "group_ok (q_grouper env) (readMax q) (readerGroup q)" and R: "readMax q \<le> MaximumKey"
    by (auto simp: queue_ok_def valid_key_bounds)
  have eok: "env_ok (q_actions env)" using queue_env_okD [OF env] by simp
  from Mitigate_ok [OF rg R db eok, of al'] al Some obtain rg' where rg': "Mitigate (q_actions env) al' (readerGroup q) = Inr rg'"
    "group_ok (q_grouper env) (readMax q) rg'" "carries db (queue_slices q) (all_slices rg')" by (auto simp: mitigated_def)
  have ok1: "queue_ok (q_grouper env) (q\<lparr>readerGroup := rg'\<rparr>)" using ok rg'(2) by (simp add: queue_ok_def)
  from checkpoint_ok [OF env ok1, of newRangeID completeOk db] obtain calls q1 where
    q1: "checkpoint env newRangeID completeOk (q\<lparr>readerGroup := rg'\<rparr>) = Inr (calls, q1)" "queue_ok (q_grouper env) q1"
    "readMax q1 = readMax q" "carries db (all_slices rg') (queue_slices q1)" "\<forall>c \<in> set calls. call_ok (q_keys env) q1 c" by auto
  let ?q2 = "q1\<lparr>readerGroup := notifyReaders (readerGroup q1)\<rparr>"
  have slices: "queue_slices ?q2 = queue_slices q1" by simp
  have "queue_ok (q_grouper env) ?q2" using q1(2) by (simp add: queue_ok_def)
  moreover have "call_ok (q_keys env) ?q2 c" if "c \<in> set calls" for c
    using q1(5) that slices by (cases c) auto
  ultimately show ?thesis using Some rg'(1) q1 slices carries_trans [OF rg'(3) q1(4)] by (simp add: handleAlert_def)
qed

end
