(* ===== verification/ReaderLoop.thy ===== *)
theory ReaderLoop
  imports QueueReader
begin

text \<open>
  The event loop of a queue reader (\<open>Start\<close>, \<open>eventLoop\<close>, \<open>loadAndSubmitTasks\<close> in
  \<open>service/history/queues/reader.go\<close>) run to the end: a reader that is not throttled submits the
  tasks of all its slices, in order, and then waits for a notification.
\<close>

section \<open>What one round does\<close>

fun run_loop :: "nat \<Rightarrow> 'e reader_env \<Rightarrow> 'e reader \<Rightarrow> (queue_panic + 'e reader) option" where
  "run_loop 0 env r = Some (Inr r)"
| "run_loop (Suc n) env r =
     (case eventLoop_step env r of
        None \<Rightarrow> None
      | Some (Inl p) \<Rightarrow> Some (Inl p)
      | Some (Inr r') \<Rightarrow> run_loop n env r')"

text \<open>The calls \<open>submit\<close> makes for an executable.\<close>

definition submit_events :: "'e reader_env \<Rightarrow> executable \<Rightarrow> reader_event list" where
  "submit_events env e =
     (if clockNow env < FireTime (exec_key e) + ScheduledTaskMinPrecision then [Rescheduled e]
      else if schedulerAccepts env e then [TrySubmitted e] else [TrySubmitted e, Rescheduled e])"

definition submissions :: "'e reader_env \<Rightarrow> task list \<Rightarrow> reader_event list" where
  "submissions env ts = concat (map (submit_events env) (map NewExecutable ts))"

lemma reader_submit_eq:
  "reader_submit env r e = r\<lparr>reader_events := reader_events r @ submit_events env e\<rparr>"
  by (simp add: reader_submit_def submit_events_def log_event_def)

lemma submit_all:
  "foldl (reader_submit env) r (map NewExecutable ts) = r\<lparr>reader_events := reader_events r @ submissions env ts\<rparr>"
  by (induction ts arbitrary: r) (simp_all add: reader_submit_eq submissions_def)

lemma submissions_append [simp]:
  "submissions env (xs @ ys) = submissions env xs @ submissions env ys" "submissions env [] = []"
  by (simp_all add: submissions_def)

text \<open>A reader that can load: the tasks are there, and nothing throttles it.\<close>

definition env_ready :: "'e reader_env \<Rightarrow> bool" where
  "env_ready env \<longleftrightarrow> verifyPendingTaskSize env \<and> \<not> rateLimitContextDone env \<and> 0 < BatchSize env"

definition loop_state :: "grouper \<Rightarrow> task list \<Rightarrow> 'e reader_env \<Rightarrow> nat \<Rightarrow> 'e reader \<Rightarrow> bool" where
  "loop_state g db env i r \<longleftrightarrow>
     reader_status r = DaemonStatusStarted \<and> \<not> throttled r \<and> notified r \<and> nextReadSlice r = AtSlice i \<and>
     i < length (slices r) \<and> (\<forall>s \<in> set (slices r). slice_inv g s \<and> slice_backed (env_provider env) db s) \<and>
     (\<forall>j < i. slice_iterators (slices r ! j) = [])"

definition loop_done :: "'e reader \<Rightarrow> bool" where
  "loop_done r \<longleftrightarrow> \<not> notified r \<and> nextReadSlice r = NoNextSlice \<and> (\<forall>s \<in> set (slices r). slice_iterators s = [])"

definition rest_to_select :: "task list \<Rightarrow> nat \<Rightarrow> 'e reader \<Rightarrow> task list" where
  "rest_to_select db i r = concat (map (to_select db) (drop i (slices r)))"

lemma SelectTasks_step:
  assumes "slice_inv g s" "slice_backed provider db s" "0 < n"
  shows "\<exists>s'. SelectTasks provider n s = Some (Inr (Inr (map NewExecutable (take n (to_select db s))), s')) \<and>
     slice_inv g s' \<and> slice_backed provider db s' \<and> to_select db s' = drop n (to_select db s) \<and>
     (length (to_select db s) < n \<longrightarrow> slice_iterators s' = [])"
proof (cases "slice_iterators s = []")
  case True
  with assms show ?thesis by (auto simp: SelectTasks_def slice_inv_def to_select_def unread_def)
next
  case False
  with assms select_loop_ok [OF assms(1,2), of "[]" n] show ?thesis
    by (auto simp: SelectTasks_def slice_inv_def)
qed

lemma no_iterators_select: "slice_iterators s = [] \<Longrightarrow> to_select db s = []"
  by (simp add: to_select_def unread_def)

definition loop_measure :: "task list \<Rightarrow> nat \<Rightarrow> 'e reader \<Rightarrow> nat" where
  "loop_measure db i r = length (rest_to_select db i r) + (length (slices r) - i)"

lemma round_ok:
  assumes st: "loop_state g db env i r" and env: "env_ready env"
  shows "\<exists>r' ts. eventLoop_step env r = Some (Inr r') \<and>
     (loop_done r' \<and> ts = rest_to_select db i r \<and> reader_events r' = reader_events r @ submissions env ts @ [Completed] \<or>
      (\<exists>j. loop_state g db env j r' \<and> rest_to_select db i r = ts @ rest_to_select db j r' \<and>
           reader_events r' = reader_events r @ submissions env ts \<and> loop_measure db j r' < loop_measure db i r))"
proof -
  let ?s = "slices r ! i" and ?n = "BatchSize env"
  from st have i: "i < length (slices r)" and s: "slice_inv g ?s" "slice_backed (env_provider env) db ?s"
    and rd: "reader_status r = DaemonStatusStarted" "\<not> throttled r" "notified r" "nextReadSlice r = AtSlice i"
    and all: "\<forall>s \<in> set (slices r). slice_inv g s \<and> slice_backed (env_provider env) db s"
    and before: "\<forall>j < i. slice_iterators (slices r ! j) = []"
    by (auto simp: loop_state_def)
  from env have n: "0 < ?n" by (simp add: env_ready_def)
  obtain s' where sel: "SelectTasks (env_provider env) ?n ?s = Some (Inr (Inr (map NewExecutable (take ?n (to_select db ?s))), s'))"
    and s': "slice_inv g s'" "slice_backed (env_provider env) db s'" "to_select db s' = drop ?n (to_select db ?s)"
      "length (to_select db ?s) < ?n \<longrightarrow> slice_iterators s' = []"
    using SelectTasks_step [OF s n] by blast
  define ts where "ts = take ?n (to_select db ?s)"
  define ss where "ss = (slices r)[i := s']"
  define r1 where "r1 = r\<lparr>notified := False, slices := ss, reader_events := reader_events r @ submissions env ts\<rparr>"
  have more: "MoreTasks s' = Inr (slice_iterators s' \<noteq> [])" using s'(1) by simp
  have rest: "rest_to_select db i r = to_select db ?s @ rest_to_select db (Suc i) r"
    using i by (simp add: rest_to_select_def Cons_nth_drop_Suc [symmetric])
  have ss: "\<forall>s \<in> set ss. slice_inv g s \<and> slice_backed (env_provider env) db s" "length ss = length (slices r)"
    using all s' set_update_subset_insert [of "slices r" i s'] by (auto simp: ss_def)
  have rest': "rest_to_select db (Suc i) r1 = rest_to_select db (Suc i) r"
    by (simp add: rest_to_select_def r1_def ss_def drop_update_cancel)
  have rest_i: "rest_to_select db i r1 = to_select db s' @ rest_to_select db (Suc i) r1"
    using i by (simp add: rest_to_select_def r1_def ss_def Cons_nth_drop_Suc [symmetric])
  have step: "eventLoop_step env r =
      Some (if slice_iterators s' \<noteq> [] then Inr (reader_notify r1)
            else if Suc i < length (slices r) then Inr (reader_notify (r1\<lparr>nextReadSlice := AtSlice (Suc i)\<rparr>))
            else Inr (log_event Completed (r1\<lparr>nextReadSlice := NoNextSlice\<rparr>)))"
    using rd env sel more i
    by (simp add: eventLoop_step_def loadAndSubmitTasks_def env_ready_def cursor_slice_def set_cursor_slice_def
        submit_all next_element_def r1_def ts_def ss_def Let_def)
  show ?thesis
  proof (cases "slice_iterators s' = []")
    case False
    then have len: "?n \<le> length (to_select db ?s)" using s'(4) by force
    have "loop_state g db env i (reader_notify r1)"
      using rd ss before i by (simp add: loop_state_def r1_def reader_notify_def ss_def)
    moreover have "rest_to_select db i r = ts @ rest_to_select db i (reader_notify r1)"
      using rest rest_i rest' s'(3) by (simp add: ts_def reader_notify_def rest_to_select_def)
    moreover from this len n have "loop_measure db i (reader_notify r1) < loop_measure db i r"
      using ss(2) by (simp add: loop_measure_def ts_def reader_notify_def r1_def)
    ultimately show ?thesis using step False
      by (intro exI [of _ "reader_notify r1"] exI [of _ ts] conjI disjI2 exI [of _ i]) (simp_all add: reader_notify_def r1_def)
  next
    case True
    from no_iterators_select [OF True] s'(3) have ts: "ts = to_select db ?s" by (simp add: ts_def)
    have before': "\<forall>j < Suc i. slice_iterators (ss ! j) = []"
      using before True i by (auto simp: ss_def less_Suc_eq nth_list_update)
    show ?thesis
    proof (cases "Suc i < length (slices r)")
      case next_slice: True
      let ?r = "reader_notify (r1\<lparr>nextReadSlice := AtSlice (Suc i)\<rparr>)"
      have "loop_state g db env (Suc i) ?r"
        using rd ss before' next_slice by (simp add: loop_state_def r1_def reader_notify_def)
      moreover have "rest_to_select db i r = ts @ rest_to_select db (Suc i) ?r"
        using rest rest' ts by (simp add: reader_notify_def rest_to_select_def)
      moreover from this have "loop_measure db (Suc i) ?r < loop_measure db i r"
        using ss(2) next_slice by (simp add: loop_measure_def reader_notify_def r1_def)
      ultimately show ?thesis using step True next_slice
        by (intro exI [of _ ?r] exI [of _ ts] conjI disjI2 exI [of _ "Suc i"]) (simp_all add: reader_notify_def r1_def)
    next
      case False
      let ?r = "log_event Completed (r1\<lparr>nextReadSlice := NoNextSlice\<rparr>)"
      from False i have "Suc i = length (slices r)" by simp
      then have "loop_done ?r" using before' ss(2)
        by (simp add: loop_done_def log_event_def r1_def all_set_conv_all_nth)
      moreover have "ts = rest_to_select db i r"
        using rest ts \<open>Suc i = length (slices r)\<close> by (simp add: rest_to_select_def)
      ultimately show ?thesis using step True False
        by (intro exI [of _ ?r] exI [of _ ts] conjI disjI1) (simp_all add: log_event_def r1_def)
    qed
  qed
qed

lemma run_loop_ok:
  assumes "loop_state g db env i r" and env: "env_ready env"
  shows "\<exists>n r'. run_loop n env r = Some (Inr r') \<and> loop_done r' \<and>
     reader_events r' = reader_events r @ submissions env (rest_to_select db i r) @ [Completed]"
  using assms(1)
proof (induction "loop_measure db i r" arbitrary: i r rule: less_induct)
  case less
  from round_ok [OF less.prems env] obtain r1 ts where step: "eventLoop_step env r = Some (Inr r1)"
    and alt: "loop_done r1 \<and> ts = rest_to_select db i r \<and> reader_events r1 = reader_events r @ submissions env ts @ [Completed] \<or>
      (\<exists>j. loop_state g db env j r1 \<and> rest_to_select db i r = ts @ rest_to_select db j r1 \<and>
           reader_events r1 = reader_events r @ submissions env ts \<and> loop_measure db j r1 < loop_measure db i r)" by blast
  from alt show ?case
  proof
    assume "loop_done r1 \<and> ts = rest_to_select db i r \<and> reader_events r1 = reader_events r @ submissions env ts @ [Completed]"
    with step show ?thesis by (intro exI [of _ "Suc 0"] exI [of _ r1]) simp
  next
    assume "\<exists>j. loop_state g db env j r1 \<and> rest_to_select db i r = ts @ rest_to_select db j r1 \<and>
           reader_events r1 = reader_events r @ submissions env ts \<and> loop_measure db j r1 < loop_measure db i r"
    then obtain j where j: "loop_state g db env j r1" "rest_to_select db i r = ts @ rest_to_select db j r1"
      "reader_events r1 = reader_events r @ submissions env ts" "loop_measure db j r1 < loop_measure db i r" by blast
    from less.hyps [OF j(4,1)] obtain n r' where "run_loop n env r1 = Some (Inr r')" "loop_done r'"
      "reader_events r' = reader_events r1 @ submissions env (rest_to_select db j r1) @ [Completed]" by blast
    with step j(2,3) show ?thesis by (intro exI [of _ "Suc n"] exI [of _ r']) simp
  qed
qed

section \<open>The loop delivers all tasks\<close>

text \<open>
  C9. A started reader that nothing throttles does not stop before everything is loaded: after finitely
  many rounds of the event loop the tasks of all slices have been submitted, once each, slice by
  slice in the order of the keys, the completion is reported, and the loop waits.
\<close>

theorem Reader_delivers_everything:
  assumes "slices_inv g ss" "ss \<noteq> []" "\<forall>s \<in> set ss. slice_backed (env_provider env) db s"
    and "verifyPendingTaskSize env" "\<not> rateLimitContextDone env" "0 < BatchSize env"
  shows "\<exists>n r'. run_loop n env (Start_reader (NewReader ss)) = Some (Inr r') \<and> \<not> notified r' \<and>
     nextReadSlice r' = NoNextSlice \<and> (\<forall>s \<in> set (slices r'). slice_iterators s = []) \<and>
     reader_events r' = submissions env (concat (map (to_select db) ss)) @ [Completed]"
proof -
  have "loop_state g db env 0 (Start_reader (NewReader ss))"
    using assms slices_inv_memD [OF assms(1)]
    by (auto simp: loop_state_def Start_reader_def NewReader_def reader_notify_def)
  from run_loop_ok [OF this] assms(4-) show ?thesis
    by (simp add: env_ready_def loop_done_def rest_to_select_def Start_reader_def NewReader_def reader_notify_def)
qed

theorem Reader_delivers_everything_witness:
  "let db = [sample_task 1 ''a'', sample_task 7 ''b'']; env = sample_env\<lparr>env_provider := one_page db, BatchSize := 1\<rparr>;
       ss = [sample_slice 0 6 {''a''} (sample_task 0 ''a''), sample_slice 6 9 {''b''} (sample_task 6 ''b'')]
   in \<exists>n r'. run_loop n env (Start_reader (NewReader ss)) = Some (Inr r') \<and> \<not> notified r' \<and>
     nextReadSlice r' = NoNextSlice \<and> (\<forall>s \<in> set (slices r'). slice_iterators s = []) \<and>
     reader_events r' = submissions env (concat (map (to_select db) ss)) @ [Completed]"
  unfolding Let_def
proof (rule Reader_delivers_everything)
  let ?db = "[sample_task 1 ''a'', sample_task 7 ''b'']"
  have ok: "store_ok ?db"
    by (simp add: store_ok_def sample_task_def key_less_iff MaximumKey_def NewKey_def MaxInt64_def)
  show "slices_inv GrouperNamespaceID [sample_slice 0 6 {''a''} (sample_task 0 ''a''), sample_slice 6 9 {''b''} (sample_task 6 ''b'')]"
    using sample_slice_inv [of 0 0 6 "''a''" "{''a''}"] sample_slice_inv [of 6 6 9 "''b''" "{''b''}"]
    by (simp add: sample_slice_scope NewScope_def MaxInt64_def)
  show "\<forall>s \<in> set [sample_slice 0 6 {''a''} (sample_task 0 ''a''), sample_slice 6 9 {''b''} (sample_task 6 ''b'')].
      slice_backed (env_provider (sample_env\<lparr>env_provider := one_page ?db, BatchSize := 1\<rparr>)) ?db s"
    by (simp add: iter_pending_new [OF one_page_backed [OF ok]] slice_backed_def sample_slice_def Let_def NewSlice_iterators NewScope_def MaxInt64_def)
qed (simp_all add: sample_env_def verifyPendingTaskSize_def)

end
