(* ===== verification/QueueSystem.thy ===== *)
theory QueueSystem
  imports QueueWork ReaderLoop
begin

text \<open>
  A queue as a system: the store, the persisted state and the queue in memory, with the steps that
  change them in any order. Tasks are written above the watermark that the shard reports, readers load
  and executables are acknowledged, ranges become readable, checkpoints and alerts are handled and their
  calls to persistence take effect or fail, and the process restarts from what was persisted. The
  invariant says that no task is lost: until it is acknowledged, a task is in the store, the queue in
  memory covers it, and so does the queue that a restart would load.
\<close>

section \<open>Loading and acknowledging\<close>

definition Ack :: "executable \<Rightarrow> executable" where
  "Ack e = (if State e = TaskStatePending then e\<lparr>State := TaskStateAcked\<rparr> else e)"

text \<open>The executable is shared with the tracker of the slice that holds it.\<close>

definition ack_in_slice :: "task_key \<Rightarrow> 'e queue_slice \<Rightarrow> 'e queue_slice" where
  "ack_in_slice k s =
     (case tracked (slice_tracker s) k of
        None \<Rightarrow> s
      | Some e \<Rightarrow> s\<lparr>slice_tracker := (slice_tracker s)\<lparr>pendingExecutables :=
          AList.update k (Ack e) (pendingExecutables (slice_tracker s))\<rparr>\<rparr>)"

definition ack_in_reader :: "nat \<Rightarrow> task_key \<Rightarrow> 'e reader \<Rightarrow> 'e reader" where
  "ack_in_reader i k r = r\<lparr>slices := (slices r)[i := ack_in_slice k (slices r ! i)]\<rparr>"

definition put_in_queue :: "int \<Rightarrow> 'e reader \<Rightarrow> 'e queue_base \<Rightarrow> 'e queue_base" where
  "put_in_queue readerID r q = q\<lparr>readerGroup := put_reader readerID r (readerGroup q)\<rparr>"

lemma Ack_sel [simp]: "GetTask (Ack e) = GetTask e" "exec_key (Ack e) = exec_key e" "State (Ack e) = TaskStateAcked \<longleftrightarrow> State e = TaskStatePending \<or> State e = TaskStateAcked"
  by (auto simp: Ack_def exec_key_def)

lemma tracked_ack:
  "tracked (slice_tracker (ack_in_slice k s)) k' = (if k' = k then map_option Ack (tracked (slice_tracker s) k) else tracked (slice_tracker s) k')"
  by (auto simp: ack_in_slice_def tracked_def update_conv' split: option.split)

lemma ack_same [simp]:
  "slice_scope (ack_in_slice k s) = slice_scope s" "slice_iterators (ack_in_slice k s) = slice_iterators s"
  "slice_destroyed (ack_in_slice k s) = slice_destroyed s"
  by (simp_all add: ack_in_slice_def split: option.split)

lemma pending_in_same_group:
  "map_of m k = Some e \<Longrightarrow> GroupKey g (GetTask e') = GroupKey g (GetTask e) \<Longrightarrow> pending_in g (AList.update k e' m) c = pending_in g m c"
  by (induction m) auto

lemma ack_tracker_safe: "tracker_safe (slice_tracker s) \<Longrightarrow> tracker_safe (slice_tracker (ack_in_slice k s))"
proof (cases "tracked (slice_tracker s) k")
  case (Some e)
  assume safe: "tracker_safe (slice_tracker s)"
  then have "exec_key e = k" using Some by (auto simp: tracker_safe_def keyed_def tracked_def list_all_iff dest!: map_of_SomeD)
  then have "keyed (AList.update k (Ack e) (pendingExecutables (slice_tracker s)))"
    using safe by (intro keyed_update) (auto simp: tracker_safe_def)
  with safe Some show ?thesis
    by (simp add: ack_in_slice_def tracker_safe_def tracked_def pending_in_same_group)
qed (simp add: ack_in_slice_def)

lemma ack_slice_inv: "slice_inv g s \<Longrightarrow> slice_inv g (ack_in_slice k s)"
proof -
  assume inv: "slice_inv g s"
  have "trackerGrouper (slice_tracker (ack_in_slice k s)) = trackerGrouper (slice_tracker s)"
    by (simp add: ack_in_slice_def split: option.split)
  moreover have "Scope_Contains (slice_scope s) (GetTask e) \<and> valid_key (exec_key e)"
    if "tracked (slice_tracker (ack_in_slice k s)) j = Some e" for j e
    using that inv by (auto simp: tracked_ack slice_inv_def split: if_splits)
  ultimately show ?thesis using inv ack_tracker_safe [of s k] by (simp add: slice_inv_def)
qed

text \<open>A slice of a reader is exchanged for one with the same scope that covers as much.\<close>

definition exchanges :: "task set \<Rightarrow> task_key set \<Rightarrow> 'e queue_slice \<Rightarrow> 'e queue_slice \<Rightarrow> bool" where
  "exchanges db new s s' \<longleftrightarrow>
     slice_scope s' = slice_scope s \<and> (\<forall>t \<in> db. covers [s] t \<longrightarrow> covers [s'] t) \<and>
     (\<forall>D. db \<subseteq> D \<and> held_from D [s] \<longrightarrow> held_from D [s']) \<and> (\<forall>k. acked [s'] k \<longrightarrow> acked [s] k \<or> k \<in> new)"

lemma slices_ok_exchange:
  assumes "slices_ok g M ss" "i < length ss" "slice_inv g s'" "slice_scope s' = slice_scope (ss ! i)"
  shows "slices_ok g M (ss[i := s'])"
proof -
  have "list_all2 (\<lambda>s s'. slice_inv g s' \<and> smin s \<le> smin s' \<and> smax s' = smax s) ss (ss[i := s'])"
    using assms slices_ok_invs [OF assms(1)] by (auto simp: list_all2_conv_all_nth nth_list_update)
  from slices_ok_pointwise [OF this assms(1)] show ?thesis .
qed

lemma exchange_slices:
  assumes "i < length ss" "exchanges db new (ss ! i) s'"
  shows "\<forall>t \<in> db. covers ss t \<longrightarrow> covers (ss[i := s']) t" "db \<subseteq> D \<Longrightarrow> held_from D ss \<Longrightarrow> held_from D (ss[i := s'])"
    "acked (ss[i := s']) k \<Longrightarrow> acked ss k \<or> k \<in> new"
proof -
  have ss: "ss = take i ss @ [ss ! i] @ drop (Suc i) ss" "ss[i := s'] = take i ss @ [s'] @ drop (Suc i) ss"
    using assms(1) by (simp_all add: id_take_nth_drop upd_conv_take_nth_drop)
  have old: "covers ss t \<longleftrightarrow> covers (take i ss) t \<or> covers [ss ! i] t \<or> covers (drop (Suc i) ss) t"
    "held_from D ss \<longleftrightarrow> held_from D (take i ss) \<and> held_from D [ss ! i] \<and> held_from D (drop (Suc i) ss)"
    "acked ss k \<longleftrightarrow> acked (take i ss) k \<or> acked [ss ! i] k \<or> acked (drop (Suc i) ss) k" for t k
    by (subst ss(1), simp only: covers_append held_from_append acked_append)+
  have new: "covers (ss[i := s']) t \<longleftrightarrow> covers (take i ss) t \<or> covers [s'] t \<or> covers (drop (Suc i) ss) t"
    "held_from D (ss[i := s']) \<longleftrightarrow> held_from D (take i ss) \<and> held_from D [s'] \<and> held_from D (drop (Suc i) ss)"
    "acked (ss[i := s']) k \<longleftrightarrow> acked (take i ss) k \<or> acked [s'] k \<or> acked (drop (Suc i) ss) k" for t k
    unfolding ss(2) by (simp_all only: covers_append held_from_append acked_append)
  show "\<forall>t \<in> db. covers ss t \<longrightarrow> covers (ss[i := s']) t" "db \<subseteq> D \<Longrightarrow> held_from D ss \<Longrightarrow> held_from D (ss[i := s'])"
    "acked (ss[i := s']) k \<Longrightarrow> acked ss k \<or> k \<in> new"
    using assms(2) unfolding old new exchanges_def by blast+
qed

lemma ack_exchanges: "exchanges db {k} s (ack_in_slice k s)"
  unfolding exchanges_def covers_def held_from_def acked_def holds_def loads_def
  by (auto simp: tracked_ack split: if_splits)

lemma to_select_loads:
  assumes inv: "slice_inv g s" and t: "t \<in> set ts"
  shows "loads s t \<longleftrightarrow> t \<in> set (to_select ts s)"
proof
  assume "loads s t"
  with t show "t \<in> set (to_select ts s)"
    by (auto simp: loads_def Scope_Contains_def to_select_def unread_def cover_def in_range_def)
next
  assume "t \<in> set (to_select ts s)"
  then obtain i where i: "i \<in> set (slice_iterators s)" "ContainsKey (Iter_Range i) (GetKey t)" "Test (slice_predicate s) t"
    by (auto simp: to_select_def unread_def in_range_def)
  then have "GetKey t \<in> cover (slice_iterators s)" by (auto simp: cover_def)
  moreover from this inv have "ContainsKey (slice_range s) (GetKey t)" by (auto simp: slice_inv_def dest: cover_within)
  ultimately show "loads s t" using i(3) by (simp add: loads_def Scope_Contains_def)
qed

lemma SelectTasks_exchanges:
  assumes inv: "slice_inv g s" and bk: "slice_backed provider ts s" and sel: "SelectTasks provider n s = Some (Inr (res, s'))"
  shows "slice_inv g s' \<and> exchanges (set ts) {} s s'"
proof (cases "slice_iterators s = []")
  case True
  with sel inv show ?thesis by (auto simp: SelectTasks_def slice_inv_def exchanges_def)
next
  case False
  with sel inv have "select_loop provider n s [] = Some (Inr (res, s'))" by (auto simp: SelectTasks_def slice_inv_def)
  with select_loop_ok [OF inv bk, of "[]" n] have s': "slice_inv g s'" "slice_scope s' = slice_scope s"
    "to_select ts s' = drop n (to_select ts s)"
    "dom (tracked (slice_tracker s')) = dom (tracked (slice_tracker s)) \<union> GetKey ` set (take n (to_select ts s))"
    "\<And>k e. tracked (slice_tracker s') k = Some e \<Longrightarrow> tracked (slice_tracker s) k = Some e \<or>
        (\<exists>t \<in> set (to_select ts s). k = GetKey t \<and> e = NewExecutable t)" by auto
  have "covers [s'] t" if t: "t \<in> set ts" and cov: "covers [s] t" for t
  proof (cases "GetKey t \<in> dom (tracked (slice_tracker s'))")
    case True
    then show ?thesis by (auto simp: covers_def holds_def)
  next
    case False
    with cov s'(4) have "loads s t" "t \<notin> set (take n (to_select ts s))" by (auto simp: covers_def holds_def)
    then have "t \<in> set (drop n (to_select ts s))"
      using to_select_loads [OF inv t] by (metis Un_iff append_take_drop_id set_append)
    then have "loads s' t" using to_select_loads [OF s'(1) t] s'(3) by simp
    then show ?thesis by (simp add: covers_def)
  qed
  moreover have "held_from D [s']" if "held_from D [s]" "set ts \<subseteq> D" for D
    using that s'(5) by (fastforce simp: held_from_def holds_def NewExecutable_def exec_key_def to_select_def unread_def in_range_def)
  moreover have "acked [s] k" if "acked [s'] k" for k
    using that s'(5) by (fastforce simp: acked_def holds_def NewExecutable_def)
  ultimately show ?thesis using s'(1,2) by (simp add: exchanges_def)
qed

lemma log_slices [simp]: "slices (log_event e r) = slices r" "slices (reader_notify r) = slices r" "slices (pauseLocked p r) = slices r"
  "slices (reader_submit env r x) = slices r" "slices (foldl (reader_submit env) r xs) = slices r"
  by (simp_all add: log_event_def reader_notify_def pauseLocked_def reader_submit_def)
    (induction xs arbitrary: r, auto simp: reader_submit_def log_event_def)

definition selects_one :: "'e reader_env \<Rightarrow> 'e queue_slice list \<Rightarrow> 'e queue_slice list \<Rightarrow> bool" where
  "selects_one env ss ss' \<longleftrightarrow> ss' = ss \<or>
     (\<exists>i res s'. i < length ss \<and> SelectTasks (env_provider env) (BatchSize env) (ss ! i) = Some (Inr (res, s')) \<and> ss' = ss[i := s'])"

lemma set_cursor_selects:
  assumes "cursor_slice r = Some s" "SelectTasks (env_provider env) (BatchSize env) s = Some (Inr (res, s'))"
  shows "selects_one env (slices r) (slices (set_cursor_slice s' r))"
proof (cases "nextReadSlice r")
  case (AtSlice i)
  with assms show ?thesis
    by (cases "i < length (slices r)") (auto simp: selects_one_def cursor_slice_def set_cursor_slice_def list_update_beyond not_less)
qed (use assms in \<open>auto simp: selects_one_def cursor_slice_def set_cursor_slice_def\<close>)

lemma load_selects:
  assumes "loadAndSubmitTasks env r0 = Some (Inr r')"
  shows "selects_one env (slices r0) (slices r')"
proof (cases "rateLimitContextDone env")
  case True
  with assms show ?thesis by (simp add: loadAndSubmitTasks_def selects_one_def)
next
  case False
  define r where "r = (if \<not> verifyPendingTaskSize env then pauseLocked PollBackoff r0 else r0)"
  have r0: "slices r = slices r0" by (simp add: r_def)
  show ?thesis
  proof (cases "throttled r \<or> cursor_slice r = None")
    case True
    with assms False r0 show ?thesis
      by (auto simp: loadAndSubmitTasks_def selects_one_def Let_def r_def [symmetric] split: if_splits)
  next
    case ready: False
    then obtain s where s: "\<not> throttled r" "cursor_slice r = Some s" by auto
    obtain x where sel: "SelectTasks (env_provider env) (BatchSize env) s = Some (Inr x)"
      using assms False s by (auto simp: loadAndSubmitTasks_def Let_def r_def [symmetric] split: option.splits sum.splits)
    obtain res s' where x: "x = (res, s')" by (cases x)
    note one = set_cursor_selects [OF s(2) sel [unfolded x]]
    have "slices r' = slices (set_cursor_slice s' r)"
      using assms False s sel x
      by (auto simp: loadAndSubmitTasks_def Let_def r_def [symmetric] bind_result_Inr_iff split: sum.splits if_splits)
    with one r0 show ?thesis by simp
  qed
qed

lemma eventLoop_selects:
  "eventLoop_step env r = Some (Inr r') \<Longrightarrow> selects_one env (slices r) (slices r')"
  using load_selects [of env "r\<lparr>notified := False\<rparr>" r']
  by (auto simp: eventLoop_step_def selects_one_def split: if_splits)

section \<open>The system\<close>

record 'e world =
  written :: "task set"
  stored :: "task set"
  acks :: "task set"
  saved :: "proto_queue_state option"
  queue :: "'e queue_base"
  highRead :: task_key

fun apply_call :: "persistence_call \<Rightarrow> 'e world \<Rightarrow> 'e world" where
  "apply_call (RangeCompleteHistoryTasks lo hi) w = w\<lparr>stored := {t \<in> stored w. \<not> (lo \<le> GetKey t \<and> GetKey t < hi)}\<rparr>"
| "apply_call (SetQueueState n p) w = w\<lparr>saved := Some p\<rparr>"

text \<open>
  The shard promises that a task is written at or above any watermark it has reported, under a key of
  its own (\<open>TaskKeyManager\<close>); the watermarks are times and IDs that fit their types. A reader loads what the store holds (\<open>slice_backed\<close>). A call to
  persistence that returned an error may or may not have taken effect: any of the calls may be missing.
\<close>

inductive world_step :: "'e queue_env \<Rightarrow> 'e world \<Rightarrow> 'e world \<Rightarrow> bool" for env where
  write_task: "highRead w \<le> GetKey t \<Longrightarrow> 0 \<le> TaskID (GetKey t) \<Longrightarrow> GetKey t \<notin> GetKey ` written w \<Longrightarrow>
    world_step env w (w\<lparr>written := insert t (written w), stored := insert t (stored w)\<rparr>)"
| watermark: "highRead w \<le> k \<Longrightarrow> world_step env w (w\<lparr>highRead := k\<rparr>)"
| new_range: "newMaxKey \<le> highRead w \<Longrightarrow> valid_key newMaxKey \<Longrightarrow> processNewRange env newMaxKey now (queue w) = Inr q \<Longrightarrow>
    world_step env w (w\<lparr>queue := q\<rparr>)"
| load: "ReaderByID (readerGroup (queue w)) readerID = Some r \<Longrightarrow> eventLoop_step renv r = Some (Inr r') \<Longrightarrow>
    set ts = stored w \<Longrightarrow> \<forall>s \<in> set (slices r). slice_backed (env_provider renv) ts s \<Longrightarrow>
    world_step env w (w\<lparr>queue := put_in_queue readerID r' (queue w)\<rparr>)"
| unthrottle: "ReaderByID (readerGroup (queue w)) readerID = Some r \<Longrightarrow>
    world_step env w (w\<lparr>queue := put_in_queue readerID (throttle_timer_fires r) (queue w)\<rparr>)"
| ack: "ReaderByID (readerGroup (queue w)) readerID = Some r \<Longrightarrow> i < length (slices r) \<Longrightarrow>
    holds (slices r ! i) k e \<Longrightarrow> State e = TaskStatePending \<Longrightarrow>
    world_step env w (w\<lparr>queue := put_in_queue readerID (ack_in_reader i k r) (queue w), acks := insert (GetTask e) (acks w)\<rparr>)"
| checkpoint: "checkpoint env newRangeID completeOk (queue w) = Inr (calls, q) \<Longrightarrow> applied \<in> set (subseqs calls) \<Longrightarrow>
    world_step env w (fold apply_call applied (w\<lparr>queue := q\<rparr>))"
| alert: "\<forall>a. al = Some a \<longrightarrow> alert_ok a \<Longrightarrow> handleAlert env al newRangeID completeOk (queue w) = Inr (calls, q) \<Longrightarrow> applied \<in> set (subseqs calls) \<Longrightarrow>
    world_step env w (fold apply_call applied (w\<lparr>queue := q\<rparr>))"
| restart: "newQueueBase env (saved w) = Inr q \<Longrightarrow> world_step env w (w\<lparr>queue := Start_queue q\<rparr>)"

definition world_init :: "'e queue_env \<Rightarrow> 'e world \<Rightarrow> bool" where
  "world_init env w \<longleftrightarrow> written w = {} \<and> stored w = {} \<and> acks w = {} \<and> saved w = None \<and>
     (\<exists>q. newQueueBase env None = Inr q \<and> queue w = Start_queue q) \<and> readMax (queue w) \<le> highRead w"

text \<open>The state that a restart reads.\<close>

definition loaded_state :: "'e queue_env \<Rightarrow> proto_queue_state option \<Rightarrow> queue_panic + queue_state" where
  "loaded_state env persisted =
     (case persisted of Some state \<Rightarrow> FromPersistenceQueueState state | None \<Rightarrow> initial_state env)"

definition saved_inv :: "'e queue_env \<Rightarrow> 'e world \<Rightarrow> bool" where
  "saved_inv env w \<longleftrightarrow>
     (\<exists>st. loaded_state env (saved w) = Inr st \<and> state_ok st \<and> exclusiveReaderHighWatermark st \<le> highRead w \<and>
       (\<forall>t \<in> written w. t \<in> acks w \<or> state_covers st t))"

definition memory_inv :: "'e queue_env \<Rightarrow> 'e world \<Rightarrow> bool" where
  "memory_inv env w \<longleftrightarrow>
     queue_ok (q_grouper env) (queue w) \<and> readMax (queue w) \<le> highRead w \<and>
     held_from (written w) (queue_slices (queue w)) \<and>
     (\<forall>k. acked (queue_slices (queue w)) k \<longrightarrow> (\<exists>t \<in> acks w. GetKey t = k)) \<and>
     (\<forall>t \<in> written w. t \<in> acks w \<or> queue_covers (queue w) t)"

definition world_inv :: "'e queue_env \<Rightarrow> 'e world \<Rightarrow> bool" where
  "world_inv env w \<longleftrightarrow>
     memory_inv env w \<and> saved_inv env w \<and> inj_on GetKey (written w) \<and> acks w \<subseteq> written w \<and> stored w \<subseteq> written w \<and>
     (\<forall>t \<in> written w. 0 \<le> TaskID (GetKey t)) \<and> (\<forall>t \<in> written w. t \<in> acks w \<or> t \<in> stored w)"

section \<open>Every step keeps the invariant\<close>

lemma queue_slices_put:
  assumes "queue_ok g q" "ReaderByID (readerGroup q) k = Some r"
  shows "set (queue_slices q) = set (other_slices k (readerGroup q) @ slices r)"
    "set (queue_slices (put_in_queue k r' q)) = set (other_slices k (readerGroup q) @ slices r')"
  using assms all_slices_reader [of g "readMax q" "readerGroup q" k r] all_slices_put [of g "readMax q" "readerGroup q" k r']
  by (simp_all add: queue_ok_def put_in_queue_def)

lemma by_slices:
  "set ss = set qs \<Longrightarrow> covers ss t \<longleftrightarrow> covers qs t" "set ss = set qs \<Longrightarrow> held_from D ss \<longleftrightarrow> held_from D qs"
  "set ss = set qs \<Longrightarrow> acked ss k \<longleftrightarrow> acked qs k"
  by (simp_all add: covers_def held_from_def acked_def)

lemma put_exchange:
  assumes ok: "queue_ok g q" and r: "ReaderByID (readerGroup q) k = Some r"
    and i: "i < length (slices r)" and inv: "slice_inv g s'" and ex: "exchanges db new (slices r ! i) s'"
    and r': "slices r' = (slices r)[i := s']"
  shows "queue_ok g (put_in_queue k r' q)" "readMax (put_in_queue k r' q) = readMax q"
    "\<forall>t \<in> db. queue_covers q t \<longrightarrow> queue_covers (put_in_queue k r' q) t"
    "db \<subseteq> D \<Longrightarrow> held_from D (queue_slices q) \<Longrightarrow> held_from D (queue_slices (put_in_queue k r' q))"
    "acked (queue_slices (put_in_queue k r' q)) j \<Longrightarrow> acked (queue_slices q) j \<or> j \<in> new"
proof -
  from ok have rg: "group_ok g (readMax q) (readerGroup q)" by (simp add: queue_ok_def)
  have "slices_ok g (readMax q) (slices r')"
    unfolding r' by (rule slices_ok_exchange [OF group_ok_reader [OF rg r] i inv]) (use ex in \<open>simp add: exchanges_def\<close>)
  from group_ok_put [OF rg this] show "queue_ok g (put_in_queue k r' q)" using ok by (simp add: queue_ok_def put_in_queue_def)
  show max: "readMax (put_in_queue k r' q) = readMax q" by (simp add: put_in_queue_def)
  note sets = queue_slices_put [OF ok r]
  note e = exchange_slices [OF i ex, folded r']
  show "\<forall>t \<in> db. queue_covers q t \<longrightarrow> queue_covers (put_in_queue k r' q) t"
    using e(1) unfolding queue_covers_def max by_slices(1) [OF sets(1)] by_slices(1) [OF sets(2)] by auto
  show "db \<subseteq> D \<Longrightarrow> held_from D (queue_slices q) \<Longrightarrow> held_from D (queue_slices (put_in_queue k r' q))"
    using e(2) [of D] unfolding by_slices(2) [OF sets(1)] by_slices(2) [OF sets(2)] by auto
  show "acked (queue_slices (put_in_queue k r' q)) j \<Longrightarrow> acked (queue_slices q) j \<or> j \<in> new"
    using e(3) [of j] unfolding by_slices(3) [OF sets(1)] by_slices(3) [OF sets(2)] by auto
qed

lemma put_same:
  assumes ok: "queue_ok g q" and r: "ReaderByID (readerGroup q) k = Some r" and r': "slices r' = slices r"
  shows "queue_ok g (put_in_queue k r' q)" "readMax (put_in_queue k r' q) = readMax q" "queue_carries db q (put_in_queue k r' q)"
proof -
  from ok have rg: "group_ok g (readMax q) (readerGroup q)" by (simp add: queue_ok_def)
  from group_ok_reader [OF rg r] r' have "slices_ok g (readMax q) (slices r')" by simp
  from group_ok_put [OF rg this] show "queue_ok g (put_in_queue k r' q)" using ok by (simp add: queue_ok_def put_in_queue_def)
  show max: "readMax (put_in_queue k r' q) = readMax q" by (simp add: put_in_queue_def)
  show "queue_carries db q (put_in_queue k r' q)"
    by (rule carries_queue [OF carries_same_set max]) (use queue_slices_put [OF ok r] r' in simp)
qed

text \<open>What a queue covers is above the start of one of its slices, or not readable.\<close>

lemma queue_covers_scope:
  assumes w: "memory_inv env w" "inj_on GetKey (written w)" and t: "t \<in> written w" "queue_covers (queue w) t"
  shows "readMax (queue w) \<le> GetKey t \<or> (\<exists>s \<in> set (queue_slices (queue w)). Scope_Contains (slice_scope s) t)"
proof (cases "readMax (queue w) \<le> GetKey t")
  case False
  with t(2) obtain s where s: "s \<in> set (queue_slices (queue w))" "loads s t \<or> (\<exists>e. holds s (GetKey t) e)"
    by (auto simp: queue_covers_def covers_def)
  then have inv: "slice_inv (q_grouper env) s"
    using w(1) slices_ok_invs by (fastforce simp: memory_inv_def queue_ok_def group_ok_def set_all_slices)
  show ?thesis
  proof (cases "loads s t")
    case True
    with s(1) show ?thesis by (auto simp: loads_def)
  next
    case False
    with s(2) obtain e where e: "holds s (GetKey t) e" by blast
    with s(1) w(1) have "GetTask e \<in> written w" "exec_key e = GetKey t" by (auto simp: memory_inv_def held_from_def)
    then have "GetTask e = t" using w(2) t(1) by (auto simp: exec_key_def dest: inj_onD)
    moreover have "Scope_Contains (slice_scope s) (GetTask e)" using inv e by (simp add: slice_inv_def holds_def)
    ultimately show ?thesis using s(1) by auto
  qed
qed simp

lemma apply_call_ok:
  assumes env: "queue_env_ok env" and w: "world_inv env w" and c: "call_ok (q_keys env) (queue w) c"
  shows "world_inv env (apply_call c w) \<and> queue (apply_call c w) = queue w"
proof (cases c)
  case (RangeCompleteHistoryTasks lo hi)
  have "t \<in> acks w \<or> t \<in> stored w \<and> \<not> (lo \<le> GetKey t \<and> GetKey t < hi)" if t: "t \<in> written w" for t
  proof (rule ccontr)
    assume no: "\<not> ?thesis"
    with w t have "queue_covers (queue w) t" "GetKey t < hi" "0 \<le> TaskID (GetKey t)" by (auto simp: world_inv_def memory_inv_def)
    moreover have "readMax (queue w) \<le> GetKey t \<or> (\<exists>s \<in> set (queue_slices (queue w)). smin s \<le> GetKey t)"
      using queue_covers_scope [of env w t] w t calculation(1) by (auto simp: world_inv_def Scope_Contains_def range_simps)
    moreover from c calculation(2,3) have "GetKey t < readMax (queue w)" "\<forall>s \<in> set (queue_slices (queue w)). GetKey t < smin s"
      by (auto simp: RangeCompleteHistoryTasks)
    ultimately show False by (meson leD)
  qed
  with w show ?thesis by (auto simp: RangeCompleteHistoryTasks world_inv_def memory_inv_def saved_inv_def)
next
  case (SetQueueState n p)
  with c obtain st where st: "p = ToPersistenceQueueState (q_keys env) st" "state_ok st"
    "exclusiveReaderHighWatermark st = readMax (queue w)"
    "\<forall>s \<in> set (queue_slices (queue w)). \<exists>(k, scs) \<in> set (readerScopes st). slice_scope s \<in> set scs" by auto
  have "FromPersistenceQueueState p = Inr st"
    unfolding st(1) by (rule state_roundtrip) (use st(2) queue_env_okD [OF env] in \<open>auto simp: state_ok_def scopes_ok_def valid_scope_proper\<close>)
  then have "loaded_state env (Some p) = Inr st" by (simp add: loaded_state_def)
  moreover have "t \<in> acks w \<or> state_covers st t" if t: "t \<in> written w" for t
  proof (cases "t \<in> acks w")
    case False
    with w t have "queue_covers (queue w) t" by (auto simp: world_inv_def memory_inv_def)
    with queue_covers_scope [of env w t] w t consider "readMax (queue w) \<le> GetKey t"
      | s where "s \<in> set (queue_slices (queue w))" "Scope_Contains (slice_scope s) t" by (auto simp: world_inv_def)
    then show ?thesis
    proof cases
      case 1
      with st(3) show ?thesis by (simp add: state_covers_def)
    next
      case 2
      with st(4) show ?thesis by (force simp: state_covers_def)
    qed
  qed simp
  moreover have "exclusiveReaderHighWatermark st \<le> highRead w" using w st(3) by (simp add: world_inv_def memory_inv_def)
  ultimately show ?thesis using w st(2) by (auto simp: SetQueueState world_inv_def memory_inv_def saved_inv_def)
qed

lemma apply_calls_ok:
  assumes env: "queue_env_ok env" and "world_inv env w" "\<forall>c \<in> set cs. call_ok (q_keys env) (queue w) c"
  shows "world_inv env (fold apply_call cs w)"
  using assms(2,3)
proof (induction cs arbitrary: w)
  case (Cons c cs)
  with apply_call_ok [OF env Cons.prems(1), of c] show ?case by simp
qed simp

lemma carried_inv:
  assumes w: "world_inv env w" and ok: "queue_ok (q_grouper env) q" and max: "readMax q \<le> highRead w"
    and car: "queue_carries (written w) (queue w) q"
  shows "world_inv env (w\<lparr>queue := q\<rparr>)"
proof -
  from w have mem: "memory_inv env w" "inj_on GetKey (written w)" "acks w \<subseteq> written w" by (auto simp: world_inv_def)
  then have held: "held_from (written w) (queue_slices (queue w))" by (simp add: memory_inv_def)
  have "t \<in> acks w \<or> queue_covers q t" if t: "t \<in> written w" for t
  proof (rule ccontr)
    assume no: "\<not> ?thesis"
    with mem(1) t have "queue_covers (queue w) t" by (auto simp: memory_inv_def)
    with car held no t have "acked (queue_slices (queue w)) (GetKey t)" by (auto simp: queue_carries_def)
    with mem(1) obtain t' where "t' \<in> acks w" "GetKey t' = GetKey t" by (auto simp: memory_inv_def)
    with mem(2,3) t no show False by (metis inj_onD subsetD)
  qed
  moreover have "held_from (written w) (queue_slices q)" using car held by (simp add: queue_carries_def)
  moreover have "\<exists>t \<in> acks w. GetKey t = k" if "acked (queue_slices q) k" for k
    using that car held mem(1) unfolding queue_carries_def memory_inv_def by blast
  ultimately show ?thesis using w ok max by (auto simp: world_inv_def memory_inv_def saved_inv_def)
qed

lemma write_inv:
  assumes w: "world_inv env w" and t: "highRead w \<le> GetKey t" "0 \<le> TaskID (GetKey t)" "GetKey t \<notin> GetKey ` written w"
  shows "world_inv env (w\<lparr>written := insert t (written w), stored := insert t (stored w)\<rparr>)"
proof -
  from w t(1) have "readMax (queue w) \<le> GetKey t" by (auto simp: world_inv_def memory_inv_def)
  then have "queue_covers (queue w) t" by (simp add: queue_covers_def)
  moreover from w have "held_from (insert t (written w)) (queue_slices (queue w))"
    by (auto simp: world_inv_def memory_inv_def held_from_def)
  ultimately have "memory_inv env (w\<lparr>written := insert t (written w), stored := insert t (stored w)\<rparr>)"
    using w by (auto simp: world_inv_def memory_inv_def)
  moreover have "saved_inv env (w\<lparr>written := insert t (written w), stored := insert t (stored w)\<rparr>)"
  proof -
    from w obtain st where "loaded_state env (saved w) = Inr st" "state_ok st" "exclusiveReaderHighWatermark st \<le> highRead w"
      "\<forall>t \<in> written w. t \<in> acks w \<or> state_covers st t" by (auto simp: world_inv_def saved_inv_def)
    with t(1) show ?thesis by (auto simp: saved_inv_def state_covers_def)
  qed
  ultimately show ?thesis using w t by (auto simp: world_inv_def)
qed

lemma exchange_inv:
  assumes w: "world_inv env w" and r: "ReaderByID (readerGroup (queue w)) k = Some r" and i: "i < length (slices r)"
    and inv: "slice_inv (q_grouper env) s'" and ex: "exchanges (stored w) (GetKey ` new) (slices r ! i) s'"
    and r': "slices r' = (slices r)[i := s']" and new: "new \<subseteq> written w"
  shows "world_inv env (w\<lparr>queue := put_in_queue k r' (queue w), acks := new \<union> acks w\<rparr>)"
proof -
  from w have mem: "memory_inv env w" and sub: "stored w \<subseteq> written w" "acks w \<subseteq> written w" "\<forall>t \<in> written w. t \<in> acks w \<or> t \<in> stored w"
    by (auto simp: world_inv_def)
  then have ok: "queue_ok (q_grouper env) (queue w)" by (simp add: memory_inv_def)
  note p = put_exchange [OF ok r i inv ex r']
  have "held_from (written w) (queue_slices (put_in_queue k r' (queue w)))"
    using p(4) [OF sub(1)] mem by (simp add: memory_inv_def)
  moreover have "\<exists>t \<in> new \<union> acks w. GetKey t = j" if "acked (queue_slices (put_in_queue k r' (queue w))) j" for j
    using p(5) [OF that] mem unfolding memory_inv_def by blast
  moreover have "t \<in> new \<union> acks w \<or> queue_covers (put_in_queue k r' (queue w)) t" if "t \<in> written w" for t
    using that p(3) sub(3) mem unfolding memory_inv_def by blast
  ultimately have "memory_inv env (w\<lparr>queue := put_in_queue k r' (queue w), acks := new \<union> acks w\<rparr>)"
    using mem p(1,2) by (simp add: memory_inv_def)
  moreover have "saved_inv env (w\<lparr>queue := put_in_queue k r' (queue w), acks := new \<union> acks w\<rparr>)"
    using w by (auto simp: world_inv_def saved_inv_def)
  ultimately show ?thesis using w new by (auto simp: world_inv_def)
qed

lemma load_inv:
  assumes w: "world_inv env w" and r: "ReaderByID (readerGroup (queue w)) k = Some r" and step: "eventLoop_step renv r = Some (Inr r')"
    and ts: "set ts = stored w" and bk: "\<forall>s \<in> set (slices r). slice_backed (env_provider renv) ts s"
  shows "world_inv env (w\<lparr>queue := put_in_queue k r' (queue w)\<rparr>)"
proof -
  from w have ok: "queue_ok (q_grouper env) (queue w)" and max: "readMax (queue w) \<le> highRead w" by (auto simp: world_inv_def memory_inv_def)
  from ok r have inv: "\<forall>s \<in> set (slices r). slice_inv (q_grouper env) s"
    by (intro slices_ok_invs [OF group_ok_reader]) (auto simp: queue_ok_def)
  from eventLoop_selects [OF step] consider "slices r' = slices r"
    | i res s' where "i < length (slices r)" "SelectTasks (env_provider renv) (BatchSize renv) (slices r ! i) = Some (Inr (res, s'))"
      "slices r' = (slices r)[i := s']" by (auto simp: selects_one_def)
  then show ?thesis
  proof cases
    case 1
    from put_same [OF ok r 1] max show ?thesis by (intro carried_inv [OF w]) auto
  next
    case 2
    from SelectTasks_exchanges [OF _ _ 2(2), of "q_grouper env" ts] inv bk 2(1) ts
    have "slice_inv (q_grouper env) s'" "exchanges (stored w) (GetKey ` {}) (slices r ! i) s'" by auto
    from exchange_inv [OF w r 2(1) this 2(3)] show ?thesis by simp
  qed
qed

lemma ack_inv:
  assumes w: "world_inv env w" and r: "ReaderByID (readerGroup (queue w)) readerID = Some r" and i: "i < length (slices r)"
    and e: "holds (slices r ! i) k e"
  shows "world_inv env (w\<lparr>queue := put_in_queue readerID (ack_in_reader i k r) (queue w), acks := insert (GetTask e) (acks w)\<rparr>)"
proof -
  from w have mem: "memory_inv env w" by (simp add: world_inv_def)
  then have ok: "queue_ok (q_grouper env) (queue w)" and held: "held_from (written w) (queue_slices (queue w))" by (auto simp: memory_inv_def)
  from i have s: "slices r ! i \<in> set (slices r)" by simp
  then have "slices r ! i \<in> set (queue_slices (queue w))" using queue_slices_put(1) [OF ok r] by auto
  with held e have t: "GetTask e \<in> written w" "GetKey (GetTask e) = k" by (auto simp: held_from_def exec_key_def)
  from ok r s have "slice_inv (q_grouper env) (slices r ! i)"
    using slices_ok_invs [OF group_ok_reader] unfolding queue_ok_def by blast
  from exchange_inv [OF w r i ack_slice_inv [OF this, of k], where new = "{GetTask e}" and r' = "ack_in_reader i k r"] t ack_exchanges [of "stored w" k "slices r ! i"]
  show ?thesis by (simp add: ack_in_reader_def)
qed

lemma Start_queue_slices [simp]: "queue_slices (Start_queue q) = queue_slices q" "readMax (Start_queue q) = readMax q"
  by (auto simp: Start_queue_def Start_group_def all_slices_def Start_reader_def reader_notify_def intro!: arg_cong [where f = concat])

lemma Start_queue_ok: "queue_ok g q \<Longrightarrow> queue_ok g (Start_queue q)"
proof -
  assume ok: "queue_ok g q"
  have keys: "map fst (readerMap (readerGroup (Start_queue q))) = map fst (readerMap (readerGroup q))"
    by (auto simp: Start_queue_def Start_group_def)
  have all: "(\<forall>(k, r) \<in> set (readerMap (readerGroup (Start_queue q))). slices_ok g M (slices r)) \<longleftrightarrow>
      (\<forall>(k, r) \<in> set (readerMap (readerGroup q)). slices_ok g M (slices r))" for M
    by (auto simp: Start_queue_def Start_group_def Start_reader_def reader_notify_def split: prod.splits)
  have "group_ok g (readMax q) (readerGroup (Start_queue q))"
    using ok unfolding queue_ok_def group_ok_def keys all [of "readMax q"] by blast
  with ok show ?thesis by (simp add: queue_ok_def Start_queue_def)
qed

lemma restart_inv:
  assumes env: "queue_env_ok env" and w: "saved_inv env w" and rest: "inj_on GetKey (written w)" "acks w \<subseteq> written w" "stored w \<subseteq> written w"
    "\<forall>t \<in> written w. 0 \<le> TaskID (GetKey t)" "\<forall>t \<in> written w. t \<in> acks w \<or> t \<in> stored w"
    and q: "newQueueBase env (saved w) = Inr q"
  shows "world_inv env (w\<lparr>queue := Start_queue q\<rparr>)"
proof -
  from w obtain st where st: "loaded_state env (saved w) = Inr st" "state_ok st" "exclusiveReaderHighWatermark st \<le> highRead w"
    "\<forall>t \<in> written w. t \<in> acks w \<or> state_covers st t" by (auto simp: saved_inv_def)
  from newQueueBase_state [OF env st(2), of "saved w"] st(1) q have
    "queue_ok (q_grouper env) q" "readMax q = exclusiveReaderHighWatermark st" "\<forall>t. state_covers st t \<longrightarrow> queue_covers q t"
    "\<forall>s \<in> set (queue_slices q). \<forall>k e. \<not> holds s k e" by (auto simp: loaded_state_def)
  then have "memory_inv env (w\<lparr>queue := Start_queue q\<rparr>)"
    using st(3,4) Start_queue_ok by (auto simp: memory_inv_def queue_covers_def held_from_def acked_def)
  with w rest show ?thesis by (simp add: world_inv_def saved_inv_def)
qed

lemma init_inv:
  assumes env: "queue_env_ok env" and w: "world_init env w"
  shows "world_inv env w"
proof -
  from w obtain q where q: "newQueueBase env None = Inr q" "queue w = Start_queue q" by (auto simp: world_init_def)
  from initial_state_ok [of env] obtain st where st: "initial_state env = Inr st" "state_ok st" by blast
  from newQueueBase_state [OF env st(2), of None] st(1) q w
  have "exclusiveReaderHighWatermark st \<le> highRead w" by (auto simp: world_init_def)
  with st w have "saved_inv env w" by (simp add: saved_inv_def loaded_state_def world_init_def)
  from restart_inv [OF env this _ _ _ _ _, of q] w q have "world_inv env (w\<lparr>queue := Start_queue q\<rparr>)"
    by (simp add: world_init_def)
  moreover have "w\<lparr>queue := Start_queue q\<rparr> = w" using q(2) by (cases w) simp
  ultimately show ?thesis by simp
qed

lemma world_step_inv:
  assumes env: "queue_env_ok env" and step: "world_step env w w'" and w: "world_inv env w"
  shows "world_inv env w'"
  using step w
proof cases
  case (write_task t)
  with write_inv [OF w] show ?thesis by simp
next
  case (watermark k)
  with w show ?thesis by (auto simp: world_inv_def memory_inv_def saved_inv_def)
next
  case (new_range newMaxKey now q)
  from w have ok: "queue_ok (q_grouper env) (queue w)" and max: "readMax (queue w) \<le> highRead w" by (auto simp: world_inv_def memory_inv_def)
  from processNewRange_ok [OF env ok new_range(3), of now "written w"] new_range(4) have
    "queue_ok (q_grouper env) q" "queue_carries (written w) (queue w) q"
    "readMax q = (if readMax (queue w) \<le> newMaxKey \<and> newMaxKey \<le> MaximumKey then newMaxKey else readMax (queue w))" by auto
  with carried_inv [OF w, of q] max new_range(1,2) show ?thesis by auto
next
  case (load readerID r renv r' ts)
  with load_inv [OF w] show ?thesis by blast
next
  case (unthrottle readerID r)
  from w have ok: "queue_ok (q_grouper env) (queue w)" and max: "readMax (queue w) \<le> highRead w" by (auto simp: world_inv_def memory_inv_def)
  have "slices (throttle_timer_fires r) = slices r" by (simp add: throttle_timer_fires_def)
  from put_same [OF ok unthrottle(2) this] max carried_inv [OF w] unthrottle(1) show ?thesis by simp
next
  case (ack readerID r i k e)
  with ack_inv [OF w] show ?thesis by blast
next
  case (checkpoint newRangeID completeOk calls q applied)
  from w have ok: "queue_ok (q_grouper env) (queue w)" and max: "readMax (queue w) \<le> highRead w" by (auto simp: world_inv_def memory_inv_def)
  from checkpoint_ok [OF env ok, of newRangeID completeOk "written w"] checkpoint(2) have
    q: "queue_ok (q_grouper env) q" "readMax q = readMax (queue w)" "carries (written w) (queue_slices (queue w)) (queue_slices q)"
    "\<forall>c \<in> set calls. call_ok (q_keys env) q c" by auto
  have "world_inv env (w\<lparr>queue := q\<rparr>)" using max q(2) by (intro carried_inv [OF w q(1) _ carries_queue [OF q(3,2)]]) simp
  moreover have "set applied \<subseteq> set calls" using checkpoint(3) subseqs_powset [of calls] by blast
  ultimately show ?thesis using apply_calls_ok [OF env, of "w\<lparr>queue := q\<rparr>" applied] q(4) checkpoint(1) by auto
next
  case (alert al newRangeID completeOk calls q applied)
  from w have ok: "queue_ok (q_grouper env) (queue w)" and max: "readMax (queue w) \<le> highRead w" and inj: "inj_on GetKey (written w)"
    by (auto simp: world_inv_def memory_inv_def)
  from handleAlert_ok [OF env ok inj alert(2), of newRangeID completeOk] alert(3) have
    q: "queue_ok (q_grouper env) q" "readMax q = readMax (queue w)" "carries (written w) (queue_slices (queue w)) (queue_slices q)"
    "\<forall>c \<in> set calls. call_ok (q_keys env) q c" by auto
  have "world_inv env (w\<lparr>queue := q\<rparr>)" using max q(2) by (intro carried_inv [OF w q(1) _ carries_queue [OF q(3,2)]]) simp
  moreover have "set applied \<subseteq> set calls" using alert(4) subseqs_powset [of calls] by blast
  ultimately show ?thesis using apply_calls_ok [OF env, of "w\<lparr>queue := q\<rparr>" applied] q(4) alert(1) by auto
next
  case (restart q)
  with w restart_inv [OF env] show ?thesis by (simp add: world_inv_def)
qed

lemma world_reachable_inv:
  assumes env: "queue_env_ok env" and "world_init env w0" "(world_step env)\<^sup>*\<^sup>* w0 w"
  shows "world_inv env w"
  using assms(3)
proof (induction rule: rtranclp_induct)
  case base
  show ?case by (rule init_inv [OF env assms(2)])
next
  case (step w w')
  then show ?case using world_step_inv [OF env] by blast
qed

section \<open>Properties\<close>

text \<open>
  C1. No task is lost. In every state that is reached by writing, loading and acknowledging tasks, new
  ranges, alerts, checkpoints whose calls to persistence may or may not take effect, and restarts, a
  task that has been written and not acknowledged is in the store; a slice of the queue has it to load
  or holds its executable, or it is not readable yet; and the queue that a restart would load from the
  persisted state covers it too.
\<close>

theorem No_task_is_lost:
  assumes "queue_env_ok env" "world_init env w0" "(world_step env)\<^sup>*\<^sup>* w0 w" "t \<in> written w" "t \<notin> acks w"
  shows "t \<in> stored w \<and> queue_covers (queue w) t \<and> (\<exists>q. newQueueBase env (saved w) = Inr q \<and> queue_covers q t)"
proof -
  have w: "world_inv env w" by (rule world_reachable_inv [OF assms(1-3)])
  then obtain st where st: "loaded_state env (saved w) = Inr st" "state_ok st" "\<forall>t \<in> written w. t \<in> acks w \<or> state_covers st t"
    by (auto simp: world_inv_def saved_inv_def)
  from newQueueBase_state [OF assms(1) st(2), of "saved w"] st(1) obtain q where
    "newQueueBase env (saved w) = Inr q" "\<forall>t. state_covers st t \<longrightarrow> queue_covers q t" by (auto simp: loaded_state_def)
  with st(3) w assms(4,5) show ?thesis by (auto simp: world_inv_def memory_inv_def)
qed

text \<open>
  C8. The queue does not panic: in every state that is reached, a restart loads, a new range is
  processed for whatever watermark, a checkpoint ends for whatever the shard answers, and so does
  whatever alert of the monitor.
\<close>

theorem Queue_does_not_panic:
  assumes "queue_env_ok env" "world_init env w0" "(world_step env)\<^sup>*\<^sup>* w0 w"
    and "valid_key newMaxKey" "\<forall>a. al = Some a \<longrightarrow> alert_ok a"
  shows "(\<exists>q. newQueueBase env (saved w) = Inr q) \<and>
    (\<exists>q. processNewRange env newMaxKey now (queue w) = Inr q) \<and>
    (\<exists>calls q. checkpoint env newRangeID completeOk (queue w) = Inr (calls, q)) \<and>
    (\<exists>calls q. handleAlert env al newRangeID completeOk (queue w) = Inr (calls, q))"
proof -
  have w: "world_inv env w" by (rule world_reachable_inv [OF assms(1-3)])
  then have ok: "queue_ok (q_grouper env) (queue w)" and inj: "inj_on GetKey (written w)" by (auto simp: world_inv_def memory_inv_def)
  from w obtain st where st: "loaded_state env (saved w) = Inr st" "state_ok st" by (auto simp: world_inv_def saved_inv_def)
  from newQueueBase_state [OF assms(1) st(2), of "saved w"] st(1) have "\<exists>q. newQueueBase env (saved w) = Inr q"
    by (auto simp: loaded_state_def)
  with processNewRange_ok [OF assms(1) ok assms(4), of now "{}"] checkpoint_ok [OF assms(1) ok, of newRangeID completeOk "{}"]
    handleAlert_ok [OF assms(1) ok inj assms(5), of newRangeID completeOk]
  show ?thesis by blast
qed

definition sample_queue_env :: "unit queue_env" where
  "sample_queue_env = \<lparr>q_category = CategoryTypeImmediate, q_actions = sample_actions, q_keys = sorted_key_lists\<rparr>"

definition sample_queue :: "unit queue_base" where
  "sample_queue = \<lparr>lastRangeID = -1, exclusiveDeletionHighWatermark = Key 0 1,
     nonReadableScope = NewScope \<lparr>InclusiveMin = Key 0 1, ExclusiveMax = MaximumKey\<rparr> UniversalImpl,
     readerGroup = NewReaderGroup, nextForceNewSliceTime = 0\<rparr>"

definition sample_world :: "unit world" where
  "sample_world = \<lparr>written = {}, stored = {}, acks = {}, saved = None, queue = Start_queue sample_queue, highRead = Key 0 4\<rparr>"

lemma sample_env_ok: "queue_env_ok sample_queue_env"
  by (simp add: queue_env_ok_def sample_queue_env_def sample_actions_ok sorted_key_lists_ok)

lemma sample_world_init: "world_init sample_queue_env sample_world"
proof -
  have "newQueueBase sample_queue_env None = Inr sample_queue"
    by (simp add: newQueueBase_def initial_state_def sample_queue_env_def sample_queue_def NextKey_initial Let_def NewRange_Inr_iff,
        simp add: NewKey_def DefaultFireTime_def NewRange_def MaximumKey_def key_less_iff MaxInt64_def)
  then show ?thesis
    by (simp add: world_init_def sample_world_def key_le_iff) (simp add: sample_queue_def NewScope_def key_le_iff)
qed

lemma sample_world_write:
  "world_step sample_queue_env sample_world
     (sample_world\<lparr>written := {sample_task 5 ''a''}, stored := {sample_task 5 ''a''}\<rparr>)"
  using world_step.write_task [of sample_world "sample_task 5 ''a''" sample_queue_env]
  by (simp add: sample_world_def sample_task_def key_le_iff)

theorem No_task_is_lost_witness:
  "let w = sample_world\<lparr>written := {sample_task 5 ''a''}, stored := {sample_task 5 ''a''}\<rparr>; t = sample_task 5 ''a''
   in t \<in> stored w \<and> queue_covers (queue w) t \<and> (\<exists>q. newQueueBase sample_queue_env (saved w) = Inr q \<and> queue_covers q t)"
  unfolding Let_def
  by (rule No_task_is_lost [OF sample_env_ok sample_world_init r_into_rtranclp [where r = "world_step sample_queue_env", OF sample_world_write]])
    (simp_all add: sample_world_def)

theorem Queue_does_not_panic_witness:
  "\<exists>calls q. handleAlert sample_queue_env (Some (SliceCountAlert 0)) 7 True (queue sample_world) = Inr (calls, q)"
  using Queue_does_not_panic [OF sample_env_ok sample_world_init rtranclp.rtrancl_refl, of "Key 0 9" "Some (SliceCountAlert 0)" 0 7 True]
  by (simp add: MaxInt64_def alert_ok_def)

end
