(* ===== verification/TaskKeyManager.thy ===== *)
theory TaskKeyManager
  imports TaskKey "HOL-Library.AList"
begin

text \<open>
  The keys of new tasks and the watermark below which no task will be written any more:
  \<open>service/history/shard/task_key_generator.go\<close>, \<open>task_request_tracker.go\<close>, \<open>task_key_manager.go\<close>. The clock
  and the renewal of the range ID, a call to persistence, are arguments. The maps of tasks of one request
  are one list of categories with their tasks, in the order in which they are iterated; whether a
  category is immediate or scheduled is a function of the category.
\<close>

section \<open>Tasks and state\<close>

record new_task =
  NewTaskID :: int
  VisibilityTime :: int

type_synonym 'c task_map = "('c \<times> new_task list) list"

text \<open>\<open>GetKey\<close> of the tasks of a category.\<close>

definition new_task_key :: "category_type \<Rightarrow> new_task \<Rightarrow> task_key" where
  "new_task_key ty t = (case ty of
     CategoryTypeImmediate \<Rightarrow> NewImmediateKey (NewTaskID t)
   | CategoryTypeScheduled \<Rightarrow> NewKey (VisibilityTime t) (NewTaskID t))"

definition taskIDUninitialized :: int where
  "taskIDUninitialized = -1"

record 'c key_manager =
  nextTaskID :: int
  exclusiveMaxTaskID :: int
  taskMinScheduledTime :: int
  pendingTaskKeys :: "'c \<Rightarrow> task_key list"
  inflightRequestCount :: int
  waiters :: nat

text \<open>The zero value of \<open>time.Time\<close>, the start of year 1.\<close>

definition zero_time :: int where
  "zero_time = -62135596800 * 10 ^ 9"

definition newTaskKeyManager :: "'c key_manager" where
  "newTaskKeyManager =
     \<lparr>nextTaskID = taskIDUninitialized, exclusiveMaxTaskID = taskIDUninitialized, taskMinScheduledTime = zero_time,
      pendingTaskKeys = (\<lambda>_. []), inflightRequestCount = 0, waiters = 0\<rparr>"

datatype 'err key_failure =
    RangeIDNotInitialized
  | RangeIDNotUpdated
  | RenewFailed 'err

section \<open>The tracker of requests\<close>

definition min_key_of :: "category_type \<Rightarrow> new_task list \<Rightarrow> task_key" where
  "min_key_of ty ts =
     foldl (\<lambda>minKey t. if CompareTo (new_task_key ty t) minKey < 0 then new_task_key ty t else minKey) MaximumKey ts"

fun min_keys :: "('c \<Rightarrow> category_type) \<Rightarrow> ('c \<times> task_key) list \<Rightarrow> 'c task_map \<Rightarrow> ('c \<times> task_key) list" where
  "min_keys ctype minKeyByCategory [] = minKeyByCategory"
| "min_keys ctype minKeyByCategory ((category, ts) # rest) =
     (let minKey = min_key_of (ctype category) ts in
      if CompareTo minKey MaximumKey = 0 then min_keys ctype minKeyByCategory rest
      else min_keys ctype
        (AList.update category
          (case map_of minKeyByCategory category of None \<Rightarrow> minKey | Some k \<Rightarrow> MinKey k minKey) minKeyByCategory) rest)"

text \<open>The result of \<open>track\<close> stands for the completion function that closes over it.\<close>

definition track :: "('c \<Rightarrow> category_type) \<Rightarrow> 'c task_map \<Rightarrow> 'c key_manager \<Rightarrow> ('c \<times> task_key) list \<times> 'c key_manager" where
  "track ctype tasks m =
     (let minKeys = min_keys ctype [] tasks in
      (minKeys,
       m\<lparr>inflightRequestCount := inflightRequestCount m + 1,
         pendingTaskKeys := foldl (\<lambda>p (c, k). p(c := List.insert k (p c))) (pendingTaskKeys m) minKeys\<rparr>))"

text \<open>\<open>definitive\<close>: persistence returned no error, or one that guarantees that nothing was written.\<close>

definition complete_request :: "('c \<times> task_key) list \<Rightarrow> bool \<Rightarrow> 'c key_manager \<Rightarrow> 'c key_manager" where
  "complete_request minKeys definitive m =
     (let m = (if definitive
               then m\<lparr>pendingTaskKeys := foldl (\<lambda>p (c, k). p(c := removeAll k (p c))) (pendingTaskKeys m) minKeys\<rparr> else m);
          m = m\<lparr>inflightRequestCount := inflightRequestCount m - 1\<rparr>
      in if inflightRequestCount m = 0 then m\<lparr>waiters := 0\<rparr> else m)"

definition minTaskKey :: "'c key_manager \<Rightarrow> 'c \<Rightarrow> task_key option" where
  "minTaskKey m c =
     (if pendingTaskKeys m c = [] then None
      else Some (foldl (\<lambda>minKey k. if CompareTo k minKey < 0 then k else minKey) MaximumKey (pendingTaskKeys m c)))"

text \<open>\<open>drain\<close> returns at once, or waits on a channel that is closed when no request is in flight.\<close>

definition drain_requests :: "'c key_manager \<Rightarrow> bool \<times> 'c key_manager" where
  "drain_requests m = (if inflightRequestCount m = 0 then (True, m) else (False, m\<lparr>waiters := Suc (waiters m)\<rparr>))"

definition clear_requests :: "'c key_manager \<Rightarrow> 'c key_manager" where
  "clear_requests m = m\<lparr>pendingTaskKeys := (\<lambda>_. []), inflightRequestCount := 0, waiters := 0\<rparr>"

section \<open>The generator of keys\<close>

definition setRangeID :: "nat \<Rightarrow> int \<Rightarrow> 'c key_manager \<Rightarrow> 'c key_manager" where
  "setRangeID rangeSizeBits rangeID m =
     clear_requests (m\<lparr>nextTaskID := i64 (rangeID * 2 ^ rangeSizeBits),
                       exclusiveMaxTaskID := i64 (i64 (rangeID + 1) * 2 ^ rangeSizeBits)\<rparr>)"

definition setTaskMinScheduledTime :: "int \<Rightarrow> 'c key_manager \<Rightarrow> 'c key_manager" where
  "setTaskMinScheduledTime t m = m\<lparr>taskMinScheduledTime := max (taskMinScheduledTime m) t\<rparr>"

text \<open>\<open>renew\<close> gives the new range ID for the range that is used up; the manager is then set to it.\<close>

definition generateTaskID ::
    "nat \<Rightarrow> (int \<Rightarrow> 'err + int) \<Rightarrow> 'c key_manager \<Rightarrow> 'c key_manager \<times> ('err key_failure + int)" where
  "generateTaskID rangeSizeBits renew m =
     (if nextTaskID m = taskIDUninitialized then (m, Inl RangeIDNotInitialized)
      else
        let next = (\<lambda>m. (m\<lparr>nextTaskID := i64 (nextTaskID m + 1)\<rparr>, Inr (nextTaskID m))) in
        if nextTaskID m = exclusiveMaxTaskID m then
          (case renew (exclusiveMaxTaskID m) of
             Inl err \<Rightarrow> (m, Inl (RenewFailed err))
           | Inr rangeID \<Rightarrow>
               let m = setRangeID rangeSizeBits rangeID m in
               if nextTaskID m = exclusiveMaxTaskID m then (m, Inl RangeIDNotUpdated) else next m)
        else next m)"

definition Truncate :: "int \<Rightarrow> int" where
  "Truncate t = t - t mod ScheduledTaskMinPrecision"

definition scheduled_time :: "category_type \<Rightarrow> int \<Rightarrow> 'c key_manager \<Rightarrow> new_task \<Rightarrow> int" where
  "scheduled_time ty now m t =
     (if ty = CategoryTypeScheduled then
        let taskScheduledTime = Truncate (VisibilityTime t + ScheduledTaskMinPrecision)
        in if taskScheduledTime < taskMinScheduledTime m then taskMinScheduledTime m + ScheduledTaskMinPrecision
           else taskScheduledTime
      else now)"

fun set_task_list ::
    "nat \<Rightarrow> (int \<Rightarrow> 'err + int) \<Rightarrow> category_type \<Rightarrow> int \<Rightarrow> new_task list \<Rightarrow> 'c key_manager \<Rightarrow>
     'c key_manager \<times> ('err key_failure + new_task list)" where
  "set_task_list bits renew ty now [] m = (m, Inr [])"
| "set_task_list bits renew ty now (t # ts) m =
     (case generateTaskID bits renew m of
        (m, Inl failure) \<Rightarrow> (m, Inl failure)
      | (m, Inr taskID) \<Rightarrow>
          let t = t\<lparr>NewTaskID := taskID, VisibilityTime := scheduled_time ty now m t\<rparr> in
          (case set_task_list bits renew ty now ts m of
             (m, Inl failure) \<Rightarrow> (m, Inl failure)
           | (m, Inr ts) \<Rightarrow> (m, Inr (t # ts))))"

fun set_task_maps ::
    "nat \<Rightarrow> (int \<Rightarrow> 'err + int) \<Rightarrow> ('c \<Rightarrow> category_type) \<Rightarrow> int \<Rightarrow> 'c task_map \<Rightarrow> 'c key_manager \<Rightarrow>
     'c key_manager \<times> ('err key_failure + 'c task_map)" where
  "set_task_maps bits renew ctype now [] m = (m, Inr [])"
| "set_task_maps bits renew ctype now ((c, ts) # rest) m =
     (case set_task_list bits renew (ctype c) now ts m of
        (m, Inl failure) \<Rightarrow> (m, Inl failure)
      | (m, Inr ts) \<Rightarrow>
          (case set_task_maps bits renew ctype now rest m of
             (m, Inl failure) \<Rightarrow> (m, Inl failure)
           | (m, Inr rest) \<Rightarrow> (m, Inr ((c, ts) # rest))))"

definition setTaskKeys ::
    "nat \<Rightarrow> (int \<Rightarrow> 'err + int) \<Rightarrow> ('c \<Rightarrow> category_type) \<Rightarrow> int \<Rightarrow> 'c task_map \<Rightarrow> 'c key_manager \<Rightarrow>
     'c key_manager \<times> ('err key_failure + 'c task_map)" where
  "setTaskKeys bits renew ctype now tasks m =
     set_task_maps bits renew ctype now tasks (setTaskMinScheduledTime (Truncate now) m)"

definition peekTaskKey :: "category_type \<Rightarrow> 'c key_manager \<Rightarrow> task_key" where
  "peekTaskKey ty m = (case ty of
     CategoryTypeImmediate \<Rightarrow> NewImmediateKey (nextTaskID m)
   | CategoryTypeScheduled \<Rightarrow> NewKey (taskMinScheduledTime m) (nextTaskID m))"

definition generateTaskKey ::
    "nat \<Rightarrow> (int \<Rightarrow> 'err + int) \<Rightarrow> category_type \<Rightarrow> 'c key_manager \<Rightarrow> 'c key_manager \<times> ('err key_failure + task_key)" where
  "generateTaskKey bits renew ty m =
     (case generateTaskID bits renew m of
        (m, Inl failure) \<Rightarrow> (m, Inl failure)
      | (m, Inr taskID) \<Rightarrow>
          (m, Inr (case ty of
             CategoryTypeImmediate \<Rightarrow> NewImmediateKey taskID
           | CategoryTypeScheduled \<Rightarrow> NewKey (taskMinScheduledTime m) taskID)))"

section \<open>The manager\<close>

definition setAndTrackTaskKeys ::
    "nat \<Rightarrow> (int \<Rightarrow> 'err + int) \<Rightarrow> ('c \<Rightarrow> category_type) \<Rightarrow> int \<Rightarrow> 'c task_map \<Rightarrow> 'c key_manager \<Rightarrow>
     'c key_manager \<times> ('err key_failure + ('c \<times> task_key) list \<times> 'c task_map)" where
  "setAndTrackTaskKeys bits renew ctype now tasks m =
     (case setTaskKeys bits renew ctype now tasks m of
        (m, Inl failure) \<Rightarrow> (m, Inl failure)
      | (m, Inr tasks) \<Rightarrow> (case track ctype tasks m of (minKeys, m) \<Rightarrow> (m, Inr (minKeys, tasks))))"

definition getExclusiveReaderHighWatermark ::
    "('c \<Rightarrow> category_type) \<Rightarrow> int \<Rightarrow> int \<Rightarrow> 'c \<Rightarrow> 'c key_manager \<Rightarrow> task_key \<times> 'c key_manager" where
  "getExclusiveReaderHighWatermark ctype now timerProcessorMaxTimeShift c m =
     (let minKey = (case minTaskKey m c of None \<Rightarrow> MaximumKey | Some k \<Rightarrow> k);
          m = setTaskMinScheduledTime (Truncate (now + timerProcessorMaxTimeShift)) m;
          watermark = MinKey minKey (peekTaskKey (ctype c) m)
      in (if ctype c = CategoryTypeScheduled then Key (Truncate (FireTime watermark)) 0 else watermark, m))"

section \<open>Keys are assigned in order\<close>

definition gen_ok :: "'c key_manager \<Rightarrow> bool" where
  "gen_ok m \<longleftrightarrow> nextTaskID m = taskIDUninitialized \<and> exclusiveMaxTaskID m = taskIDUninitialized \<or>
     0 \<le> nextTaskID m \<and> nextTaskID m \<le> exclusiveMaxTaskID m \<and> exclusiveMaxTaskID m \<le> MaxInt64"

text \<open>The shard's new range lies above the old one, and within the 64 bits of an ID.\<close>

definition range_above :: "nat \<Rightarrow> int \<Rightarrow> int \<Rightarrow> bool" where
  "range_above bits a rangeID \<longleftrightarrow> 0 \<le> rangeID \<and> a \<le> rangeID * 2 ^ bits \<and> (rangeID + 1) * 2 ^ bits \<le> MaxInt64"

definition renew_ok :: "nat \<Rightarrow> (int \<Rightarrow> 'err + int) \<Rightarrow> bool" where
  "renew_ok bits renew \<longleftrightarrow> (\<forall>a r. renew a = Inr r \<longrightarrow> range_above bits a r)"

text \<open>The tracker is as before, or a renewal has emptied it.\<close>

definition tracker_kept :: "'c key_manager \<Rightarrow> 'c key_manager \<Rightarrow> bool" where
  "tracker_kept m m' \<longleftrightarrow>
     exclusiveMaxTaskID m' = exclusiveMaxTaskID m \<and> pendingTaskKeys m' = pendingTaskKeys m \<and>
     inflightRequestCount m' = inflightRequestCount m"

definition tracker_cleared :: "'c key_manager \<Rightarrow> 'c key_manager \<Rightarrow> bool" where
  "tracker_cleared m m' \<longleftrightarrow>
     exclusiveMaxTaskID m' \<noteq> exclusiveMaxTaskID m \<and> pendingTaskKeys m' = (\<lambda>_. []) \<and> inflightRequestCount m' = 0"

definition advances :: "(int \<Rightarrow> 'err + int) \<Rightarrow> 'c key_manager \<Rightarrow> 'c key_manager \<Rightarrow> bool" where
  "advances renew m m' \<longleftrightarrow>
     gen_ok m' \<and> nextTaskID m \<le> nextTaskID m' \<and> taskMinScheduledTime m' = taskMinScheduledTime m \<and>
     exclusiveMaxTaskID m \<le> exclusiveMaxTaskID m' \<and>
     (tracker_kept m m' \<or> tracker_cleared m m' \<and> (\<exists>a r. renew a = Inr r))"

lemma advances_refl: "gen_ok m \<Longrightarrow> advances renew m m"
  by (simp add: advances_def tracker_kept_def)

lemma advances_trans:
  assumes "advances renew m m1" "advances renew m1 m2"
  shows "advances renew m m2"
proof -
  from assms have "gen_ok m2" "nextTaskID m \<le> nextTaskID m2" "taskMinScheduledTime m2 = taskMinScheduledTime m"
    "exclusiveMaxTaskID m \<le> exclusiveMaxTaskID m2" by (auto simp: advances_def)
  moreover have "tracker_kept m m2 \<or> tracker_cleared m m2 \<and> (\<exists>a r. renew a = Inr r)"
    using assms by (auto simp: advances_def tracker_kept_def tracker_cleared_def)
  ultimately show ?thesis by (simp add: advances_def)
qed

lemma range_above_bounds:
  assumes "range_above bits a r"
  shows "\<exists>x y. i64 (r * 2 ^ bits) = x \<and> i64 (i64 (r + 1) * 2 ^ bits) = y \<and> 0 \<le> x \<and> a \<le> x \<and> x < y \<and> y \<le> MaxInt64"
proof -
  define x y where "x = r * 2 ^ bits" and "y = (r + 1) * (2 :: int) ^ bits"
  have r: "0 \<le> r" "a \<le> x" "y \<le> MaxInt64" using assms by (simp_all add: range_above_def x_def y_def)
  have "1 \<le> (2 :: int) ^ bits" by simp
  then have le: "r + 1 \<le> y" using r(1) mult_left_mono [of 1 "2 ^ bits" "r + 1"] by (simp add: y_def)
  have x: "0 \<le> x" "x < y" using r(1) by (simp_all add: x_def y_def algebra_simps)
  have "in_i64 (r + 1)" "in_i64 y" "in_i64 x" using r x le by (auto simp: in_i64_def MinInt64_def)
  then have "i64 x = x" "i64 (r + 1) = r + 1" "i64 y = y" by (simp_all only: i64_id)
  with r x have "i64 (r * 2 ^ bits) = x \<and> i64 (i64 (r + 1) * 2 ^ bits) = y \<and> 0 \<le> x \<and> a \<le> x \<and> x < y \<and> y \<le> MaxInt64"
    by (simp only: x_def [symmetric] y_def [symmetric])
  then show ?thesis by blast
qed

lemma setRangeID_ok:
  assumes "gen_ok m" "range_above bits (exclusiveMaxTaskID m) r"
  shows "gen_ok (setRangeID bits r m)" "nextTaskID m \<le> nextTaskID (setRangeID bits r m)"
    "nextTaskID (setRangeID bits r m) < exclusiveMaxTaskID (setRangeID bits r m)"
    "exclusiveMaxTaskID m < exclusiveMaxTaskID (setRangeID bits r m)" "0 \<le> nextTaskID (setRangeID bits r m)"
    "taskMinScheduledTime (setRangeID bits r m) = taskMinScheduledTime m"
    "pendingTaskKeys (setRangeID bits r m) = (\<lambda>_. [])" "inflightRequestCount (setRangeID bits r m) = 0"
proof -
  from range_above_bounds [OF assms(2)] obtain x y where
    "i64 (r * 2 ^ bits) = x" "i64 (i64 (r + 1) * 2 ^ bits) = y" "0 \<le> x" "exclusiveMaxTaskID m \<le> x" "x < y" "y \<le> MaxInt64" by blast
  with assms(1) show "gen_ok (setRangeID bits r m)" "nextTaskID m \<le> nextTaskID (setRangeID bits r m)"
    "nextTaskID (setRangeID bits r m) < exclusiveMaxTaskID (setRangeID bits r m)"
    "exclusiveMaxTaskID m < exclusiveMaxTaskID (setRangeID bits r m)" "0 \<le> nextTaskID (setRangeID bits r m)"
    "taskMinScheduledTime (setRangeID bits r m) = taskMinScheduledTime m"
    "pendingTaskKeys (setRangeID bits r m) = (\<lambda>_. [])" "inflightRequestCount (setRangeID bits r m) = 0"
    by (auto simp: setRangeID_def clear_requests_def gen_ok_def taskIDUninitialized_def)
qed

lemma take_id:
  assumes "gen_ok m" "0 \<le> nextTaskID m" "nextTaskID m < exclusiveMaxTaskID m"
  shows "gen_ok (m\<lparr>nextTaskID := i64 (nextTaskID m + 1)\<rparr>)" "i64 (nextTaskID m + 1) = nextTaskID m + 1"
proof -
  from assms have "in_i64 (nextTaskID m + 1)" by (auto simp: in_i64_def gen_ok_def taskIDUninitialized_def MinInt64_def)
  then show "i64 (nextTaskID m + 1) = nextTaskID m + 1" by (rule i64_id)
  with assms show "gen_ok (m\<lparr>nextTaskID := i64 (nextTaskID m + 1)\<rparr>)" by (auto simp: gen_ok_def taskIDUninitialized_def)
qed

lemma generateTaskID_ok:
  assumes ok: "gen_ok m" and renew: "renew_ok bits renew" and gen: "generateTaskID bits renew m = (m', res)"
  shows "advances renew m m' \<and> (\<forall>taskID. res = Inr taskID \<longrightarrow> 0 \<le> taskID \<and> nextTaskID m \<le> taskID \<and> nextTaskID m' = taskID + 1)"
proof -
  consider (uninit) "nextTaskID m = taskIDUninitialized"
    | (free) "0 \<le> nextTaskID m" "nextTaskID m < exclusiveMaxTaskID m"
    | (full) "0 \<le> nextTaskID m" "nextTaskID m = exclusiveMaxTaskID m"
    using ok by (force simp: gen_ok_def taskIDUninitialized_def)
  then show ?thesis
  proof cases
    case uninit
    with gen ok advances_refl show ?thesis by (auto simp: generateTaskID_def)
  next
    case free
    with gen take_id [OF ok free] show ?thesis
      by (auto simp: generateTaskID_def taskIDUninitialized_def advances_def tracker_kept_def)
  next
    case full
    show ?thesis
    proof (cases "renew (exclusiveMaxTaskID m)")
      case (Inl err)
      with gen full ok advances_refl show ?thesis by (auto simp: generateTaskID_def taskIDUninitialized_def)
    next
      case (Inr r)
      with renew have above: "range_above bits (exclusiveMaxTaskID m) r" by (simp add: renew_ok_def)
      note s = setRangeID_ok [OF ok above]
      let ?m = "setRangeID bits r m"
      have "m' = ?m\<lparr>nextTaskID := nextTaskID ?m + 1\<rparr>" "res = Inr (nextTaskID ?m)"
        using gen full Inr s(3) take_id(2) [OF s(1,5,3)]
        by (auto simp: generateTaskID_def taskIDUninitialized_def Let_def)
      with s take_id [OF s(1,5,3)] Inr show ?thesis
        by (auto simp: advances_def tracker_cleared_def)
    qed
  qed
qed

text \<open>The tasks of a request get distinct IDs in a row, and times that are not below the minimum.\<close>

definition keyed_between :: "category_type \<Rightarrow> 'c key_manager \<Rightarrow> 'c key_manager \<Rightarrow> new_task list \<Rightarrow> bool" where
  "keyed_between ty m m' ts \<longleftrightarrow>
     (\<forall>t \<in> set ts. 0 \<le> NewTaskID t \<and> nextTaskID m \<le> NewTaskID t \<and> NewTaskID t < nextTaskID m' \<and>
        (ty = CategoryTypeScheduled \<longrightarrow> taskMinScheduledTime m \<le> VisibilityTime t))"

lemma scheduled_time_min: "ty = CategoryTypeScheduled \<Longrightarrow> taskMinScheduledTime m \<le> scheduled_time ty now m t"
  by (simp add: scheduled_time_def Let_def ScheduledTaskMinPrecision_def)

lemma set_task_list_ok:
  assumes "gen_ok m" "renew_ok bits renew" "set_task_list bits renew ty now ts m = (m', res)"
  shows "advances renew m m' \<and>
    (\<forall>ts'. res = Inr ts' \<longrightarrow> keyed_between ty m m' ts' \<and> distinct (map NewTaskID ts') \<and> length ts' = length ts)"
  using assms(1,3)
proof (induction ts arbitrary: m m' res)
  case Nil
  then show ?case using advances_refl by (auto simp: keyed_between_def)
next
  case (Cons t ts)
  obtain m1 r1 where g: "generateTaskID bits renew m = (m1, r1)" by fastforce
  note g_ok = generateTaskID_ok [OF Cons.prems(1) assms(2) g]
  show ?case
  proof (cases r1)
    case (Inl f)
    with g g_ok Cons.prems(2) show ?thesis by auto
  next
    case (Inr taskID)
    obtain m2 r2 where l: "set_task_list bits renew ty now ts m1 = (m2, r2)" by fastforce
    from g_ok have "gen_ok m1" by (simp add: advances_def)
    note l_ok = Cons.IH [OF this l]
    have adv: "advances renew m m2" using g_ok l_ok advances_trans by blast
    show ?thesis
    proof (cases r2)
      case (Inl f)
      with g l \<open>r1 = Inr taskID\<close> Cons.prems(2) adv show ?thesis by auto
    next
      case rest: (Inr ts')
      let ?t = "t\<lparr>NewTaskID := taskID, VisibilityTime := scheduled_time ty now m1 t\<rparr>"
      have res: "m' = m2" "res = Inr (?t # ts')" using g l Inr rest Cons.prems(2) by (auto simp: Let_def)
      have id: "0 \<le> taskID" "nextTaskID m \<le> taskID" "nextTaskID m1 = taskID + 1"
        and min: "taskMinScheduledTime m1 = taskMinScheduledTime m" using g_ok Inr by (auto simp: advances_def)
      have keyed: "keyed_between ty m1 m2 ts'" "distinct (map NewTaskID ts')" "length ts' = length ts" and "nextTaskID m1 \<le> nextTaskID m2"
        using l_ok rest by (auto simp: advances_def)
      then have "keyed_between ty m m2 (?t # ts')" "taskID \<notin> NewTaskID ` set ts'"
        using id min scheduled_time_min [of ty m1 now t] by (auto simp: keyed_between_def)
      with keyed adv show ?thesis by (simp add: res)
    qed
  qed
qed

definition all_tasks :: "'c task_map \<Rightarrow> new_task list" where
  "all_tasks tasks = concat (map snd tasks)"

lemma all_tasks_simps [simp]: "all_tasks [] = []" "all_tasks ((c, ts) # rest) = ts @ all_tasks rest"
  by (simp_all add: all_tasks_def)

lemma keyed_between_mono:
  assumes "keyed_between ty m m' ts" "nextTaskID m0 \<le> nextTaskID m" "nextTaskID m' \<le> nextTaskID m2"
    "taskMinScheduledTime m0 = taskMinScheduledTime m"
  shows "keyed_between ty m0 m2 ts"
  using assms by (fastforce simp: keyed_between_def)

lemma set_task_maps_ok:
  assumes "gen_ok m" "renew_ok bits renew" "set_task_maps bits renew ctype now tasks m = (m', res)"
  shows "advances renew m m' \<and>
    (\<forall>tasks'. res = Inr tasks' \<longrightarrow> (\<forall>(c, ts) \<in> set tasks'. keyed_between (ctype c) m m' ts) \<and> distinct (map NewTaskID (all_tasks tasks')))"
  using assms(1,3)
proof (induction tasks arbitrary: m m' res)
  case Nil
  then show ?case using advances_refl by (auto simp: all_tasks_def)
next
  case (Cons p rest)
  obtain c ts where p: "p = (c, ts)" by (cases p)
  obtain m1 r1 where g: "set_task_list bits renew (ctype c) now ts m = (m1, r1)" by fastforce
  note g_ok = set_task_list_ok [OF Cons.prems(1) assms(2) g]
  show ?case
  proof (cases r1)
    case (Inl f)
    with g g_ok Cons.prems(2) p show ?thesis by auto
  next
    case (Inr ts')
    obtain m2 r2 where l: "set_task_maps bits renew ctype now rest m1 = (m2, r2)" by fastforce
    from g_ok have "gen_ok m1" by (simp add: advances_def)
    note l_ok = Cons.IH [OF this l]
    have adv: "advances renew m m2" using g_ok l_ok advances_trans by blast
    show ?thesis
    proof (cases r2)
      case (Inl f)
      with g l \<open>r1 = Inr ts'\<close> Cons.prems(2) p adv show ?thesis by auto
    next
      case tail: (Inr rest')
      have res: "m' = m2" "res = Inr ((c, ts') # rest')" using g l Inr tail Cons.prems(2) p by auto
      have a: "keyed_between (ctype c) m m1 ts'" "distinct (map NewTaskID ts')" "nextTaskID m \<le> nextTaskID m1"
        "taskMinScheduledTime m1 = taskMinScheduledTime m" using g_ok Inr by (auto simp: advances_def)
      have b: "\<forall>(c, ts) \<in> set rest'. keyed_between (ctype c) m1 m2 ts" "distinct (map NewTaskID (all_tasks rest'))"
        "nextTaskID m1 \<le> nextTaskID m2" using l_ok tail by (auto simp: advances_def)
      have "keyed_between (ctype c) m m2 ts'" by (rule keyed_between_mono [OF a(1) _ b(3)]) simp_all
      moreover have "\<forall>(c, ts) \<in> set rest'. keyed_between (ctype c) m m2 ts"
        using b(1) keyed_between_mono [OF _ a(3)] a(4) by fastforce
      moreover have "NewTaskID ` set ts' \<inter> NewTaskID ` set (all_tasks rest') = {}"
        using a(1) b(1) by (fastforce simp: keyed_between_def all_tasks_def)
      ultimately show ?thesis using adv a(2) b(2) by (auto simp: res all_tasks_def)
    qed
  qed
qed

section \<open>Tracking\<close>

lemma min_key_of_le:
  "min_key_of ty ts \<le> MaximumKey \<and> (\<forall>t \<in> set ts. min_key_of ty ts \<le> new_task_key ty t) \<and>
   (min_key_of ty ts = MaximumKey \<or> (\<exists>t \<in> set ts. min_key_of ty ts = new_task_key ty t))"
proof -
  let ?f = "\<lambda>minKey t. if CompareTo (new_task_key ty t) minKey < 0 then new_task_key ty t else minKey"
  have "foldl ?f k ts \<le> k \<and> (\<forall>t \<in> set ts. foldl ?f k ts \<le> new_task_key ty t) \<and>
      (foldl ?f k ts = k \<or> (\<exists>t \<in> set ts. foldl ?f k ts = new_task_key ty t))" for k
  proof (induction ts arbitrary: k)
    case (Cons t ts)
    show ?case
    proof (cases "new_task_key ty t < k")
      case True
      then have "foldl ?f k (t # ts) = foldl ?f (new_task_key ty t) ts" by simp
      with Cons.IH [of "new_task_key ty t"] True show ?thesis by (auto intro: order_trans less_imp_le)
    next
      case False
      then have "foldl ?f k (t # ts) = foldl ?f k ts" by simp
      with Cons.IH [of k] False show ?thesis by (auto intro: order_trans)
    qed
  qed simp
  then show ?thesis unfolding min_key_of_def .
qed

lemma min_keys_ok:
  assumes "go_map acc"
  shows "go_map (min_keys ctype acc tasks) \<and>
    (\<forall>c k. map_of acc c = Some k \<longrightarrow> (\<exists>k'. map_of (min_keys ctype acc tasks) c = Some k' \<and> k' \<le> k)) \<and>
    (\<forall>(c, ts) \<in> set tasks. \<forall>t \<in> set ts. MaximumKey \<le> new_task_key (ctype c) t \<or>
       (\<exists>k. map_of (min_keys ctype acc tasks) c = Some k \<and> k \<le> new_task_key (ctype c) t)) \<and>
    (\<forall>(c, k) \<in> set (min_keys ctype acc tasks). (c, k) \<in> set acc \<or> (\<exists>t \<in> set (all_tasks tasks). TaskID k = NewTaskID t))"
  using assms
proof (induction ctype acc tasks rule: min_keys.induct)
  case (1 ctype acc)
  then show ?case by auto
next
  case (2 ctype acc c ts rest)
  let ?k = "min_key_of (ctype c) ts"
  note k = min_key_of_le [of "ctype c" ts]
  have id: "TaskID (new_task_key ty t) = NewTaskID t" for ty t
    by (cases ty) (simp_all add: new_task_key_def NewImmediateKey_def NewKey_def)
  show ?case
  proof (cases "?k = MaximumKey")
    case True
    then have eq: "min_keys ctype acc ((c, ts) # rest) = min_keys ctype acc rest" by (simp add: Let_def)
    from True have "CompareTo ?k MaximumKey = 0" by simp
    from 2(1) [OF refl this 2(3)] have ih: "go_map (min_keys ctype acc rest)"
      "\<forall>c k. map_of acc c = Some k \<longrightarrow> (\<exists>k'. map_of (min_keys ctype acc rest) c = Some k' \<and> k' \<le> k)"
      "\<forall>(c, ts) \<in> set rest. \<forall>t \<in> set ts. MaximumKey \<le> new_task_key (ctype c) t \<or>
         (\<exists>k. map_of (min_keys ctype acc rest) c = Some k \<and> k \<le> new_task_key (ctype c) t)"
      "\<forall>(c, k) \<in> set (min_keys ctype acc rest). (c, k) \<in> set acc \<or> (\<exists>t \<in> set (all_tasks rest). TaskID k = NewTaskID t)" by blast+
    have "\<forall>t \<in> set ts. MaximumKey \<le> new_task_key (ctype c) t" using k True by simp
    moreover have "\<forall>(d, x) \<in> set (min_keys ctype acc rest). (d, x) \<in> set acc \<or>
        (\<exists>t \<in> set (all_tasks ((c, ts) # rest)). TaskID x = NewTaskID t)" using ih(4) by fastforce
    ultimately show ?thesis unfolding eq using ih(1-3) by simp
  next
    case False
    let ?v = "case map_of acc c of None \<Rightarrow> ?k | Some k \<Rightarrow> MinKey k ?k"
    let ?acc = "AList.update c ?v acc"
    define res where "res = min_keys ctype ?acc rest"
    have eq: "min_keys ctype acc ((c, ts) # rest) = res" using False by (simp add: Let_def res_def)
    from False have "CompareTo ?k MaximumKey \<noteq> 0" by simp
    from 2(2) [OF refl this go_map_update [OF 2(3)], folded res_def] have ih: "go_map res"
      "\<forall>c' k. map_of ?acc c' = Some k \<longrightarrow> (\<exists>k'. map_of res c' = Some k' \<and> k' \<le> k)"
      "\<forall>(c, ts) \<in> set rest. \<forall>t \<in> set ts. MaximumKey \<le> new_task_key (ctype c) t \<or>
         (\<exists>k. map_of res c = Some k \<and> k \<le> new_task_key (ctype c) t)"
      "\<forall>(c, k) \<in> set res. (c, k) \<in> set ?acc \<or> (\<exists>t \<in> set (all_tasks rest). TaskID k = NewTaskID t)"
      by blast+
    have v: "?v \<le> ?k" "\<And>k. map_of acc c = Some k \<Longrightarrow> ?v \<le> k" by (auto split: option.split)
    obtain k' where k': "map_of res c = Some k'" "k' \<le> ?v"
      using ih(2) [rule_format, of c ?v] by (auto simp: update_conv')
    have A: "\<exists>k''. map_of res c' = Some k'' \<and> k'' \<le> x" if "map_of acc c' = Some x" for c' x
      using ih(2) [rule_format, of c' x] k' v(2) [of x] that by (cases "c' = c") (auto simp: update_conv' intro: order_trans)
    have B: "\<exists>x. map_of res c = Some x \<and> x \<le> new_task_key (ctype c) t" if "t \<in> set ts" for t
      using k' v(1) k that by (auto intro: order_trans)
    have C: "(d, x) \<in> set acc \<or> (\<exists>t \<in> set (all_tasks ((c, ts) # rest)). TaskID x = NewTaskID t)"
      if "(d, x) \<in> set res" for d x
    proof -
      from that ih(4) consider "(d, x) \<in> set ?acc" | "\<exists>t \<in> set (all_tasks rest). TaskID x = NewTaskID t" by blast
      then show ?thesis
      proof cases
        case 1
        from False k have "\<exists>t \<in> set ts. TaskID ?k = NewTaskID t" by (auto simp: id)
        moreover have "?v = ?k \<or> (c, ?v) \<in> set acc"
          by (auto simp: min_def split: option.split dest: map_of_SomeD)
        ultimately show ?thesis using 1 set_update_distinct [OF 2(3), of c ?v] by (auto simp: all_tasks_def)
      next
        case 2
        then show ?thesis by (auto simp: all_tasks_def)
      qed
    qed
    have "\<forall>(c', ts') \<in> set ((c, ts) # rest). \<forall>t \<in> set ts'. MaximumKey \<le> new_task_key (ctype c') t \<or>
        (\<exists>k. map_of res c' = Some k \<and> k \<le> new_task_key (ctype c') t)" using B ih(3) by simp
    with A C ih(1) show ?thesis unfolding eq by blast
  qed
qed

lemma min_keys_tasks:
  "(\<forall>(c, ts) \<in> set tasks. \<forall>t \<in> set ts. MaximumKey \<le> new_task_key (ctype c) t \<or>
      (\<exists>k. (c, k) \<in> set (min_keys ctype [] tasks) \<and> k \<le> new_task_key (ctype c) t)) \<and>
   (\<forall>(c, k) \<in> set (min_keys ctype [] tasks). \<exists>t \<in> set (all_tasks tasks). TaskID k = NewTaskID t)"
proof -
  define r where "r = min_keys ctype [] tasks"
  have "go_map []" by simp
  from min_keys_ok [OF this, of ctype tasks, folded r_def]
  have "\<forall>(c, ts) \<in> set tasks. \<forall>t \<in> set ts. MaximumKey \<le> new_task_key (ctype c) t \<or>
      (\<exists>k. map_of r c = Some k \<and> k \<le> new_task_key (ctype c) t)"
    and "\<forall>(c, k) \<in> set r. (c, k) \<in> set [] \<or> (\<exists>t \<in> set (all_tasks tasks). TaskID k = NewTaskID t)" by blast+
  moreover have "(c, k) \<in> set r" if "map_of r c = Some k" for c k using that by (rule map_of_SomeD)
  ultimately show ?thesis unfolding r_def by fastforce
qed

lemma insert_keys: "set ((foldl (\<lambda>p (c, k). p(c := List.insert k (p c))) p ks) c) = set (p c) \<union> {k. (c, k) \<in> set ks}"
  by (induction ks arbitrary: p) (auto split: if_splits)

lemma remove_keys: "set ((foldl (\<lambda>p (c, k). p(c := removeAll k (p c))) p ks) c) = set (p c) - {k. (c, k) \<in> set ks}"
  by (induction ks arbitrary: p) (auto split: if_splits)

section \<open>Requests, watermarks and renewals\<close>

text \<open>
  The requests that are in flight, those that ended with an error after which they may still take effect,
  and the watermarks that have been reported. A renewal drains the requests in flight first; afterwards
  persistence refuses what was issued under the old range ID, so that nothing of it is written any more.
\<close>

record 'c request =
  req_minKeys :: "('c \<times> task_key) list"
  req_tasks :: "'c task_map"

record 'c shard_keys =
  key_manager_of :: "'c key_manager"
  inflight :: "'c request list"
  unresolved :: "'c request list"
  reported :: "('c \<times> task_key) set"

definition fenced :: "'c key_manager \<Rightarrow> 'c shard_keys \<Rightarrow> 'c request list" where
  "fenced m s = (if exclusiveMaxTaskID m = exclusiveMaxTaskID (key_manager_of s) then unresolved s else [])"

inductive shard_step :: "nat \<Rightarrow> ('c \<Rightarrow> category_type) \<Rightarrow> 'c shard_keys \<Rightarrow> 'c shard_keys \<Rightarrow> bool" for bits ctype where
  acquire: "inflight s = [] \<Longrightarrow> range_above bits (exclusiveMaxTaskID (key_manager_of s)) r \<Longrightarrow>
    shard_step bits ctype s (s\<lparr>key_manager_of := setRangeID bits r (key_manager_of s), unresolved := []\<rparr>)"
| assign: "renew_ok bits (renew :: int \<Rightarrow> string + int) \<Longrightarrow> (\<exists>a r. renew a = Inr r) \<longrightarrow> inflight s = [] \<Longrightarrow> now \<le> MaxInt64 \<Longrightarrow>
    setAndTrackTaskKeys bits renew ctype now tasks (key_manager_of s) = (m, Inr (minKeys, tasks')) \<Longrightarrow>
    shard_step bits ctype s (s\<lparr>key_manager_of := m, unresolved := fenced m s,
      inflight := \<lparr>req_minKeys = minKeys, req_tasks = tasks'\<rparr> # inflight s\<rparr>)"
| assign_fails: "renew_ok bits (renew :: int \<Rightarrow> string + int) \<Longrightarrow> (\<exists>a r. renew a = Inr r) \<longrightarrow> inflight s = [] \<Longrightarrow> now \<le> MaxInt64 \<Longrightarrow>
    setAndTrackTaskKeys bits renew ctype now tasks (key_manager_of s) = (m, Inl failure) \<Longrightarrow>
    shard_step bits ctype s (s\<lparr>key_manager_of := m, unresolved := fenced m s\<rparr>)"
| generate: "renew_ok bits (renew :: int \<Rightarrow> string + int) \<Longrightarrow> (\<exists>a r. renew a = Inr r) \<longrightarrow> inflight s = [] \<Longrightarrow>
    generateTaskKey bits renew ty (key_manager_of s) = (m, res) \<Longrightarrow>
    shard_step bits ctype s (s\<lparr>key_manager_of := m, unresolved := fenced m s\<rparr>)"
| resolved: "inflight s = xs @ q # ys \<Longrightarrow>
    shard_step bits ctype s (s\<lparr>key_manager_of := complete_request (req_minKeys q) True (key_manager_of s), inflight := xs @ ys\<rparr>)"
| unclear: "inflight s = xs @ q # ys \<Longrightarrow>
    shard_step bits ctype s (s\<lparr>key_manager_of := complete_request (req_minKeys q) False (key_manager_of s), inflight := xs @ ys,
      unresolved := q # unresolved s\<rparr>)"
| drain: "drain_requests (key_manager_of s) = (b, m) \<Longrightarrow> shard_step bits ctype s (s\<lparr>key_manager_of := m\<rparr>)"
| min_time: "t \<le> MaxInt64 \<Longrightarrow> shard_step bits ctype s (s\<lparr>key_manager_of := setTaskMinScheduledTime t (key_manager_of s)\<rparr>)"
| report: "getExclusiveReaderHighWatermark ctype now shift c (key_manager_of s) = (watermark, m) \<Longrightarrow> now + shift \<le> MaxInt64 \<Longrightarrow>
    shard_step bits ctype s (s\<lparr>key_manager_of := m, reported := insert (c, watermark) (reported s)\<rparr>)"

definition shard_init :: "'c shard_keys" where
  "shard_init = \<lparr>key_manager_of = newTaskKeyManager, inflight = [], unresolved = [], reported = {}\<rparr>"

section \<open>The invariant\<close>

abbreviation live :: "'c shard_keys \<Rightarrow> 'c request list" where
  "live s \<equiv> inflight s @ unresolved s"

definition req_ids :: "'c request \<Rightarrow> int list" where
  "req_ids q = map NewTaskID (all_tasks (req_tasks q))"

text \<open>Every key of a request is at or above a key that is pending for it.\<close>

definition request_ok :: "('c \<Rightarrow> category_type) \<Rightarrow> 'c key_manager \<Rightarrow> ('c \<times> task_key) set \<Rightarrow> 'c request \<Rightarrow> bool" where
  "request_ok ctype m rep q \<longleftrightarrow>
     (\<forall>(c, ts) \<in> set (req_tasks q). \<forall>t \<in> set ts. 0 \<le> NewTaskID t \<and> NewTaskID t < nextTaskID m \<and>
        (\<forall>W. (c, W) \<in> rep \<longrightarrow> W \<le> new_task_key (ctype c) t) \<and>
        (MaximumKey \<le> new_task_key (ctype c) t \<or>
         (\<exists>k. (c, k) \<in> set (req_minKeys q) \<and> k \<in> set (pendingTaskKeys m c) \<and> k \<le> new_task_key (ctype c) t))) \<and>
     (\<forall>(c, k) \<in> set (req_minKeys q). TaskID k \<in> set (req_ids q))"

definition watermark_ok :: "('c \<Rightarrow> category_type) \<Rightarrow> 'c key_manager \<Rightarrow> 'c \<Rightarrow> task_key \<Rightarrow> bool" where
  "watermark_ok ctype m c W \<longleftrightarrow> (case ctype c of
     CategoryTypeImmediate \<Rightarrow> W \<le> NewImmediateKey (nextTaskID m)
   | CategoryTypeScheduled \<Rightarrow> FireTime W \<le> taskMinScheduledTime m \<and> TaskID W = 0)"

definition shard_inv :: "('c \<Rightarrow> category_type) \<Rightarrow> 'c shard_keys \<Rightarrow> bool" where
  "shard_inv ctype s \<longleftrightarrow>
     gen_ok (key_manager_of s) \<and> taskMinScheduledTime (key_manager_of s) \<le> MaxInt64 \<and>
     inflightRequestCount (key_manager_of s) = int (length (inflight s)) \<and>
     (\<forall>(c, W) \<in> reported s. watermark_ok ctype (key_manager_of s) c W) \<and>
     (\<forall>q \<in> set (live s). request_ok ctype (key_manager_of s) (reported s) q) \<and>
     distinct (concat (map req_ids (live s)))"

lemma watermark_ok_mono:
  "watermark_ok ctype m c W \<Longrightarrow> nextTaskID m \<le> nextTaskID m' \<Longrightarrow> taskMinScheduledTime m \<le> taskMinScheduledTime m' \<Longrightarrow>
   watermark_ok ctype m' c W"
  by (cases "ctype c"; cases W) (auto simp: watermark_ok_def NewImmediateKey_def key_le_iff)

lemma request_ok_mono:
  assumes "request_ok ctype m rep q" "nextTaskID m \<le> nextTaskID m'"
    "\<And>c k. (c, k) \<in> set (req_minKeys q) \<Longrightarrow> k \<in> set (pendingTaskKeys m c) \<Longrightarrow> k \<in> set (pendingTaskKeys m' c)"
  shows "request_ok ctype m' rep q"
  using assms unfolding request_ok_def by fastforce

text \<open>A key that is assigned now is above what was reported before.\<close>

lemma new_key_above:
  assumes "watermark_ok ctype m c W" "0 \<le> NewTaskID t" "nextTaskID m \<le> NewTaskID t"
    "ctype c = CategoryTypeScheduled \<longrightarrow> taskMinScheduledTime m \<le> VisibilityTime t"
  shows "W \<le> new_task_key (ctype c) t"
  using assms by (cases "ctype c"; cases W)
    (auto simp: watermark_ok_def new_task_key_def NewImmediateKey_def NewKey_def key_le_iff)

lemma Truncate_le: "Truncate t \<le> t"
  by (simp add: Truncate_def ScheduledTaskMinPrecision_def)

text \<open>Moving on to a later state of the generator, with the tracker kept or emptied.\<close>

lemma advance_inv:
  assumes inv: "shard_inv ctype s" and adv: "advances renew (setTaskMinScheduledTime t (key_manager_of s)) m" and t: "t \<le> MaxInt64"
    and drained: "(\<exists>a r. renew a = Inr r) \<longrightarrow> inflight s = []"
  shows "shard_inv ctype (s\<lparr>key_manager_of := m, unresolved := fenced m s\<rparr>)"
proof -
  let ?m = "key_manager_of s"
  have le: "nextTaskID ?m \<le> nextTaskID m" "taskMinScheduledTime ?m \<le> taskMinScheduledTime m" "taskMinScheduledTime m \<le> MaxInt64"
    using adv inv t by (auto simp: advances_def setTaskMinScheduledTime_def shard_inv_def)
  have marks: "\<forall>(c, W) \<in> reported s. watermark_ok ctype m c W"
    using inv watermark_ok_mono [OF _ le(1,2)] by (fastforce simp: shard_inv_def)
  from adv have "gen_ok m" by (simp add: advances_def)
  from adv consider (kept) "tracker_kept ?m m" | (cleared) "tracker_cleared ?m m" "inflight s = []"
    using drained by (auto simp: advances_def tracker_kept_def tracker_cleared_def setTaskMinScheduledTime_def)
  then show ?thesis
  proof cases
    case kept
    then have "fenced m s = unresolved s" by (simp add: fenced_def tracker_kept_def)
    moreover have "\<forall>q \<in> set (live s). request_ok ctype m (reported s) q"
      using inv kept request_ok_mono [OF _ le(1)] by (simp add: shard_inv_def tracker_kept_def)
    ultimately show ?thesis using inv kept marks le(3) \<open>gen_ok m\<close> by (simp add: shard_inv_def tracker_kept_def)
  next
    case cleared
    then have "fenced m s = []" by (simp add: fenced_def tracker_cleared_def)
    with cleared marks le(3) \<open>gen_ok m\<close> show ?thesis by (simp add: shard_inv_def tracker_cleared_def)
  qed
qed

lemma advance_inv':
  assumes "shard_inv ctype s" "advances renew (key_manager_of s) m" "(\<exists>a r. renew a = Inr r) \<longrightarrow> inflight s = []"
  shows "shard_inv ctype (s\<lparr>key_manager_of := m, unresolved := fenced m s\<rparr>)"
proof -
  have "setTaskMinScheduledTime (taskMinScheduledTime (key_manager_of s)) (key_manager_of s) = key_manager_of s"
    by (simp add: setTaskMinScheduledTime_def)
  with assms advance_inv [OF assms(1), of renew "taskMinScheduledTime (key_manager_of s)" m] show ?thesis by (simp add: shard_inv_def)
qed

lemma acquire_inv:
  assumes inv: "shard_inv ctype s" and r: "range_above bits (exclusiveMaxTaskID (key_manager_of s)) r" and "inflight s = []"
  shows "shard_inv ctype (s\<lparr>key_manager_of := setRangeID bits r (key_manager_of s), unresolved := []\<rparr>)"
proof -
  from inv have "gen_ok (key_manager_of s)" by (simp add: shard_inv_def)
  note s = setRangeID_ok [OF this r]
  have "advances (\<lambda>_. Inr 0 :: unit + int) (key_manager_of s) (setRangeID bits r (key_manager_of s))"
    using s by (simp add: advances_def tracker_cleared_def)
  from advance_inv' [OF inv this] assms(3) s(4) show ?thesis by (simp add: fenced_def)
qed

lemma assign_inv:
  assumes inv: "shard_inv ctype s" and renew: "renew_ok bits renew" and drained: "(\<exists>a r. renew a = Inr r) \<longrightarrow> inflight s = []"
    and now: "now \<le> MaxInt64"
    and set: "setAndTrackTaskKeys bits renew ctype now tasks (key_manager_of s) = (m, res)"
  shows "case res of
      Inl failure \<Rightarrow> shard_inv ctype (s\<lparr>key_manager_of := m, unresolved := fenced m s\<rparr>)
    | Inr (minKeys, tasks') \<Rightarrow> shard_inv ctype (s\<lparr>key_manager_of := m, unresolved := fenced m s,
        inflight := \<lparr>req_minKeys = minKeys, req_tasks = tasks'\<rparr> # inflight s\<rparr>)"
proof -
  let ?m0 = "setTaskMinScheduledTime (Truncate now) (key_manager_of s)"
  have gen: "gen_ok ?m0" using inv by (auto simp: shard_inv_def setTaskMinScheduledTime_def gen_ok_def)
  obtain m1 r1 where k: "setTaskKeys bits renew ctype now tasks (key_manager_of s) = (m1, r1)" by fastforce
  from set_task_maps_ok [OF gen renew k [unfolded setTaskKeys_def]]
  have adv: "advances renew ?m0 m1" and keyed: "\<And>tasks'. r1 = Inr tasks' \<Longrightarrow>
      (\<forall>(c, ts) \<in> set tasks'. keyed_between (ctype c) ?m0 m1 ts) \<and> distinct (map NewTaskID (all_tasks tasks'))" by auto
  have t: "Truncate now \<le> MaxInt64" using now Truncate_le [of now] by linarith
  from advance_inv [OF inv adv t drained] have inv1: "shard_inv ctype (s\<lparr>key_manager_of := m1, unresolved := fenced m1 s\<rparr>)" .
  show ?thesis
  proof (cases r1)
    case (Inl f)
    with k set have "res = Inl f" "m = m1" by (auto simp: setAndTrackTaskKeys_def)
    with inv1 show ?thesis by simp
  next
    case (Inr tasks')
    define minKeys where "minKeys = min_keys ctype [] tasks'"
    from Inr k set have res: "res = Inr (minKeys, tasks')" and m: "m = m1\<lparr>inflightRequestCount := inflightRequestCount m1 + 1,
         pendingTaskKeys := foldl (\<lambda>p (c, k). p(c := List.insert k (p c))) (pendingTaskKeys m1) minKeys\<rparr>"
      by (auto simp: setAndTrackTaskKeys_def track_def minKeys_def Let_def)
    let ?q = "\<lparr>req_minKeys = minKeys, req_tasks = tasks'\<rparr>"
    let ?s1 = "s\<lparr>key_manager_of := m1, unresolved := fenced m1 s\<rparr>"
    have fence: "fenced m s = fenced m1 s" by (simp add: fenced_def m)
    have pend: "set (pendingTaskKeys m c) = set (pendingTaskKeys m1 c) \<union> {k. (c, k) \<in> set minKeys}" for c
      by (simp add: m insert_keys)
    have mk: "\<forall>(c, ts) \<in> set tasks'. \<forall>t \<in> set ts. MaximumKey \<le> new_task_key (ctype c) t \<or>
        (\<exists>k. (c, k) \<in> set minKeys \<and> k \<le> new_task_key (ctype c) t)"
      "\<forall>(c, k) \<in> set minKeys. \<exists>t \<in> set (all_tasks tasks'). TaskID k = NewTaskID t"
      using min_keys_tasks [of tasks' ctype, folded minKeys_def] by blast+
    have q: "request_ok ctype m (reported s) ?q"
      unfolding request_ok_def
    proof (intro conjI ballI, goal_cases)
      case (1 p)
      obtain c ts where p: "p = (c, ts)" by (cases p)
      have between: "keyed_between (ctype c) ?m0 m1 ts" using keyed [OF Inr] 1 p by auto
      have marks: "watermark_ok ctype ?m0 c W" if "(c, W) \<in> reported s" for W
        using inv that watermark_ok_mono [of ctype "key_manager_of s" c W ?m0] by (auto simp: shard_inv_def setTaskMinScheduledTime_def)
      have "W \<le> new_task_key (ctype c) t" if "(c, W) \<in> reported s" "t \<in> set ts" for W t
        using between that(2) by (intro new_key_above [OF marks [OF that(1)]]) (auto simp: keyed_between_def)
      moreover have "MaximumKey \<le> new_task_key (ctype c) t \<or>
          (\<exists>k. (c, k) \<in> set minKeys \<and> k \<in> set (pendingTaskKeys m c) \<and> k \<le> new_task_key (ctype c) t)" if "t \<in> set ts" for t
        using mk(1) 1 p that unfolding pend by fastforce
      ultimately show ?case using between p by (auto simp: keyed_between_def m)
    next
      case (2 p)
      with mk(2) show ?case by (fastforce simp: req_ids_def)
    qed
    have others: "\<forall>q \<in> set (live ?s1). request_ok ctype m (reported s) q"
      using inv1 request_ok_mono [of ctype m1 "reported s" _ m] pend by (simp add: shard_inv_def m)
    have "set (req_ids ?q) \<inter> set (concat (map req_ids (live ?s1))) = {}"
    proof -
      have "NewTaskID t < nextTaskID (key_manager_of s)" if "q \<in> set (live ?s1)" "t \<in> set (all_tasks (req_tasks q))" for q t
      proof -
        have "q \<in> set (live s)" using that(1) by (auto simp: fenced_def split: if_splits)
        with inv have "request_ok ctype (key_manager_of s) (reported s) q" by (simp add: shard_inv_def)
        with that(2) show ?thesis by (fastforce simp: request_ok_def all_tasks_def)
      qed
      moreover have "nextTaskID (key_manager_of s) \<le> NewTaskID t" if "t \<in> set (all_tasks tasks')" for t
        using keyed [OF Inr] that by (fastforce simp: keyed_between_def all_tasks_def setTaskMinScheduledTime_def)
      ultimately show ?thesis by (fastforce simp: req_ids_def)
    qed
    moreover have "distinct (req_ids ?q)" using keyed [OF Inr] by (simp add: req_ids_def)
    moreover have "\<forall>(c, W) \<in> reported s. watermark_ok ctype m c W"
      using inv1 watermark_ok_mono [of ctype m1 _ _ m] by (fastforce simp: shard_inv_def m)
    moreover have "gen_ok m" using inv1 by (simp add: shard_inv_def gen_ok_def m)
    ultimately show ?thesis
      using inv1 q others unfolding res fence by (simp add: shard_inv_def) (simp add: m)
  qed
qed

lemma complete_request_simps [simp]:
  "nextTaskID (complete_request ks d m) = nextTaskID m"
  "exclusiveMaxTaskID (complete_request ks d m) = exclusiveMaxTaskID m"
  "taskMinScheduledTime (complete_request ks d m) = taskMinScheduledTime m"
  "inflightRequestCount (complete_request ks d m) = inflightRequestCount m - 1"
  "pendingTaskKeys (complete_request ks d m) =
     (if d then foldl (\<lambda>p (c, k). p(c := removeAll k (p c))) (pendingTaskKeys m) ks else pendingTaskKeys m)"
  by (simp_all add: complete_request_def Let_def)

lemma shard_inv_marks_mono:
  assumes "shard_inv ctype s" "nextTaskID (key_manager_of s) \<le> nextTaskID m" "taskMinScheduledTime (key_manager_of s) \<le> taskMinScheduledTime m"
  shows "\<forall>(c, W) \<in> reported s. watermark_ok ctype m c W"
  using assms watermark_ok_mono [OF _ assms(2,3)] by (fastforce simp: shard_inv_def)

lemma shard_inv_tracked:
  assumes inv: "shard_inv ctype s"
    and same: "nextTaskID m = nextTaskID (key_manager_of s)" "exclusiveMaxTaskID m = exclusiveMaxTaskID (key_manager_of s)"
      "taskMinScheduledTime m = taskMinScheduledTime (key_manager_of s)" "inflightRequestCount m = int (length xs)"
    and sub: "set (xs @ ys) \<subseteq> set (live s)"
    and pend: "\<And>p c k. p \<in> set (xs @ ys) \<Longrightarrow> (c, k) \<in> set (req_minKeys p) \<Longrightarrow> k \<in> set (pendingTaskKeys (key_manager_of s) c) \<Longrightarrow>
      k \<in> set (pendingTaskKeys m c)"
    and dist: "distinct (concat (map req_ids (xs @ ys)))"
  shows "shard_inv ctype (s\<lparr>key_manager_of := m, inflight := xs, unresolved := ys\<rparr>)"
proof -
  have "request_ok ctype m (reported s) p" if "p \<in> set (xs @ ys)" for p
  proof (rule request_ok_mono [of ctype "key_manager_of s"])
    have "p \<in> set (live s)" using sub that by (rule subsetD)
    with inv show "request_ok ctype (key_manager_of s) (reported s) p" by (simp add: shard_inv_def)
  qed (use same(1) pend [OF that] in simp_all)
  moreover have "\<forall>(c, W) \<in> reported s. watermark_ok ctype m c W"
    using shard_inv_marks_mono [OF inv, of m] same by simp
  moreover have "gen_ok m" "taskMinScheduledTime m \<le> MaxInt64" using inv same by (simp_all add: shard_inv_def gen_ok_def)
  ultimately show ?thesis using same(4) dist by (simp add: shard_inv_def)
qed

lemma live_distinct:
  assumes "shard_inv ctype s" "inflight s = xs @ q # ys"
  shows "distinct (concat (map req_ids ((xs @ ys) @ unresolved s)))" "distinct (concat (map req_ids ((xs @ ys) @ q # unresolved s)))"
    "\<And>p. p \<in> set ((xs @ ys) @ unresolved s) \<Longrightarrow> set (req_ids p) \<inter> set (req_ids q) = {}"
proof -
  have "distinct (concat (map req_ids (live s)))" using assms(1) by (simp add: shard_inv_def)
  then have d: "distinct (concat (map req_ids xs) @ req_ids q @ concat (map req_ids ys) @ concat (map req_ids (unresolved s)))"
    using assms(2) by simp
  then show "distinct (concat (map req_ids ((xs @ ys) @ unresolved s)))" "distinct (concat (map req_ids ((xs @ ys) @ q # unresolved s)))"
    by (simp_all add: Int_Un_distrib Int_Un_distrib2 Int_commute del: set_concat)
  show "set (req_ids p) \<inter> set (req_ids q) = {}" if "p \<in> set ((xs @ ys) @ unresolved s)" for p
  proof -
    have "set (req_ids p) \<subseteq> set (concat (map req_ids xs)) \<union> (set (concat (map req_ids ys)) \<union> set (concat (map req_ids (unresolved s))))"
      using that by auto
    with d show ?thesis by (simp add: Int_Un_distrib Int_commute del: set_concat) blast
  qed
qed

text \<open>The keys that one request stops waiting for are not the keys of another, because task IDs are distinct.\<close>

lemma resolved_inv:
  assumes inv: "shard_inv ctype s" and q: "inflight s = xs @ q # ys"
  shows "shard_inv ctype (s\<lparr>key_manager_of := complete_request (req_minKeys q) True (key_manager_of s), inflight := xs @ ys\<rparr>)"
proof -
  let ?m = "key_manager_of s" and ?m' = "complete_request (req_minKeys q) True (key_manager_of s)"
  have "shard_inv ctype (s\<lparr>key_manager_of := ?m', inflight := xs @ ys, unresolved := unresolved s\<rparr>)"
  proof (rule shard_inv_tracked [OF inv])
    show "inflightRequestCount ?m' = int (length (xs @ ys))" using inv q by (simp add: shard_inv_def)
    show "set ((xs @ ys) @ unresolved s) \<subseteq> set (live s)" using q by auto
    show "distinct (concat (map req_ids ((xs @ ys) @ unresolved s)))" by (rule live_distinct [OF assms])
    fix p c k assume p: "p \<in> set ((xs @ ys) @ unresolved s)" and k: "(c, k) \<in> set (req_minKeys p)" "k \<in> set (pendingTaskKeys ?m c)"
    have "p \<in> set (live s)" "q \<in> set (live s)" using p q by auto
    with inv have ok: "request_ok ctype ?m (reported s) p" "request_ok ctype ?m (reported s) q" by (simp_all add: shard_inv_def)
    have "TaskID k \<in> set (req_ids p)" using ok(1) k(1) by (fastforce simp: request_ok_def)
    moreover have "TaskID k \<in> set (req_ids q)" if "(c, k) \<in> set (req_minKeys q)" using ok(2) that by (fastforce simp: request_ok_def)
    ultimately show "k \<in> set (pendingTaskKeys ?m' c)" using k(2) live_distinct(3) [OF assms p] by (auto simp: remove_keys)
  qed simp_all
  then show ?thesis by simp
qed

lemma unclear_inv:
  assumes inv: "shard_inv ctype s" and q: "inflight s = xs @ q # ys"
  shows "shard_inv ctype (s\<lparr>key_manager_of := complete_request (req_minKeys q) False (key_manager_of s), inflight := xs @ ys,
      unresolved := q # unresolved s\<rparr>)"
proof (rule shard_inv_tracked [OF inv])
  show "inflightRequestCount (complete_request (req_minKeys q) False (key_manager_of s)) = int (length (xs @ ys))"
    using inv q by (simp add: shard_inv_def)
  show "set ((xs @ ys) @ q # unresolved s) \<subseteq> set (live s)" using q by auto
  show "distinct (concat (map req_ids ((xs @ ys) @ q # unresolved s)))" by (rule live_distinct [OF assms])
qed simp_all

lemma drain_inv:
  assumes inv: "shard_inv ctype s" and drain: "drain_requests (key_manager_of s) = (b, m)"
  shows "shard_inv ctype (s\<lparr>key_manager_of := m\<rparr>)"
proof -
  have "shard_inv ctype (s\<lparr>key_manager_of := m, inflight := inflight s, unresolved := unresolved s\<rparr>)"
    using inv drain by (intro shard_inv_tracked [OF inv]) (auto simp: drain_requests_def shard_inv_def split: if_splits)
  then show ?thesis by simp
qed

lemma minTaskKey_le:
  "(case minTaskKey m c of None \<Rightarrow> MaximumKey | Some k \<Rightarrow> k) \<le> MaximumKey \<and>
   (\<forall>k \<in> set (pendingTaskKeys m c). (case minTaskKey m c of None \<Rightarrow> MaximumKey | Some k \<Rightarrow> k) \<le> k)"
proof -
  have "foldl (\<lambda>x k. if CompareTo k x < 0 then k else x) a ks \<le> a \<and>
      (\<forall>k \<in> set ks. foldl (\<lambda>x k. if CompareTo k x < 0 then k else x) a ks \<le> k)" for a ks
    by (induction ks arbitrary: a) (fastforce intro: order_trans less_imp_le)+
  then show ?thesis by (auto simp: minTaskKey_def)
qed

lemma request_ok_insert:
  assumes "request_ok ctype m rep q" "\<And>ts t. (c, ts) \<in> set (req_tasks q) \<Longrightarrow> t \<in> set ts \<Longrightarrow> W \<le> new_task_key (ctype c) t"
  shows "request_ok ctype m (insert (c, W) rep) q"
  unfolding request_ok_def
proof (intro conjI ballI, goal_cases)
  case (1 p)
  obtain d ts where p: "p = (d, ts)" by (cases p)
  define pending where "pending t \<longleftrightarrow> MaximumKey \<le> new_task_key (ctype d) t \<or>
         (\<exists>k. (d, k) \<in> set (req_minKeys q) \<and> k \<in> set (pendingTaskKeys m d) \<and> k \<le> new_task_key (ctype d) t)" for t
  have "\<forall>p \<in> set (req_tasks q). case p of (c, ts) \<Rightarrow> \<forall>t \<in> set ts. 0 \<le> NewTaskID t \<and> NewTaskID t < nextTaskID m \<and>
        (\<forall>W. (c, W) \<in> rep \<longrightarrow> W \<le> new_task_key (ctype c) t) \<and>
        (MaximumKey \<le> new_task_key (ctype c) t \<or>
         (\<exists>k. (c, k) \<in> set (req_minKeys q) \<and> k \<in> set (pendingTaskKeys m c) \<and> k \<le> new_task_key (ctype c) t))"
    using assms(1) unfolding request_ok_def by (rule conjunct1)
  from this [rule_format, OF 1] have old: "\<forall>t \<in> set ts. 0 \<le> NewTaskID t \<and> NewTaskID t < nextTaskID m \<and>
        (\<forall>W. (d, W) \<in> rep \<longrightarrow> W \<le> new_task_key (ctype d) t) \<and> pending t"
    unfolding p prod.case pending_def .
  have new: "\<forall>t \<in> set ts. d = c \<longrightarrow> W \<le> new_task_key (ctype d) t" using assms(2) 1 p by blast
  show ?case unfolding p prod.case pending_def [symmetric] using old new by auto
next
  case (2 p)
  with assms(1) show ?case unfolding request_ok_def by blast
qed

lemma report_inv:
  assumes inv: "shard_inv ctype s" and get: "getExclusiveReaderHighWatermark ctype now shift c (key_manager_of s) = (W, m)"
    and "now + shift \<le> MaxInt64"
  shows "shard_inv ctype (s\<lparr>key_manager_of := m, reported := insert (c, W) (reported s)\<rparr>)"
proof -
  let ?m = "key_manager_of s"
  define minKey where "minKey = (case minTaskKey ?m c of None \<Rightarrow> MaximumKey | Some k \<Rightarrow> k)"
  define peek where "peek = peekTaskKey (ctype c) m"
  have m: "m = setTaskMinScheduledTime (Truncate (now + shift)) ?m"
    and W: "W = (if ctype c = CategoryTypeScheduled then Key (Truncate (FireTime (min minKey peek))) 0 else min minKey peek)"
    using get by (auto simp: getExclusiveReaderHighWatermark_def Let_def minKey_def peek_def)
  have same: "nextTaskID m = nextTaskID ?m" "exclusiveMaxTaskID m = exclusiveMaxTaskID ?m" "pendingTaskKeys m = pendingTaskKeys ?m"
    "inflightRequestCount m = inflightRequestCount ?m" "taskMinScheduledTime ?m \<le> taskMinScheduledTime m" by (simp_all add: m setTaskMinScheduledTime_def)
  have small: "taskMinScheduledTime m \<le> MaxInt64"
    using inv assms(3) Truncate_le [of "now + shift"] by (simp add: m setTaskMinScheduledTime_def shard_inv_def)
  have mark: "watermark_ok ctype m c W"
  proof (cases "ctype c")
    case CategoryTypeImmediate
    then show ?thesis by (simp add: watermark_ok_def W peek_def peekTaskKey_def)
  next
    case CategoryTypeScheduled
    have "FireTime (min minKey peek) \<le> FireTime peek" by (cases minKey; cases peek) (auto simp: min_def key_le_iff)
    with CategoryTypeScheduled Truncate_le [of "FireTime (min minKey peek)"] show ?thesis
      by (simp add: watermark_ok_def W) (simp add: peek_def peekTaskKey_def NewKey_def)
  qed
  have above: "W \<le> new_task_key (ctype c) t"
    if q: "q \<in> set (live s)" and ts: "(c, ts) \<in> set (req_tasks q)" "t \<in> set ts" for q ts t
  proof -
    from inv q have "request_ok ctype ?m (reported s) q" by (simp add: shard_inv_def)
    with ts have t: "0 \<le> NewTaskID t" "MaximumKey \<le> new_task_key (ctype c) t \<or>
        (\<exists>k. (c, k) \<in> set (req_minKeys q) \<and> k \<in> set (pendingTaskKeys ?m c) \<and> k \<le> new_task_key (ctype c) t)"
      by (fastforce simp: request_ok_def)+
    have "minKey \<le> new_task_key (ctype c) t"
      using t(2) minTaskKey_le [of ?m c, folded minKey_def] by (meson order_trans)
    then have le: "min minKey peek \<le> new_task_key (ctype c) t" by (simp add: min.coboundedI1)
    show ?thesis
    proof (cases "ctype c")
      case CategoryTypeImmediate
      with le show ?thesis by (simp add: W)
    next
      case CategoryTypeScheduled
      have "FireTime (min minKey peek) \<le> VisibilityTime t"
        using le CategoryTypeScheduled by (cases "min minKey peek") (auto simp: new_task_key_def NewKey_def key_le_iff)
      with CategoryTypeScheduled t(1) Truncate_le [of "FireTime (min minKey peek)"] show ?thesis
        by (simp add: W) (auto simp: new_task_key_def NewKey_def key_le_iff)
    qed
  qed
  have "request_ok ctype m (insert (c, W) (reported s)) q" if q: "q \<in> set (live s)" for q
  proof (rule request_ok_insert)
    from inv q have "request_ok ctype ?m (reported s) q" by (simp add: shard_inv_def)
    then show "request_ok ctype m (reported s) q" by (rule request_ok_mono) (simp_all add: same)
  qed (rule above [OF q])
  moreover have "gen_ok m" using inv same by (simp add: shard_inv_def gen_ok_def)
  ultimately show ?thesis using inv same small mark shard_inv_marks_mono [OF inv, of m] by (simp add: shard_inv_def)
qed

lemma generate_advances:
  assumes "gen_ok m" "renew_ok bits renew" "generateTaskKey bits renew ty m = (m', res)"
  shows "advances renew m m'"
proof -
  obtain m1 r where g: "generateTaskID bits renew m = (m1, r)" by fastforce
  with assms(3) have "m' = m1" by (cases r) (auto simp: generateTaskKey_def)
  with generateTaskID_ok [OF assms(1,2) g] show ?thesis by simp
qed

lemma shard_init_inv: "shard_inv ctype shard_init"
  by (simp add: shard_inv_def shard_init_def newTaskKeyManager_def gen_ok_def zero_time_def MaxInt64_def)

lemma shard_step_inv:
  assumes "shard_step bits ctype s s'" "shard_inv ctype s"
  shows "shard_inv ctype s'"
  using assms
proof (cases rule: shard_step.cases)
  case acquire
  with assms(2) acquire_inv show ?thesis by blast
next
  case assign
  with assign_inv [OF assms(2) assign(2-5)] show ?thesis by simp
next
  case assign_fails
  with assign_inv [OF assms(2) assign_fails(2-5)] show ?thesis by simp
next
  case (generate renew ty m res)
  from assms(2) have "gen_ok (key_manager_of s)" by (simp add: shard_inv_def)
  from advance_inv' [OF assms(2) generate_advances [OF this generate(2,4)] generate(3)] generate(1) show ?thesis by simp
next
  case resolved
  with assms(2) resolved_inv show ?thesis by blast
next
  case unclear
  with assms(2) unclear_inv show ?thesis by blast
next
  case drain
  with assms(2) drain_inv show ?thesis by blast
next
  case (min_time t)
  let ?m = "setTaskMinScheduledTime t (key_manager_of s)"
  have "shard_inv ctype (s\<lparr>key_manager_of := ?m, unresolved := fenced ?m s\<rparr>)"
  proof (rule advance_inv [OF assms(2) _ min_time(2)])
    show "advances (\<lambda>_. Inl () :: unit + int) ?m ?m"
      using assms(2) by (intro advances_refl) (auto simp: shard_inv_def gen_ok_def setTaskMinScheduledTime_def)
  qed simp
  then show ?thesis by (simp add: min_time(1) fenced_def setTaskMinScheduledTime_def)
next
  case report
  from report_inv [OF assms(2) report(2,3)] report(1) show ?thesis by simp
qed

lemma shard_reachable_inv: "(shard_step bits ctype)\<^sup>*\<^sup>* shard_init s \<Longrightarrow> shard_inv ctype s"
  by (induction rule: rtranclp_induct) (auto intro: shard_init_inv shard_step_inv)

section \<open>The property\<close>

text \<open>
  C7. Task keys respect the watermark of the readers. In every state that the shard's key manager can
  reach, no task of a request that is still to take effect, or may still take effect after an unclear
  error, has a key below any watermark that was ever reported for its category; the task IDs of these
  requests are distinct; the tracker counts the requests in flight, so that draining returns at once
  exactly when none is in flight.
\<close>

theorem Watermark_holds:
  assumes "(shard_step bits ctype)\<^sup>*\<^sup>* shard_init s"
  shows "(\<forall>q \<in> set (live s). \<forall>(c, ts) \<in> set (req_tasks q). \<forall>t \<in> set ts. \<forall>W. (c, W) \<in> reported s \<longrightarrow> W \<le> new_task_key (ctype c) t) \<and>
    distinct (concat (map req_ids (live s))) \<and>
    inflightRequestCount (key_manager_of s) = int (length (inflight s)) \<and>
    (fst (drain_requests (key_manager_of s)) \<longleftrightarrow> inflight s = [])"
proof -
  from shard_reachable_inv [OF assms] have inv: "shard_inv ctype s" .
  then have "\<forall>q \<in> set (live s). request_ok ctype (key_manager_of s) (reported s) q" by (simp add: shard_inv_def)
  then have "\<forall>q \<in> set (live s). \<forall>(c, ts) \<in> set (req_tasks q). \<forall>t \<in> set ts. \<forall>W. (c, W) \<in> reported s \<longrightarrow> W \<le> new_task_key (ctype c) t"
    unfolding request_ok_def by blast
  with inv show ?thesis by (simp add: shard_inv_def drain_requests_def)
qed

definition sample_ctype :: "unit \<Rightarrow> category_type" where
  "sample_ctype _ = CategoryTypeImmediate"

definition sample_request :: "int \<Rightarrow> unit request" where
  "sample_request n = \<lparr>req_minKeys = [((), NewImmediateKey n)], req_tasks = [((), [\<lparr>NewTaskID = n, VisibilityTime = 0\<rparr>])]\<rparr>"

definition sample_manager :: "int \<Rightarrow> int \<Rightarrow> task_key list \<Rightarrow> int \<Rightarrow> unit key_manager" where
  "sample_manager t n pending reqs =
     \<lparr>nextTaskID = n, exclusiveMaxTaskID = 4, taskMinScheduledTime = t,
      pendingTaskKeys = (\<lambda>_. pending), inflightRequestCount = reqs, waiters = 0\<rparr>"

lemma sample_keys_acquired: "setRangeID 1 1 newTaskKeyManager = sample_manager zero_time 2 [] 0"
  by (simp add: setRangeID_def clear_requests_def newTaskKeyManager_def sample_manager_def i64_id in_i64_def MinInt64_def MaxInt64_def)

lemma sample_keys_assigned:
  "t \<le> 0 \<Longrightarrow> n \<in> {2, 3} \<Longrightarrow> \<forall>k \<in> set pending. TaskID k \<noteq> n \<Longrightarrow>
   setAndTrackTaskKeys 1 (\<lambda>_. Inl []) sample_ctype 0 [((), [\<lparr>NewTaskID = 0, VisibilityTime = 7\<rparr>])] (sample_manager t n pending reqs) =
     (sample_manager 0 (n + 1) (NewImmediateKey n # pending) (reqs + 1), Inr (req_minKeys (sample_request n), req_tasks (sample_request n)))"
  by (auto simp: setAndTrackTaskKeys_def setTaskKeys_def setTaskMinScheduledTime_def Truncate_def generateTaskID_def
      sample_manager_def sample_ctype_def sample_request_def scheduled_time_def track_def min_key_of_def new_task_key_def
      NewImmediateKey_def MaximumKey_def taskIDUninitialized_def i64_id in_i64_def MinInt64_def MaxInt64_def DefaultFireTime_def
      ScheduledTaskMinPrecision_def NewKey_def Let_def fun_eq_iff List.insert_def key_less_iff)

lemma sample_keys_reported:
  "getExclusiveReaderHighWatermark sample_ctype 0 0 () (sample_manager 0 3 [NewImmediateKey 2] 1) =
     (NewImmediateKey 2, sample_manager 0 3 [NewImmediateKey 2] 1)"
  by (simp add: getExclusiveReaderHighWatermark_def minTaskKey_def sample_manager_def setTaskMinScheduledTime_def Truncate_def
      sample_ctype_def peekTaskKey_def NewImmediateKey_def MaximumKey_def NewKey_def DefaultFireTime_def MaxInt64_def min_def key_le_iff key_less_iff Let_def)

definition sample_keys :: "unit shard_keys" where
  "sample_keys =
     \<lparr>key_manager_of = sample_manager 0 4 [NewImmediateKey 3, NewImmediateKey 2] 2,
      inflight = [sample_request 3, sample_request 2], unresolved = [], reported = {((), NewImmediateKey 2)}\<rparr>"

lemma sample_keys_assign_step:
  assumes "t \<le> 0" "n \<in> {2, 3}" "\<forall>k \<in> set pending. TaskID k \<noteq> n"
  shows "shard_step 1 sample_ctype
    \<lparr>key_manager_of = sample_manager t n pending reqs, inflight = q, unresolved = [], reported = r\<rparr>
    \<lparr>key_manager_of = sample_manager 0 (n + 1) (NewImmediateKey n # pending) (reqs + 1), inflight = sample_request n # q,
     unresolved = [], reported = r\<rparr>"
proof -
  let ?s = "\<lparr>key_manager_of = sample_manager t n pending reqs, inflight = q, unresolved = [], reported = r\<rparr>"
  let ?fail = "\<lambda>_ :: int. Inl [] :: string + int"
  have fail: "renew_ok 1 ?fail" "(\<exists>a r. ?fail a = Inr r) \<longrightarrow> inflight ?s = []" "0 \<le> MaxInt64" by (simp_all add: renew_ok_def MaxInt64_def)
  have "setAndTrackTaskKeys 1 ?fail sample_ctype 0 [((), [\<lparr>NewTaskID = 0, VisibilityTime = 7\<rparr>])] (key_manager_of ?s) =
     (sample_manager 0 (n + 1) (NewImmediateKey n # pending) (reqs + 1), Inr (req_minKeys (sample_request n), req_tasks (sample_request n)))"
    using sample_keys_assigned [OF assms] by simp
  from shard_step.assign [OF fail this] show ?thesis
    by (simp add: fenced_def sample_manager_def sample_request_def del: One_nat_def)
qed

lemma sample_keys_reachable: "(shard_step 1 sample_ctype)\<^sup>*\<^sup>* shard_init sample_keys"
proof -
  let ?s = "\<lambda>m q r. \<lparr>key_manager_of = m, inflight = q, unresolved = [], reported = r\<rparr> :: unit shard_keys"
  let ?m2 = "sample_manager zero_time 2 [] 0" and ?m3 = "sample_manager 0 3 [NewImmediateKey 2] 1"
  let ?m4 = "sample_manager 0 4 [NewImmediateKey 3, NewImmediateKey 2] 2"
  have above: "range_above 1 (exclusiveMaxTaskID (key_manager_of (shard_init :: unit shard_keys))) 1"
    by (simp add: shard_init_def range_above_def newTaskKeyManager_def taskIDUninitialized_def MaxInt64_def)
  have "inflight (shard_init :: unit shard_keys) = []" by (simp add: shard_init_def)
  from shard_step.acquire [OF this above, of sample_ctype]
  have "shard_step 1 sample_ctype shard_init (?s ?m2 [] {})"
    by (simp only: shard_init_def shard_keys.simps sample_keys_acquired)
  then have "(shard_step 1 sample_ctype)\<^sup>*\<^sup>* shard_init (?s ?m2 [] {})" by (rule r_into_rtranclp)
  also have "shard_step 1 sample_ctype (?s ?m2 [] {}) (?s ?m3 [sample_request 2] {})"
    using sample_keys_assign_step [of zero_time 2 "[]" 0 "[]" "{}"] by (simp add: zero_time_def)
  also (rtranclp.rtrancl_into_rtrancl) have "shard_step 1 sample_ctype (?s ?m3 [sample_request 2] {}) (?s ?m3 [sample_request 2] {((), NewImmediateKey 2)})"
    using shard_step.report [of sample_ctype 0 0 "()" "?s ?m3 [sample_request 2] {}"] sample_keys_reported by (simp add: MaxInt64_def)
  also (rtranclp.rtrancl_into_rtrancl) have "shard_step 1 sample_ctype (?s ?m3 [sample_request 2] {((), NewImmediateKey 2)}) sample_keys"
    using sample_keys_assign_step [of 0 3 "[NewImmediateKey 2]" 1] by (simp add: sample_keys_def NewImmediateKey_def)
  finally (rtranclp.rtrancl_into_rtrancl) show ?thesis .
qed

theorem Watermark_holds_witness:
  "NewImmediateKey 2 \<le> new_task_key CategoryTypeImmediate \<lparr>NewTaskID = 3, VisibilityTime = 0\<rparr> \<and>
   \<not> fst (drain_requests (key_manager_of sample_keys))"
  using Watermark_holds [OF sample_keys_reachable] by (simp add: sample_keys_def sample_request_def sample_ctype_def)

end
