(* ===== verification/Effects.thy ===== *)
theory Effects
  imports Prelude
begin

text \<open>
  Futures (\<open>common/future\<close>) and the effect package (\<open>common/effect\<close>): callbacks that are registered
  while a transaction runs and called when it is committed or rolled back. A callback is a value
  of a type \<open>'e\<close>; what it does to the state is a function \<open>run :: 'e \<Rightarrow> 's \<Rightarrow> 'x + 's\<close>, where
  \<open>Inl\<close> is a panic.
\<close>

section \<open>Futures\<close>

text \<open>
  A \<open>FutureImpl\<close> is pending or holds a value and error; a \<open>ReadyFutureImpl\<close> holds them from the start.
  \<open>set_future\<close> is \<open>Set\<close> called through the type assertion to \<open>*FutureImpl\<close>, and fails both on a
  future of the other kind and on one that is already completed.
\<close>

datatype 'a future =
    FutureImpl "'a option"
  | ReadyFutureImpl 'a

datatype future_panic =
    NotAFutureImpl
  | AlreadyCompleted

definition NewFuture :: "'a future" where
  "NewFuture = FutureImpl None"

definition NewReadyFuture :: "'a \<Rightarrow> 'a future" where
  "NewReadyFuture v = ReadyFutureImpl v"

fun set_future :: "'a future \<Rightarrow> 'a \<Rightarrow> future_panic + 'a future" where
  "set_future (FutureImpl None) v = Inr (FutureImpl (Some v))"
| "set_future (FutureImpl (Some _)) v = Inl AlreadyCompleted"
| "set_future (ReadyFutureImpl _) v = Inl NotAFutureImpl"

fun SetIfNotReady :: "'a future \<Rightarrow> 'a \<Rightarrow> 'a future \<times> bool" where
  "SetIfNotReady (FutureImpl None) v = (FutureImpl (Some v), True)"
| "SetIfNotReady f v = (f, False)"

fun Ready :: "'a future \<Rightarrow> bool" where
  "Ready (FutureImpl v) = (v \<noteq> None)"
| "Ready (ReadyFutureImpl _) = True"

fun GetIfReady :: "'a future \<Rightarrow> 'a option" where
  "GetIfReady (FutureImpl v) = v"
| "GetIfReady (ReadyFutureImpl v) = Some v"

lemma Ready_iff: "Ready f \<longleftrightarrow> GetIfReady f \<noteq> None"
  by (cases f) auto

lemma set_future_Inr:
  "set_future f v = Inr f' \<longleftrightarrow> f = FutureImpl None \<and> f' = FutureImpl (Some v)"
  by (cases "(f, v)" rule: set_future.cases) auto

section \<open>The effects buffer\<close>

record 'e effect_buffer =
  effects :: "'e list"
  cancels :: "'e list"

definition empty_buffer :: "'e effect_buffer" where
  "empty_buffer = \<lparr>effects = [], cancels = []\<rparr>"

fun run_all :: "('e \<Rightarrow> 's \<Rightarrow> 'x + 's) \<Rightarrow> 'e list \<Rightarrow> 's \<Rightarrow> 'x + 's" where
  "run_all run [] s = Inr s"
| "run_all run (e # es) s = bind_result (run e s) (run_all run es)"

definition Buffer_OnAfterCommit :: "'e effect_buffer \<Rightarrow> 'e \<Rightarrow> 'e effect_buffer" where
  "Buffer_OnAfterCommit b e = b\<lparr>effects := effects b @ [e]\<rparr>"

definition Buffer_OnAfterRollback :: "'e effect_buffer \<Rightarrow> 'e \<Rightarrow> 'e effect_buffer" where
  "Buffer_OnAfterRollback b e = b\<lparr>cancels := cancels b @ [e]\<rparr>"

definition Buffer_Apply ::
    "('e \<Rightarrow> 's \<Rightarrow> 'x + 's) \<Rightarrow> 'e effect_buffer \<Rightarrow> 's \<Rightarrow> 'x + 's \<times> 'e effect_buffer \<times> bool" where
  "Buffer_Apply run b s =
     bind_result (run_all run (effects b) s) (\<lambda>s'. Inr (s', empty_buffer, effects b \<noteq> []))"

definition Buffer_Cancel ::
    "('e \<Rightarrow> 's \<Rightarrow> 'x + 's) \<Rightarrow> 'e effect_buffer \<Rightarrow> 's \<Rightarrow> 'x + 's \<times> 'e effect_buffer \<times> bool" where
  "Buffer_Cancel run b s =
     bind_result (run_all run (rev (cancels b)) s) (\<lambda>s'. Inr (s', empty_buffer, cancels b \<noteq> []))"

text \<open>
  The two controllers: the buffer delays a callback, \<open>Immediate\<close> runs a commit callback at once and
  drops a rollback callback.
\<close>

datatype controller = Buffer | Immediate

definition OnAfterCommit ::
    "('e \<Rightarrow> 's \<Rightarrow> 'x + 's) \<Rightarrow> controller \<Rightarrow> 'e \<Rightarrow> 's \<times> 'e effect_buffer \<Rightarrow> 'x + 's \<times> 'e effect_buffer" where
  "OnAfterCommit run ctl e sb =
     (case ctl of
        Buffer \<Rightarrow> Inr (fst sb, Buffer_OnAfterCommit (snd sb) e)
      | Immediate \<Rightarrow> bind_result (run e (fst sb)) (\<lambda>s'. Inr (s', snd sb)))"

definition OnAfterRollback :: "controller \<Rightarrow> 'e \<Rightarrow> 's \<times> 'e effect_buffer \<Rightarrow> 's \<times> 'e effect_buffer" where
  "OnAfterRollback ctl e sb =
     (case ctl of Buffer \<Rightarrow> (fst sb, Buffer_OnAfterRollback (snd sb) e) | Immediate \<Rightarrow> sb)"

text \<open>The two registrations every operation ends with, in the code's order.\<close>

definition register ::
    "('e \<Rightarrow> 's \<Rightarrow> 'x + 's) \<Rightarrow> controller \<Rightarrow> 'e \<Rightarrow> 'e \<Rightarrow> 's \<times> 'e effect_buffer \<Rightarrow> 'x + 's \<times> 'e effect_buffer" where
  "register run ctl commit rollback sb =
     bind_result (OnAfterCommit run ctl commit sb) (\<lambda>sb. Inr (OnAfterRollback ctl rollback sb))"

lemma register_Buffer [simp]:
  "register run Buffer c r (s, b) =
     Inr (s, b\<lparr>effects := effects b @ [c], cancels := cancels b @ [r]\<rparr>)"
  by (simp add: register_def OnAfterCommit_def OnAfterRollback_def
      Buffer_OnAfterCommit_def Buffer_OnAfterRollback_def)

lemma register_Immediate [simp]:
  "register run Immediate c r (s, b) = bind_result (run c s) (\<lambda>s'. Inr (s', b))"
  by (cases "run c s") (simp_all add: register_def OnAfterCommit_def OnAfterRollback_def)

lemma run_all_append:
  "run_all run (xs @ ys) s = bind_result (run_all run xs s) (run_all run ys)"
proof (induction xs arbitrary: s)
  case (Cons e xs)
  then show ?case by (cases "run e s") simp_all
qed simp

end
