(* ===== verification/WorkflowUpdate.thy ===== *)
theory WorkflowUpdate
  imports Effects "HOL-Library.Word"
begin

text \<open>
  The state machine of one workflow update: \<open>service/history/workflow/update\<close> (\<open>state.go\<close>,
  \<open>abort_reason.go\<close>, \<open>validation.go\<close>, \<open>status.go\<close>, \<open>update.go\<close>). An operation works on the update
  object, the effects buffer of the current transaction and the event store. The callbacks it
  registers are the values of \<open>update_effect\<close>, with what the Go closures capture as arguments.
  Metrics, logs and tracing are left out.
\<close>

unbundle bit_operations_syntax

section \<open>States\<close>

datatype update_state =
    Created
  | ProvisionallyAdmitted
  | Admitted
  | Sent
  | ProvisionallyAccepted
  | Accepted
  | ProvisionallyCompleted
  | ProvisionallyCompletedAfterAccepted
  | Completed
  | ProvisionallyAborted
  | Aborted

text \<open>The constants \<open>1 << iota\<close>.\<close>

fun state_bit :: "update_state \<Rightarrow> 32 word" where
  "state_bit Created = 1"
| "state_bit ProvisionallyAdmitted = 2"
| "state_bit Admitted = 4"
| "state_bit Sent = 8"
| "state_bit ProvisionallyAccepted = 16"
| "state_bit Accepted = 32"
| "state_bit ProvisionallyCompleted = 64"
| "state_bit ProvisionallyCompletedAfterAccepted = 128"
| "state_bit Completed = 256"
| "state_bit ProvisionallyAborted = 512"
| "state_bit Aborted = 1024"

fun stateSet :: "update_state list \<Rightarrow> 32 word" where
  "stateSet [] = 0"
| "stateSet (s # ss) = state_bit s OR stateSet ss"

definition Matches :: "update_state \<Rightarrow> 32 word \<Rightarrow> bool" where
  "Matches s allowed \<longleftrightarrow> state_bit s AND allowed = state_bit s"

lemma state_bit_overlap: "state_bit s AND state_bit t = (if s = t then state_bit s else 0)"
  by (cases s; cases t) simp_all

lemma state_bit_nonzero: "state_bit s \<noteq> 0"
  by (cases s) simp_all

lemma Matches_stateSet [simp]: "Matches s (stateSet ss) \<longleftrightarrow> s \<in> set ss"
proof -
  have "state_bit s AND stateSet ss = (if s \<in> set ss then state_bit s else 0)"
    by (induction ss) (auto simp: bit.conj_disj_distrib state_bit_overlap)
  then show ?thesis using state_bit_nonzero [of s] by (auto simp: Matches_def)
qed

declare stateSet.simps [simp del]

section \<open>Abort reasons\<close>

datatype abort_reason =
    RegistryCleared
  | WorkflowCompleted
  | WorkflowContinuing
  | WorkflowTaskFailed

datatype failure =
    AcceptedUpdateCompletedWorkflow
  | UnprocessedUpdate
  | WorkerFailure string

datatype update_error =
    RegistryClearedErr
  | AbortedByServerErr
  | AbortedByWorkflowClosingErr
  | WorkflowClosing
  | WorkflowTaskFailErr
  | InvalidArgument string
  | ResourceExhausted
  | FailedPrecondition
  | StoreError string

text \<open>\<open>reasonStateMatrix\<close>: the failure or the error an update in a state is aborted with.\<close>

fun FailureError :: "abort_reason \<Rightarrow> update_state \<Rightarrow> failure option \<times> update_error option" where
  "FailureError RegistryCleared st =
     (if st \<in> {Completed, ProvisionallyAborted, Aborted} then (None, None)
      else (None, Some RegistryClearedErr))"
| "FailureError WorkflowCompleted st =
     (if st \<in> {Created, ProvisionallyAdmitted, Admitted, Sent} then (None, Some AbortedByWorkflowClosingErr)
      else if st \<in> {Completed, ProvisionallyAborted, Aborted} then (None, None)
      else (Some AcceptedUpdateCompletedWorkflow, None))"
| "FailureError WorkflowContinuing st =
     (if st \<in> {Created, ProvisionallyAdmitted, Admitted, Sent} then (None, Some WorkflowClosing)
      else if st \<in> {Completed, ProvisionallyAborted, Aborted} then (None, None)
      else (Some AcceptedUpdateCompletedWorkflow, None))"
| "FailureError WorkflowTaskFailed st =
     (if st \<in> {Created, ProvisionallyAdmitted, Admitted} then (None, Some RegistryClearedErr)
      else if st = Sent then (None, Some WorkflowTaskFailErr)
      else (None, None))"

section \<open>Messages and their validation\<close>

text \<open>
  The protobuf messages, with an absent sub-message as \<open>None\<close>; the getters return the zero value
  then. Of a failure and a payload only the identity matters.
\<close>

record request =
  ReqMetaUpdateId :: "string option"
  ReqInputName :: "string option"

record acceptance =
  AcceptedRequestSequencingEventId :: int
  AcceptedRequestMessageId :: string
  AcceptedRequest :: "request option"

record rejection =
  RejectedRequest :: "request option"
  RejFailure :: failure

datatype update_outcome =
    OutcomeFailure failure
  | OutcomeSuccess string

record response =
  ResMetaUpdateId :: "string option"
  Outcome :: "update_outcome option"

datatype body =
    AcceptanceBody acceptance
  | RejectionBody rejection
  | ResponseBody response
  | OtherBody
  | MalformedBody

record protocol_message =
  ProtocolInstanceId :: string
  Body :: "body option"

definition get_string :: "string option \<Rightarrow> string" where
  "get_string s = (case s of None \<Rightarrow> [] | Some x \<Rightarrow> x)"

text \<open>A check is a condition with the label of the field that the error names.\<close>

fun validate :: "(bool \<times> string) list \<Rightarrow> update_error option" where
  "validate [] = None"
| "validate ((ok, lbl) # vs) = (if ok then validate vs else Some (InvalidArgument lbl))"

definition validateRequestMsg :: "string \<Rightarrow> request option \<Rightarrow> update_error option" where
  "validateRequestMsg updateID msg =
     (let meta = (case msg of None \<Rightarrow> None | Some r \<Rightarrow> ReqMetaUpdateId r);
          input = (case msg of None \<Rightarrow> None | Some r \<Rightarrow> ReqInputName r)
      in validate
       [(msg \<noteq> None, ''body''),
        (meta \<noteq> None, ''meta''),
        (get_string meta \<noteq> [], ''meta.update_id''),
        (get_string meta = updateID, ''meta.update_id''),
        (input \<noteq> None, ''input''),
        (get_string input \<noteq> [], ''input.name'')])"

definition validateAcceptanceMsg :: "acceptance \<Rightarrow> update_error option" where
  "validateAcceptanceMsg msg = validate
     [(True, ''body''),
      (AcceptedRequestSequencingEventId msg \<noteq> 0, ''accepted_request_sequencing_event_id''),
      (AcceptedRequestMessageId msg \<noteq> [], ''accepted_request_message_id'')]"

definition validateResponseMsg :: "string \<Rightarrow> response \<Rightarrow> update_error option" where
  "validateResponseMsg updateID msg = validate
     [(True, ''body''),
      (ResMetaUpdateId msg \<noteq> None, ''meta''),
      (get_string (ResMetaUpdateId msg) \<noteq> [], ''meta.update_id''),
      (get_string (ResMetaUpdateId msg) = updateID, ''meta.update_id''),
      (Outcome msg \<noteq> None, ''outcome'')]"

definition validateRejectionMsg :: "rejection \<Rightarrow> update_error option" where
  "validateRejectionMsg msg = validate [(True, ''body'')]"

section \<open>The update object\<close>

text \<open>
  \<open>onComplete\<close> is the ID whose registry entry the callback removes, \<open>None\<close> for the empty callback.
  A future holds the pair of value and error that \<open>Set\<close> received.
\<close>

record workflow_update =
  upd_id :: string
  upd_state :: update_state
  upd_request :: "request option"
  acceptedEventID :: int
  onComplete :: "string option"
  admittedTime :: int
  accepted :: "(failure option \<times> update_error option) future"
  outcome :: "(update_outcome option \<times> update_error option) future"

definition EmptyEventID :: int where
  "EmptyEventID = 0"

definition New :: "string \<Rightarrow> string option \<Rightarrow> workflow_update" where
  "New updID cb = \<lparr>upd_id = updID, upd_state = Created, upd_request = None, acceptedEventID = 0, onComplete = cb,
     admittedTime = 0, accepted = NewFuture, outcome = NewFuture\<rparr>"

definition newAdmitted :: "string \<Rightarrow> request option \<Rightarrow> int \<Rightarrow> string option \<Rightarrow> workflow_update" where
  "newAdmitted updID req now cb = \<lparr>upd_id = updID, upd_state = Admitted, upd_request = req, acceptedEventID = 0,
     onComplete = cb, admittedTime = now, accepted = NewFuture, outcome = NewFuture\<rparr>"

definition newAccepted :: "string \<Rightarrow> int \<Rightarrow> string option \<Rightarrow> workflow_update" where
  "newAccepted updID eventID cb = \<lparr>upd_id = updID, upd_state = Accepted, upd_request = None,
     acceptedEventID = eventID, onComplete = cb, admittedTime = 0,
     accepted = NewReadyFuture (None, None), outcome = NewFuture\<rparr>"

definition newCompleted :: "string \<Rightarrow> update_outcome option \<times> update_error option \<Rightarrow> workflow_update" where
  "newCompleted updID res = \<lparr>upd_id = updID, upd_state = Completed, upd_request = None, acceptedEventID = 0,
     onComplete = None, admittedTime = 0, accepted = NewReadyFuture (None, None), outcome = NewReadyFuture res\<rparr>"

section \<open>Callbacks\<close>

datatype update_effect =
    AbortCommit "failure option" "update_error option" update_state
  | AbortRollback update_state
  | AdmitCommit
  | AdmitRollback update_state
  | AcceptCommit
  | AcceptRollback update_state
  | RejectCommit failure
  | RejectRollback update_state
  | ResponseCommit "update_outcome option"
  | ResponseRollback update_state

text \<open>
  The writes a commit callback makes to the futures, in order, after it has changed the other
  fields. The waiters do not hold the workflow lock, so the order is visible to them.
\<close>

datatype future_write =
    SetAccepted "failure option" "update_error option"
  | SetOutcome "update_outcome option" "update_error option"

fun write_future :: "future_write \<Rightarrow> workflow_update \<Rightarrow> future_panic + workflow_update" where
  "write_future (SetAccepted f e) u =
     bind_result (set_future (accepted u) (f, e)) (\<lambda>a. Inr (u\<lparr>accepted := a\<rparr>))"
| "write_future (SetOutcome v e) u =
     bind_result (set_future (outcome u) (v, e)) (\<lambda>a. Inr (u\<lparr>outcome := a\<rparr>))"

definition preAcceptedStates :: "32 word" where
  "preAcceptedStates = stateSet [Created, ProvisionallyAdmitted, Admitted, Sent, ProvisionallyAccepted]"

text \<open>
  A callback's change of the fields, its writes to the futures and whether it calls \<open>onComplete\<close> at
  its end; \<open>now\<close> is the clock when it runs.
\<close>

type_synonym callback_result = "workflow_update \<times> future_write list \<times> bool"

definition abort_on_commit ::
    "failure option \<Rightarrow> update_error option \<Rightarrow> update_state \<Rightarrow> workflow_update \<Rightarrow> callback_result" where
  "abort_on_commit abortFailure abortErr prevState u =
     (if \<not> Matches (upd_state u) (stateSet [ProvisionallyAborted, ProvisionallyCompletedAfterAccepted])
      then (u, [], False)
      else let abortOutcome = (case abortFailure of None \<Rightarrow> None | Some fl \<Rightarrow> Some (OutcomeFailure fl)) in
        (u\<lparr>upd_state := Aborted\<rparr>,
         SetOutcome abortOutcome abortErr #
           (if upd_state u = ProvisionallyCompletedAfterAccepted then [SetAccepted None None]
            else if Matches prevState preAcceptedStates then [SetAccepted abortFailure abortErr] else []),
         False))"

definition abort_on_rollback :: "update_state \<Rightarrow> workflow_update \<Rightarrow> callback_result" where
  "abort_on_rollback prevState u =
     (if upd_state u \<noteq> ProvisionallyAborted then (u, [], False)
      else (u\<lparr>upd_state := prevState\<rparr>, [], False))"

definition admit_on_commit :: "int \<Rightarrow> workflow_update \<Rightarrow> callback_result" where
  "admit_on_commit now u =
     (if upd_state u \<noteq> ProvisionallyAdmitted then (u, [], False)
      else (u\<lparr>upd_state := Admitted, admittedTime := now\<rparr>, [], False))"

definition admit_on_rollback :: "update_state \<Rightarrow> workflow_update \<Rightarrow> callback_result" where
  "admit_on_rollback prevState u =
     (if upd_state u \<noteq> ProvisionallyAdmitted then (u, [], False)
      else (u\<lparr>upd_state := prevState, admittedTime := 0\<rparr>, [], False))"

definition accept_on_commit :: "workflow_update \<Rightarrow> callback_result" where
  "accept_on_commit u =
     (if \<not> Matches (upd_state u) (stateSet [ProvisionallyAccepted, ProvisionallyCompleted, ProvisionallyAborted])
      then (u, [], False)
      else let u = u\<lparr>upd_request := None\<rparr> in
        if upd_state u = ProvisionallyCompleted then (u\<lparr>upd_state := ProvisionallyCompletedAfterAccepted\<rparr>, [], False)
        else if upd_state u = ProvisionallyAborted then (u\<lparr>upd_state := ProvisionallyCompletedAfterAccepted\<rparr>, [], False)
        else (u\<lparr>upd_state := Accepted\<rparr>, [SetAccepted None None], False))"

definition accept_on_rollback :: "update_state \<Rightarrow> workflow_update \<Rightarrow> callback_result" where
  "accept_on_rollback prevState u =
     (if upd_state u \<noteq> ProvisionallyAccepted then (u, [], False)
      else (u\<lparr>acceptedEventID := EmptyEventID, upd_state := prevState\<rparr>, [], False))"

definition reject_on_commit :: "failure \<Rightarrow> workflow_update \<Rightarrow> callback_result" where
  "reject_on_commit rejectionFailure u =
     (if upd_state u \<noteq> ProvisionallyCompleted then (u, [], False)
      else (u\<lparr>upd_request := None, upd_state := Completed\<rparr>,
            [SetAccepted (Some rejectionFailure) None, SetOutcome (Some (OutcomeFailure rejectionFailure)) None], True))"

definition reject_on_rollback :: "update_state \<Rightarrow> workflow_update \<Rightarrow> callback_result" where
  "reject_on_rollback prevState u =
     (if upd_state u \<noteq> ProvisionallyCompleted then (u, [], False)
      else (u\<lparr>upd_state := prevState\<rparr>, [], False))"

definition response_on_commit :: "update_outcome option \<Rightarrow> workflow_update \<Rightarrow> callback_result" where
  "response_on_commit res u =
     (if \<not> Matches (upd_state u) (stateSet [ProvisionallyCompleted, ProvisionallyCompletedAfterAccepted])
      then (u, [], False)
      else (u\<lparr>upd_state := Completed\<rparr>,
            SetOutcome res None #
              (if upd_state u = ProvisionallyCompletedAfterAccepted then [SetAccepted None None] else []),
            True))"

definition response_on_rollback :: "update_state \<Rightarrow> workflow_update \<Rightarrow> callback_result" where
  "response_on_rollback prevState u =
     (if upd_state u \<noteq> ProvisionallyCompleted then (u, [], False)
      else (u\<lparr>upd_state := prevState\<rparr>, [], False))"

lemmas callback_defs [simp] =
  abort_on_commit_def abort_on_rollback_def admit_on_commit_def admit_on_rollback_def
  accept_on_commit_def accept_on_rollback_def reject_on_commit_def reject_on_rollback_def
  response_on_commit_def response_on_rollback_def

fun effect_body :: "int \<Rightarrow> update_effect \<Rightarrow> workflow_update \<Rightarrow> callback_result" where
  "effect_body now (AbortCommit f e prevState) u = abort_on_commit f e prevState u"
| "effect_body now (AbortRollback prevState) u = abort_on_rollback prevState u"
| "effect_body now AdmitCommit u = admit_on_commit now u"
| "effect_body now (AdmitRollback prevState) u = admit_on_rollback prevState u"
| "effect_body now AcceptCommit u = accept_on_commit u"
| "effect_body now (AcceptRollback prevState) u = accept_on_rollback prevState u"
| "effect_body now (RejectCommit f) u = reject_on_commit f u"
| "effect_body now (RejectRollback prevState) u = reject_on_rollback prevState u"
| "effect_body now (ResponseCommit res) u = response_on_commit res u"
| "effect_body now (ResponseRollback prevState) u = response_on_rollback prevState u"

definition run_effect :: "int \<Rightarrow> update_effect \<Rightarrow> workflow_update \<Rightarrow> future_panic + workflow_update \<times> bool" where
  "run_effect now e u =
     (let (u', ws, completed) = effect_body now e u
      in bind_result (run_all write_future ws u') (\<lambda>u''. Inr (u'', completed)))"

section \<open>Operations\<close>

text \<open>
  The event store is a parameter: mutable state implements it. An operation returns its error, the
  update, the commit and rollback callbacks it registered (every operation registers at most one
  pair, as its last step), the event store, and whether it called \<open>onComplete\<close> itself.
\<close>

record 'es event_store =
  CanAddEvent :: "'es \<Rightarrow> bool"
  AddAcceptedEvent :: "'es \<Rightarrow> string \<Rightarrow> string \<Rightarrow> int \<Rightarrow> request option \<Rightarrow> (update_error + int) \<times> 'es"
  AddCompletedEvent :: "'es \<Rightarrow> int \<Rightarrow> response \<Rightarrow> update_error option \<times> 'es"

record 'es op_result =
  Err :: "update_error option"
  Upd :: workflow_update
  Registered :: "(update_effect \<times> update_effect) option"
  Store :: 'es
  CompletedNow :: bool

abbreviation failed :: "update_error \<Rightarrow> workflow_update \<Rightarrow> 'es \<Rightarrow> 'es op_result" where
  "failed e u es \<equiv> \<lparr>Err = Some e, Upd = u, Registered = None, Store = es, CompletedNow = False\<rparr>"

definition abort :: "abort_reason \<Rightarrow> workflow_update \<Rightarrow> workflow_update \<times> (update_effect \<times> update_effect) option" where
  "abort reason u =
     (let (abortFailure, abortErr) = FailureError reason (upd_state u)
      in if abortFailure = None \<and> abortErr = None then (u, None)
         else (u\<lparr>upd_state := ProvisionallyAborted\<rparr>,
               Some (AbortCommit abortFailure abortErr (upd_state u), AbortRollback (upd_state u))))"

definition Admit ::
    "'es event_store \<Rightarrow> (request option \<Rightarrow> update_error option) \<Rightarrow> (request \<Rightarrow> update_error option) \<Rightarrow>
     request option \<Rightarrow> workflow_update \<Rightarrow> 'es \<Rightarrow> 'es op_result" where
  "Admit st checkLimits marshal req u es =
     (if upd_state u \<noteq> Created
      then \<lparr>Err = None, Upd = u, Registered = None, Store = es, CompletedNow = False\<rparr>
      else case checkLimits req of
        Some e \<Rightarrow> \<lparr>Err = Some e, Upd = u, Registered = None, Store = es, CompletedNow = True\<rparr>
      | None \<Rightarrow>
        (case validateRequestMsg (upd_id u) req of
          Some e \<Rightarrow> failed e u es
        | None \<Rightarrow>
          if \<not> CanAddEvent st es then
            let (u', reg) = abort WorkflowCompleted u in
              \<lparr>Err = snd (FailureError WorkflowCompleted Created), Upd = u', Registered = reg,
               Store = es, CompletedNow = False\<rparr>
          else case marshal (the req) of
            Some e \<Rightarrow> failed e u es
          | None \<Rightarrow>
              \<lparr>Err = None, Upd = u\<lparr>upd_request := req, upd_state := ProvisionallyAdmitted\<rparr>,
               Registered = Some (AdmitCommit, AdmitRollback (upd_state u)), Store = es, CompletedNow = False\<rparr>))"

definition needToSend :: "workflow_update \<Rightarrow> bool \<Rightarrow> bool" where
  "needToSend u includeAlreadySent =
     (if includeAlreadySent then Matches (upd_state u) (stateSet [Admitted, Sent])
      else Matches (upd_state u) (stateSet [Admitted]))"

definition isSent :: "workflow_update \<Rightarrow> bool" where
  "isSent u = Matches (upd_state u) (stateSet [Sent])"

definition outgoingMessageID :: "workflow_update \<Rightarrow> string" where
  "outgoingMessageID u = upd_id u @ ''/request''"

record outgoing_message =
  OutInstanceId :: string
  OutId :: string
  OutSequencingId :: int
  OutBody :: request

definition Send :: "bool \<Rightarrow> int \<Rightarrow> workflow_update \<Rightarrow> workflow_update \<times> outgoing_message option" where
  "Send includeAlreadySent sequencingID u =
     (if \<not> needToSend u includeAlreadySent then (u, None)
      else let u = (if upd_state u = Admitted then u\<lparr>upd_state := Sent\<rparr> else u)
        in case upd_request u of
             None \<Rightarrow> (u, None)
           | Some r \<Rightarrow> (u, Some \<lparr>OutInstanceId = upd_id u, OutId = outgoingMessageID u,
                          OutSequencingId = sequencingID, OutBody = r\<rparr>))"

definition checkStateSet :: "string \<Rightarrow> workflow_update \<Rightarrow> 32 word \<Rightarrow> update_error option" where
  "checkStateSet msg u allowed = (if Matches (upd_state u) allowed then None else Some (InvalidArgument msg))"

definition onAcceptanceMsg ::
    "'es event_store \<Rightarrow> acceptance \<Rightarrow> workflow_update \<Rightarrow> 'es \<Rightarrow> 'es op_result" where
  "onAcceptanceMsg st acpt u es =
     (case checkStateSet ''Acceptance'' u (stateSet [Sent, Admitted]) of
        Some e \<Rightarrow> failed e u es
      | None \<Rightarrow>
        (case validateAcceptanceMsg acpt of
          Some e \<Rightarrow> failed e u es
        | None \<Rightarrow>
          (case AddAcceptedEvent st es (upd_id u) (outgoingMessageID u)
                  (AcceptedRequestSequencingEventId acpt) (upd_request u) of
            (Inl e, es') \<Rightarrow> failed e u es'
          | (Inr eventId, es') \<Rightarrow>
              \<lparr>Err = None, Upd = u\<lparr>acceptedEventID := eventId, upd_state := ProvisionallyAccepted\<rparr>,
               Registered = Some (AcceptCommit, AcceptRollback (upd_state u)), Store = es', CompletedNow = False\<rparr>)))"

definition reject :: "failure \<Rightarrow> workflow_update \<Rightarrow> workflow_update \<times> (update_effect \<times> update_effect)" where
  "reject f u = (u\<lparr>upd_state := ProvisionallyCompleted\<rparr>, (RejectCommit f, RejectRollback (upd_state u)))"

definition onRejectionMsg :: "rejection \<Rightarrow> workflow_update \<Rightarrow> 'es \<Rightarrow> 'es op_result" where
  "onRejectionMsg rej u es =
     (case checkStateSet ''Rejection'' u (stateSet [Sent, Admitted]) of
        Some e \<Rightarrow> failed e u es
      | None \<Rightarrow>
        (case validateRejectionMsg rej of
          Some e \<Rightarrow> failed e u es
        | None \<Rightarrow>
            let (u', reg) = reject (RejFailure rej) u in
              \<lparr>Err = None, Upd = u', Registered = Some reg, Store = es, CompletedNow = False\<rparr>))"

definition onResponseMsg ::
    "'es event_store \<Rightarrow> response \<Rightarrow> workflow_update \<Rightarrow> 'es \<Rightarrow> 'es op_result" where
  "onResponseMsg st res u es =
     (case checkStateSet ''Response'' u (stateSet [ProvisionallyAccepted, Accepted]) of
        Some e \<Rightarrow> failed e u es
      | None \<Rightarrow>
        (case validateResponseMsg (upd_id u) res of
          Some e \<Rightarrow> failed e u es
        | None \<Rightarrow>
          (case AddCompletedEvent st es (acceptedEventID u) res of
            (Some e, es') \<Rightarrow> failed e u es'
          | (None, es') \<Rightarrow>
              \<lparr>Err = None, Upd = u\<lparr>upd_state := ProvisionallyCompleted\<rparr>,
               Registered = Some (ResponseCommit (Outcome res), ResponseRollback (upd_state u)),
               Store = es', CompletedNow = False\<rparr>)))"

definition OnProtocolMessage ::
    "'es event_store \<Rightarrow> protocol_message option \<Rightarrow> workflow_update \<Rightarrow> 'es \<Rightarrow> 'es op_result" where
  "OnProtocolMessage st msg u es =
     (case msg of
        None \<Rightarrow> failed (InvalidArgument ''nil message'') u es
      | Some m \<Rightarrow>
        (case Body m of
          None \<Rightarrow> failed (InvalidArgument ''nil body'') u es
        | Some MalformedBody \<Rightarrow> failed (InvalidArgument ''unmarshal'') u es
        | Some b \<Rightarrow>
            let isRejection = (case b of RejectionBody _ \<Rightarrow> True | _ \<Rightarrow> False) in
            if \<not> (CanAddEvent st es \<or> isRejection) then
              let (u', reg) = abort WorkflowCompleted u in
                \<lparr>Err = None, Upd = u', Registered = reg, Store = es, CompletedNow = False\<rparr>
            else (case b of
                AcceptanceBody a \<Rightarrow> onAcceptanceMsg st a u es
              | RejectionBody r \<Rightarrow> onRejectionMsg r u es
              | ResponseBody r \<Rightarrow> onResponseMsg st r u es
              | _ \<Rightarrow> failed (InvalidArgument ''not supported'') u es)))"

section \<open>Transactions\<close>

text \<open>
  A configuration is the update, the effects buffer of the transaction in progress and the event
  store. \<open>tx_step\<close> are the operations of a transaction; \<open>step\<close> adds its end (commit or rollback),
  sending, and the immediate abort of \<open>registry.Abort\<close>. A step whose callback panics does not
  exist in the relation; that none panics is shown separately.
\<close>

type_synonym buffer = "update_effect effect_buffer"
type_synonym 'es config = "workflow_update \<times> buffer \<times> 'es"

definition run_update :: "int \<Rightarrow> update_effect \<Rightarrow> workflow_update \<Rightarrow> future_panic + workflow_update" where
  "run_update now e u = bind_result (run_effect now e u) (\<lambda>(u', completed). Inr u')"

definition perform ::
    "int \<Rightarrow> controller \<Rightarrow> workflow_update \<Rightarrow> (update_effect \<times> update_effect) option \<Rightarrow> buffer \<Rightarrow>
     future_panic + workflow_update \<times> buffer" where
  "perform now ctl u reg b =
     (case reg of None \<Rightarrow> Inr (u, b) | Some (c, r) \<Rightarrow> register (run_update now) ctl c r (u, b))"

definition abort_update ::
    "int \<Rightarrow> controller \<Rightarrow> abort_reason \<Rightarrow> workflow_update \<Rightarrow> buffer \<Rightarrow> future_panic + workflow_update \<times> buffer" where
  "abort_update now ctl reason u b = (let (u', reg) = abort reason u in perform now ctl u' reg b)"

inductive tx_step :: "'es event_store \<Rightarrow> 'es config \<Rightarrow> 'es config \<Rightarrow> bool" for st where
  admit: "r = Admit st checkLimits marshal req u es \<Longrightarrow>
    perform now Buffer (Upd r) (Registered r) b = Inr (u', b') \<Longrightarrow> tx_step st (u, b, es) (u', b', Store r)"
| message: "r = OnProtocolMessage st msg u es \<Longrightarrow>
    perform now Buffer (Upd r) (Registered r) b = Inr (u', b') \<Longrightarrow> tx_step st (u, b, es) (u', b', Store r)"
| unprocessed: "isSent u \<Longrightarrow> reject UnprocessedUpdate u = (u1, reg) \<Longrightarrow>
    perform now Buffer u1 (Some reg) b = Inr (u', b') \<Longrightarrow> tx_step st (u, b, es) (u', b', es)"
| abort_delayed: "abort_update now Buffer reason u b = Inr (u', b') \<Longrightarrow> tx_step st (u, b, es) (u', b', es)"

inductive step :: "'es event_store \<Rightarrow> 'es config \<Rightarrow> 'es config \<Rightarrow> bool" for st where
  tx: "tx_step st c c' \<Longrightarrow> step st c c'"
| send: "Send again seq u = (u', msg) \<Longrightarrow> step st (u, b, es) (u', b, es)"
| abort_now: "abort_update now Immediate reason u b = Inr (u', b') \<Longrightarrow> step st (u, b, es) (u', b', es)"
| commit: "Buffer_Apply (run_update now) b u = Inr (u', b', applied) \<Longrightarrow> step st (u, b, es) (u', b', es)"
| rollback: "Buffer_Cancel (run_update now) b u = Inr (u', b', canceled) \<Longrightarrow> step st (u, b, es) (u', b', es)"

section \<open>What a transaction has registered\<close>

text \<open>\<open>link p (c, r) s\<close>: in state \<open>p\<close> an operation goes to \<open>s\<close> and registers the callbacks \<open>c\<close> and \<open>r\<close>.\<close>

inductive link :: "update_state \<Rightarrow> update_effect \<times> update_effect \<Rightarrow> update_state \<Rightarrow> bool" where
  link_admit: "link Created (AdmitCommit, AdmitRollback Created) ProvisionallyAdmitted"
| link_accept: "p = Admitted \<or> p = Sent \<Longrightarrow> link p (AcceptCommit, AcceptRollback p) ProvisionallyAccepted"
| link_reject: "p = Admitted \<or> p = Sent \<Longrightarrow> link p (RejectCommit f, RejectRollback p) ProvisionallyCompleted"
| link_response: "p = ProvisionallyAccepted \<or> p = Accepted \<Longrightarrow>
    link p (ResponseCommit res, ResponseRollback p) ProvisionallyCompleted"
| link_abort: "p \<notin> {Completed, ProvisionallyAborted, Aborted} \<Longrightarrow>
    link p (AbortCommit f e p, AbortRollback p) ProvisionallyAborted"

inductive_cases link_from: "link p reg s"
inductive_simps link_simps [simp]:
  "link Created reg s" "link ProvisionallyAdmitted reg s" "link Admitted reg s" "link Sent reg s"
  "link ProvisionallyAccepted reg s" "link Accepted reg s" "link ProvisionallyCompleted reg s"
  "link ProvisionallyCompletedAfterAccepted reg s" "link Completed reg s"
  "link ProvisionallyAborted reg s" "link Aborted reg s"

fun chain :: "update_state \<Rightarrow> (update_effect \<times> update_effect) list \<Rightarrow> update_state \<Rightarrow> bool" where
  "chain s [] t \<longleftrightarrow> s = t"
| "chain s (reg # regs) t \<longleftrightarrow> (\<exists>m. link s reg m \<and> chain m regs t)"

lemma chain_snoc: "chain s (regs @ [reg]) t \<longleftrightarrow> (\<exists>m. chain s regs m \<and> link m reg t)"
  by (induction regs arbitrary: s) auto

definition unset :: "'a future \<Rightarrow> bool" where
  "unset f \<longleftrightarrow> f = FutureImpl None"

text \<open>An update between transactions: its state is not provisional and its futures fit the state.\<close>

fun state_futures :: "update_state \<Rightarrow> workflow_update \<Rightarrow> bool" where
  "state_futures Accepted u \<longleftrightarrow> GetIfReady (accepted u) = Some (None, None) \<and> unset (outcome u)"
| "state_futures Completed u \<longleftrightarrow> Ready (accepted u) \<and> Ready (outcome u)"
| "state_futures Aborted u \<longleftrightarrow> Ready (outcome u)"
| "state_futures s u \<longleftrightarrow> s \<in> {Created, Admitted, Sent} \<and> unset (accepted u) \<and> unset (outcome u)"

definition idle_ok :: "workflow_update \<Rightarrow> bool" where
  "idle_ok u \<longleftrightarrow> state_futures (upd_state u) u"

text \<open>
  The invariant: the callbacks in the buffer are those of a chain of operations from an idle
  state to the current one; or the update was aborted at once and they have lost their effect.
\<close>

definition in_transaction :: "update_state \<Rightarrow> (update_effect \<times> update_effect) list \<Rightarrow> workflow_update \<Rightarrow> buffer \<Rightarrow> bool" where
  "in_transaction s0 regs u b \<longleftrightarrow>
     effects b = map fst regs \<and> cancels b = map snd regs \<and> chain s0 regs (upd_state u) \<and> state_futures s0 u"

definition update_inv :: "workflow_update \<Rightarrow> buffer \<Rightarrow> bool" where
  "update_inv u b \<longleftrightarrow>
     (upd_state u = Aborted \<and> Ready (outcome u)) \<or> (\<exists>s0 regs. in_transaction s0 regs u b)"

lemma effect_body_terminal:
  "upd_state u = Aborted \<or> upd_state u = Completed \<Longrightarrow> effect_body now e u = (u, [], False)"
  by (cases e) auto

lemma run_update_terminal:
  "upd_state u = Aborted \<or> upd_state u = Completed \<Longrightarrow> run_update now e u = Inr u"
  by (simp add: run_update_def run_effect_def effect_body_terminal)

lemma run_all_terminal:
  "upd_state u = Aborted \<or> upd_state u = Completed \<Longrightarrow> run_all (run_update now) es u = Inr u"
  by (induction es) (auto simp: run_update_terminal)

text \<open>All transactions: at most three operations.\<close>

lemma chain_cases:
  assumes "chain s0 regs s" "state_futures s0 u"
  shows "regs = [] \<and> s = s0 \<or> s0 \<in> {Created, Admitted, Sent, Accepted}"
  using assms by (cases regs; cases s0) auto

lemma chain_iff:
  "chain s regs t \<longleftrightarrow> regs = [] \<and> s = t \<or> (\<exists>reg regs' m. regs = reg # regs' \<and> link s reg m \<and> chain m regs' t)"
  by (cases regs) auto

lemmas chain_at = chain_iff [of Created] chain_iff [of Admitted] chain_iff [of Sent] chain_iff [of Accepted]
  chain_iff [of ProvisionallyAdmitted] chain_iff [of ProvisionallyAccepted] chain_iff [of ProvisionallyCompleted]
  chain_iff [of ProvisionallyAborted]

lemmas run_defs = run_update_def run_effect_def unset_def preAcceptedStates_def idle_ok_def

lemma commit_ok:
  assumes "chain s0 regs (upd_state u)" "state_futures s0 u"
  shows "\<exists>u'. run_all (run_update now) (map fst regs) u = Inr u' \<and> idle_ok u'"
proof -
  consider "regs = []" "upd_state u = s0" | "s0 = Created" | "s0 = Admitted" | "s0 = Sent" | "s0 = Accepted"
    using chain_cases [OF assms] by auto
  then show ?thesis
  proof cases
    case 1
    with assms show ?thesis by (simp add: idle_ok_def)
  next
    case 2
    with assms show ?thesis by (auto simp: chain_at run_defs; auto simp: Let_def run_defs)
  next
    case 3
    with assms show ?thesis by (auto simp: chain_at run_defs; auto simp: Let_def run_defs)
  next
    case 4
    with assms show ?thesis by (auto simp: chain_at run_defs; auto simp: Let_def run_defs)
  next
    case 5
    with assms show ?thesis by (auto simp: chain_at run_defs; auto simp: Let_def run_defs Ready_iff)
  qed
qed

section \<open>Every operation is a link\<close>

text \<open>
  \<open>op_ok u u' reg\<close>: an operation either did nothing, or made one link of the chain and changed no
  field but the state, the request of a created update and the accepted event ID on acceptance.
\<close>

definition op_ok :: "workflow_update \<Rightarrow> workflow_update \<Rightarrow> (update_effect \<times> update_effect) option \<Rightarrow> bool" where
  "op_ok u u' reg \<longleftrightarrow> (case reg of
       None \<Rightarrow> u' = u
     | Some (c, r) \<Rightarrow> link (upd_state u) (c, r) (upd_state u') \<and>
         u' = u\<lparr>upd_state := upd_state u',
           upd_request := (if c = AdmitCommit then upd_request u' else upd_request u),
           acceptedEventID := (if c = AcceptCommit then acceptedEventID u' else acceptedEventID u)\<rparr>)"

lemma abort_op: "abort reason u = (u', reg) \<Longrightarrow> op_ok u u' reg"
  by (cases reason; cases "upd_state u")
    (auto simp: abort_def op_ok_def intro: link_abort)

lemma reject_op: "upd_state u = Sent \<or> upd_state u = Admitted \<Longrightarrow> reject f u = (u', reg) \<Longrightarrow> op_ok u u' (Some reg)"
  by (auto simp: reject_def op_ok_def)

lemma Admit_op: "op_ok u (Upd (Admit st lim marshal req u es)) (Registered (Admit st lim marshal req u es))"
  by (auto simp: Admit_def op_ok_def abort_def split: option.splits)

lemma onAcceptanceMsg_op: "op_ok u (Upd (onAcceptanceMsg st a u es)) (Registered (onAcceptanceMsg st a u es))"
  by (auto simp: onAcceptanceMsg_def checkStateSet_def op_ok_def split: option.splits sum.splits prod.splits)

lemma onRejectionMsg_op: "op_ok u (Upd (onRejectionMsg a u es)) (Registered (onRejectionMsg a u es))"
  by (auto simp: onRejectionMsg_def checkStateSet_def op_ok_def reject_def split: option.splits prod.splits)

lemma onResponseMsg_op: "op_ok u (Upd (onResponseMsg st a u es)) (Registered (onResponseMsg st a u es))"
  by (auto simp: onResponseMsg_def checkStateSet_def op_ok_def split: option.splits prod.splits)

lemma OnProtocolMessage_op: "op_ok u (Upd (OnProtocolMessage st msg u es)) (Registered (OnProtocolMessage st msg u es))"
  using onAcceptanceMsg_op [of u st _ es] onRejectionMsg_op [of u _ es] onResponseMsg_op [of u st _ es]
    abort_op [of WorkflowCompleted u]
  by (auto simp: OnProtocolMessage_def Let_def op_ok_def [of u u None] split: option.splits body.splits prod.splits)

definition add_callbacks :: "(update_effect \<times> update_effect) option \<Rightarrow> buffer \<Rightarrow> buffer" where
  "add_callbacks reg b = (case reg of None \<Rightarrow> b
     | Some (c, r) \<Rightarrow> b\<lparr>effects := effects b @ [c], cancels := cancels b @ [r]\<rparr>)"

text \<open>A step inside a transaction is an operation and its registration in the buffer.\<close>

lemma perform_Buffer:
  "perform now Buffer u reg b = Inr (u', b') \<longleftrightarrow> u' = u \<and> b' = add_callbacks reg b"
  by (auto simp: perform_def add_callbacks_def split: option.splits)

lemma tx_step_op:
  assumes "tx_step st (u, b, es) (u', b', es')"
  shows "\<exists>reg. op_ok u u' reg \<and> b' = add_callbacks reg b"
  using assms
proof cases
  case (admit r checkLimits marshal req now)
  then show ?thesis using Admit_op by (metis perform_Buffer)
next
  case (message r msg now)
  then show ?thesis using OnProtocolMessage_op by (metis perform_Buffer)
next
  case (unprocessed u1 reg now)
  then have "op_ok u u1 (Some reg)" by (intro reject_op) (auto simp: isSent_def)
  with unprocessed show ?thesis by (auto simp: perform_Buffer)
next
  case (abort_delayed now reason)
  obtain u1 reg where "abort reason u = (u1, reg)" by (cases "abort reason u")
  with abort_delayed abort_op [OF this] show ?thesis by (auto simp: abort_update_def perform_Buffer)
qed

lemma state_futures_cong:
  "accepted u' = accepted u \<Longrightarrow> outcome u' = outcome u \<Longrightarrow> state_futures s u' = state_futures s u"
  by (cases s) simp_all

lemma op_in_transaction:
  assumes "op_ok u u' reg" "in_transaction s0 regs u b"
  shows "in_transaction s0 (regs @ (case reg of None \<Rightarrow> [] | Some p \<Rightarrow> [p])) u' (add_callbacks reg b)"
proof (cases reg)
  case None
  with assms show ?thesis by (simp add: op_ok_def add_callbacks_def)
next
  case (Some p)
  obtain c r where p: "p = (c, r)" by (cases p)
  from assms(1) Some p have l: "link (upd_state u) (c, r) (upd_state u')" and eq: "u' = u\<lparr>upd_state := upd_state u',
      upd_request := (if c = AdmitCommit then upd_request u' else upd_request u),
      acceptedEventID := (if c = AcceptCommit then acceptedEventID u' else acceptedEventID u)\<rparr>"
    by (auto simp: op_ok_def)
  have "accepted u' = accepted u" "outcome u' = outcome u" by (subst eq, simp)+
  then have "state_futures s0 u' = state_futures s0 u" by (rule state_futures_cong)
  with assms(2) Some p l show ?thesis
    unfolding in_transaction_def by (auto simp: add_callbacks_def chain_snoc)
qed

section \<open>The invariant\<close>

lemma link_not_Aborted: "\<not> link s reg Aborted"
  by (auto elim: link_from)

lemma chain_Aborted: "chain s regs Aborted \<longleftrightarrow> regs = [] \<and> s = Aborted"
  by (cases regs rule: rev_cases) (auto simp: chain_snoc link_not_Aborted)

lemma update_inv_Aborted: "upd_state u = Aborted \<Longrightarrow> update_inv u b \<longleftrightarrow> Ready (outcome u)"
  by (auto simp: update_inv_def in_transaction_def chain_Aborted)

lemma update_inv_cases:
  "update_inv u b \<Longrightarrow> upd_state u \<noteq> Aborted \<Longrightarrow> \<exists>s0 regs. in_transaction s0 regs u b"
  by (simp add: update_inv_def)

lemma op_inv:
  assumes op: "op_ok u u' reg" and inv: "update_inv u b"
  shows "update_inv u' (add_callbacks reg b)"
proof (cases "upd_state u = Aborted")
  case True
  with op have "reg = None" "u' = u" by (cases reg; auto simp: op_ok_def)+
  with True inv show ?thesis by (simp add: update_inv_Aborted)
next
  case False
  with inv obtain s0 regs where "in_transaction s0 regs u b" using update_inv_cases by blast
  from op_in_transaction [OF op this] show ?thesis unfolding update_inv_def by blast
qed

lemma idle_inv: "idle_ok u \<Longrightarrow> update_inv u empty_buffer"
  by (force simp: update_inv_def idle_ok_def in_transaction_def empty_buffer_def intro: exI [of _ "[]"])

lemma commit_inv:
  assumes "update_inv u b"
  shows "\<exists>u'. Buffer_Apply (run_update now) b u = Inr (u', empty_buffer, effects b \<noteq> []) \<and> idle_ok u'"
proof (cases "upd_state u = Aborted")
  case True
  with assms show ?thesis
    by (simp add: update_inv_Aborted Buffer_Apply_def run_all_terminal idle_ok_def)
next
  case False
  with assms obtain s0 regs where t: "in_transaction s0 regs u b" using update_inv_cases by blast
  with commit_ok [of s0 regs u now] obtain u' where
    "run_all (run_update now) (map fst regs) u = Inr u'" "idle_ok u'" by (auto simp: in_transaction_def)
  with t show ?thesis by (simp add: Buffer_Apply_def in_transaction_def)
qed

text \<open>
  Rolling back a chain leads back to its first state and changes nothing else, except that an
  accepted event ID and the admission time that the chain set are cleared.
\<close>

lemma rollback_chain:
  assumes "chain s0 regs (upd_state u)"
  shows "\<exists>u'. run_all (run_update now) (rev (map snd regs)) u = Inr u' \<and> upd_state u' = s0 \<and>
    u' = u\<lparr>upd_state := s0,
      acceptedEventID := (if AcceptCommit \<in> fst ` set regs then EmptyEventID else acceptedEventID u),
      admittedTime := (if AdmitCommit \<in> fst ` set regs then 0 else admittedTime u)\<rparr>"
  using assms
proof (induction regs arbitrary: u rule: rev_induct)
  case Nil
  then show ?case by simp
next
  case (snoc reg regs)
  obtain c r where reg: "reg = (c, r)" by (cases reg)
  from snoc.prems reg obtain m where m: "chain s0 regs m" "link m (c, r) (upd_state u)"
    by (auto simp: chain_snoc)
  from m(2) have run: "run_update now r u = Inr (u\<lparr>upd_state := m,
      acceptedEventID := (if c = AcceptCommit then EmptyEventID else acceptedEventID u),
      admittedTime := (if c = AdmitCommit then 0 else admittedTime u)\<rparr>)" (is "_ = Inr ?u")
    by cases (auto simp: run_update_def run_effect_def)
  have "chain s0 regs (upd_state ?u)" using m(1) by simp
  from snoc.IH [OF this] run reg show ?case by auto
qed

lemma rollback_inv:
  assumes "update_inv u b"
  shows "\<exists>u'. Buffer_Cancel (run_update now) b u = Inr (u', empty_buffer, cancels b \<noteq> []) \<and> idle_ok u'"
proof (cases "upd_state u = Aborted")
  case True
  with assms show ?thesis
    by (simp add: update_inv_Aborted Buffer_Cancel_def run_all_terminal idle_ok_def)
next
  case False
  with assms obtain s0 regs where t: "in_transaction s0 regs u b" using update_inv_cases by blast
  then have "chain s0 regs (upd_state u)" by (simp add: in_transaction_def)
  from rollback_chain [OF this, of now] obtain u' where
    "run_all (run_update now) (rev (map snd regs)) u = Inr u'" "upd_state u' = s0"
    "accepted u' = accepted u" "outcome u' = outcome u" by auto
  with t show ?thesis
    by (simp add: Buffer_Cancel_def in_transaction_def idle_ok_def state_futures_cong [of u' u])
qed

lemma abort_now_inv:
  assumes "update_inv u b"
  shows "\<exists>u'. abort_update now Immediate reason u b = Inr (u', b) \<and> update_inv u' b \<and>
     (u' = u \<or> upd_state u' = Aborted)"
proof (cases "snd (abort reason u)")
  case None
  then have "fst (abort reason u) = u" by (auto simp: abort_def split: prod.splits if_splits)
  with None assms show ?thesis by (auto simp: abort_update_def perform_def split: prod.splits)
next
  case (Some p)
  obtain f e where fe: "FailureError reason (upd_state u) = (f, e)" by (cases "FailureError reason (upd_state u)")
  with Some have ab: "abort reason u = (u\<lparr>upd_state := ProvisionallyAborted\<rparr>,
      Some (AbortCommit f e (upd_state u), AbortRollback (upd_state u)))"
    by (auto simp: abort_def split: if_splits)
  with fe have live: "upd_state u \<notin> {Completed, ProvisionallyAborted, Aborted}"
    by (cases reason) (auto simp: abort_def split: if_splits)
  with assms obtain s0 regs where t: "in_transaction s0 regs u b" using update_inv_cases by blast
  have c: "chain s0 regs (upd_state u)" "state_futures s0 u" using t by (auto simp: in_transaction_def)
  have "unset (outcome u)" and "upd_state u \<in> {Created, ProvisionallyAdmitted, Admitted, Sent, ProvisionallyAccepted}
      \<Longrightarrow> unset (accepted u)"
    using chain_cases [OF c] c live by (cases "upd_state u"; auto simp: chain_at)+
  then have "\<exists>u'. run_update now (AbortCommit f e (upd_state u)) (u\<lparr>upd_state := ProvisionallyAborted\<rparr>) = Inr u' \<and>
      upd_state u' = Aborted \<and> Ready (outcome u')"
    by (auto simp: run_defs Let_def)
  then show ?thesis by (auto simp: abort_update_def ab perform_def update_inv_def)
qed

lemma Send_inv:
  assumes "Send again seq u = (u', msg)" "update_inv u b"
  shows "update_inv u' b"
proof (cases "upd_state u = Admitted")
  case False
  with assms show ?thesis by (auto simp: Send_def Let_def split: if_splits option.splits)
next
  case True
  with assms(1) have u': "u' = u\<lparr>upd_state := Sent\<rparr>"
    by (auto simp: Send_def Let_def needToSend_def split: if_splits option.splits)
  from True assms(2) obtain s0 regs where t: "in_transaction s0 regs u b" using update_inv_cases by fastforce
  then have c: "chain s0 regs Admitted" "state_futures s0 u" using True by (auto simp: in_transaction_def)
  from chain_cases [OF c] c have "s0 = Admitted \<and> regs = []" by (auto simp: chain_at)
  with t have "in_transaction Sent [] u' b" by (auto simp: in_transaction_def u')
  then show ?thesis by (auto simp: update_inv_def)
qed

lemma step_inv: "step st (u, b, es) (u', b', es') \<Longrightarrow> update_inv u b \<Longrightarrow> update_inv u' b'"
proof (erule step.cases, goal_cases)
  case (1 c c')
  then show ?case using tx_step_op [of st u b es u' b' es'] op_inv by auto
next
  case (2 again seq u1 u1' msg b1 es1)
  then show ?case using Send_inv by auto
next
  case (3 now reason u1 b1 u1' b1' es1)
  then show ?case using abort_now_inv [of u b now reason] by auto
next
  case (4 now b1 u1 u1' b1' applied es1)
  then show ?case using commit_inv [of u b now] idle_inv by auto
next
  case (5 now b1 u1 u1' b1' canceled es1)
  then show ?case using rollback_inv [of u b now] idle_inv by auto
qed

definition reachable :: "'es event_store \<Rightarrow> 'es config \<Rightarrow> 'es config \<Rightarrow> bool" where
  "reachable st = (step st)\<^sup>*\<^sup>*"

lemma reachable_inv:
  assumes "reachable st (u0, empty_buffer, es0) (u, b, es)" "idle_ok u0"
  shows "update_inv u b"
proof -
  have "(step st)\<^sup>*\<^sup>* (u0, empty_buffer, es0) c \<Longrightarrow> update_inv (fst c) (fst (snd c))" for c
  proof (induction rule: rtranclp_induct)
    case base
    then show ?case using idle_inv [OF assms(2)] by simp
  next
    case (step c c')
    then show ?case by (cases c; cases c') (auto intro: step_inv)
  qed
  with assms(1) show ?thesis by (auto simp: reachable_def)
qed

section \<open>Safety of commit and rollback\<close>

text \<open>
  C4. However an update that was idle is driven through transactions, sends and immediate aborts,
  no callback ever completes a future twice (a panic): commit, rollback and an immediate abort of
  the reached configuration all return, and commit and rollback leave a state that is not
  provisional, with futures that fit it and an empty buffer.
\<close>

theorem Update_never_panics:
  assumes "idle_ok u0" "reachable st (u0, empty_buffer, es0) (u, b, es)"
  shows "(\<exists>u'. Buffer_Apply (run_update now) b u = Inr (u', empty_buffer, effects b \<noteq> []) \<and> idle_ok u') \<and>
    (\<exists>u'. Buffer_Cancel (run_update now) b u = Inr (u', empty_buffer, cancels b \<noteq> []) \<and> idle_ok u') \<and>
    (\<exists>u'. abort_update now Immediate reason u b = Inr (u', b) \<and> (u' = u \<or> upd_state u' = Aborted))"
proof -
  note inv = reachable_inv [OF assms(2,1)]
  from commit_inv [OF inv] rollback_inv [OF inv] abort_now_inv [OF inv] show ?thesis by blast
qed

text \<open>A store that numbers its events, for the examples.\<close>

definition sample_store :: "int event_store" where
  "sample_store = \<lparr>CanAddEvent = (\<lambda>n. True),
     AddAcceptedEvent = (\<lambda>n i m seq r. (Inr n, n + 1)), AddCompletedEvent = (\<lambda>n e r. (None, n + 1))\<rparr>"

definition sample_acceptance :: protocol_message where
  "sample_acceptance = \<lparr>ProtocolInstanceId = ''u'', Body = Some (AcceptanceBody
     \<lparr>AcceptedRequestSequencingEventId = 4, AcceptedRequestMessageId = ''u/request'', AcceptedRequest = None\<rparr>)\<rparr>"

definition sample_response :: protocol_message where
  "sample_response = \<lparr>ProtocolInstanceId = ''u'', Body = Some (ResponseBody
     \<lparr>ResMetaUpdateId = Some ''u'', Outcome = Some (OutcomeSuccess ''v'')\<rparr>)\<rparr>"

definition sample_admitted :: workflow_update where
  "sample_admitted = newAdmitted ''u'' None 9 (Some ''u'')"

definition sample_accepting :: workflow_update where
  "sample_accepting = sample_admitted\<lparr>acceptedEventID := 5, upd_state := ProvisionallyAccepted\<rparr>"

lemma tx_step_messageI:
  assumes "u' = Upd (OnProtocolMessage st msg u es)" "es' = Store (OnProtocolMessage st msg u es)"
    and "b' = add_callbacks (Registered (OnProtocolMessage st msg u es)) b"
  shows "tx_step st (u, b, es) (u', b', es')"
  using tx_step.message [OF refl, of 0 st msg u es b u' b'] assms by (simp add: perform_Buffer)

lemma sample_accept_step:
  "tx_step sample_store (sample_admitted, empty_buffer, 5)
     (sample_accepting, \<lparr>effects = [AcceptCommit], cancels = [AcceptRollback Admitted]\<rparr>, 6)"
  by (rule tx_step_messageI [where msg = "Some sample_acceptance"])
    (simp_all add: sample_admitted_def sample_accepting_def sample_store_def sample_acceptance_def newAdmitted_def
      OnProtocolMessage_def onAcceptanceMsg_def checkStateSet_def validateAcceptanceMsg_def
      add_callbacks_def empty_buffer_def)

lemma sample_admitted_idle: "idle_ok sample_admitted"
  by (simp add: idle_ok_def sample_admitted_def newAdmitted_def NewFuture_def unset_def)

theorem Update_never_panics_witness:
  "\<exists>u'. Buffer_Apply (run_update 0) \<lparr>effects = [AcceptCommit], cancels = [AcceptRollback Admitted]\<rparr> sample_accepting
     = Inr (u', empty_buffer, True) \<and> idle_ok u'"
proof -
  have "reachable sample_store (sample_admitted, empty_buffer, 5)
      (sample_accepting, \<lparr>effects = [AcceptCommit], cancels = [AcceptRollback Admitted]\<rparr>, 6)"
    unfolding reachable_def by (rule r_into_rtranclp, rule step.tx, rule sample_accept_step)
  from Update_never_panics [OF sample_admitted_idle this, of 0] show ?thesis by simp
qed

section \<open>Rollback\<close>

text \<open>An update that was not admitted has no admission time, and one not accepted has no event.\<close>

definition fresh_fields :: "workflow_update \<Rightarrow> bool" where
  "fresh_fields u \<longleftrightarrow> (upd_state u = Created \<longrightarrow> admittedTime u = 0) \<and>
     (upd_state u \<in> {Created, Admitted, Sent} \<longrightarrow> acceptedEventID u = EmptyEventID)"

definition follows :: "workflow_update \<Rightarrow> (update_effect \<times> update_effect) list \<Rightarrow> workflow_update \<Rightarrow> bool" where
  "follows u0 regs u \<longleftrightarrow> u = u0\<lparr>upd_state := upd_state u,
     upd_request := (if AdmitCommit \<in> fst ` set regs then upd_request u else upd_request u0),
     acceptedEventID := (if AcceptCommit \<in> fst ` set regs then acceptedEventID u else acceptedEventID u0)\<rparr>"

lemma follows_op:
  assumes "follows u0 regs u" "op_ok u u' reg"
  shows "follows u0 (regs @ (case reg of None \<Rightarrow> [] | Some p \<Rightarrow> [p])) u'"
proof (cases reg)
  case None
  with assms show ?thesis by (simp add: op_ok_def)
next
  case (Some p)
  with assms show ?thesis
    by (cases u0; cases u; cases u'; cases p) (auto simp: op_ok_def follows_def)
qed

lemma transaction_follows:
  assumes "(tx_step st)\<^sup>*\<^sup>* (u0, empty_buffer, es0) c" "idle_ok u0"
  shows "\<exists>regs. in_transaction (upd_state u0) regs (fst c) (fst (snd c)) \<and> follows u0 regs (fst c)"
  using assms(1)
proof (induction rule: rtranclp_induct)
  case base
  show ?case using assms(2)
    by (intro exI [of _ "[]"]) (simp add: in_transaction_def empty_buffer_def idle_ok_def follows_def)
next
  case (step c c')
  obtain u b es where c: "c = (u, b, es)" by (cases c)
  obtain u' b' es' where c': "c' = (u', b', es')" by (cases c')
  obtain reg where "op_ok u u' reg" "b' = add_callbacks reg b"
    using tx_step_op [of st u b es u' b' es'] step(2) unfolding c c' by blast
  with step(3) op_in_transaction [of u u' reg] follows_op [of u0 _ u u' reg] show ?case
    unfolding c c' by (metis fst_conv snd_conv)
qed

lemma link_provisional: "link s reg m \<Longrightarrow> m \<notin> {Created, Admitted, Sent, Accepted, Completed, Aborted}"
  by (auto elim: link_from)

lemma chain_special:
  "chain s0 regs s \<Longrightarrow> (AdmitCommit \<in> fst ` set regs \<longrightarrow> s0 = Created) \<and>
     (AcceptCommit \<in> fst ` set regs \<longrightarrow> s0 = Admitted \<or> s0 = Sent)"
proof (induction regs arbitrary: s0)
  case (Cons reg regs)
  then obtain m where m: "link s0 reg m" "chain m regs s" by auto
  from m(1) have "(fst reg = AdmitCommit \<longrightarrow> s0 = Created) \<and> (fst reg = AcceptCommit \<longrightarrow> s0 = Admitted \<or> s0 = Sent)"
    by (auto elim: link_from)
  with Cons.IH [OF m(2)] link_provisional [OF m(1)] show ?case by auto
qed simp



section \<open>The order of the writes\<close>

text \<open>The writes a commit makes to the futures, in the order in which the waiters can see them.\<close>

fun commit_writes :: "int \<Rightarrow> update_effect list \<Rightarrow> workflow_update \<Rightarrow> future_write list" where
  "commit_writes now [] u = []"
| "commit_writes now (e # es) u =
     (let (u', ws, completed) = effect_body now e u
      in ws @ (case run_all write_future ws u' of Inl _ \<Rightarrow> [] | Inr u'' \<Rightarrow> commit_writes now es u''))"

fun outcome_first :: "future_write list \<Rightarrow> bool" where
  "outcome_first [] = True"
| "outcome_first (w # ws) \<longleftrightarrow>
     (w = SetAccepted None None \<longrightarrow> (\<forall>v e. SetOutcome v e \<notin> set ws)) \<and> outcome_first ws"

lemma commit_writes_terminal:
  "upd_state u = Aborted \<or> upd_state u = Completed \<Longrightarrow> commit_writes now es u = []"
  by (induction es) (auto simp: effect_body_terminal)

lemma chain_outcome_first:
  assumes "chain s0 regs (upd_state u)" "state_futures s0 u"
  shows "outcome_first (commit_writes now (map fst regs) u)"
proof -
  consider "regs = []" | "s0 = Created" | "s0 = Admitted" | "s0 = Sent" | "s0 = Accepted"
    using chain_cases [OF assms] by auto
  then show ?thesis
  proof cases
    case 1
    then show ?thesis by simp
  next
    case 2
    with assms show ?thesis by (auto simp: chain_at unset_def; auto simp: Let_def preAcceptedStates_def)
  next
    case 3
    with assms show ?thesis by (auto simp: chain_at unset_def; auto simp: Let_def preAcceptedStates_def)
  next
    case 4
    with assms show ?thesis by (auto simp: chain_at unset_def; auto simp: Let_def preAcceptedStates_def)
  next
    case 5
    with assms show ?thesis by (auto simp: chain_at unset_def; auto simp: Let_def preAcceptedStates_def)
  qed
qed

lemma outcome_first_append:
  "outcome_first (xs @ SetAccepted None None # ys) \<Longrightarrow> SetOutcome v e \<notin> set ys"
  by (induction xs) auto


definition sample_responding :: workflow_update where
  "sample_responding = sample_accepting\<lparr>upd_state := ProvisionallyCompleted\<rparr>"

definition sample_buffer :: buffer where
  "sample_buffer = \<lparr>effects = [AcceptCommit, ResponseCommit (Some (OutcomeSuccess ''v''))],
     cancels = [AcceptRollback Admitted, ResponseRollback ProvisionallyAccepted]\<rparr>"

lemma sample_response_step:
  "tx_step sample_store (sample_accepting, \<lparr>effects = [AcceptCommit], cancels = [AcceptRollback Admitted]\<rparr>, 6)
     (sample_responding, sample_buffer, 7)"
  by (rule tx_step_messageI [where msg = "Some sample_response"])
    (simp_all add: sample_admitted_def sample_accepting_def sample_responding_def sample_buffer_def sample_store_def
      sample_response_def newAdmitted_def OnProtocolMessage_def onResponseMsg_def checkStateSet_def
      validateResponseMsg_def get_string_def add_callbacks_def)

lemma sample_reachable:
  "reachable sample_store (sample_admitted, empty_buffer, 5) (sample_responding, sample_buffer, 7)"
  unfolding reachable_def
  by (rule converse_rtranclp_into_rtranclp [OF step.tx [OF sample_accept_step]
        r_into_rtranclp [of "step sample_store", OF step.tx [OF sample_response_step]]])


section \<open>Aborting a completed update\<close>

text \<open>
  C33. If an update that was accepted in an earlier transaction is completed by a response and then
  aborted before the commit, the commit reports the failure of the abort, although the event with
  the response's outcome was written; had it been accepted in the same transaction, the commit
  would report the response.
\<close>

theorem Response_then_abort_depends_on_acceptance:
  assumes "unset (outcome u)"
    and "upd_state u = Accepted \<or> (upd_state u = ProvisionallyAccepted \<and> unset (accepted u))"
    and "r = onResponseMsg st res u es" "Err r = None"
    and "abort WorkflowCompleted (Upd r) = (u1, Some (c1, r1))"
  shows "\<exists>u2. run_all (run_update now)
        ((if upd_state u = ProvisionallyAccepted then [AcceptCommit] else []) @ [fst (the (Registered r)), c1]) u1
        = Inr u2 \<and>
      (if upd_state u = ProvisionallyAccepted
       then upd_state u2 = Completed \<and> GetIfReady (outcome u2) = Some (Outcome res, None)
       else upd_state u2 = Aborted \<and>
         GetIfReady (outcome u2) = Some (Some (OutcomeFailure AcceptedUpdateCompletedWorkflow), None))"
proof -
  from assms(2-4) have r: "Upd r = u\<lparr>upd_state := ProvisionallyCompleted\<rparr>"
    "fst (the (Registered r)) = ResponseCommit (Outcome res)"
    by (auto simp: onResponseMsg_def checkStateSet_def split: option.splits prod.splits)
  with assms(5) have "c1 = AbortCommit (Some AcceptedUpdateCompletedWorkflow) None ProvisionallyCompleted"
    "u1 = u\<lparr>upd_state := ProvisionallyAborted\<rparr>"
    by (auto simp: abort_def)
  with assms(1,2) r show ?thesis by (auto simp: run_defs Let_def)
qed

definition sample_accepted :: workflow_update where
  "sample_accepted = newAccepted ''u'' 5 (Some ''u'')"

theorem Response_then_abort_depends_on_acceptance_witness:
  "\<exists>u2. run_all (run_update 0) [ResponseCommit (Some (OutcomeSuccess ''v'')),
        AbortCommit (Some AcceptedUpdateCompletedWorkflow) None ProvisionallyCompleted]
        (sample_accepted\<lparr>upd_state := ProvisionallyAborted\<rparr>) = Inr u2 \<and> upd_state u2 = Aborted \<and>
      GetIfReady (outcome u2) = Some (Some (OutcomeFailure AcceptedUpdateCompletedWorkflow), None)"
  using Response_then_abort_depends_on_acceptance [of sample_accepted
      "onResponseMsg sample_store \<lparr>ResMetaUpdateId = Some ''u'', Outcome = Some (OutcomeSuccess ''v'')\<rparr> sample_accepted 7"
      sample_store "\<lparr>ResMetaUpdateId = Some ''u'', Outcome = Some (OutcomeSuccess ''v'')\<rparr>" 7
      "sample_accepted\<lparr>upd_state := ProvisionallyAborted\<rparr>"
      "AbortCommit (Some AcceptedUpdateCompletedWorkflow) None ProvisionallyCompleted"
      "AbortRollback ProvisionallyCompleted" 0]
  by (simp add: sample_accepted_def newAccepted_def NewFuture_def unset_def onResponseMsg_def checkStateSet_def
      validateResponseMsg_def get_string_def sample_store_def abort_def)

end
