(* ===== verification/UpdateWait.thy ===== *)
theory UpdateWait
  imports WorkflowUpdate
begin

text \<open>
  Waiting for an update: \<open>WaitLifecycleStage\<close> of \<open>update.go\<close> and \<open>status.go\<close>. The function does not hold
  the workflow lock and may block, so what it observes is an argument: at each of its three reads
  of a future whether the future was ready and what \<open>Get\<close> returned, and the errors of the
  caller's context and of the soft-timeout context when they are read.
\<close>

section \<open>Stages and statuses\<close>

datatype lifecycle_stage =
    STAGE_UNSPECIFIED
  | STAGE_ADMITTED
  | STAGE_ACCEPTED
  | STAGE_COMPLETED

record status =
  Stage :: lifecycle_stage
  StatusOutcome :: "update_outcome option"

definition statusAdmitted :: status where
  "statusAdmitted = \<lparr>Stage = STAGE_ADMITTED, StatusOutcome = None\<rparr>"

definition statusAccepted :: status where
  "statusAccepted = \<lparr>Stage = STAGE_ACCEPTED, StatusOutcome = None\<rparr>"

definition statusRejected :: "failure \<Rightarrow> status" where
  "statusRejected rejection = \<lparr>Stage = STAGE_COMPLETED, StatusOutcome = Some (OutcomeFailure rejection)\<rparr>"

definition statusCompleted :: "update_outcome option \<Rightarrow> status" where
  "statusCompleted v = \<lparr>Stage = STAGE_COMPLETED, StatusOutcome = v\<rparr>"

section \<open>Waiting\<close>

datatype wait_error =
    UpdateErr update_error
  | DeadlineExceeded
  | Canceled

record 'v observation =
  IsReady :: bool
  Got :: "'v option \<times> wait_error option"
  CtxErr :: "wait_error option"
  SoftErr :: "wait_error option"

text \<open>\<open>errors.Is(err, target)\<close> for the sentinel errors here: equality, with \<open>nil\<close> for \<open>None\<close>.\<close>

definition errors_is :: "wait_error option \<Rightarrow> wait_error option \<Rightarrow> bool" where
  "errors_is err target \<longleftrightarrow> err = target"

definition WaitLifecycleStage ::
    "lifecycle_stage \<Rightarrow> update_outcome observation \<Rightarrow> failure observation \<Rightarrow> update_outcome observation \<Rightarrow>
     wait_error + status" where
  "WaitLifecycleStage waitStage o1 a o2 =
     (let cleared = Some (UpdateErr RegistryClearedErr);
          finish = (\<lambda>err. if errors_is err cleared then Inl (UpdateErr AbortedByServerErr) else Inr statusAdmitted);
          askAccepted = (\<lambda>err.
            if IsReady a \<or> waitStage = STAGE_ACCEPTED then
              (case Got a of
                 (Some rejection, None) \<Rightarrow> Inr (statusRejected rejection)
               | (None, None) \<Rightarrow>
                   (if IsReady o2 then
                      (case Got o2 of (v, None) \<Rightarrow> Inr (statusCompleted v) | _ \<Rightarrow> Inr statusAccepted)
                    else Inr statusAccepted)
               | (_, Some e) \<Rightarrow>
                   (if errors_is (Some e) (CtxErr a) then Inl e
                    else if \<not> errors_is (Some e) (SoftErr a) \<and> \<not> errors_is (Some e) cleared then Inl e
                    else finish (Some e)))
            else finish err)
      in if IsReady o1 \<or> waitStage = STAGE_COMPLETED then
           (case Got o1 of
              (v, None) \<Rightarrow> Inr (statusCompleted v)
            | (_, Some e) \<Rightarrow>
                (if errors_is (Some e) (CtxErr o1) then Inl e
                 else if \<not> errors_is (Some e) (SoftErr o1) \<and> \<not> errors_is (Some e) cleared then Inl e
                 else askAccepted (Some e)))
         else askAccepted None)"

text \<open>
  What a read observes of a future: a ready future gives its value and error, one that is not ready
  makes \<open>Get\<close> wait until a context has expired and return its error.
\<close>

definition observe ::
    "('v option \<times> update_error option) future \<Rightarrow> wait_error option \<Rightarrow> wait_error option \<Rightarrow> 'v observation" where
  "observe f ctxErr softErr =
     (case GetIfReady f of
        Some (v, e) \<Rightarrow> \<lparr>IsReady = True, Got = (v, map_option UpdateErr e), CtxErr = ctxErr, SoftErr = softErr\<rparr>
      | None \<Rightarrow> \<lparr>IsReady = False, Got = (None, softErr), CtxErr = ctxErr, SoftErr = softErr\<rparr>)"

text \<open>The status an idle update has, by its state.\<close>

fun stage_of :: "workflow_update \<Rightarrow> lifecycle_stage" where
  "stage_of u = (case upd_state u of
     Completed \<Rightarrow> STAGE_COMPLETED | Accepted \<Rightarrow> STAGE_ACCEPTED | _ \<Rightarrow> STAGE_ADMITTED)"

text \<open>
  A wait that ends by its soft timeout, the caller's context being alive, reports the stage the
  update is in, whatever stage was asked for; a completed update is reported with the outcome or
  the error its outcome future holds.
\<close>

theorem WaitLifecycleStage_reports_state:
  assumes "idle_ok u" "upd_state u \<noteq> Aborted"
    and "\<forall>v e. GetIfReady (outcome u) = Some (v, e) \<longrightarrow> e = None"
  shows "\<exists>s. WaitLifecycleStage waitStage (observe (outcome u) None (Some DeadlineExceeded))
      (observe (accepted u) None (Some DeadlineExceeded)) (observe (outcome u) None (Some DeadlineExceeded)) = Inr s \<and>
    Stage s = stage_of u \<and>
    (\<forall>v. StatusOutcome s = Some v \<longrightarrow> GetIfReady (outcome u) = Some (Some v, None))"
proof (cases "upd_state u")
  case Completed
  with assms(1) obtain v e where "GetIfReady (outcome u) = Some (v, e)"
    by (auto simp: idle_ok_def Ready_iff)
  with assms Completed show ?thesis
    by (auto simp: WaitLifecycleStage_def observe_def Let_def statusCompleted_def)
next
  case Accepted
  with assms show ?thesis
    by (auto simp: WaitLifecycleStage_def observe_def Let_def idle_ok_def unset_def statusAccepted_def errors_is_def)
qed (use assms in \<open>auto simp: WaitLifecycleStage_def observe_def Let_def idle_ok_def unset_def statusAdmitted_def
  errors_is_def\<close>)

theorem WaitLifecycleStage_reports_state_witness:
  "\<exists>s. WaitLifecycleStage STAGE_COMPLETED (observe (outcome sample_accepted) None (Some DeadlineExceeded))
     (observe (accepted sample_accepted) None (Some DeadlineExceeded))
     (observe (outcome sample_accepted) None (Some DeadlineExceeded)) = Inr s \<and> Stage s = STAGE_ACCEPTED"
  using WaitLifecycleStage_reports_state [of sample_accepted STAGE_COMPLETED]
  by (auto simp: sample_accepted_def newAccepted_def NewFuture_def NewReadyFuture_def idle_ok_def unset_def)

text \<open>
  A waiter never learns of a registry that was cleared: whatever it observes, the error for a
  cleared registry is not returned, it is turned into the retryable one or into the stage reached.
\<close>

theorem WaitLifecycleStage_hides_cleared:
  assumes "CtxErr o1 \<noteq> Some (UpdateErr RegistryClearedErr)" "CtxErr a \<noteq> Some (UpdateErr RegistryClearedErr)"
  shows "WaitLifecycleStage waitStage o1 a o2 \<noteq> Inl (UpdateErr RegistryClearedErr)"
  using assms by (auto simp: WaitLifecycleStage_def Let_def errors_is_def split: option.splits prod.splits)

theorem WaitLifecycleStage_hides_cleared_witness:
  "WaitLifecycleStage STAGE_COMPLETED
     (observe (FutureImpl (Some (None, Some RegistryClearedErr))) None None)
     (observe (FutureImpl (Some (None, Some RegistryClearedErr))) None None)
     (observe NewFuture None None) \<noteq> Inl (UpdateErr RegistryClearedErr)"
  by (rule WaitLifecycleStage_hides_cleared) (simp_all add: observe_def)

end
