(* ===== verification/UpdateRegistry.thy ===== *)
theory UpdateRegistry
  imports UpdateWait
begin

text \<open>
  The update registry: \<open>service/history/workflow/update/registry.go\<close>. Update objects are shared: the
  registry's map, the callbacks in the effects buffer and the callers hold pointers to them. They
  live in a heap, and a pointer is an index. The registry's map is an association list, in the
  order in which Go happens to iterate it, and \<open>None\<close> after \<open>Clear\<close> has set it to nil. The limits are
  read from the configuration at each call; the threshold for suggesting continue-as-new is its
  computed value. Metrics and logs are left out.
\<close>

section \<open>The registry and the objects it shares\<close>

record registry_limits =
  maxTotal :: int
  maxInFlightUpdateCount :: int
  maxInFlightUpdateSize :: int
  maxTotalSuggestContinueAsNew :: int

record registry =
  heap :: "workflow_update list"
  updates :: "(string \<times> nat) list option"
  completedCount :: int
  failoverVersion :: int

datatype registry_panic =
    FuturePanic future_panic
  | NilMapWrite

definition updates_map :: "registry \<Rightarrow> (string \<times> nat) list" where
  "updates_map r = (case updates r of None \<Rightarrow> [] | Some m \<Rightarrow> m)"

definition alloc :: "workflow_update \<Rightarrow> registry \<Rightarrow> registry \<times> nat" where
  "alloc u r = (r\<lparr>heap := heap r @ [u]\<rparr>, length (heap r))"

definition put_update :: "string \<Rightarrow> nat \<Rightarrow> registry \<Rightarrow> registry_panic + registry" where
  "put_update updID a r =
     (case updates r of
        None \<Rightarrow> Inl NilMapWrite
      | Some m \<Rightarrow> Inr (r\<lparr>updates := Some (AList.update updID a m)\<rparr>))"

section \<open>Completion and effects\<close>

definition remover :: "string \<Rightarrow> registry \<Rightarrow> registry" where
  "remover updID r =
     (case updates r of
        None \<Rightarrow> r
      | Some m \<Rightarrow>
          r\<lparr>completedCount := (case map_of m updID of
               None \<Rightarrow> completedCount r
             | Some a \<Rightarrow> if acceptedEventID (heap r ! a) \<noteq> EmptyEventID then completedCount r + 1
                 else completedCount r),
            updates := Some (AList.delete updID m)\<rparr>)"

definition call_onComplete :: "string option \<Rightarrow> registry \<Rightarrow> registry" where
  "call_onComplete cb r = (case cb of None \<Rightarrow> r | Some updID \<Rightarrow> remover updID r)"

text \<open>Running the callback of the object at an address.\<close>

definition run_registry :: "int \<Rightarrow> nat \<times> update_effect \<Rightarrow> registry \<Rightarrow> registry_panic + registry" where
  "run_registry now p r =
     (let (a, e) = p in
      case run_effect now e (heap r ! a) of
        Inl x \<Rightarrow> Inl (FuturePanic x)
      | Inr (u', completed) \<Rightarrow>
          let r' = r\<lparr>heap := (heap r)[a := u']\<rparr>
          in Inr (if completed then call_onComplete (onComplete u') r' else r'))"

type_synonym registry_buffer = "(nat \<times> update_effect) effect_buffer"

definition perform_at ::
    "int \<Rightarrow> controller \<Rightarrow> nat \<Rightarrow> workflow_update \<Rightarrow> (update_effect \<times> update_effect) option \<Rightarrow>
     registry \<times> registry_buffer \<Rightarrow> registry_panic + registry \<times> registry_buffer" where
  "perform_at now ctl a u reg rb =
     (let r = (fst rb)\<lparr>heap := (heap (fst rb))[a := u]\<rparr> in
      case reg of
        None \<Rightarrow> Inr (r, snd rb)
      | Some (c, d) \<Rightarrow> register (run_registry now) ctl (a, c) (a, d) (r, snd rb))"

definition abort_at ::
    "int \<Rightarrow> controller \<Rightarrow> abort_reason \<Rightarrow> nat \<Rightarrow> registry \<times> registry_buffer \<Rightarrow>
     registry_panic + registry \<times> registry_buffer" where
  "abort_at now ctl reason a rb =
     (let (u', reg) = abort reason (heap (fst rb) ! a) in perform_at now ctl a u' reg rb)"

section \<open>Construction\<close>

datatype update_info =
    Admission
  | Acceptance int
  | Completion
  | NoInfo

text \<open>
  \<open>NewRegistry\<close> visits the updates of mutable state; \<open>running\<close> is \<open>IsWorkflowExecutionRunning\<close>. The
  callbacks of the immediate abort run on a registry whose buffer is not used.
\<close>

definition visit_update ::
    "int \<Rightarrow> bool \<Rightarrow> string \<times> update_info \<Rightarrow> registry \<Rightarrow> registry_panic + registry" where
  "visit_update now running info r =
     (case info of
        (updID, Admission) \<Rightarrow>
          let (r, a) = alloc (newAdmitted updID None now (Some updID)) r in put_update updID a r
      | (updID, Acceptance eventID) \<Rightarrow>
          let (r, a) = alloc (newAccepted updID eventID (Some updID)) r in
          bind_result (if running then Inr (r, empty_buffer)
                       else abort_at now Immediate WorkflowCompleted a (r, empty_buffer))
            (\<lambda>(r, b). put_update updID a r)
      | (updID, Completion) \<Rightarrow> Inr (r\<lparr>completedCount := completedCount r + 1\<rparr>)
      | (updID, NoInfo) \<Rightarrow> Inr r)"

definition NewRegistry :: "int \<Rightarrow> int \<Rightarrow> bool \<Rightarrow> (string \<times> update_info) list \<Rightarrow> registry_panic + registry" where
  "NewRegistry now version running infos =
     run_all (visit_update now running) infos
       \<lparr>heap = [], updates = Some [], completedCount = 0, failoverVersion = version\<rparr>"

section \<open>Limits and sizes\<close>

definition inFlightCount :: "registry \<Rightarrow> int" where
  "inFlightCount r = int (length (updates_map r))"

definition registry_Len :: "registry \<Rightarrow> int" where
  "registry_Len r = int (length (updates_map r))"

definition checkInFlightLimit :: "registry_limits \<Rightarrow> registry \<Rightarrow> update_error option" where
  "checkInFlightLimit lim r =
     (let maxInFlight = maxInFlightUpdateCount lim in
      if maxInFlight = 0 then None
      else if inFlightCount r \<ge> maxInFlight then Some ResourceExhausted else None)"

definition checkTotalLimit :: "registry_limits \<Rightarrow> registry \<Rightarrow> update_error option" where
  "checkTotalLimit lim r =
     (let max = maxTotal lim in
      if max = 0 then None
      else if int (length (updates_map r)) + completedCount r \<ge> max then Some FailedPrecondition else None)"

definition registry_checkLimits :: "registry_limits \<Rightarrow> registry \<Rightarrow> update_error option" where
  "registry_checkLimits lim r =
     (case checkInFlightLimit lim r of Some e \<Rightarrow> Some e | None \<Rightarrow> checkTotalLimit lim r)"

definition SuggestContinueAsNew :: "registry_limits \<Rightarrow> registry \<Rightarrow> bool" where
  "SuggestContinueAsNew lim r =
     (if maxTotalSuggestContinueAsNew lim = 0 then False
      else inFlightCount r + completedCount r \<ge> maxTotalSuggestContinueAsNew lim)"

text \<open>The sizes of protobuf messages are parameters.\<close>

record proto_sizes =
  request_size :: "request option \<Rightarrow> int"
  failure_size :: "failure option \<Rightarrow> int"
  outcome_size :: "update_outcome option \<Rightarrow> int"

definition update_GetSize :: "proto_sizes \<Rightarrow> workflow_update \<Rightarrow> int" where
  "update_GetSize sz u =
     int (length (upd_id u)) + request_size sz (upd_request u) +
     (case GetIfReady (accepted u) of None \<Rightarrow> 0 | Some (f, e) \<Rightarrow> failure_size sz f) +
     (case GetIfReady (outcome u) of None \<Rightarrow> 0 | Some (v, e) \<Rightarrow> outcome_size sz v)"

definition registry_GetSize :: "proto_sizes \<Rightarrow> registry \<Rightarrow> int" where
  "registry_GetSize sz r =
     sum_list (map (\<lambda>(k, a). int (length k) + update_GetSize sz (heap r ! a)) (updates_map r))"

definition payloadSizeLimiter ::
    "registry_limits \<Rightarrow> proto_sizes \<Rightarrow> registry \<Rightarrow> request option \<Rightarrow> update_error option" where
  "payloadSizeLimiter lim sz r req =
     (let max = maxInFlightUpdateSize lim in
      if max = 0 then None
      else if registry_GetSize sz r + request_size sz req \<ge> max then Some ResourceExhausted else None)"

section \<open>Operations\<close>

text \<open>
  \<open>GetUpdateOutcome\<close> of the store is a parameter: \<open>None\<close> is its NotFound error, \<open>Some\<close> the outcome
  and any other error.
\<close>

definition Find ::
    "(string \<Rightarrow> (update_outcome option \<times> update_error option) option) \<Rightarrow> string \<Rightarrow> registry \<Rightarrow>
     registry \<times> nat option" where
  "Find getOutcome updID r =
     (case map_of (updates_map r) updID of
        Some a \<Rightarrow> (r, Some a)
      | None \<Rightarrow>
          (case getOutcome updID of
             None \<Rightarrow> (r, None)
           | Some res \<Rightarrow> let (r, a) = alloc (newCompleted updID res) r in (r, Some a)))"

definition FindOrCreate ::
    "registry_limits \<Rightarrow> (string \<Rightarrow> (update_outcome option \<times> update_error option) option) \<Rightarrow> string \<Rightarrow> registry \<Rightarrow>
     registry_panic + registry \<times> (update_error + nat \<times> bool)" where
  "FindOrCreate lim getOutcome updID r =
     (case Find getOutcome updID r of
        (r, Some a) \<Rightarrow> Inr (r, Inr (a, True))
      | (r, None) \<Rightarrow>
          (case registry_checkLimits lim r of
             Some e \<Rightarrow> Inr (r, Inl e)
           | None \<Rightarrow>
               let (r, a) = alloc (New updID (Some updID)) r in
               bind_result (put_update updID a r) (\<lambda>r. Inr (r, Inr (a, False)))))"

definition TryResurrect ::
    "registry_limits \<Rightarrow> (request \<Rightarrow> update_error option) \<Rightarrow> int \<Rightarrow> protocol_message option \<Rightarrow> registry \<Rightarrow>
     registry_panic + registry \<times> (update_error + nat option)" where
  "TryResurrect lim marshal now msg r =
     (case msg of
        None \<Rightarrow> Inr (r, Inr None)
      | Some m \<Rightarrow>
        (case Body m of
          None \<Rightarrow> Inr (r, Inr None)
        | Some b \<Rightarrow>
          (case checkTotalLimit lim r of
            Some e \<Rightarrow> Inr (r, Inl e)
          | None \<Rightarrow>
              if b = MalformedBody then Inr (r, Inl (InvalidArgument ''unmarshal''))
              else case (case b of AcceptanceBody x \<Rightarrow> AcceptedRequest x
                                 | RejectionBody x \<Rightarrow> RejectedRequest x | _ \<Rightarrow> None) of
                None \<Rightarrow> Inr (r, Inr None)
              | Some req \<Rightarrow>
                  (case marshal req of
                    Some e \<Rightarrow> Inr (r, Inl e)
                  | None \<Rightarrow>
                      let updID = ProtocolInstanceId m;
                          (r, a) = alloc (newAdmitted updID (Some req) now (Some updID)) r
                      in bind_result (put_update updID a r) (\<lambda>r. Inr (r, Inr (Some a)))))))"

fun abort_all ::
    "int \<Rightarrow> controller \<Rightarrow> abort_reason \<Rightarrow> nat list \<Rightarrow> registry \<times> registry_buffer \<Rightarrow>
     registry_panic + registry \<times> registry_buffer" where
  "abort_all now ctl reason [] rb = Inr rb"
| "abort_all now ctl reason (a # as) rb =
     bind_result (abort_at now ctl reason a rb) (abort_all now ctl reason as)"

definition Abort :: "int \<Rightarrow> abort_reason \<Rightarrow> registry \<times> registry_buffer \<Rightarrow> registry_panic + registry \<times> registry_buffer" where
  "Abort now reason rb = abort_all now Immediate reason (map snd (updates_map (fst rb))) rb"

definition AbortAccepted ::
    "int \<Rightarrow> abort_reason \<Rightarrow> registry \<times> registry_buffer \<Rightarrow> registry_panic + registry \<times> registry_buffer" where
  "AbortAccepted now reason rb =
     abort_all now Buffer reason
       (filter (\<lambda>a. Matches (upd_state (heap (fst rb) ! a)) (stateSet [ProvisionallyAccepted, Accepted]))
         (map snd (updates_map (fst rb)))) rb"

fun reject_all ::
    "int \<Rightarrow> nat list \<Rightarrow> registry \<times> registry_buffer \<Rightarrow> registry_panic + registry \<times> registry_buffer" where
  "reject_all now [] rb = Inr rb"
| "reject_all now (a # as) rb =
     (let (u', reg) = reject UnprocessedUpdate (heap (fst rb) ! a)
      in bind_result (perform_at now Buffer a u' (Some reg) rb) (reject_all now as))"

definition RejectUnprocessed ::
    "int \<Rightarrow> registry \<times> registry_buffer \<Rightarrow> registry_panic + (registry \<times> registry_buffer) \<times> string list" where
  "RejectUnprocessed now rb =
     (let updatesToReject = filter (\<lambda>a. isSent (heap (fst rb) ! a)) (map snd (updates_map (fst rb)))
      in bind_result (reject_all now updatesToReject rb)
           (\<lambda>rb'. Inr (rb', map (\<lambda>a. upd_id (heap (fst rb) ! a)) updatesToReject)))"

definition HasOutgoingMessages :: "bool \<Rightarrow> registry \<Rightarrow> bool" where
  "HasOutgoingMessages includeAlreadySent r =
     list_ex (\<lambda>(k, a). needToSend (heap r ! a) includeAlreadySent) (updates_map r)"

fun send_all ::
    "bool \<Rightarrow> int \<Rightarrow> nat list \<Rightarrow> workflow_update list \<Rightarrow> workflow_update list \<times> outgoing_message list" where
  "send_all again seqID [] h = (h, [])"
| "send_all again seqID (a # as) h =
     (let (u', msg) = Send again seqID (h ! a);
          (h', msgs) = send_all again seqID as (h[a := u'])
      in (h', (case msg of None \<Rightarrow> msgs | Some m \<Rightarrow> m # msgs)))"

definition registry_Send :: "bool \<Rightarrow> int \<Rightarrow> registry \<Rightarrow> registry \<times> outgoing_message list" where
  "registry_Send again workflowTaskStartedEventID r =
     (let sortedUpdates = sort_key (\<lambda>a. admittedTime (heap r ! a)) (map snd (updates_map r));
          (h, msgs) = send_all again (i64 (workflowTaskStartedEventID - 1)) sortedUpdates (heap r)
      in (r\<lparr>heap := h\<rparr>, msgs))"

definition Clear :: "int \<Rightarrow> registry \<times> registry_buffer \<Rightarrow> registry_panic + registry \<times> registry_buffer" where
  "Clear now rb =
     bind_result (Abort now RegistryCleared rb)
       (\<lambda>(r, b). Inr (r\<lparr>updates := None, completedCount := 0\<rparr>, b))"

text \<open>An operation on the update at an address, by a caller that holds the pointer.\<close>

definition admit_at ::
    "'es event_store \<Rightarrow> registry_limits \<Rightarrow> proto_sizes \<Rightarrow> (request \<Rightarrow> update_error option) \<Rightarrow> request option \<Rightarrow>
     int \<Rightarrow> nat \<Rightarrow> registry \<times> registry_buffer \<Rightarrow> 'es \<Rightarrow>
     registry_panic + ((registry \<times> registry_buffer) \<times> 'es) \<times> update_error option" where
  "admit_at st lim sz marshal req now a rb es =
     (let res = Admit st (payloadSizeLimiter lim sz (fst rb)) marshal req (heap (fst rb) ! a) es in
      bind_result (perform_at now Buffer a (Upd res) (Registered res) rb)
        (\<lambda>(r, b). Inr (((if CompletedNow res then call_onComplete (onComplete (Upd res)) r else r, b), Store res), Err res)))"

definition message_at ::
    "'es event_store \<Rightarrow> protocol_message option \<Rightarrow> int \<Rightarrow> nat \<Rightarrow> registry \<times> registry_buffer \<Rightarrow> 'es \<Rightarrow>
     registry_panic + ((registry \<times> registry_buffer) \<times> 'es) \<times> update_error option" where
  "message_at st msg now a rb es =
     (let res = OnProtocolMessage st msg (heap (fst rb) ! a) es in
      bind_result (perform_at now Buffer a (Upd res) (Registered res) rb)
        (\<lambda>rb'. Inr ((rb', Store res), Err res)))"

section \<open>Each object sees its own transaction\<close>

text \<open>The callbacks of one object, in order.\<close>

definition callbacks_of :: "nat \<Rightarrow> (nat \<times> update_effect) list \<Rightarrow> update_effect list" where
  "callbacks_of a es = map snd (filter (\<lambda>p. fst p = a) es)"

definition buffer_of :: "nat \<Rightarrow> registry_buffer \<Rightarrow> buffer" where
  "buffer_of a b = \<lparr>effects = callbacks_of a (effects b), cancels = callbacks_of a (cancels b)\<rparr>"

lemma callbacks_of_simps [simp]:
  "callbacks_of a [] = []"
  "callbacks_of a ((a', e) # es) = (if a' = a then e # callbacks_of a es else callbacks_of a es)"
  "callbacks_of a (xs @ ys) = callbacks_of a xs @ callbacks_of a ys"
  "callbacks_of a (rev xs) = rev (callbacks_of a xs)"
  by (auto simp: callbacks_of_def rev_filter rev_map)

lemma buffer_of_empty [simp]: "buffer_of a empty_buffer = empty_buffer"
  by (simp add: buffer_of_def empty_buffer_def)

lemma remover_fields [simp]:
  "heap (remover k r) = heap r" "heap (call_onComplete cb r) = heap r"
  "failoverVersion (call_onComplete cb r) = failoverVersion r"
  by (auto simp: remover_def call_onComplete_def split: option.splits)

lemma updates_map_update [simp]: "updates_map (r\<lparr>heap := h\<rparr>) = updates_map r"
  by (simp add: updates_map_def)

lemma updates_map_remover: "updates_map (remover k r) = AList.delete k (updates_map r)"
  by (auto simp: remover_def updates_map_def split: option.splits)

lemma set_delete: "set (AList.delete k m) = {p \<in> set m. fst p \<noteq> k}"
  by (auto simp: AList.delete_eq)

text \<open>A callback never changes the identity of its object, and completes it only with \<open>onComplete\<close>.\<close>

fun sane :: "update_effect \<Rightarrow> bool" where
  "sane (AbortRollback p) \<longleftrightarrow> p \<noteq> Completed"
| "sane (AdmitRollback p) \<longleftrightarrow> p \<noteq> Completed"
| "sane (AcceptRollback p) \<longleftrightarrow> p \<noteq> Completed"
| "sane (RejectRollback p) \<longleftrightarrow> p \<noteq> Completed"
| "sane (ResponseRollback p) \<longleftrightarrow> p \<noteq> Completed"
| "sane _ = True"

lemma write_future_frame:
  "write_future w u = Inr u' \<Longrightarrow> upd_id u' = upd_id u \<and> onComplete u' = onComplete u \<and>
     upd_state u' = upd_state u \<and> acceptedEventID u' = acceptedEventID u"
  by (cases w) (auto simp: bind_result_Inr_iff)

lemma writes_frame:
  "run_all write_future ws u = Inr u' \<Longrightarrow> upd_id u' = upd_id u \<and> onComplete u' = onComplete u \<and>
     upd_state u' = upd_state u \<and> acceptedEventID u' = acceptedEventID u"
  by (induction ws arbitrary: u) (auto simp: bind_result_Inr_iff dest!: write_future_frame)

lemma effect_body_frame:
  assumes "effect_body now e u = (u', ws, completed)"
  shows "upd_id u' = upd_id u \<and> onComplete u' = onComplete u \<and>
    (sane e \<and> \<not> completed \<and> upd_state u \<noteq> Completed \<longrightarrow> upd_state u' \<noteq> Completed)"
  using assms by (cases e) (auto simp: Let_def split: if_splits)

lemma run_effect_frame:
  assumes "run_effect now e u = Inr (u', completed)"
  shows "upd_id u' = upd_id u \<and> onComplete u' = onComplete u \<and>
    (sane e \<and> \<not> completed \<and> upd_state u \<noteq> Completed \<longrightarrow> upd_state u' \<noteq> Completed)"
proof -
  obtain u1 ws c where body: "effect_body now e u = (u1, ws, c)" by (cases "effect_body now e u")
  with assms have "run_all write_future ws u1 = Inr u'" "c = completed"
    by (auto simp: run_effect_def bind_result_Inr_iff)
  with writes_frame effect_body_frame [OF body] show ?thesis by metis
qed

lemma link_sane: "link s (c, r) t \<Longrightarrow> sane c \<and> sane r"
  by (cases rule: link.cases) auto

section \<open>The invariant of the registry\<close>

text \<open>
  The map holds, under its ID, only updates that are not completed and whose callback removes that
  entry; every object on the heap satisfies its own invariant with its callbacks in the buffer.
\<close>

definition entry_ok :: "workflow_update list \<Rightarrow> string \<times> nat \<Rightarrow> bool" where
  "entry_ok h p \<longleftrightarrow> snd p < length h \<and> upd_id (h ! snd p) = fst p \<and> onComplete (h ! snd p) = Some (fst p) \<and>
     upd_state (h ! snd p) \<noteq> Completed"

definition map_ok :: "registry \<Rightarrow> bool" where
  "map_ok r \<longleftrightarrow> go_map (updates_map r) \<and> (\<forall>p \<in> set (updates_map r). entry_ok (heap r) p)"

definition callbacks_ok :: "registry \<Rightarrow> (nat \<times> update_effect) list \<Rightarrow> bool" where
  "callbacks_ok r es \<longleftrightarrow> (\<forall>(a, e) \<in> set es. a < length (heap r) \<and> sane e)"

definition registry_inv :: "registry \<times> registry_buffer \<Rightarrow> bool" where
  "registry_inv rb \<longleftrightarrow> map_ok (fst rb) \<and>
     callbacks_ok (fst rb) (effects (snd rb)) \<and> callbacks_ok (fst rb) (cancels (snd rb)) \<and>
     (\<forall>a < length (heap (fst rb)). update_inv (heap (fst rb) ! a) (buffer_of a (snd rb)))"

lemma map_ok_remover: "map_ok r \<Longrightarrow> map_ok (remover k r)"
  by (auto simp: map_ok_def updates_map_remover set_delete go_map_delete)

lemma run_registry_step:
  assumes "run_update now e (heap r ! a) = Inr u'" "a < length (heap r)" "sane e" "map_ok r"
  shows "\<exists>r'. run_registry now (a, e) r = Inr r' \<and> heap r' = (heap r)[a := u'] \<and> map_ok r'"
proof -
  from assms(1) obtain c where run: "run_effect now e (heap r ! a) = Inr (u', c)"
    by (auto simp: run_update_def bind_result_Inr_iff)
  note frame = run_effect_frame [OF run]
  let ?r = "r\<lparr>heap := (heap r)[a := u']\<rparr>"
  have reg: "run_registry now (a, e) r = Inr (if c then call_onComplete (onComplete u') ?r else ?r)"
    using run by (simp add: run_registry_def)
  have ok: "entry_ok ((heap r)[a := u']) p"
    if "p \<in> set (updates_map r)" "c \<longrightarrow> onComplete u' \<noteq> Some (fst p)" for p
    using assms(2-4) frame that by (cases "snd p = a") (auto simp: map_ok_def entry_ok_def)
  have "map_ok (if c then call_onComplete (onComplete u') ?r else ?r)"
  proof (cases c)
    case False
    with ok assms(4) show ?thesis by (auto simp: map_ok_def)
  next
    case True
    show ?thesis
    proof (cases "onComplete u'")
      case None
      with True ok assms(4) show ?thesis by (auto simp: map_ok_def call_onComplete_def)
    next
      case (Some k)
      with True ok assms(4) show ?thesis
        by (auto simp: map_ok_def call_onComplete_def updates_map_remover set_delete go_map_delete)
    qed
  qed
  with reg show ?thesis by auto
qed

lemma run_registry_all:
  assumes "callbacks_ok r es" "map_ok r"
    and "\<forall>a < length (heap r). \<exists>u'. run_all (run_update now) (callbacks_of a es) (heap r ! a) = Inr u'"
  shows "\<exists>r'. run_all (run_registry now) es r = Inr r' \<and> map_ok r' \<and> length (heap r') = length (heap r) \<and>
    (\<forall>a < length (heap r). run_all (run_update now) (callbacks_of a es) (heap r ! a) = Inr (heap r' ! a))"
  using assms
proof (induction es arbitrary: r)
  case Nil
  then show ?case by simp
next
  case (Cons p es)
  obtain a e where p: "p = (a, e)" by (cases p)
  with Cons.prems(1) have a: "a < length (heap r)" "sane e" by (auto simp: callbacks_ok_def)
  from Cons.prems(3) [rule_format, OF a(1)] p obtain u1 where u1: "run_update now e (heap r ! a) = Inr u1"
    by (auto simp: bind_result_Inr_iff)
  from run_registry_step [OF u1 a Cons.prems(2)] obtain r1 where
    r1: "run_registry now (a, e) r = Inr r1" "heap r1 = (heap r)[a := u1]" "map_ok r1" by blast
  have "callbacks_ok r1 es" using Cons.prems(1) r1(2) by (auto simp: callbacks_ok_def p)
  moreover have split: "run_all (run_update now) (callbacks_of x es) (heap r1 ! x) =
      run_all (run_update now) (callbacks_of x (p # es)) (heap r ! x)" if "x < length (heap r)" for x
    using that a r1(2) u1 by (cases "x = a") (simp_all add: p)
  ultimately show ?case using Cons.IH [of r1] Cons.prems(3) r1 by (auto simp: p)
qed

section \<open>Operations keep the invariant\<close>

lemma op_ok_frame:
  assumes "op_ok u u' reg"
  shows "upd_id u' = upd_id u \<and> onComplete u' = onComplete u \<and>
    (upd_state u \<noteq> Completed \<longrightarrow> upd_state u' \<noteq> Completed) \<and> (\<forall>c d. reg = Some (c, d) \<longrightarrow> sane c \<and> sane d)"
proof (cases reg)
  case None
  with assms show ?thesis by (simp add: op_ok_def)
next
  case (Some p)
  obtain c d where p: "p = (c, d)" by (cases p)
  with Some assms have l: "link (upd_state u) (c, d) (upd_state u')" by (simp add: op_ok_def)
  from link_provisional [OF l] link_sane [OF l] assms Some p show ?thesis
    by (cases u; cases u') (auto simp: op_ok_def)
qed

lemma entry_ok_update:
  assumes "entry_ok h p" "upd_id u = upd_id (h ! a)" "onComplete u = onComplete (h ! a)"
    and "upd_state (h ! a) \<noteq> Completed \<longrightarrow> upd_state u \<noteq> Completed"
  shows "entry_ok (h[a := u]) p"
  using assms by (cases "snd p = a") (auto simp: entry_ok_def)

lemma registry_inv_put:
  assumes "registry_inv (r, b)" "a < length (heap r)"
    and "upd_id u = upd_id (heap r ! a)" "onComplete u = onComplete (heap r ! a)"
    and "upd_state (heap r ! a) \<noteq> Completed \<longrightarrow> upd_state u \<noteq> Completed"
    and "callbacks_ok r (effects b')" "callbacks_ok r (cancels b')"
    and "update_inv u (buffer_of a b')" "\<forall>x. x \<noteq> a \<longrightarrow> buffer_of x b' = buffer_of x b"
  shows "registry_inv (r\<lparr>heap := (heap r)[a := u]\<rparr>, b')"
  using assms entry_ok_update [OF _ assms(3-5)]
  by (auto simp: registry_inv_def map_ok_def callbacks_ok_def nth_list_update)

lemma perform_at_ok:
  assumes inv: "registry_inv (r, b)" and a: "a < length (heap r)" and op: "op_ok (heap r ! a) u reg"
  shows "\<exists>b'. perform_at now Buffer a u reg (r, b) = Inr (r\<lparr>heap := (heap r)[a := u]\<rparr>, b') \<and>
    registry_inv (r\<lparr>heap := (heap r)[a := u]\<rparr>, b')"
proof -
  let ?b = "case reg of None \<Rightarrow> b
    | Some (c, d) \<Rightarrow> b\<lparr>effects := effects b @ [(a, c)], cancels := cancels b @ [(a, d)]\<rparr>"
  note frame = op_ok_frame [OF op]
  have "buffer_of a ?b = add_callbacks reg (buffer_of a b)" and others: "\<forall>x. x \<noteq> a \<longrightarrow> buffer_of x ?b = buffer_of x b"
    by (auto simp: buffer_of_def add_callbacks_def split: option.splits)
  moreover have "update_inv (heap r ! a) (buffer_of a b)" using inv a by (auto simp: registry_inv_def)
  ultimately have "update_inv u (buffer_of a ?b)" using op_inv [OF op] by simp
  moreover have "callbacks_ok r (effects ?b)" "callbacks_ok r (cancels ?b)"
    using inv a frame by (auto simp: registry_inv_def callbacks_ok_def split: option.splits)
  ultimately have "registry_inv (r\<lparr>heap := (heap r)[a := u]\<rparr>, ?b)"
    using registry_inv_put [OF inv a, of u ?b] frame others by blast
  then show ?thesis by (auto simp: perform_at_def split: option.splits)
qed

lemma abort_at_Immediate:
  assumes inv: "registry_inv (r, b)" and a: "a < length (heap r)"
  shows "\<exists>u. abort_at now Immediate reason a (r, b) = Inr (r\<lparr>heap := (heap r)[a := u]\<rparr>, b) \<and>
    registry_inv (r\<lparr>heap := (heap r)[a := u]\<rparr>, b) \<and>
    abort_update now Immediate reason (heap r ! a) (buffer_of a b) = Inr (u, buffer_of a b)"
proof -
  let ?u = "heap r ! a"
  have "update_inv ?u (buffer_of a b)" using inv a by (auto simp: registry_inv_def)
  from abort_now_inv [OF this, of now reason] obtain u where
    u: "abort_update now Immediate reason ?u (buffer_of a b) = Inr (u, buffer_of a b)"
    "update_inv u (buffer_of a b)" by blast
  obtain u1 reg where ab: "abort reason ?u = (u1, reg)" by (cases "abort reason ?u")
  note frame1 = op_ok_frame [OF abort_op [OF ab]]
  have res: "abort_at now Immediate reason a (r, b) = Inr (r\<lparr>heap := (heap r)[a := u]\<rparr>, b) \<and>
      upd_id u = upd_id ?u \<and> onComplete u = onComplete ?u \<and> (upd_state ?u \<noteq> Completed \<longrightarrow> upd_state u \<noteq> Completed)"
  proof (cases reg)
    case None
    with u ab have "u = u1" "u1 = ?u" using abort_op [OF ab]
      by (auto simp: abort_update_def perform_def op_ok_def)
    with None ab frame1 show ?thesis by (auto simp: abort_at_def perform_at_def)
  next
    case (Some p)
    then obtain f e q where p: "p = (AbortCommit f e q, AbortRollback q)"
      using ab by (auto simp: abort_def split: prod.splits if_splits)
    with u ab Some obtain c where run: "run_effect now (AbortCommit f e q) u1 = Inr (u, c)"
      by (auto simp: abort_update_def perform_def run_update_def bind_result_Inr_iff)
    have "c = False" using run
      by (auto simp: run_effect_def bind_result_Inr_iff Let_def split: if_splits)
    with run run_effect_frame [OF run] frame1 ab Some p a show ?thesis
      by (auto simp: abort_at_def perform_at_def run_registry_def)
  qed
  have "registry_inv (r\<lparr>heap := (heap r)[a := u]\<rparr>, b)"
    using registry_inv_put [OF inv a, of u b] res u(2) inv by (auto simp: registry_inv_def)
  with res u(1) show ?thesis by blast
qed

lemma callbacks_of_fresh: "callbacks_ok r es \<Longrightarrow> callbacks_of (length (heap r)) es = []"
  by (fastforce simp: callbacks_ok_def callbacks_of_def filter_empty_conv)

lemma alloc_ok:
  assumes "registry_inv (r, b)" "idle_ok u" "alloc u r = (r', a)"
  shows "registry_inv (r', b) \<and> a = length (heap r) \<and> heap r' = heap r @ [u] \<and> updates r' = updates r \<and>
    completedCount r' = completedCount r"
proof -
  from assms(3) have r': "r' = r\<lparr>heap := heap r @ [u]\<rparr>" "a = length (heap r)" by (auto simp: alloc_def)
  have "buffer_of (length (heap r)) b = empty_buffer"
    using assms(1) by (auto simp: registry_inv_def buffer_of_def empty_buffer_def callbacks_of_fresh)
  with idle_inv [OF assms(2)] have "\<forall>x < length (heap r'). update_inv (heap r' ! x) (buffer_of x b)"
    using assms(1) by (auto simp: r' registry_inv_def nth_append less_Suc_eq)
  moreover have "map_ok r'" using assms(1)
    by (fastforce simp: r' registry_inv_def map_ok_def entry_ok_def nth_append)
  moreover have "callbacks_ok r' (effects b)" "callbacks_ok r' (cancels b)"
    using assms(1) by (fastforce simp: r' registry_inv_def callbacks_ok_def)+
  ultimately show ?thesis by (simp add: registry_inv_def r')
qed

lemma put_update_ok:
  assumes "registry_inv (r, b)" "entry_ok (heap r) (k, a)" "updates r = Some m"
  shows "\<exists>r'. put_update k a r = Inr r' \<and> registry_inv (r', b) \<and> updates_map r' = AList.update k a m \<and>
    heap r' = heap r \<and> completedCount r' = completedCount r"
proof -
  let ?r = "r\<lparr>updates := Some (AList.update k a m)\<rparr>"
  have m: "go_map m" "\<forall>p \<in> set m. entry_ok (heap r) p"
    using assms(1,3) by (auto simp: registry_inv_def map_ok_def updates_map_def)
  with assms(2) have "map_ok ?r"
    by (auto simp: map_ok_def updates_map_def set_update_distinct go_map_update)
  with assms show ?thesis
    by (auto simp: put_update_def registry_inv_def callbacks_ok_def updates_map_def)
qed

lemma abort_all_Immediate:
  assumes "registry_inv (r, b)" "distinct as" "\<forall>a \<in> set as. a < length (heap r)"
  shows "\<exists>h. abort_all now Immediate reason as (r, b) = Inr (r\<lparr>heap := h\<rparr>, b) \<and>
    registry_inv (r\<lparr>heap := h\<rparr>, b) \<and> length h = length (heap r) \<and> (\<forall>x. x \<notin> set as \<longrightarrow> h ! x = heap r ! x) \<and>
    (\<forall>a \<in> set as. abort_update now Immediate reason (heap r ! a) (buffer_of a b) = Inr (h ! a, buffer_of a b))"
  using assms
proof (induction as arbitrary: r)
  case Nil
  then show ?case by (auto intro: exI [of _ "heap r"])
next
  case (Cons a as)
  from abort_at_Immediate [OF Cons.prems(1), of a now reason] Cons.prems(3) obtain u where
    u: "abort_at now Immediate reason a (r, b) = Inr (r\<lparr>heap := (heap r)[a := u]\<rparr>, b)"
    "registry_inv (r\<lparr>heap := (heap r)[a := u]\<rparr>, b)"
    "abort_update now Immediate reason (heap r ! a) (buffer_of a b) = Inr (u, buffer_of a b)" by auto
  from Cons.IH [OF u(2)] Cons.prems(2,3) obtain h where
    h: "abort_all now Immediate reason as (r\<lparr>heap := (heap r)[a := u]\<rparr>, b) = Inr (r\<lparr>heap := h\<rparr>, b)"
    "registry_inv (r\<lparr>heap := h\<rparr>, b)" "length h = length (heap r)"
    "\<forall>x. x \<notin> set as \<longrightarrow> h ! x = (heap r)[a := u] ! x"
    "\<forall>x \<in> set as. abort_update now Immediate reason ((heap r)[a := u] ! x) (buffer_of x b) = Inr (h ! x, buffer_of x b)"
    by auto
  have "h ! a = u" using h(4) Cons.prems(2,3) by simp
  moreover have "h ! x = heap r ! x" if "x \<noteq> a" "x \<notin> set as" for x using h(4) that by simp
  moreover have "abort_update now Immediate reason (heap r ! x) (buffer_of x b) = Inr (h ! x, buffer_of x b)"
    if "x \<in> set as" for x using h(5) that Cons.prems(2) by (metis distinct.simps(2) nth_list_update_neq)
  ultimately show ?case using u(1,3) h(1-3)
    by (intro exI [of _ h]) (simp del: buffer_of_def)
qed

lemma abort_all_Buffer:
  assumes "registry_inv (r, b)" "\<forall>a \<in> set as. a < length (heap r)"
  shows "\<exists>h b'. abort_all now Buffer reason as (r, b) = Inr (r\<lparr>heap := h\<rparr>, b') \<and> registry_inv (r\<lparr>heap := h\<rparr>, b') \<and>
    length h = length (heap r)"
  using assms
proof (induction as arbitrary: r b)
  case Nil
  then show ?case by (auto intro: exI [of _ "heap r"])
next
  case (Cons a as)
  obtain u reg where ab: "abort reason (heap r ! a) = (u, reg)" by (cases "abort reason (heap r ! a)")
  from perform_at_ok [OF Cons.prems(1) _ abort_op [OF ab], of now] Cons.prems(2) ab obtain b1 where
    "abort_at now Buffer reason a (r, b) = Inr (r\<lparr>heap := (heap r)[a := u]\<rparr>, b1)"
    and inv: "registry_inv (r\<lparr>heap := (heap r)[a := u]\<rparr>, b1)" by (auto simp: abort_at_def)
  with Cons.IH [OF inv] Cons.prems(2) show ?case by auto
qed

lemma reject_all_ok:
  assumes "registry_inv (r, b)" "distinct as" "\<forall>a \<in> set as. a < length (heap r) \<and> isSent (heap r ! a)"
  shows "\<exists>h b'. reject_all now as (r, b) = Inr (r\<lparr>heap := h\<rparr>, b') \<and> registry_inv (r\<lparr>heap := h\<rparr>, b') \<and>
    length h = length (heap r)"
  using assms
proof (induction as arbitrary: r b)
  case Nil
  then show ?case by (auto intro: exI [of _ "heap r"])
next
  case (Cons a as)
  obtain u reg where rj: "reject UnprocessedUpdate (heap r ! a) = (u, reg)"
    by (cases "reject UnprocessedUpdate (heap r ! a)")
  have "op_ok (heap r ! a) u (Some reg)"
    by (rule reject_op [OF _ rj]) (use Cons.prems(3) in \<open>auto simp: isSent_def\<close>)
  from perform_at_ok [OF Cons.prems(1) _ this, of now] Cons.prems(3) obtain b1 where
    step: "perform_at now Buffer a u (Some reg) (r, b) = Inr (r\<lparr>heap := (heap r)[a := u]\<rparr>, b1)"
    and inv: "registry_inv (r\<lparr>heap := (heap r)[a := u]\<rparr>, b1)" by auto
  have "\<forall>x \<in> set as. x < length (heap (r\<lparr>heap := (heap r)[a := u]\<rparr>)) \<and> isSent (heap (r\<lparr>heap := (heap r)[a := u]\<rparr>) ! x)"
    using Cons.prems(2,3) by (auto simp: nth_list_update)
  from Cons.IH [OF inv _ this] Cons.prems(2) step rj show ?case by auto
qed

lemma map_addresses:
  assumes "map_ok r"
  shows "distinct (map snd (updates_map r))" "\<forall>a \<in> set (map snd (updates_map r)). a < length (heap r)"
proof -
  have "inj_on snd (set (updates_map r))"
    using assms by (auto simp: map_ok_def entry_ok_def inj_on_def) (metis fst_conv snd_conv)+
  moreover have "distinct (updates_map r)" using assms by (auto simp: map_ok_def distinct_map)
  ultimately show "distinct (map snd (updates_map r))" by (simp add: distinct_map)
  show "\<forall>a \<in> set (map snd (updates_map r)). a < length (heap r)"
    using assms by (auto simp: map_ok_def entry_ok_def)
qed

lemma send_all_ok:
  assumes "registry_inv (r, b)" "\<forall>a \<in> set as. a < length (heap r)"
  shows "registry_inv (r\<lparr>heap := fst (send_all again seqID as (heap r))\<rparr>, b)"
  using assms
proof (induction as arbitrary: r)
  case Nil
  then show ?case by simp
next
  case (Cons a as)
  obtain u msg where s: "Send again seqID (heap r ! a) = (u, msg)" by (cases "Send again seqID (heap r ! a)")
  have "upd_id u = upd_id (heap r ! a) \<and> onComplete u = onComplete (heap r ! a) \<and>
      (upd_state (heap r ! a) \<noteq> Completed \<longrightarrow> upd_state u \<noteq> Completed)"
    using s by (auto simp: Send_def Let_def split: if_splits option.splits)
  moreover have "update_inv u (buffer_of a b)"
    using Send_inv [OF s] Cons.prems by (auto simp: registry_inv_def)
  ultimately have "registry_inv (r\<lparr>heap := (heap r)[a := u]\<rparr>, b)"
    using registry_inv_put [OF Cons.prems(1), of a u b] Cons.prems by (auto simp: registry_inv_def)
  from Cons.IH [OF this] Cons.prems(2) s show ?case by (auto simp: case_prod_unfold Let_def)
qed

lemma registry_commit_ok:
  assumes "registry_inv (r, b)"
  shows "\<exists>r'. Buffer_Apply (run_registry now) b r = Inr (r', empty_buffer, effects b \<noteq> []) \<and>
    registry_inv (r', empty_buffer) \<and> (\<forall>u \<in> set (heap r'). idle_ok u)"
proof -
  have each: "\<exists>u'. run_all (run_update now) (callbacks_of a (effects b)) (heap r ! a) = Inr u' \<and> idle_ok u'"
    if "a < length (heap r)" for a
    using commit_inv [of "heap r ! a" "buffer_of a b" now] assms that
    by (auto simp: registry_inv_def Buffer_Apply_def buffer_of_def bind_result_Inr_iff)
  then have returns: "\<forall>a < length (heap r). \<exists>u'. run_all (run_update now) (callbacks_of a (effects b)) (heap r ! a) = Inr u'"
    by blast
  have "callbacks_ok r (effects b)" "map_ok r" using assms by (simp_all add: registry_inv_def)
  from run_registry_all [OF this returns] obtain r' where
    r': "run_all (run_registry now) (effects b) r = Inr r'" "map_ok r'" "length (heap r') = length (heap r)"
    "\<forall>a < length (heap r). run_all (run_update now) (callbacks_of a (effects b)) (heap r ! a) = Inr (heap r' ! a)"
    by blast
  with each have idle: "idle_ok (heap r' ! a)" if "a < length (heap r')" for a using that by force
  with r' show ?thesis
    by (auto simp: Buffer_Apply_def registry_inv_def idle_inv empty_buffer_def [symmetric] in_set_conv_nth)
      (auto simp: empty_buffer_def callbacks_ok_def)
qed

lemma registry_rollback_ok:
  assumes "registry_inv (r, b)"
  shows "\<exists>r'. Buffer_Cancel (run_registry now) b r = Inr (r', empty_buffer, cancels b \<noteq> []) \<and>
    registry_inv (r', empty_buffer) \<and> (\<forall>u \<in> set (heap r'). idle_ok u)"
proof -
  have each: "\<exists>u'. run_all (run_update now) (callbacks_of a (rev (cancels b))) (heap r ! a) = Inr u' \<and> idle_ok u'"
    if "a < length (heap r)" for a
    using rollback_inv [of "heap r ! a" "buffer_of a b" now] assms that
    by (auto simp: registry_inv_def Buffer_Cancel_def buffer_of_def bind_result_Inr_iff)
  then have returns: "\<forall>a < length (heap r). \<exists>u'. run_all (run_update now) (callbacks_of a (rev (cancels b))) (heap r ! a) = Inr u'"
    by blast
  have "callbacks_ok r (rev (cancels b))" "map_ok r" using assms by (auto simp: registry_inv_def callbacks_ok_def)
  from run_registry_all [OF this returns] obtain r' where
    r': "run_all (run_registry now) (rev (cancels b)) r = Inr r'" "map_ok r'" "length (heap r') = length (heap r)"
    "\<forall>a < length (heap r). run_all (run_update now) (callbacks_of a (rev (cancels b))) (heap r ! a) = Inr (heap r' ! a)"
    by blast
  with each have idle: "idle_ok (heap r' ! a)" if "a < length (heap r')" for a using that by force
  with r' show ?thesis
    by (auto simp: Buffer_Cancel_def registry_inv_def idle_inv empty_buffer_def [symmetric] in_set_conv_nth)
      (auto simp: empty_buffer_def callbacks_ok_def)
qed

section \<open>Runs of the registry\<close>

type_synonym 'es registry_config = "(registry \<times> registry_buffer) \<times> 'es"

inductive reg_step :: "'es event_store \<Rightarrow> 'es registry_config \<Rightarrow> 'es registry_config \<Rightarrow> bool" for st where
  find: "FindOrCreate lim getOutcome k r = Inr (r', res) \<Longrightarrow> reg_step st ((r, b), es) ((r', b), es)"
| resurrect: "TryResurrect lim marshal now msg r = Inr (r', res) \<Longrightarrow> reg_step st ((r, b), es) ((r', b), es)"
| admit: "a < length (heap r) \<Longrightarrow> admit_at st lim sz marshal req now a (r, b) es = Inr (c', err) \<Longrightarrow>
    reg_step st ((r, b), es) c'"
| message: "a < length (heap r) \<Longrightarrow> message_at st msg now a (r, b) es = Inr (c', err) \<Longrightarrow>
    reg_step st ((r, b), es) c'"
| abort_all_now: "Abort now reason (r, b) = Inr rb' \<Longrightarrow> reg_step st ((r, b), es) (rb', es)"
| abort_accepted: "AbortAccepted now reason (r, b) = Inr rb' \<Longrightarrow> reg_step st ((r, b), es) (rb', es)"
| unprocessed: "RejectUnprocessed now (r, b) = Inr (rb', ids) \<Longrightarrow> reg_step st ((r, b), es) (rb', es)"
| send: "registry_Send again seqID r = (r', msgs) \<Longrightarrow> reg_step st ((r, b), es) ((r', b), es)"
| commit: "Buffer_Apply (run_registry now) b r = Inr (r', b', applied) \<Longrightarrow> reg_step st ((r, b), es) ((r', b'), es)"
| rollback: "Buffer_Cancel (run_registry now) b r = Inr (r', b', canceled) \<Longrightarrow> reg_step st ((r, b), es) ((r', b'), es)"
| clear: "Clear now (r, b) = Inr rb' \<Longrightarrow> reg_step st ((r, b), es) (rb', es)"

lemma constructors_idle:
  "idle_ok (New k cb)" "idle_ok (newAdmitted k req now cb)" "idle_ok (newAccepted k e cb)" "idle_ok (newCompleted k res)"
  by (simp_all add: idle_ok_def New_def newAdmitted_def newAccepted_def newCompleted_def
      NewFuture_def NewReadyFuture_def unset_def)

lemma constructors_fields [simp]:
  "upd_id (New k cb) = k" "onComplete (New k cb) = cb" "upd_state (New k cb) = Created"
  "upd_id (newAdmitted k req now cb) = k" "onComplete (newAdmitted k req now cb) = cb"
  "upd_state (newAdmitted k req now cb) = Admitted"
  "upd_id (newAccepted k e cb) = k" "onComplete (newAccepted k e cb) = cb" "upd_state (newAccepted k e cb) = Accepted"
  by (simp_all add: New_def newAdmitted_def newAccepted_def)

text \<open>Allocating an update and entering it in the map.\<close>

lemma alloc_put_ok:
  assumes "registry_inv (r, b)" "updates r = Some m" "idle_ok u" "alloc u r = (r1, a)"
    and "upd_id u = k" "onComplete u = Some k" "upd_state u \<noteq> Completed"
  shows "\<exists>r2. put_update k a r1 = Inr r2 \<and> registry_inv (r2, b) \<and> updates_map r2 = AList.update k a m \<and>
    updates r2 \<noteq> None \<and> a = length (heap r) \<and> heap r2 = heap r @ [u] \<and> completedCount r2 = completedCount r"
proof -
  note al = alloc_ok [OF assms(1,3,4)]
  then have "entry_ok (heap r1) (k, a)" using assms(5-7) by (simp add: entry_ok_def)
  with put_update_ok [of r1 b k a m] al assms(2) obtain r2 where
    "put_update k a r1 = Inr r2" "registry_inv (r2, b)" "updates_map r2 = AList.update k a m"
    "heap r2 = heap r1" "completedCount r2 = completedCount r1" by auto
  with al assms(2) show ?thesis by (auto simp: put_update_def)
qed

lemma Find_ok:
  assumes "registry_inv (r, b)" "Find getOutcome k r = (r', res)"
  shows "registry_inv (r', b) \<and> updates r' = updates r \<and> completedCount r' = completedCount r"
proof (cases "map_of (updates_map r) k")
  case (Some a)
  with assms show ?thesis by (simp add: Find_def)
next
  case None
  show ?thesis
  proof (cases "getOutcome k")
    case None
    with assms \<open>map_of _ _ = None\<close> show ?thesis by (simp add: Find_def)
  next
    case (Some out)
    obtain r1 a where al: "alloc (newCompleted k out) r = (r1, a)" by (cases "alloc (newCompleted k out) r")
    with assms(2) Some None have "r' = r1" by (simp add: Find_def)
    with alloc_ok [OF assms(1) constructors_idle(4) al] show ?thesis by simp
  qed
qed

lemma FindOrCreate_ok:
  assumes "registry_inv (r, b)" "FindOrCreate lim getOutcome k r = Inr (r', res)"
  shows "registry_inv (r', b)"
proof -
  obtain r1 x where f: "Find getOutcome k r = (r1, x)" by (cases "Find getOutcome k r")
  note f1 = Find_ok [OF assms(1) f]
  obtain r2 a where al: "alloc (New k (Some k)) r1 = (r2, a)" by (cases "alloc (New k (Some k)) r1")
  show ?thesis
  proof (cases "x \<noteq> None \<or> registry_checkLimits lim r1 \<noteq> None")
    case True
    with f f1 assms(2) show ?thesis by (auto simp: FindOrCreate_def split: option.splits)
  next
    case False
    with f al assms(2) have put: "put_update k a r2 = Inr r'"
      by (auto simp: FindOrCreate_def bind_result_Inr_iff)
    then have "updates r2 \<noteq> None" by (auto simp: put_update_def split: option.splits)
    with al obtain m where "updates r1 = Some m" by (auto simp: alloc_def)
    with alloc_put_ok [OF _ this _ al, of b k] f1 constructors_idle(1) put show ?thesis by auto
  qed
qed

lemma TryResurrect_cases:
  assumes "TryResurrect lim marshal now msg r = Inr (r', res)" "r' \<noteq> r"
  shows "\<exists>k req. bind_result (put_update k (snd (alloc (newAdmitted k req now (Some k)) r))
      (fst (alloc (newAdmitted k req now (Some k)) r))) (\<lambda>r. Inr (r, x)) = Inr (r', x)"
proof -
  obtain m where m: "msg = Some m" using assms by (cases msg) (auto simp: TryResurrect_def)
  show ?thesis
    using assms
    by (intro exI [of _ "ProtocolInstanceId m"])
      (auto simp: TryResurrect_def m bind_result_Inr_iff Let_def split: option.splits if_splits prod.splits;
        metis fst_conv snd_conv)
qed

lemma TryResurrect_ok:
  assumes "registry_inv (r, b)" "TryResurrect lim marshal now msg r = Inr (r', res)"
  shows "registry_inv (r', b)"
proof (cases "r' = r")
  case True
  with assms(1) show ?thesis by simp
next
  case False
  from TryResurrect_cases [OF assms(2) False, of "()"] obtain k req r1 a where
    al: "alloc (newAdmitted k req now (Some k)) r = (r1, a)" and put: "put_update k a r1 = Inr r'"
    by (auto simp: bind_result_Inr_iff) (metis prod.collapse)
  from put have "updates r1 \<noteq> None" by (auto simp: put_update_def split: option.splits)
  with al obtain mp where "updates r = Some mp" by (auto simp: alloc_def)
  with alloc_put_ok [OF assms(1) this constructors_idle(2) al] put show ?thesis by auto
qed

lemma registry_inv_onComplete:
  "registry_inv (r, b) \<Longrightarrow> registry_inv (call_onComplete cb r, b)"
  by (auto simp: registry_inv_def callbacks_ok_def call_onComplete_def map_ok_remover split: option.splits)

lemma admit_at_ok:
  assumes "registry_inv (r, b)" "a < length (heap r)"
  shows "\<exists>rb' es' err. admit_at st lim sz marshal req now a (r, b) es = Inr ((rb', es'), err) \<and> registry_inv rb'"
proof -
  let ?res = "Admit st (payloadSizeLimiter lim sz r) marshal req (heap r ! a) es"
  from perform_at_ok [OF assms Admit_op, of now st "payloadSizeLimiter lim sz r" marshal req es] obtain b' where
    "perform_at now Buffer a (Upd ?res) (Registered ?res) (r, b) = Inr (r\<lparr>heap := (heap r)[a := Upd ?res]\<rparr>, b')"
    "registry_inv (r\<lparr>heap := (heap r)[a := Upd ?res]\<rparr>, b')" by blast
  then show ?thesis using registry_inv_onComplete by (auto simp: admit_at_def Let_def)
qed

lemma message_at_ok:
  assumes "registry_inv (r, b)" "a < length (heap r)"
  shows "\<exists>rb' es' err. message_at st msg now a (r, b) es = Inr ((rb', es'), err) \<and> registry_inv rb'"
  using perform_at_ok [OF assms OnProtocolMessage_op, of now st msg es]
  by (auto simp: message_at_def Let_def)

lemma Abort_ok:
  assumes "registry_inv (r, b)"
  shows "\<exists>h. Abort now reason (r, b) = Inr (r\<lparr>heap := h\<rparr>, b) \<and> registry_inv (r\<lparr>heap := h\<rparr>, b) \<and>
    length h = length (heap r) \<and>
    (\<forall>a \<in> snd ` set (updates_map r).
       abort_update now Immediate reason (heap r ! a) (buffer_of a b) = Inr (h ! a, buffer_of a b))"
proof -
  have "map_ok r" using assms by (simp add: registry_inv_def)
  from abort_all_Immediate [OF assms map_addresses [OF this], of now reason] show ?thesis
    by (auto simp: Abort_def)
qed

lemma AbortAccepted_ok:
  assumes "registry_inv (r, b)"
  shows "\<exists>rb'. AbortAccepted now reason (r, b) = Inr rb' \<and> registry_inv rb'"
proof -
  have "map_ok r" using assms by (simp add: registry_inv_def)
  let ?as = "filter (\<lambda>a. Matches (upd_state (heap r ! a)) (stateSet [ProvisionallyAccepted, Accepted]))
    (map snd (updates_map r))"
  have "\<forall>a \<in> set ?as. a < length (heap r)" using map_addresses(2) [OF \<open>map_ok r\<close>] by auto
  from abort_all_Buffer [OF assms this, of now reason] show ?thesis
    unfolding AbortAccepted_def fst_conv by blast
qed

lemma RejectUnprocessed_ok:
  assumes "registry_inv (r, b)"
  shows "\<exists>rb' ids. RejectUnprocessed now (r, b) = Inr (rb', ids) \<and> registry_inv rb'"
proof -
  let ?as = "filter (\<lambda>a. isSent (heap r ! a)) (map snd (updates_map r))"
  have "map_ok r" using assms by (simp add: registry_inv_def)
  from map_addresses [OF this] have "distinct ?as" "\<forall>a \<in> set ?as. a < length (heap r) \<and> isSent (heap r ! a)" by auto
  from reject_all_ok [OF assms this, of now] show ?thesis by (auto simp: RejectUnprocessed_def Let_def)
qed

lemma registry_Send_ok:
  assumes "registry_inv (r, b)"
  shows "registry_inv (fst (registry_Send again seqID r), b)"
proof -
  have "map_ok r" using assms by (simp add: registry_inv_def)
  from map_addresses(2) [OF this] send_all_ok [OF assms] show ?thesis
    by (simp add: registry_Send_def Let_def case_prod_unfold)
qed

lemma Clear_ok:
  assumes "registry_inv (r, b)"
  shows "\<exists>rb'. Clear now (r, b) = Inr rb' \<and> registry_inv rb'"
  using Abort_ok [OF assms, of now RegistryCleared]
  by (auto simp: Clear_def registry_inv_def map_ok_def callbacks_ok_def updates_map_def)

lemma reg_step_inv: "reg_step st c c' \<Longrightarrow> registry_inv (fst c) \<Longrightarrow> registry_inv (fst c')"
proof (induction rule: reg_step.induct)
  case (find lim getOutcome k r r' res b es)
  then show ?case using FindOrCreate_ok by auto
next
  case (resurrect lim marshal now msg r r' res b es)
  then show ?case using TryResurrect_ok by auto
next
  case (admit a r lim sz marshal req now b es c' err)
  then show ?case using admit_at_ok [of r b a st lim sz marshal req now es] by auto
next
  case (message a r msg now b es c' err)
  then show ?case using message_at_ok [of r b a st msg now es] by auto
next
  case (abort_all_now now reason r b rb' es)
  then show ?case using Abort_ok [of r b now reason] by auto
next
  case (abort_accepted now reason r b rb' es)
  then show ?case using AbortAccepted_ok [of r b now reason] by auto
next
  case (unprocessed now r b rb' ids es)
  then show ?case using RejectUnprocessed_ok [of r b now] by auto
next
  case (send again seqID r r' msgs b es)
  then show ?case using registry_Send_ok [of r b again seqID] by auto
next
  case (commit now b r r' b' applied es)
  then show ?case using registry_commit_ok [of r b now] by auto
next
  case (rollback now b r r' b' canceled es)
  then show ?case using registry_rollback_ok [of r b now] by auto
next
  case (clear now r b rb' es)
  then show ?case using Clear_ok [of r b now] by auto
qed

lemma visit_update_ok:
  assumes "registry_inv (r, empty_buffer)" "updates r \<noteq> None"
  shows "\<exists>r'. visit_update now running info r = Inr r' \<and> registry_inv (r', empty_buffer) \<and> updates r' \<noteq> None"
proof -
  obtain m where m: "updates r = Some m" using assms(2) by auto
  obtain k i where info: "info = (k, i)" by (cases info)
  show ?thesis
  proof (cases i)
    case Admission
    obtain r1 a where al: "alloc (newAdmitted k None now (Some k)) r = (r1, a)"
      by (cases "alloc (newAdmitted k None now (Some k)) r")
    from alloc_put_ok [OF assms(1) m constructors_idle(2) al] al info Admission show ?thesis
      by (auto simp: visit_update_def)
  next
    case (Acceptance e)
    obtain r1 a where al: "alloc (newAccepted k e (Some k)) r = (r1, a)"
      by (cases "alloc (newAccepted k e (Some k)) r")
    note al_ok = alloc_ok [OF assms(1) constructors_idle(3) al]
    show ?thesis
    proof (cases running)
      case True
      with alloc_put_ok [OF assms(1) m constructors_idle(3) al] al info Acceptance show ?thesis
        by (auto simp: visit_update_def)
    next
      case False
      have a: "a < length (heap r1)" "heap r1 ! a = newAccepted k e (Some k)" using al_ok by auto
      from abort_at_Immediate [OF _ a(1), of empty_buffer now WorkflowCompleted] al_ok obtain u where
        u: "abort_at now Immediate WorkflowCompleted a (r1, empty_buffer) = Inr (r1\<lparr>heap := (heap r1)[a := u]\<rparr>, empty_buffer)"
        "registry_inv (r1\<lparr>heap := (heap r1)[a := u]\<rparr>, empty_buffer)"
        "abort_update now Immediate WorkflowCompleted (heap r1 ! a) (buffer_of a empty_buffer) = Inr (u, buffer_of a empty_buffer)"
        by auto
      then have "upd_state u = Aborted \<and> upd_id u = k \<and> onComplete u = Some k"
        by (auto simp: a(2) abort_update_def abort_def perform_def run_defs newAccepted_def NewFuture_def)
      with a have "entry_ok (heap (r1\<lparr>heap := (heap r1)[a := u]\<rparr>)) (k, a)" by (simp add: entry_ok_def)
      from put_update_ok [OF u(2) this, of m] al_ok m u(1) al info Acceptance False show ?thesis
        by (auto simp: visit_update_def put_update_def)
    qed
  next
    case Completion
    with assms info show ?thesis
      by (auto simp: visit_update_def registry_inv_def map_ok_def callbacks_ok_def updates_map_def)
  next
    case NoInfo
    with assms info show ?thesis by (simp add: visit_update_def)
  qed
qed

lemma NewRegistry_ok:
  "\<exists>r. NewRegistry now version running infos = Inr r \<and> registry_inv (r, empty_buffer) \<and> updates r \<noteq> None"
proof -
  have "\<exists>r'. run_all (visit_update now running) infos r = Inr r' \<and> registry_inv (r', empty_buffer) \<and> updates r' \<noteq> None"
    if "registry_inv (r, empty_buffer)" "updates r \<noteq> None" for r
    using that
  proof (induction infos arbitrary: r)
    case (Cons info infos)
    from visit_update_ok [OF Cons.prems, of now running info] Cons.IH show ?case by auto
  qed simp
  then show ?thesis
    by (simp add: NewRegistry_def registry_inv_def map_ok_def callbacks_ok_def updates_map_def empty_buffer_def)
qed

section \<open>Commit and rollback of the registry\<close>

lemma registry_reachable_inv:
  assumes "NewRegistry now0 version running infos = Inr r0"
    and "(reg_step st)\<^sup>*\<^sup>* ((r0, empty_buffer), es0) c"
  shows "registry_inv (fst c)"
  using assms(2)
proof (induction rule: rtranclp_induct)
  case base
  obtain r where "NewRegistry now0 version running infos = Inr r" "registry_inv (r, empty_buffer)"
    using NewRegistry_ok by blast
  with assms(1) show ?case by simp
next
  case (step c c')
  then show ?case using reg_step_inv by blast
qed

text \<open>
  C10. Whatever the registry, its updates and their callers did since it was built, neither committing
  nor rolling back the buffered effects of all its updates panics; afterwards every update object is
  in a state that is not provisional with matching futures, and the map holds no completed update.
\<close>

theorem registry_commit_settles:
  assumes "NewRegistry now0 version running infos = Inr r0"
    and "(reg_step st)\<^sup>*\<^sup>* ((r0, empty_buffer), es0) ((r, b), es)"
    and "finish = Buffer_Apply (run_registry now) b r \<or> finish = Buffer_Cancel (run_registry now) b r"
  shows "\<exists>r' any. finish = Inr (r', empty_buffer, any) \<and> (\<forall>u \<in> set (heap r'). idle_ok u) \<and>
    (\<forall>(k, a) \<in> set (updates_map r'). upd_id (heap r' ! a) = k \<and> upd_state (heap r' ! a) \<noteq> Completed)"
proof -
  have inv: "registry_inv (r, b)" using registry_reachable_inv [OF assms(1,2)] by simp
  obtain r' any where "finish = Inr (r', empty_buffer, any)" "registry_inv (r', empty_buffer)" "\<forall>u \<in> set (heap r'). idle_ok u"
    using registry_commit_ok [OF inv, of now] registry_rollback_ok [OF inv, of now] assms(3) by auto
  then show ?thesis by (auto simp: registry_inv_def map_ok_def entry_ok_def)
qed

definition sample_registry :: registry where
  "sample_registry = \<lparr>heap = [newAdmitted ''u'' None 9 (Some ''u''), newAccepted ''v'' 5 (Some ''v'')],
     updates = Some [(''u'', 0), (''v'', 1)], completedCount = 1, failoverVersion = 3\<rparr>"

lemma sample_registry_new:
  "NewRegistry 9 3 True [(''u'', Admission), (''w'', Completion), (''v'', Acceptance 5)] = Inr sample_registry"
  by (simp add: NewRegistry_def visit_update_def alloc_def put_update_def sample_registry_def)

definition sample_message_result :: "registry \<times> registry_buffer" where
  "sample_message_result =
     (sample_registry\<lparr>heap := [newAdmitted ''u'' None 9 (Some ''u''),
        (newAccepted ''v'' 5 (Some ''v''))\<lparr>upd_state := ProvisionallyCompleted\<rparr>]\<rparr>,
      \<lparr>effects = [(1, ResponseCommit (Some (OutcomeSuccess ''x'')))], cancels = [(1, ResponseRollback Accepted)]\<rparr>)"

lemma sample_message_step:
  "reg_step sample_store ((sample_registry, empty_buffer), 7) (sample_message_result, 8)"
  by (rule reg_step.message [where a = 1 and now = 0 and err = None and msg = "Some \<lparr>ProtocolInstanceId = ''v'',
        Body = Some (ResponseBody \<lparr>ResMetaUpdateId = Some ''v'', Outcome = Some (OutcomeSuccess ''x'')\<rparr>)\<rparr>"])
    (simp_all add: sample_registry_def sample_message_result_def message_at_def OnProtocolMessage_def onResponseMsg_def
      checkStateSet_def validateResponseMsg_def get_string_def sample_store_def perform_at_def newAccepted_def empty_buffer_def)

theorem registry_commit_settles_witness:
  "\<exists>r' any. Buffer_Apply (run_registry 0) (snd sample_message_result) (fst sample_message_result) = Inr (r', empty_buffer, any) \<and>
    (\<forall>u \<in> set (heap r'). idle_ok u)"
proof -
  have "(reg_step sample_store)\<^sup>*\<^sup>* ((sample_registry, empty_buffer), 7)
      ((fst sample_message_result, snd sample_message_result), 8)"
    using r_into_rtranclp [of "reg_step sample_store", OF sample_message_step] by simp
  from registry_commit_settles [OF sample_registry_new this disjI1 [OF refl], of 0] show ?thesis by blast
qed

section \<open>Finding and creating\<close>

text \<open>
  C31. An update ID is deduplicated: after \<open>FindOrCreate\<close> has returned an update that is not in the
  store, it finds the same update again and changes nothing; it creates one only within the limits
  on updates in flight and in total.
\<close>

theorem FindOrCreate_deduplicates:
  assumes "FindOrCreate lim getOutcome k r = Inr (r', Inr (a, existed))" "getOutcome k = None"
  shows "FindOrCreate lim' getOutcome k r' = Inr (r', Inr (a, True)) \<and>
    (if existed then r' = r
     else upd_state (heap r' ! a) = Created \<and> registry_Len r' = registry_Len r + 1 \<and>
       (maxInFlightUpdateCount lim = 0 \<or> registry_Len r' \<le> maxInFlightUpdateCount lim) \<and>
       (maxTotal lim = 0 \<or> registry_Len r' + completedCount r' \<le> maxTotal lim))"
proof (cases "map_of (updates_map r) k")
  case (Some x)
  with assms show ?thesis by (auto simp: FindOrCreate_def Find_def)
next
  case None
  with assms have lim: "registry_checkLimits lim r = None" and ex: "\<not> existed"
    and put: "put_update k a (r\<lparr>heap := heap r @ [New k (Some k)]\<rparr>) = Inr r'" and a: "a = length (heap r)"
    by (auto simp: FindOrCreate_def Find_def alloc_def bind_result_Inr_iff split: option.splits)
  from put obtain m where m: "updates r = Some m" "r' = r\<lparr>heap := heap r @ [New k (Some k)], updates := Some (AList.update k a m)\<rparr>"
    by (auto simp: put_update_def split: option.splits)
  have "AList.update k a m = m @ [(k, a)]"
    using None m(1) by (intro update_fresh) (auto simp: updates_map_def map_of_eq_None_iff)
  with m None lim ex a show ?thesis
    by (auto simp: FindOrCreate_def Find_def updates_map_def registry_Len_def registry_checkLimits_def
        checkInFlightLimit_def checkTotalLimit_def inFlightCount_def Let_def map_add_def split: option.splits if_splits)
qed

theorem FindOrCreate_deduplicates_witness:
  "\<exists>r'. FindOrCreate \<lparr>maxTotal = 9, maxInFlightUpdateCount = 3, maxInFlightUpdateSize = 0, maxTotalSuggestContinueAsNew = 0\<rparr>
      (\<lambda>k. None) ''x'' sample_registry = Inr (r', Inr (2, False)) \<and>
    FindOrCreate \<lparr>maxTotal = 1, maxInFlightUpdateCount = 1, maxInFlightUpdateSize = 0, maxTotalSuggestContinueAsNew = 0\<rparr>
      (\<lambda>k. None) ''x'' r' = Inr (r', Inr (2, True))"
proof -
  let ?lim = "\<lparr>maxTotal = 9, maxInFlightUpdateCount = 3, maxInFlightUpdateSize = 0, maxTotalSuggestContinueAsNew = 0\<rparr>"
  obtain r' where "FindOrCreate ?lim (\<lambda>k. None) ''x'' sample_registry = Inr (r', Inr (2, False))"
    by (simp add: FindOrCreate_def Find_def updates_map_def sample_registry_def alloc_def put_update_def
        registry_checkLimits_def checkInFlightLimit_def checkTotalLimit_def inFlightCount_def)
  with FindOrCreate_deduplicates [OF this] show ?thesis by blast
qed

section \<open>Sending\<close>

definition message_of :: "int \<Rightarrow> workflow_update \<Rightarrow> outgoing_message" where
  "message_of seqID u = \<lparr>OutInstanceId = upd_id u, OutId = outgoingMessageID u, OutSequencingId = seqID,
     OutBody = the (upd_request u)\<rparr>"

definition sent :: "workflow_update \<Rightarrow> workflow_update" where
  "sent u = (if upd_state u = Admitted then u\<lparr>upd_state := Sent\<rparr> else u)"

lemma Send_eq:
  "Send again seqID u = (sent u,
     if needToSend u again \<and> upd_request u \<noteq> None then Some (message_of seqID u) else None)"
  by (auto simp: Send_def Let_def sent_def needToSend_def message_of_def outgoingMessageID_def split: option.splits)

lemma send_all_eq:
  assumes "distinct as" "\<forall>a \<in> set as. a < length h"
  shows "snd (send_all again seqID as h) =
      map (\<lambda>a. message_of seqID (h ! a)) (filter (\<lambda>a. needToSend (h ! a) again \<and> upd_request (h ! a) \<noteq> None) as) \<and>
    length (fst (send_all again seqID as h)) = length h \<and>
    (\<forall>x < length h. fst (send_all again seqID as h) ! x = (if x \<in> set as then sent (h ! x) else h ! x))"
  using assms
proof (induction as arbitrary: h)
  case (Cons a as)
  have "map (\<lambda>x. message_of seqID (h[a := sent (h ! a)] ! x))
      (filter (\<lambda>x. needToSend (h[a := sent (h ! a)] ! x) again \<and> upd_request (h[a := sent (h ! a)] ! x) \<noteq> None) as) =
    map (\<lambda>x. message_of seqID (h ! x)) (filter (\<lambda>x. needToSend (h ! x) again \<and> upd_request (h ! x) \<noteq> None) as)"
    using Cons.prems by (auto intro!: map_cong filter_cong simp: nth_list_update)
  with Cons.IH [of "h[a := sent (h ! a)]"] Cons.prems show ?case
    by (auto simp: Send_eq case_prod_unfold Let_def nth_list_update)
qed simp

text \<open>
  Sending produces one message for each update of the registry that is admitted (or sent, when
  sent updates are included) and has a request, in the order of admission; every admitted update
  becomes sent, no other update changes, and nothing is left to send.
\<close>

theorem registry_Send_in_admission_order:
  assumes "map_ok r" "registry_Send again startedEventID r = (r', msgs)"
  shows "(\<exists>as. mset as = mset (filter (\<lambda>a. needToSend (heap r ! a) again \<and> upd_request (heap r ! a) \<noteq> None)
             (map snd (updates_map r))) \<and>
         sorted (map (\<lambda>a. admittedTime (heap r ! a)) as) \<and>
         msgs = map (\<lambda>a. message_of (i64 (startedEventID - 1)) (heap r ! a)) as) \<and>
    (\<forall>x < length (heap r). heap r' ! x = (if x \<in> snd ` set (updates_map r) then sent (heap r ! x) else heap r ! x)) \<and>
    \<not> HasOutgoingMessages False r'"
proof -
  let ?as = "sort_key (\<lambda>a. admittedTime (heap r ! a)) (map snd (updates_map r))"
  have as: "distinct ?as" "\<forall>a \<in> set ?as. a < length (heap r)" using map_addresses [OF assms(1)] by auto
  note all = send_all_eq [OF as, of again "i64 (startedEventID - 1)"]
  have r': "heap r' = fst (send_all again (i64 (startedEventID - 1)) ?as (heap r))"
    "msgs = snd (send_all again (i64 (startedEventID - 1)) ?as (heap r))" "updates_map r' = updates_map r"
    using assms(2) by (auto simp: registry_Send_def Let_def case_prod_unfold updates_map_def)
  let ?fs = "filter (\<lambda>a. needToSend (heap r ! a) again \<and> upd_request (heap r ! a) \<noteq> None) ?as"
  have "mset ?fs = mset (filter (\<lambda>a. needToSend (heap r ! a) again \<and> upd_request (heap r ! a) \<noteq> None)
      (map snd (updates_map r)))" by (simp only: mset_filter mset_sort)
  moreover have "sorted (map (\<lambda>a. admittedTime (heap r ! a)) ?fs)"
    by (rule sorted_filter) (rule sorted_sort_key)
  moreover have heap': "\<forall>x < length (heap r). heap r' ! x =
      (if x \<in> snd ` set (updates_map r) then sent (heap r ! x) else heap r ! x)" using all r'(1) by simp
  moreover have "\<not> HasOutgoingMessages False r'"
  proof -
    have "\<not> needToSend (heap r' ! a) False" if "(k, a) \<in> set (updates_map r)" for k a
    proof -
      have "a < length (heap r)" using that assms(1) by (auto simp: map_ok_def entry_ok_def)
      moreover have "a \<in> snd ` set (updates_map r)" using that by force
      ultimately show ?thesis using heap' by (auto simp: needToSend_def sent_def)
    qed
    then show ?thesis by (auto simp: HasOutgoingMessages_def r'(3) list_ex_iff)
  qed
  ultimately show ?thesis using all r'(2) by blast
qed

definition sample_queue :: registry where
  "sample_queue = \<lparr>heap = [newAdmitted ''a'' (Some \<lparr>ReqMetaUpdateId = Some ''a'', ReqInputName = Some ''n''\<rparr>) 9 (Some ''a''),
       newAdmitted ''b'' (Some \<lparr>ReqMetaUpdateId = Some ''b'', ReqInputName = Some ''n''\<rparr>) 4 (Some ''b'')],
     updates = Some [(''a'', 0), (''b'', 1)], completedCount = 0, failoverVersion = 1\<rparr>"

theorem registry_Send_in_admission_order_witness:
  "\<exists>as. mset as = {#0, 1#} \<and> sorted (map (\<lambda>a. admittedTime (heap sample_queue ! a)) as) \<and>
     snd (registry_Send False 6 sample_queue) = map (\<lambda>a. message_of 5 (heap sample_queue ! a)) as"
proof -
  have "map_ok sample_queue"
    by (simp add: map_ok_def sample_queue_def updates_map_def entry_ok_def)
  moreover have "filter (\<lambda>a. needToSend (heap sample_queue ! a) False \<and> upd_request (heap sample_queue ! a) \<noteq> None)
      (map snd (updates_map sample_queue)) = [0, 1]"
    by (simp add: sample_queue_def updates_map_def needToSend_def newAdmitted_def)
  moreover have "i64 (6 - 1) = 5" by (simp add: i64_def)
  ultimately show ?thesis
    using registry_Send_in_admission_order [of sample_queue False 6 "fst (registry_Send False 6 sample_queue)"
        "snd (registry_Send False 6 sample_queue)"] by simp
qed

section \<open>Clearing\<close>

lemma run_effect_state:
  assumes "run_effect now e u = Inr (u', c)"
  shows "upd_state u' = upd_state (fst (effect_body now e u))"
proof -
  obtain u1 ws d where body: "effect_body now e u = (u1, ws, d)" by (cases "effect_body now e u")
  with assms have "run_all write_future ws u1 = Inr u'" by (auto simp: run_effect_def bind_result_Inr_iff)
  with writes_frame body show ?thesis by force
qed

lemma abort_cleared:
  assumes "upd_state u \<in> {Created, Admitted, Sent, Accepted}"
    and "abort_update now Immediate RegistryCleared u b = Inr (u', b')"
  shows "upd_state u' = Aborted"
proof -
  have "run_update now (AbortCommit None (Some RegistryClearedErr) (upd_state u)) (u\<lparr>upd_state := ProvisionallyAborted\<rparr>) = Inr u'"
    using assms by (auto simp: abort_update_def abort_def perform_def bind_result_Inr_iff)
  then obtain c where "run_effect now (AbortCommit None (Some RegistryClearedErr) (upd_state u))
      (u\<lparr>upd_state := ProvisionallyAborted\<rparr>) = Inr (u', c)"
    by (auto simp: run_update_def bind_result_Inr_iff)
  from run_effect_state [OF this] show ?thesis by simp
qed



end
