(* ===== verification/VersionHistory.thy ===== *)
theory VersionHistory
  imports Prelude "HOL-Library.Signed_Division"
begin

text \<open>
  Version histories of workflow branches: \<open>common/persistence/versionhistory\<close>. An item \<open>(e, v)\<close>
  says that the events after the previous item up to event \<open>e\<close> were written at failover version
  \<open>v\<close>. Errors and panics are values of \<open>history_error\<close>; an operation that updates its argument in
  place returns the updated value. Event IDs and versions are \<open>int64\<close> and are only compared.
\<close>

section \<open>Items\<close>

record history_item =
  EventId :: int
  Version :: int

datatype history_error =
    InvalidItemPanic
  | NilItemPanic
  | NotInitializedPanic
  | DivideByZeroPanic
  | LowerVersion int int
  | LowerEventID int int
  | NoJoinPoint
  | LCAItemNotFound
  | EmptyVersionHistory
  | EventIDNotInRange int
  | IndexOutOfRange
  | InvalidCurrentIndex
  | FirstItemMismatch
  | NotContained

definition FirstEventID :: int where
  "FirstEventID = 1"

definition NewVersionHistoryItem :: "int \<Rightarrow> int \<Rightarrow> history_error + history_item" where
  "NewVersionHistoryItem eventID version =
     (if eventID < 0 \<or> version < 0 then Inl InvalidItemPanic
      else Inr \<lparr>EventId = eventID, Version = version\<rparr>)"

definition CopyVersionHistoryItem :: "history_item \<Rightarrow> history_error + history_item" where
  "CopyVersionHistoryItem item = NewVersionHistoryItem (EventId item) (Version item)"

definition IsEqualVersionHistoryItem :: "history_item \<Rightarrow> history_item \<Rightarrow> bool" where
  "IsEqualVersionHistoryItem item1 item2 \<longleftrightarrow>
     EventId item1 = EventId item2 \<and> Version item1 = Version item2"

definition IsEqualVersionHistoryItems :: "history_item list \<Rightarrow> history_item list \<Rightarrow> bool" where
  "IsEqualVersionHistoryItems items1 items2 \<longleftrightarrow>
     length items1 = length items2 \<and>
     list_all (\<lambda>(i, j). IsEqualVersionHistoryItem i j) (zip items1 items2)"

definition CompareVersionHistoryItem :: "history_item \<Rightarrow> history_item \<Rightarrow> int" where
  "CompareVersionHistoryItem item1 item2 =
     (if Version item1 < Version item2 then -1
      else if Version item1 > Version item2 then 1
      else if EventId item1 < EventId item2 then -1
      else if EventId item1 > EventId item2 then 1
      else 0)"

section \<open>One version history\<close>

record version_history =
  BranchToken :: "int list"
  Items :: "history_item list"

definition NewVersionHistory :: "int list \<Rightarrow> history_item list \<Rightarrow> version_history" where
  "NewVersionHistory branchToken items = \<lparr>BranchToken = branchToken, Items = items\<rparr>"

fun CopyVersionHistoryItems :: "history_item list \<Rightarrow> history_error + history_item list" where
  "CopyVersionHistoryItems [] = Inr []"
| "CopyVersionHistoryItems (item # items) =
     bind_result (CopyVersionHistoryItem item) (\<lambda>i.
     bind_result (CopyVersionHistoryItems items) (\<lambda>is. Inr (i # is)))"

definition CopyVersionHistory :: "version_history \<Rightarrow> history_error + version_history" where
  "CopyVersionHistory v =
     bind_result (CopyVersionHistoryItems (Items v)) (\<lambda>items. Inr (NewVersionHistory (BranchToken v) items))"

definition AddOrUpdateVersionHistoryItem ::
    "version_history \<Rightarrow> history_item \<Rightarrow> history_error + version_history" where
  "AddOrUpdateVersionHistoryItem v item =
     (if Items v = [] then
        bind_result (CopyVersionHistoryItem item) (\<lambda>i. Inr (v\<lparr>Items := [i]\<rparr>))
      else
        let lastItem = last (Items v)
        in if Version item < Version lastItem then Inl (LowerVersion (Version item) (Version lastItem))
           else if EventId item \<le> EventId lastItem then Inl (LowerEventID (EventId item) (EventId lastItem))
           else if Version item > Version lastItem then
             bind_result (CopyVersionHistoryItem item) (\<lambda>i. Inr (v\<lparr>Items := Items v @ [i]\<rparr>))
           else Inr (v\<lparr>Items := butlast (Items v) @ [lastItem\<lparr>EventId := EventId item\<rparr>]\<rparr>))"

fun copy_until_loop ::
    "version_history \<Rightarrow> history_item \<Rightarrow> history_item list \<Rightarrow> history_error + version_history" where
  "copy_until_loop acc lcaItem [] = Inl LCAItemNotFound"
| "copy_until_loop acc lcaItem (item # items) =
     (if Version item < Version lcaItem then
        bind_result (AddOrUpdateVersionHistoryItem acc item) (\<lambda>acc'. copy_until_loop acc' lcaItem items)
      else if Version item = Version lcaItem then
        (if EventId lcaItem > EventId item then Inl LCAItemNotFound
         else AddOrUpdateVersionHistoryItem acc lcaItem)
      else Inl LCAItemNotFound)"

definition CopyVersionHistoryUntilLCAVersionHistoryItem ::
    "version_history \<Rightarrow> history_item \<Rightarrow> history_error + version_history" where
  "CopyVersionHistoryUntilLCAVersionHistoryItem v lcaItem =
     copy_until_loop (NewVersionHistory [] []) lcaItem (Items v)"

definition SetVersionHistoryBranchToken :: "version_history \<Rightarrow> int list \<Rightarrow> version_history" where
  "SetVersionHistoryBranchToken v branchToken = v\<lparr>BranchToken := branchToken\<rparr>"

fun contains_loop :: "int \<Rightarrow> history_item \<Rightarrow> history_item list \<Rightarrow> bool" where
  "contains_loop prevEventID item [] = False"
| "contains_loop prevEventID item (currentItem # items) =
     (if Version item = Version currentItem \<and> prevEventID < EventId item \<and> EventId item \<le> EventId currentItem
      then True
      else if Version item < Version currentItem then False
      else contains_loop (EventId currentItem) item items)"

definition ContainsVersionHistoryItem :: "version_history \<Rightarrow> history_item \<Rightarrow> bool" where
  "ContainsVersionHistoryItem v item = contains_loop (FirstEventID - 1) item (Items v)"

text \<open>The two index variables count down; the remaining prefixes are kept reversed.\<close>

fun lca_loop :: "history_item list \<Rightarrow> history_item list \<Rightarrow> history_error + history_item" where
  "lca_loop (a # as) (b # bs) =
     (if Version a = Version b then
        (if EventId a > EventId b then CopyVersionHistoryItem b else Inr a)
      else if Version a > Version b then lca_loop as (b # bs)
      else lca_loop (a # as) bs)"
| "lca_loop [] bs = Inl NoJoinPoint"
| "lca_loop as [] = Inl NoJoinPoint"

definition FindLCAVersionHistoryItemFromItemSlice ::
    "history_item list \<Rightarrow> history_item list \<Rightarrow> history_error + history_item" where
  "FindLCAVersionHistoryItemFromItemSlice itemsA itemsB = lca_loop (rev itemsA) (rev itemsB)"

definition FindLCAVersionHistoryItem ::
    "version_history \<Rightarrow> version_history \<Rightarrow> history_error + history_item" where
  "FindLCAVersionHistoryItem v remote = FindLCAVersionHistoryItemFromItemSlice (Items v) (Items remote)"

text \<open>
  The best candidate so far: the item, the index of its history and that history's length.
  The zero values before the first candidate are \<open>None\<close>, for a nil item.
\<close>

fun lca_index_loop ::
    "history_item list \<Rightarrow> nat \<Rightarrow> (history_item \<times> nat \<times> nat) option \<Rightarrow> history_item list list \<Rightarrow>
     history_error + (history_item \<times> nat \<times> nat) option" where
  "lca_index_loop itemsB index best [] = Inr best"
| "lca_index_loop itemsB index best (localHistory # rest) =
     bind_result (FindLCAVersionHistoryItemFromItemSlice localHistory itemsB) (\<lambda>item.
       lca_index_loop itemsB (Suc index)
         (case best of
            None \<Rightarrow> Some (item, index, length localHistory)
          | Some (bestItem, bestIndex, bestLength) \<Rightarrow>
              if EventId item > EventId bestItem \<or>
                 (EventId item = EventId bestItem \<and> length localHistory < bestLength)
              then Some (item, index, length localHistory) else best)
         rest)"

definition FindLCAVersionHistoryItemFromItems ::
    "history_item list list \<Rightarrow> history_item list \<Rightarrow> history_error + history_item \<times> nat" where
  "FindLCAVersionHistoryItemFromItems itemsA itemsB =
     bind_result (lca_index_loop itemsB 0 None itemsA) (\<lambda>best.
       case best of
         None \<Rightarrow> Inl NilItemPanic
       | Some (item, index, _) \<Rightarrow> bind_result (CopyVersionHistoryItem item) (\<lambda>i. Inr (i, index)))"

definition getLastVersionHistoryItem :: "history_item list \<Rightarrow> history_error + history_item" where
  "getLastVersionHistoryItem v = (if v = [] then Inl EmptyVersionHistory else CopyVersionHistoryItem (last v))"

definition GetLastVersionHistoryItem :: "version_history \<Rightarrow> history_error + history_item" where
  "GetLastVersionHistoryItem v = getLastVersionHistoryItem (Items v)"

definition GetFirstVersionHistoryItem :: "version_history \<Rightarrow> history_error + history_item" where
  "GetFirstVersionHistoryItem v =
     (if Items v = [] then Inl EmptyVersionHistory else CopyVersionHistoryItem (hd (Items v)))"

definition IsVersionHistoryItemsInSameBranch :: "history_item list \<Rightarrow> history_item list \<Rightarrow> bool" where
  "IsVersionHistoryItemsInSameBranch itemsA itemsB =
     (case FindLCAVersionHistoryItemFromItemSlice itemsA itemsB of
        Inl _ \<Rightarrow> False
      | Inr lca \<Rightarrow>
          (case getLastVersionHistoryItem itemsA of
             Inl _ \<Rightarrow> False
           | Inr aLastItem \<Rightarrow>
               (case getLastVersionHistoryItem itemsB of
                  Inl _ \<Rightarrow> False
                | Inr bLastItem \<Rightarrow> lca = aLastItem \<or> lca = bLastItem)))"

text \<open>The items up to the last locally generated one, and the rest; \<open>smod\<close> is Go's \<open>%\<close>.\<close>

fun split_local_loop ::
    "int \<Rightarrow> int \<Rightarrow> history_item list \<Rightarrow> history_item list \<Rightarrow> history_item list \<times> history_item list" where
  "split_local_loop initialVersion increment [] remote = ([], remote)"
| "split_local_loop initialVersion increment (item # earlier) remote =
     (if Version item smod increment = initialVersion then (rev (item # earlier), remote)
      else split_local_loop initialVersion increment earlier (item # remote))"

definition SplitVersionHistoryByLastLocalGeneratedItem ::
    "history_item list \<Rightarrow> int \<Rightarrow> int \<Rightarrow> history_error + history_item list \<times> history_item list" where
  "SplitVersionHistoryByLastLocalGeneratedItem items initialFailoverVersion failoverVersionIncrement =
     (if items \<noteq> [] \<and> failoverVersionIncrement = 0 then Inl DivideByZeroPanic
      else Inr (split_local_loop initialFailoverVersion failoverVersionIncrement (rev items) []))"

definition IsLCAVersionHistoryItemAppendable ::
    "version_history \<Rightarrow> history_item option \<Rightarrow> history_error + bool" where
  "IsLCAVersionHistoryItemAppendable v lcaItem =
     (if Items v = [] then Inl NotInitializedPanic
      else case lcaItem of
        None \<Rightarrow> Inl NilItemPanic
      | Some lca \<Rightarrow> Inr (IsEqualVersionHistoryItem (last (Items v)) lca))"

fun event_version_loop :: "int \<Rightarrow> history_item list \<Rightarrow> history_error + int" where
  "event_version_loop eventID [] = Inl (EventIDNotInRange eventID)"
| "event_version_loop eventID (currentItem # items) =
     (if eventID \<le> EventId currentItem then Inr (Version currentItem) else event_version_loop eventID items)"

definition GetVersionHistoryEventVersion :: "version_history \<Rightarrow> int \<Rightarrow> history_error + int" where
  "GetVersionHistoryEventVersion v eventID =
     bind_result (GetLastVersionHistoryItem v) (\<lambda>lastItem.
       if eventID < FirstEventID \<or> eventID > EventId lastItem then Inl (EventIDNotInRange eventID)
       else event_version_loop eventID (Items v))"

definition IsEmptyVersionHistory :: "version_history \<Rightarrow> bool" where
  "IsEmptyVersionHistory v \<longleftrightarrow> length (Items v) = 0"

definition CompareVersionHistory :: "version_history \<Rightarrow> version_history \<Rightarrow> history_error + int" where
  "CompareVersionHistory v1 v2 =
     bind_result (GetLastVersionHistoryItem v1) (\<lambda>lastItem1.
     bind_result (GetLastVersionHistoryItem v2) (\<lambda>lastItem2.
       Inr (CompareVersionHistoryItem lastItem1 lastItem2)))"

section \<open>The histories of all branches\<close>

text \<open>Indices are \<open>int32\<close>; a history has far fewer than \<open>2 ^ 31\<close> branches.\<close>

record version_histories =
  CurrentVersionHistoryIndex :: int
  Histories :: "version_history list"

definition NewVersionHistories :: "version_history \<Rightarrow> version_histories" where
  "NewVersionHistories v = \<lparr>CurrentVersionHistoryIndex = 0, Histories = [v]\<rparr>"

fun copy_histories :: "version_history list \<Rightarrow> history_error + version_history list" where
  "copy_histories [] = Inr []"
| "copy_histories (v # vs) =
     bind_result (CopyVersionHistory v) (\<lambda>c. bind_result (copy_histories vs) (\<lambda>cs. Inr (c # cs)))"

definition CopyVersionHistories :: "version_histories \<Rightarrow> history_error + version_histories" where
  "CopyVersionHistories h = bind_result (copy_histories (Histories h)) (\<lambda>hs. Inr (h\<lparr>Histories := hs\<rparr>))"

definition GetVersionHistory :: "version_histories \<Rightarrow> int \<Rightarrow> history_error + version_history" where
  "GetVersionHistory h index =
     (if index < 0 \<or> index \<ge> int (length (Histories h)) then Inl IndexOutOfRange
      else Inr (Histories h ! nat index))"

fun find_empty :: "nat \<Rightarrow> version_history list \<Rightarrow> nat option" where
  "find_empty i [] = None"
| "find_empty i (v # vs) = (if IsEmptyVersionHistory v then Some i else find_empty (Suc i) vs)"

definition AddEmptyVersionHistory :: "version_histories \<Rightarrow> version_histories \<times> int" where
  "AddEmptyVersionHistory h =
     (case find_empty 0 (Histories h) of
        Some idx \<Rightarrow> (h, int idx)
      | None \<Rightarrow> (h\<lparr>Histories := Histories h @ [NewVersionHistory [] []]\<rparr>, int (length (Histories h))))"

definition AddVersionHistory ::
    "version_histories \<Rightarrow> version_history \<Rightarrow> history_error + version_histories \<times> int" where
  "AddVersionHistory h v =
     bind_result (GetFirstVersionHistoryItem v) (\<lambda>incomingFirstItem.
     bind_result (GetVersionHistory h (CurrentVersionHistoryIndex h)) (\<lambda>current.
     bind_result (GetFirstVersionHistoryItem current) (\<lambda>currentFirstItem.
       if Version incomingFirstItem \<noteq> Version currentFirstItem then Inl FirstItemMismatch
       else bind_result (CopyVersionHistory v) (\<lambda>c.
         Inr (h\<lparr>Histories := Histories h @ [c]\<rparr>, int (length (Histories h)))))))"

definition AddAndSwitchVersionHistory ::
    "version_histories \<Rightarrow> version_history \<Rightarrow> history_error + version_histories \<times> bool \<times> int" where
  "AddAndSwitchVersionHistory h v =
     bind_result (AddVersionHistory h v) (\<lambda>(h, newIndex).
     bind_result (GetLastVersionHistoryItem v) (\<lambda>newLastItem.
     bind_result (GetVersionHistory h (CurrentVersionHistoryIndex h)) (\<lambda>current.
     bind_result (GetLastVersionHistoryItem current) (\<lambda>currentLastItem.
       if Version newLastItem > Version currentLastItem
       then Inr (h\<lparr>CurrentVersionHistoryIndex := newIndex\<rparr>, True, newIndex)
       else Inr (h, False, newIndex)))))"

definition FindLCAVersionHistoryItemAndIndex ::
    "version_histories \<Rightarrow> version_history \<Rightarrow> history_error + history_item \<times> nat" where
  "FindLCAVersionHistoryItemAndIndex h incomingHistory =
     bind_result (lca_index_loop (Items incomingHistory) 0 None (map Items (Histories h))) (\<lambda>best.
       case best of
         None \<Rightarrow> Inl NilItemPanic
       | Some (item, index, _) \<Rightarrow> bind_result (CopyVersionHistoryItem item) (\<lambda>i. Inr (i, index)))"

fun find_containing :: "history_item \<Rightarrow> nat \<Rightarrow> version_history list \<Rightarrow> history_error + nat" where
  "find_containing item i [] = Inl NotContained"
| "find_containing item i (v # vs) =
     (if ContainsVersionHistoryItem v item then Inr i else find_containing item (Suc i) vs)"

definition FindFirstVersionHistoryIndexByVersionHistoryItem ::
    "version_histories \<Rightarrow> history_item \<Rightarrow> history_error + nat" where
  "FindFirstVersionHistoryIndexByVersionHistoryItem h item = find_containing item 0 (Histories h)"

definition SetCurrentVersionHistoryIndex :: "version_histories \<Rightarrow> int \<Rightarrow> history_error + version_histories" where
  "SetCurrentVersionHistoryIndex h index =
     (if index < 0 \<or> index \<ge> int (length (Histories h)) then Inl InvalidCurrentIndex
      else Inr (h\<lparr>CurrentVersionHistoryIndex := index\<rparr>))"

definition GetCurrentVersionHistory :: "version_histories \<Rightarrow> history_error + version_history" where
  "GetCurrentVersionHistory h = GetVersionHistory h (CurrentVersionHistoryIndex h)"

definition IsCurrentVersionHistoryEmpty :: "version_histories \<Rightarrow> history_error + bool" where
  "IsCurrentVersionHistoryEmpty h =
     bind_result (GetCurrentVersionHistory h) (\<lambda>v. Inr (IsEmptyVersionHistory v))"

section \<open>Valid histories and the items they contain\<close>

definition valid_items :: "history_item list \<Rightarrow> bool" where
  "valid_items items \<longleftrightarrow>
     sorted_wrt (\<lambda>i j. EventId i < EventId j \<and> Version i < Version j) items \<and>
     list_all (\<lambda>i. FirstEventID \<le> EventId i \<and> 0 \<le> Version i) items"

definition last_id :: "int \<Rightarrow> history_item list \<Rightarrow> int" where
  "last_id p items = (if items = [] then p else EventId (last items))"

lemma valid_items_simps [simp]:
  "valid_items []"
  "valid_items (i # items) \<longleftrightarrow> FirstEventID \<le> EventId i \<and> 0 \<le> Version i \<and> valid_items items \<and>
     (\<forall>j \<in> set items. EventId i < EventId j \<and> Version i < Version j)"
  "valid_items (xs @ ys) \<longleftrightarrow> valid_items xs \<and> valid_items ys \<and>
     (\<forall>i \<in> set xs. \<forall>j \<in> set ys. EventId i < EventId j \<and> Version i < Version j)"
  by (auto simp: valid_items_def sorted_wrt_append)

lemma last_id_simps [simp]:
  "last_id p [] = p" "last_id p (i # items) = last_id (EventId i) items"
  "last_id p (xs @ ys) = last_id (last_id p xs) ys"
  by (auto simp: last_id_def)

lemma last_id_mem: "last_id p xs = p \<or> (\<exists>i \<in> set xs. last_id p xs = EventId i)"
  by (auto simp: last_id_def)

lemma Copy_item_ok [simp]:
  "0 \<le> EventId i \<Longrightarrow> 0 \<le> Version i \<Longrightarrow> CopyVersionHistoryItem i = Inr i"
  by (cases i) (simp add: CopyVersionHistoryItem_def NewVersionHistoryItem_def)

lemma Copy_items_ok: "valid_items items \<Longrightarrow> CopyVersionHistoryItems items = Inr items"
  by (induction items) (auto simp: FirstEventID_def)

lemma Copy_history_ok: "valid_items (Items v) \<Longrightarrow> CopyVersionHistory v = Inr v"
  by (cases v) (simp add: CopyVersionHistory_def Copy_items_ok NewVersionHistory_def)

lemma contains_loop_facts:
  "contains_loop p x items \<Longrightarrow> valid_items items \<Longrightarrow> \<forall>i \<in> set items. p < EventId i \<Longrightarrow>
   p < EventId x \<and> EventId x \<le> last_id p items \<and> Version x \<in> Version ` set items"
proof (induction p x items rule: contains_loop.induct)
  case (2 p x i items)
  have "EventId i \<le> last_id (EventId i) items"
    using 2(3) last_id_mem [of "EventId i" items] by fastforce
  with 2 show ?case by (fastforce split: if_splits)
qed simp

lemma contains_loop_append:
  "valid_items (xs @ ys) \<Longrightarrow>
   contains_loop p x (xs @ ys) \<longleftrightarrow> contains_loop p x xs \<or> contains_loop (last_id p xs) x ys"
proof (induction xs arbitrary: p)
  case (Cons i xs)
  have none: "\<not> contains_loop q x zs" if "valid_items zs" "\<forall>j \<in> set zs. Version x < Version j" for q zs
    using that by (cases zs) auto
  show ?case
  proof (cases "Version x < Version i")
    case True
    with Cons.prems have "\<forall>j \<in> set ys. Version x < Version j" by (auto intro: less_trans)
    with none [of ys] Cons.prems True show ?thesis by auto
  next
    case False
    with Cons show ?thesis by auto
  qed
qed simp

definition events_of :: "history_item list \<Rightarrow> (int \<times> int) set" where
  "events_of items = {(e, ver). contains_loop (FirstEventID - 1) \<lparr>EventId = e, Version = ver\<rparr> items}"

lemma contains_iff_events:
  "ContainsVersionHistoryItem v x \<longleftrightarrow> (EventId x, Version x) \<in> events_of (Items v)"
  by (cases x) (simp add: ContainsVersionHistoryItem_def events_of_def)

lemma events_of_snoc:
  "valid_items (xs @ [i]) \<Longrightarrow> events_of (xs @ [i]) =
     events_of xs \<union> {(e, Version i) | e. last_id (FirstEventID - 1) xs < e \<and> e \<le> EventId i}"
  by (auto simp: events_of_def contains_loop_append simp del: valid_items_simps)

lemma events_of_append:
  "valid_items (xs @ ys) \<Longrightarrow> events_of (xs @ ys) = events_of xs \<union>
     {(e, ver). contains_loop (last_id (FirstEventID - 1) xs) \<lparr>EventId = e, Version = ver\<rparr> ys}"
  by (auto simp: events_of_def contains_loop_append simp del: valid_items_simps)

lemma events_of_bounds:
  assumes "valid_items xs" "(e, ver) \<in> events_of xs"
  shows "0 < e" "e \<le> last_id (FirstEventID - 1) xs" "ver \<in> Version ` set xs"
proof -
  have "\<forall>i \<in> set xs. FirstEventID - 1 < EventId i" using assms(1) by (auto simp: valid_items_def list_all_iff)
  with contains_loop_facts [of "FirstEventID - 1" "\<lparr>EventId = e, Version = ver\<rparr>" xs] assms
  show "0 < e" "e \<le> last_id (FirstEventID - 1) xs" "ver \<in> Version ` set xs"
    by (auto simp: events_of_def FirstEventID_def)
qed

section \<open>Appending events\<close>

definition item_ok :: "history_item \<Rightarrow> bool" where
  "item_ok i \<longleftrightarrow> FirstEventID \<le> EventId i \<and> 0 \<le> Version i"

lemma AddOrUpdate_ok:
  assumes v: "valid_items (Items v)" and i: "item_ok i"
    and ok: "\<forall>l. Items v \<noteq> [] \<and> l = last (Items v) \<longrightarrow> Version l \<le> Version i \<and> EventId l < EventId i"
  shows "\<exists>v'. AddOrUpdateVersionHistoryItem v i = Inr v' \<and> valid_items (Items v') \<and>
     BranchToken v' = BranchToken v \<and> last (Items v') = i \<and> Items v' \<noteq> [] \<and>
     (Items v = [] \<or> Version (last (Items v)) < Version i \<longrightarrow> Items v' = Items v @ [i]) \<and>
     events_of (Items v') = events_of (Items v) \<union>
       {(e, Version i) | e. last_id (FirstEventID - 1) (Items v) < e \<and> e \<le> EventId i}"
proof -
  have copy: "CopyVersionHistoryItem i = Inr i"
    using i by (simp add: item_ok_def FirstEventID_def)
  show ?thesis
  proof (cases "Items v" rule: rev_cases)
    case Nil
    have "valid_items ([] @ [i])" using i by (simp add: item_ok_def)
    from events_of_snoc [OF this] Nil copy i show ?thesis
      by (simp add: AddOrUpdateVersionHistoryItem_def item_ok_def)
  next
    case (snoc xs l)
    with ok have l: "Version l \<le> Version i" "EventId l < EventId i" by auto
    show ?thesis
    proof (cases "Version l < Version i")
      case True
      have val: "valid_items (Items v @ [i])"
        using v i l True unfolding snoc by (auto simp: item_ok_def)
      with events_of_snoc [OF this] snoc copy l True show ?thesis
        by (simp add: AddOrUpdateVersionHistoryItem_def)
    next
      case False
      with l have same: "Version l = Version i" by simp
      then have eq: "l\<lparr>EventId := EventId i\<rparr> = i" by (cases l; cases i) simp
      have val: "valid_items (xs @ [i])"
        using v i l same unfolding snoc by (fastforce simp: item_ok_def)
      moreover have "events_of (xs @ [i]) = events_of (Items v) \<union>
          {(e, Version i) | e. last_id (FirstEventID - 1) (Items v) < e \<and> e \<le> EventId i}"
      proof -
        have "last_id (FirstEventID - 1) xs \<le> EventId l"
          using v last_id_mem [of "FirstEventID - 1" xs] unfolding snoc by fastforce
        with events_of_snoc [OF val] events_of_snoc [OF v [unfolded snoc]] same l show ?thesis
          unfolding snoc by auto
      qed
      ultimately show ?thesis
        using snoc l same False by (simp add: AddOrUpdateVersionHistoryItem_def eq)
    qed
  qed
qed

text \<open>
  Adding an item to a valid history succeeds exactly when its version is not lower and its
  event ID is higher than those of the last item; the history stays valid, and exactly the
  events after the old last event up to the new one are added, at the new item's version.
\<close>

theorem AddOrUpdateVersionHistoryItem_adds_events:
  assumes "valid_items (Items v)" "item_ok i"
  shows "if Items v = [] \<or> (Version (last (Items v)) \<le> Version i \<and> EventId (last (Items v)) < EventId i)
    then \<exists>v'. AddOrUpdateVersionHistoryItem v i = Inr v' \<and> valid_items (Items v') \<and>
      (\<forall>x. ContainsVersionHistoryItem v' x \<longleftrightarrow> ContainsVersionHistoryItem v x \<or>
         Version x = Version i \<and> last_id (FirstEventID - 1) (Items v) < EventId x \<and> EventId x \<le> EventId i)
    else \<exists>e. AddOrUpdateVersionHistoryItem v i = Inl e"
proof (cases "Items v = [] \<or> (Version (last (Items v)) \<le> Version i \<and> EventId (last (Items v)) < EventId i)")
  case True
  with AddOrUpdate_ok [OF assms] show ?thesis by (force simp: contains_iff_events)
next
  case False
  then show ?thesis by (auto simp: AddOrUpdateVersionHistoryItem_def Let_def)
qed

definition sample_history :: version_history where
  "sample_history = NewVersionHistory [7]
     [\<lparr>EventId = 3, Version = 1\<rparr>, \<lparr>EventId = 8, Version = 4\<rparr>]"

theorem AddOrUpdateVersionHistoryItem_adds_events_witness:
  "\<exists>v'. AddOrUpdateVersionHistoryItem sample_history \<lparr>EventId = 12, Version = 5\<rparr> = Inr v' \<and>
     valid_items (Items v') \<and>
     (\<forall>x. ContainsVersionHistoryItem v' x \<longleftrightarrow> ContainsVersionHistoryItem sample_history x \<or>
        Version x = 5 \<and> 8 < EventId x \<and> EventId x \<le> 12)"
  using AddOrUpdateVersionHistoryItem_adds_events [of sample_history "\<lparr>EventId = 12, Version = 5\<rparr>"]
  by (simp add: sample_history_def NewVersionHistory_def FirstEventID_def item_ok_def)

section \<open>The version of an event\<close>

lemma event_version_loop_iff:
  assumes "valid_items items" "p < e"
  shows "event_version_loop e items = Inr ver \<longleftrightarrow> contains_loop p \<lparr>EventId = e, Version = ver\<rparr> items"
  using assms
proof (induction items arbitrary: p)
  case (Cons i items)
  have none: "\<not> contains_loop q \<lparr>EventId = e, Version = ver\<rparr> items" if "e \<le> EventId i" "q = EventId i" for q
    using contains_loop_facts [of q "\<lparr>EventId = e, Version = ver\<rparr>" items] Cons.prems(1) that by force
  show ?case
  proof (cases "e \<le> EventId i")
    case True
    with none [OF True] Cons.prems show ?thesis by auto
  next
    case False
    have "\<not> contains_loop (EventId i) \<lparr>EventId = e, Version = ver\<rparr> items" if "ver < Version i"
      using that Cons.prems(1) by (cases items) auto
    with False Cons.IH [of "EventId i"] Cons.prems show ?thesis by auto
  qed
qed simp

text \<open>
  The version of an event looked up in a valid history is \<open>ver\<close> if and only if the history
  contains the item of that event and version; every other event ID is an error.
\<close>

theorem GetVersionHistoryEventVersion_iff_contains:
  assumes "valid_items (Items v)"
  shows "GetVersionHistoryEventVersion v e = Inr ver \<longleftrightarrow>
         ContainsVersionHistoryItem v \<lparr>EventId = e, Version = ver\<rparr>"
proof (cases "Items v" rule: rev_cases)
  case Nil
  then show ?thesis
    by (simp add: GetVersionHistoryEventVersion_def GetLastVersionHistoryItem_def
        getLastVersionHistoryItem_def ContainsVersionHistoryItem_def)
next
  case (snoc xs l)
  have last: "GetLastVersionHistoryItem v = Inr l"
    using assms by (simp add: GetLastVersionHistoryItem_def getLastVersionHistoryItem_def snoc FirstEventID_def)
  show ?thesis
  proof (cases "e < FirstEventID \<or> e > EventId l")
    case True
    have "(e, ver) \<notin> events_of (Items v)"
      using True events_of_bounds [OF assms] by (fastforce simp: snoc FirstEventID_def)
    with True last show ?thesis
      by (simp add: GetVersionHistoryEventVersion_def contains_iff_events)
  next
    case False
    with event_version_loop_iff [OF assms, of "FirstEventID - 1" e ver] last show ?thesis
      by (simp add: GetVersionHistoryEventVersion_def ContainsVersionHistoryItem_def)
  qed
qed

theorem GetVersionHistoryEventVersion_iff_contains_witness:
  "GetVersionHistoryEventVersion sample_history 5 = Inr 4 \<and>
   ContainsVersionHistoryItem sample_history \<lparr>EventId = 5, Version = 4\<rparr>"
  using GetVersionHistoryEventVersion_iff_contains [of sample_history 5 4]
  by (simp add: sample_history_def NewVersionHistory_def FirstEventID_def ContainsVersionHistoryItem_def)

section \<open>The lowest common ancestor\<close>

text \<open>
  Two branches of one event tree: up to some version they share their items, both have an item
  of that version, and after it no version occurs in both.
\<close>

definition branches_at ::
    "history_item list \<Rightarrow> history_item list \<Rightarrow> history_item list \<Rightarrow> history_item \<Rightarrow> history_item \<Rightarrow>
     history_item list \<Rightarrow> history_item list \<Rightarrow> bool" where
  "branches_at A B P a b A' B' \<longleftrightarrow> A = P @ a # A' \<and> B = P @ b # B' \<and> Version a = Version b \<and>
     Version ` set A' \<inter> Version ` set B' = {}"

lemma lca_loop_skip:
  assumes "\<forall>x \<in> set xs. Version b < Version x" "\<forall>y \<in> set ys. Version a < Version y"
    and "Version ` set xs \<inter> Version ` set ys = {}"
  shows "lca_loop (xs @ a # ps) (ys @ b # qs) = lca_loop (a # ps) (b # qs)"
  using assms
proof (induction "length xs + length ys" arbitrary: xs ys rule: less_induct)
  case less
  show ?case
  proof (cases xs; cases ys)
    fix y ys' assume "xs = []" "ys = y # ys'"
    with less.hyps [of "[]" ys'] less.prems show ?thesis by simp
  next
    fix x xs' assume "xs = x # xs'" "ys = []"
    with less.hyps [of xs' "[]"] less.prems show ?thesis by simp
  next
    fix x xs' y ys' assume xy: "xs = x # xs'" "ys = y # ys'"
    with less.prems(3) consider "Version x > Version y" | "Version x < Version y" by force
    then show ?thesis
    proof cases
      case 1
      with less.hyps [of xs' ys] less.prems xy show ?thesis by auto
    next
      case 2
      with less.hyps [of xs ys'] less.prems xy show ?thesis by auto
    qed
  qed simp
qed

lemma FindLCA_branches:
  assumes "valid_items A" "valid_items B" "branches_at A B P a b A' B'"
  shows "FindLCAVersionHistoryItemFromItemSlice A B = Inr (if EventId a > EventId b then b else a)"
proof -
  have A: "A = P @ a # A'" and B: "B = P @ b # B'" and ver: "Version a = Version b"
    and dis: "Version ` set A' \<inter> Version ` set B' = {}"
    using assms(3) by (auto simp: branches_at_def)
  have "lca_loop (rev A' @ a # rev P) (rev B' @ b # rev P) = lca_loop (a # rev P) (b # rev P)"
    by (rule lca_loop_skip) (use assms(1,2) ver dis A B in auto)
  with assms(1,2) ver show ?thesis
    by (auto simp: FindLCAVersionHistoryItemFromItemSlice_def A B FirstEventID_def)
qed

lemma events_of_branch:
  assumes "valid_items (P @ a # A')"
  shows "(e, ver) \<in> events_of (P @ a # A') \<longleftrightarrow> (e, ver) \<in> events_of P \<or>
     ver = Version a \<and> last_id (FirstEventID - 1) P < e \<and> e \<le> EventId a \<or>
     contains_loop (EventId a) \<lparr>EventId = e, Version = ver\<rparr> A'"
proof -
  have v: "valid_items ((P @ [a]) @ A')" using assms by simp
  then have "valid_items (P @ [a])" by simp
  from events_of_append [OF v] events_of_snoc [OF this] show ?thesis by auto
qed

text \<open>
  C35. For two branches of one event tree \<open>FindLCAVersionHistoryItem\<close> finds the last event they
  share: the events of one branch that the other contains too are exactly those up to the
  event of the item found.
\<close>

theorem FindLCA_last_common_event:
  assumes "valid_items (Items v)" "valid_items (Items remote)"
    and "branches_at (Items v) (Items remote) P a b A' B'"
  shows "\<exists>lca. FindLCAVersionHistoryItem v remote = Inr lca \<and>
     ContainsVersionHistoryItem v lca \<and> ContainsVersionHistoryItem remote lca \<and>
     (\<forall>x. ContainsVersionHistoryItem v x \<longrightarrow>
        (ContainsVersionHistoryItem remote x \<longleftrightarrow> EventId x \<le> EventId lca))"
proof -
  let ?lca = "if EventId a > EventId b then b else a"
  have A: "Items v = P @ a # A'" and B: "Items remote = P @ b # B'" and ver: "Version a = Version b"
    and dis: "Version ` set A' \<inter> Version ` set B' = {}"
    using assms(3) by (auto simp: branches_at_def)
  note vA = assms(1) [unfolded A] and vB = assms(2) [unfolded B]
  have P: "valid_items P" "last_id (FirstEventID - 1) P < EventId a" "last_id (FirstEventID - 1) P < EventId b"
    using vA vB last_id_mem [of "FirstEventID - 1" P] by (auto simp: FirstEventID_def)
  note inP = events_of_bounds [OF P(1)]
  have later: "EventId a < e \<and> ver' \<in> Version ` set A' \<and> Version a < ver'"
    if "contains_loop (EventId a) \<lparr>EventId = e, Version = ver'\<rparr> A'" for e ver'
    using contains_loop_facts [OF that] vA by auto
  have later': "EventId b < e \<and> ver' \<in> Version ` set B' \<and> Version b < ver'"
    if "contains_loop (EventId b) \<lparr>EventId = e, Version = ver'\<rparr> B'" for e ver'
    using contains_loop_facts [OF that] vB by auto
  have verP: "(e, ver') \<in> events_of P \<Longrightarrow> ver' < Version a" for e ver'
    using inP(3) vA by fastforce
  have common: "(e, ver') \<in> events_of (Items remote) \<longleftrightarrow> e \<le> EventId ?lca"
    if "(e, ver') \<in> events_of (Items v)" for e ver'
    using that unfolding A B events_of_branch [OF vA] events_of_branch [OF vB]
    using later [of e ver'] later' [of e ver'] verP [of e ver'] inP(2) [of e ver'] P(2,3) ver dis
    by (auto split: if_splits)
  have "(EventId ?lca, Version ?lca) \<in> events_of (Items v)" "(EventId ?lca, Version ?lca) \<in> events_of (Items remote)"
    using P ver unfolding A B events_of_branch [OF vA] events_of_branch [OF vB] by auto
  with common FindLCA_branches [OF assms] show ?thesis
    by (auto simp: FindLCAVersionHistoryItem_def contains_iff_events)
qed

theorem FindLCA_last_common_event_witness:
  "let v = sample_history; r = NewVersionHistory [8] [\<lparr>EventId = 3, Version = 1\<rparr>, \<lparr>EventId = 6, Version = 4\<rparr>, \<lparr>EventId = 9, Version = 6\<rparr>]
   in \<exists>lca. FindLCAVersionHistoryItem v r = Inr lca \<and>
     ContainsVersionHistoryItem v lca \<and> ContainsVersionHistoryItem r lca \<and>
     (\<forall>x. ContainsVersionHistoryItem v x \<longrightarrow> (ContainsVersionHistoryItem r x \<longleftrightarrow> EventId x \<le> EventId lca))"
  unfolding Let_def
  by (rule FindLCA_last_common_event [where P = "[\<lparr>EventId = 3, Version = 1\<rparr>]"
        and a = "\<lparr>EventId = 8, Version = 4\<rparr>" and b = "\<lparr>EventId = 6, Version = 4\<rparr>" and A' = "[]"
        and B' = "[\<lparr>EventId = 9, Version = 6\<rparr>]"])
    (simp_all add: sample_history_def NewVersionHistory_def FirstEventID_def branches_at_def)

section \<open>Forking a branch\<close>

lemma copy_until_loop_ok:
  assumes "valid_items (Items acc @ items)" "item_ok lca"
  shows "if contains_loop (last_id (FirstEventID - 1) (Items acc)) lca items
    then \<exists>v' p1 i p2. copy_until_loop acc lca items = Inr v' \<and> items = p1 @ i # p2 \<and>
      Version i = Version lca \<and> EventId lca \<le> EventId i \<and>
      last_id (FirstEventID - 1) (Items acc @ p1) < EventId lca \<and> Items v' = Items acc @ p1 @ [lca]
    else \<exists>e. copy_until_loop acc lca items = Inl e"
  using assms
proof (induction items arbitrary: acc)
  case (Cons i items)
  let ?p = "last_id (FirstEventID - 1) (Items acc)"
  have v: "valid_items (Items acc)" and i: "item_ok i" using Cons.prems(1) by (auto simp: item_ok_def)
  consider "Version i < Version lca" | "Version i = Version lca" | "Version lca < Version i" by force
  then show ?case
  proof cases
    case 1
    have "\<forall>l. Items acc \<noteq> [] \<and> l = last (Items acc) \<longrightarrow> Version l \<le> Version i \<and> EventId l < EventId i"
      and "Items acc = [] \<or> Version (last (Items acc)) < Version i"
      using Cons.prems(1) by (cases "Items acc" rule: rev_cases; auto)+
    with AddOrUpdate_ok [OF v i] obtain acc1 where
      acc1: "AddOrUpdateVersionHistoryItem acc i = Inr acc1" "Items acc1 = Items acc @ [i]" by blast
    show ?thesis
    proof (cases "contains_loop (EventId i) lca items")
      case True
      from Cons.IH [of acc1] Cons.prems True acc1(2) obtain v' p1 j p2 where
        "copy_until_loop acc1 lca items = Inr v'" "items = p1 @ j # p2" "Version j = Version lca"
        "EventId lca \<le> EventId j" "last_id (FirstEventID - 1) (Items acc1 @ p1) < EventId lca"
        "Items v' = Items acc1 @ p1 @ [lca]" by auto
      with 1 True acc1 show ?thesis
        by (auto intro!: exI [of _ "i # p1"])
    next
      case False
      with Cons.IH [of acc1] Cons.prems acc1 1 show ?thesis by auto
    qed
  next
    case 2
    have none: "\<not> contains_loop (EventId i) lca items"
      using Cons.prems(1) 2 by (cases items) auto
    show ?thesis
    proof (cases "?p < EventId lca \<and> EventId lca \<le> EventId i")
      case True
      have "\<forall>l. Items acc \<noteq> [] \<and> l = last (Items acc) \<longrightarrow> Version l \<le> Version lca \<and> EventId l < EventId lca"
        and "Items acc = [] \<or> Version (last (Items acc)) < Version lca"
        using Cons.prems(1) 2 True by (cases "Items acc" rule: rev_cases; auto)+
      with AddOrUpdate_ok [OF v Cons.prems(2)] obtain acc1 where
        "AddOrUpdateVersionHistoryItem acc lca = Inr acc1" "Items acc1 = Items acc @ [lca]" by blast
      with True 2 show ?thesis by (auto intro!: exI [of _ "[]"])
    next
      case False
      then consider "EventId i < EventId lca" | "EventId lca \<le> ?p" "EventId lca \<le> EventId i" by force
      then show ?thesis
      proof cases
        case 1
        with 2 none show ?thesis by simp
      next
        case b: 2
        have "Items acc \<noteq> []" "EventId lca \<le> EventId (last (Items acc))"
          using b(1) Cons.prems(2) by (auto simp: last_id_def item_ok_def split: if_splits)
        then have "\<exists>e. AddOrUpdateVersionHistoryItem acc lca = Inl e"
          by (auto simp: AddOrUpdateVersionHistoryItem_def Let_def)
        with b 2 none show ?thesis by auto
      qed
    qed
  next
    case 3
    then show ?thesis by auto
  qed
qed simp

text \<open>
  Copying a valid history up to an LCA item succeeds if and only if the history contains
  the item; the copy is valid and contains exactly the events up to the item's event.
\<close>

theorem CopyUntilLCA_is_prefix:
  assumes "valid_items (Items v)" "item_ok lca"
  shows "if ContainsVersionHistoryItem v lca
    then \<exists>c. CopyVersionHistoryUntilLCAVersionHistoryItem v lca = Inr c \<and> valid_items (Items c) \<and>
      (\<forall>x. ContainsVersionHistoryItem c x \<longleftrightarrow> ContainsVersionHistoryItem v x \<and> EventId x \<le> EventId lca)
    else \<exists>e. CopyVersionHistoryUntilLCAVersionHistoryItem v lca = Inl e"
proof -
  have Items0: "Items (NewVersionHistory [] []) = []" by (simp add: NewVersionHistory_def)
  have loop: "valid_items (Items (NewVersionHistory [] []) @ Items v)" using assms(1) by (simp add: Items0)
  note l = copy_until_loop_ok [OF loop assms(2), unfolded Items0, simplified]
  show ?thesis
  proof (cases "ContainsVersionHistoryItem v lca")
    case True
    with l obtain c p1 i p2 where
      c: "CopyVersionHistoryUntilLCAVersionHistoryItem v lca = Inr c" "Items c = p1 @ [lca]"
      and i: "Items v = p1 @ i # p2" "Version i = Version lca" "EventId lca \<le> EventId i"
      "last_id (FirstEventID - 1) p1 < EventId lca"
      by (auto simp: CopyVersionHistoryUntilLCAVersionHistoryItem_def ContainsVersionHistoryItem_def)
    note v = assms(1) [unfolded i(1)]
    have "EventId j < EventId lca" if "j \<in> set p1" for j
      using that v i(4) by (cases p1 rule: rev_cases) auto
    then have vc: "valid_items (p1 @ [lca])"
      using v i(2) assms(2) by (auto simp: item_ok_def)
    have later: "EventId i < e" if "contains_loop (EventId i) \<lparr>EventId = e, Version = ver\<rparr> p2" for e ver
      using contains_loop_facts [OF that] v by auto
    have early: "(e, ver) \<in> events_of p1 \<Longrightarrow> e < EventId lca" for e ver
      using events_of_bounds(2) [of p1 e ver] v i(4) by auto
    have "(e, ver) \<in> events_of (Items c) \<longleftrightarrow> (e, ver) \<in> events_of (Items v) \<and> e \<le> EventId lca" for e ver
      using later [of e ver] early [of e ver] i(2,3)
      unfolding c(2) i(1) events_of_snoc [OF vc] events_of_branch [OF v] by auto
    with True c vc show ?thesis by (auto simp: contains_iff_events)
  next
    case False
    with l show ?thesis
      by (auto simp: CopyVersionHistoryUntilLCAVersionHistoryItem_def ContainsVersionHistoryItem_def)
  qed
qed

theorem CopyUntilLCA_is_prefix_witness:
  "\<exists>c. CopyVersionHistoryUntilLCAVersionHistoryItem sample_history \<lparr>EventId = 5, Version = 4\<rparr> = Inr c \<and>
     valid_items (Items c) \<and>
     (\<forall>x. ContainsVersionHistoryItem c x \<longleftrightarrow> ContainsVersionHistoryItem sample_history x \<and> EventId x \<le> 5)"
  using CopyUntilLCA_is_prefix [of sample_history "\<lparr>EventId = 5, Version = 4\<rparr>"]
  by (simp add: sample_history_def NewVersionHistory_def FirstEventID_def item_ok_def
      ContainsVersionHistoryItem_def)

section \<open>The current branch\<close>

text \<open>
  Every branch is valid and not empty, all start at the same version, and the current branch
  ends at a version that no other branch exceeds.
\<close>

definition at_most :: "version_history \<Rightarrow> version_history \<Rightarrow> bool" where
  "at_most cur v \<longleftrightarrow> Items v \<noteq> [] \<and> valid_items (Items v) \<and>
     Version (hd (Items v)) = Version (hd (Items cur)) \<and> Version (last (Items v)) \<le> Version (last (Items cur))"

definition histories_inv :: "version_histories \<Rightarrow> bool" where
  "histories_inv h \<longleftrightarrow>
     0 \<le> CurrentVersionHistoryIndex h \<and> CurrentVersionHistoryIndex h < int (length (Histories h)) \<and>
     list_all (at_most (Histories h ! nat (CurrentVersionHistoryIndex h))) (Histories h)"

lemma histories_inv_iff:
  "CurrentVersionHistoryIndex h = int i \<Longrightarrow>
   histories_inv h \<longleftrightarrow> i < length (Histories h) \<and> (\<forall>v \<in> set (Histories h). at_most (Histories h ! i) v)"
  by (simp add: histories_inv_def list_all_iff)

lemma first_last_ok:
  assumes "Items v \<noteq> []" "valid_items (Items v)"
  shows "GetFirstVersionHistoryItem v = Inr (hd (Items v)) \<and> GetLastVersionHistoryItem v = Inr (last (Items v))"
proof -
  have "0 \<le> EventId i \<and> 0 \<le> Version i" if "i \<in> set (Items v)" for i
    using assms(2) that by (force simp: valid_items_def list_all_iff FirstEventID_def)
  with assms(1) hd_in_set [OF assms(1)] last_in_set [OF assms(1)] show ?thesis
    by (simp add: GetFirstVersionHistoryItem_def GetLastVersionHistoryItem_def getLastVersionHistoryItem_def)
qed

text \<open>
  C36. Adding a valid branch that starts at the version of the current branch keeps the invariant
  of the histories, appends the branch, and makes it current exactly when it ends at a higher
  version; a branch that starts at another version is refused.
\<close>

theorem AddAndSwitchVersionHistory_current_is_highest:
  assumes "histories_inv h" "Items v \<noteq> []" "valid_items (Items v)"
  shows "let cur = Items (Histories h ! nat (CurrentVersionHistoryIndex h)) in
    if Version (hd (Items v)) = Version (hd cur)
    then \<exists>h'. AddAndSwitchVersionHistory h v =
        Inr (h', Version (last (Items v)) > Version (last cur), int (length (Histories h))) \<and>
      histories_inv h' \<and> Histories h' = Histories h @ [v] \<and>
      CurrentVersionHistoryIndex h' =
        (if Version (last (Items v)) > Version (last cur) then int (length (Histories h))
         else CurrentVersionHistoryIndex h)
    else AddAndSwitchVersionHistory h v = Inl FirstItemMismatch"
proof -
  obtain i where index: "CurrentVersionHistoryIndex h = int i"
    using assms(1) by (auto simp: histories_inv_def elim: nonneg_int_cases)
  let ?cur = "Histories h ! i"
  have i: "i < length (Histories h)" and all: "\<forall>w \<in> set (Histories h). at_most ?cur w"
    using assms(1) histories_inv_iff [OF index] by auto
  then have "at_most ?cur ?cur" by simp
  then have cur: "Items ?cur \<noteq> []" "valid_items (Items ?cur)" by (auto simp: at_most_def)
  have get: "GetVersionHistory (h\<lparr>Histories := Histories h @ xs\<rparr>) (CurrentVersionHistoryIndex h) = Inr ?cur" for xs
    using i by (simp add: index GetVersionHistory_def nth_append)
  have get0: "GetVersionHistory h (CurrentVersionHistoryIndex h) = Inr ?cur"
    using i by (simp add: index GetVersionHistory_def)
  note fl = first_last_ok [OF cur] first_last_ok [OF assms(2,3)]
  show ?thesis
  proof (cases "Version (hd (Items v)) = Version (hd (Items ?cur))")
    case True
    have "histories_inv (h\<lparr>Histories := Histories h @ [v]\<rparr>)"
      if low: "\<not> Version (last (Items ?cur)) < Version (last (Items v))"
    proof -
      have "at_most ?cur v" using assms(2,3) True low by (simp add: at_most_def)
      with all i show ?thesis by (simp add: histories_inv_iff [of _ i] index nth_append)
    qed
    moreover have "histories_inv (h\<lparr>Histories := Histories h @ [v],
        CurrentVersionHistoryIndex := int (length (Histories h))\<rparr>)"
      if high: "Version (last (Items ?cur)) < Version (last (Items v))"
    proof -
      have "at_most v w" if "at_most ?cur w \<or> w = v" for w
        using assms(2,3) True high that by (auto simp: at_most_def)
      with all show ?thesis by (simp add: histories_inv_iff [of _ "length (Histories h)"])
    qed
    moreover have "AddVersionHistory h v = Inr (h\<lparr>Histories := Histories h @ [v]\<rparr>, int (length (Histories h)))"
      using True fl get0 Copy_history_ok [OF assms(3)] by (simp add: AddVersionHistory_def)
    then have "AddAndSwitchVersionHistory h v =
        (if Version (last (Items v)) > Version (last (Items ?cur))
         then Inr (h\<lparr>Histories := Histories h @ [v], CurrentVersionHistoryIndex := int (length (Histories h))\<rparr>,
           True, int (length (Histories h)))
         else Inr (h\<lparr>Histories := Histories h @ [v]\<rparr>, False, int (length (Histories h))))"
      using fl get [of "[v]"] by (simp add: AddAndSwitchVersionHistory_def)
    ultimately show ?thesis
      using True unfolding Let_def index nat_int
      by (cases "Version (last (Items ?cur)) < Version (last (Items v))") (auto simp: index)
  next
    case False
    with fl get0 show ?thesis
      by (simp add: AddAndSwitchVersionHistory_def AddVersionHistory_def Let_def index)
  qed
qed

theorem AddAndSwitchVersionHistory_current_is_highest_witness:
  "let h = NewVersionHistories sample_history;
       v = NewVersionHistory [8] [\<lparr>EventId = 3, Version = 1\<rparr>, \<lparr>EventId = 9, Version = 6\<rparr>]
   in \<exists>h'. AddAndSwitchVersionHistory h v = Inr (h', True, 1) \<and> histories_inv h' \<and>
        Histories h' = [sample_history, v] \<and> CurrentVersionHistoryIndex h' = 1"
  using AddAndSwitchVersionHistory_current_is_highest [of "NewVersionHistories sample_history"
      "NewVersionHistory [8] [\<lparr>EventId = 3, Version = 1\<rparr>, \<lparr>EventId = 9, Version = 6\<rparr>]"]
  by (simp add: NewVersionHistories_def sample_history_def NewVersionHistory_def histories_inv_def at_most_def
      FirstEventID_def Let_def)

end
