(* ===== verification/CacheInterface.thy ===== *)
theory CacheInterface
  imports Prelude
begin

text \<open>
  The contract of a cache (\<open>Cache\<close> in \<open>common/cache/cache.go\<close>), stated over the values it holds: a cache
  may forget what was put, but never returns a value that was replaced or deleted. What follows from
  the contract is proved once here, for both implementations.
\<close>

datatype ('k, 'v) cache_op =
    GetOp int 'k
  | PutOp int 'k 'v
  | DeleteOp 'k

text \<open>The value of a key after a sequence of operations on an unbounded map.\<close>

fun last_write :: "'k \<Rightarrow> ('k, 'v) cache_op list \<Rightarrow> 'v option \<Rightarrow> 'v option" where
  "last_write k [] v = v"
| "last_write k (GetOp now k' # ops) v = last_write k ops v"
| "last_write k (PutOp now k' v' # ops) v = last_write k ops (if k' = k then Some v' else v)"
| "last_write k (DeleteOp k' # ops) v = last_write k ops (if k' = k then None else v)"

fun put_values :: "('k, 'v) cache_op list \<Rightarrow> 'v list" where
  "put_values [] = []"
| "put_values (PutOp now k v # ops) = v # put_values ops"
| "put_values (_ # ops) = put_values ops"

fun run_ops ::
    "(int \<Rightarrow> 'k \<Rightarrow> 'c \<Rightarrow> 'v option \<times> 'c) \<Rightarrow> (int \<Rightarrow> 'k \<Rightarrow> 'v \<Rightarrow> 'c \<Rightarrow> 'c) \<Rightarrow> ('k \<Rightarrow> 'c \<Rightarrow> 'c) \<Rightarrow>
     ('k, 'v) cache_op list \<Rightarrow> 'c \<Rightarrow> 'c" where
  "run_ops get put del [] c = c"
| "run_ops get put del (GetOp now k # ops) c = run_ops get put del ops (snd (get now k c))"
| "run_ops get put del (PutOp now k v # ops) c = run_ops get put del ops (put now k v c)"
| "run_ops get put del (DeleteOp k # ops) c = run_ops get put del ops (del k c)"

locale cache_contract =
  fixes get :: "int \<Rightarrow> 'k \<Rightarrow> 'c \<Rightarrow> 'v option \<times> 'c"
    and put :: "int \<Rightarrow> 'k \<Rightarrow> 'v \<Rightarrow> 'c \<Rightarrow> 'c"
    and del :: "'k \<Rightarrow> 'c \<Rightarrow> 'c"
    and inv :: "'c \<Rightarrow> bool"
    and fits :: "'v \<Rightarrow> bool"
    and lookup :: "'c \<Rightarrow> 'k \<Rightarrow> 'v option"
  assumes get_inv: "inv c \<Longrightarrow> inv (snd (get now k c))"
    and put_inv: "inv c \<Longrightarrow> fits v \<Longrightarrow> inv (put now k v c)"
    and del_inv: "inv c \<Longrightarrow> inv (del k c)"
    and get_value: "inv c \<Longrightarrow> fst (get now k c) \<in> {None, lookup c k}"
    and get_frame: "inv c \<Longrightarrow> lookup (snd (get now k c)) k' \<in> {None, lookup c k'}"
    and put_value: "inv c \<Longrightarrow> fits v \<Longrightarrow> lookup (put now k v c) k \<in> {None, Some v}"
    and put_frame: "inv c \<Longrightarrow> fits v \<Longrightarrow> k' \<noteq> k \<Longrightarrow> lookup (put now k v c) k' \<in> {None, lookup c k'}"
    and del_value: "inv c \<Longrightarrow> lookup (del k c) k = None"
    and del_frame: "inv c \<Longrightarrow> lookup (del k c) k' \<in> {None, lookup c k'}"
begin

lemma run_ops_inv: "inv c \<Longrightarrow> list_all fits (put_values ops) \<Longrightarrow> inv (run_ops get put del ops c)"
proof (induction ops arbitrary: c)
  case (Cons op ops)
  then show ?case by (cases op) (auto simp: get_inv put_inv del_inv)
qed simp

lemma lookup_last_write:
  assumes "inv c" "list_all fits (put_values ops)" "lookup c k \<in> {None, v}"
  shows "lookup (run_ops get put del ops c) k \<in> {None, last_write k ops v}"
  using assms
proof (induction ops arbitrary: c v)
  case (Cons op ops)
  show ?case
  proof (cases op)
    case (GetOp now k')
    with Cons.IH [of "snd (get now k' c)" v] Cons.prems get_inv get_frame [of c now k' k] show ?thesis by auto
  next
    case (PutOp now k' v')
    with Cons.prems have "fits v'" "list_all fits (put_values ops)" by auto
    moreover from this have "lookup (put now k' v' c) k \<in> {None, if k' = k then Some v' else v}"
      using put_value [of c v' now k'] put_frame [of c v' k k' now] Cons.prems by auto
    ultimately show ?thesis using PutOp Cons.IH [of "put now k' v' c"] Cons.prems(1) put_inv by simp
  next
    case (DeleteOp k')
    have "lookup (del k' c) k \<in> {None, if k' = k then None else v}"
      using del_value [of c k'] del_frame [of c k' k] Cons.prems by auto
    with DeleteOp Cons.IH [of "del k' c"] Cons.prems del_inv show ?thesis by simp
  qed
qed simp

lemma reads_last_write:
  assumes "inv c" "list_all fits (put_values ops)" "lookup c k = v"
  shows "fst (get now k (run_ops get put del ops c)) \<in> {None, last_write k ops v}"
  using lookup_last_write [OF assms(1,2), of k v] get_value [OF run_ops_inv [OF assms(1,2)], of now k] assms(3) by auto

end

section \<open>A list of elements with an index\<close>

text \<open>
  Both caches keep their entries in a list of elements, and a map from each key to its element.
\<close>

definition index_by :: "('e \<Rightarrow> 'k) \<Rightarrow> (nat \<times> 'e) list \<Rightarrow> 'k \<Rightarrow> nat option" where
  "index_by key xs = map_of (map (\<lambda>p. (key (snd p), fst p)) xs)"

lemma index_by_Some:
  "distinct (map (\<lambda>p. key (snd p)) xs) \<Longrightarrow> index_by key xs k = Some i \<longleftrightarrow> (\<exists>e. (i, e) \<in> set xs \<and> key e = k)"
  by (force simp: index_by_def map_of_eq_Some_iff o_def)

lemma index_by_None: "index_by key xs k = None \<longleftrightarrow> (\<forall>p \<in> set xs. key (snd p) \<noteq> k)"
  by (auto simp: index_by_def map_of_eq_None_iff image_image)

lemma distinct_sublist: "distinct (map f xs) \<Longrightarrow> distinct (map f (filter P xs))"
  by (simp add: distinct_map_filter)

lemma same_element:
  assumes "distinct (map fst xs)" "distinct (map (\<lambda>p. key (snd p)) xs)" "(i, e) \<in> set xs" "(i', e') \<in> set xs"
  shows "i' = i \<longleftrightarrow> key e' = key e"
  using assms inj_onD [of fst "set xs" "(i', e')" "(i, e)"]
    inj_onD [of "\<lambda>p. key (snd p)" "set xs" "(i', e')" "(i, e)"]
  by (auto simp: distinct_map)

lemma same_option: "(\<And>j. x = Some j \<longleftrightarrow> y = Some j) \<Longrightarrow> x = y"
  by (cases x; cases y) auto

lemma index_by_remove:
  assumes "distinct (map fst xs)" "distinct (map (\<lambda>p. key (snd p)) xs)" "(i, e) \<in> set xs"
  shows "index_by key (filter (\<lambda>p. fst p \<noteq> i) xs) = (index_by key xs)(key e := None)"
proof
  fix k
  have other: "i' \<noteq> i \<longleftrightarrow> key e' \<noteq> key e" if "(i', e') \<in> set xs" for i' e'
    using same_element [OF assms that] by simp
  show "index_by key (filter (\<lambda>p. fst p \<noteq> i) xs) k = ((index_by key xs)(key e := None)) k"
  proof (cases "k = key e")
    case True
    then have "index_by key (filter (\<lambda>p. fst p \<noteq> i) xs) k = None" using other by (force simp: index_by_None)
    with True show ?thesis by simp
  next
    case False
    have "index_by key (filter (\<lambda>p. fst p \<noteq> i) xs) k = Some j \<longleftrightarrow> index_by key xs k = Some j" for j
      using other False by (auto simp: index_by_Some [OF assms(2)] index_by_Some [OF distinct_sublist [OF assms(2)]])
    then have "index_by key (filter (\<lambda>p. fst p \<noteq> i) xs) k = index_by key xs k" by (rule same_option)
    with False show ?thesis by simp
  qed
qed

end
