(* ===== verification/SimpleCache.thy ===== *)
theory SimpleCache
  imports CacheInterface
begin

text \<open>
  The simple cache (\<open>common/cache/simple.go\<close>): the list \<open>iterateList\<close>, newest first, and the map
  \<open>accessMap\<close> from the keys to its elements. Nothing is ever evicted or reordered. The calls of the
  removal function, each in its own goroutine, are recorded in order.
\<close>

record ('k, 'v) simpleEntry =
  simple_key :: 'k
  simple_value :: 'v

record ('k, 'v) simple =
  accessMap :: "'k \<Rightarrow> nat option"
  iterateList :: "(nat \<times> ('k, 'v) simpleEntry) list"
  nextSimple :: nat
  rmCalls :: "'v list"

definition NewSimple :: "('k, 'v) simple" where
  "NewSimple = \<lparr>accessMap = (\<lambda>_. None), iterateList = [], nextSimple = 0, rmCalls = []\<rparr>"

definition simple_element :: "('k, 'v) simple \<Rightarrow> nat \<Rightarrow> ('k, 'v) simpleEntry" where
  "simple_element c i = the (map_of (iterateList c) i)"

definition Get_simple :: "'k \<Rightarrow> ('k, 'v) simple \<Rightarrow> 'v option" where
  "Get_simple key c = (case accessMap c key of None \<Rightarrow> None | Some i \<Rightarrow> Some (simple_value (simple_element c i)))"

definition putInternal_simple :: "'k \<Rightarrow> 'v \<Rightarrow> bool \<Rightarrow> ('k, 'v) simple \<Rightarrow> 'v option \<times> ('k, 'v) simple" where
  "putInternal_simple key val allowUpdate c =
     (case accessMap c key of
        Some i \<Rightarrow>
          (Some (simple_value (simple_element c i)),
           if allowUpdate
           then c\<lparr>iterateList := map (\<lambda>(j, e). if j = i then (j, e\<lparr>simple_value := val\<rparr>) else (j, e)) (iterateList c)\<rparr>
           else c)
      | None \<Rightarrow>
          (None, c\<lparr>iterateList := (nextSimple c, \<lparr>simple_key = key, simple_value = val\<rparr>) # iterateList c,
                   nextSimple := nextSimple c + 1, accessMap := (accessMap c)(key \<mapsto> nextSimple c)\<rparr>))"

definition Put_simple :: "'k \<Rightarrow> 'v \<Rightarrow> ('k, 'v) simple \<Rightarrow> 'v option \<times> ('k, 'v) simple" where
  "Put_simple key val c = putInternal_simple key val True c"

definition PutIfNotExist_simple :: "'k \<Rightarrow> 'v \<Rightarrow> ('k, 'v) simple \<Rightarrow> 'v \<times> ('k, 'v) simple" where
  "PutIfNotExist_simple key val c =
     (case putInternal_simple key val False c of
        (None, c') \<Rightarrow> (val, c')
      | (Some existing, c') \<Rightarrow> (existing, c'))"

definition Delete_simple :: "'k \<Rightarrow> ('k, 'v) simple \<Rightarrow> ('k, 'v) simple" where
  "Delete_simple key c =
     (case accessMap c key of
        None \<Rightarrow> c
      | Some i \<Rightarrow>
          let e = simple_element c i in
          c\<lparr>iterateList := filter (\<lambda>p. fst p \<noteq> i) (iterateList c), rmCalls := rmCalls c @ [simple_value e],
            accessMap := (accessMap c)(simple_key e := None)\<rparr>)"

definition Release_simple :: "'k \<Rightarrow> ('k, 'v) simple \<Rightarrow> ('k, 'v) simple" where
  "Release_simple key c = c"

text \<open>\<open>len\<close> of the map; an iterator holds the element it returns next, in pin of the read lock.\<close>

definition Size_simple :: "('k, 'v) simple \<Rightarrow> nat" where
  "Size_simple c = card (dom (accessMap c))"

definition Iterator_simple :: "('k, 'v) simple \<Rightarrow> (nat \<times> ('k, 'v) simpleEntry) list" where
  "Iterator_simple c = iterateList c"

fun simple_HasNext :: "(nat \<times> ('k, 'v) simpleEntry) list \<Rightarrow> bool" where
  "simple_HasNext [] \<longleftrightarrow> False"
| "simple_HasNext (p # rest) \<longleftrightarrow> True"

fun simple_Next ::
    "(nat \<times> ('k, 'v) simpleEntry) list \<Rightarrow> (('k, 'v) simpleEntry \<times> (nat \<times> ('k, 'v) simpleEntry) list) option" where
  "simple_Next [] = None"
| "simple_Next (p # rest) = Some (snd p, rest)"

section \<open>The invariant\<close>

definition simple_inv :: "('k, 'v) simple \<Rightarrow> bool" where
  "simple_inv c \<longleftrightarrow> distinct (map fst (iterateList c)) \<and> distinct (map (\<lambda>p. simple_key (snd p)) (iterateList c)) \<and>
     list_all (\<lambda>p. fst p < nextSimple c) (iterateList c) \<and> accessMap c = index_by simple_key (iterateList c)"

lemma simple_element_eq: "simple_inv c \<Longrightarrow> (i, e) \<in> set (iterateList c) \<Longrightarrow> simple_element c i = e"
  by (simp add: simple_element_def simple_inv_def)

lemma simple_present:
  assumes "simple_inv c" "accessMap c k = Some i"
  shows "(i, simple_element c i) \<in> set (iterateList c)" "simple_key (simple_element c i) = k"
proof -
  have "index_by simple_key (iterateList c) k = Some i" "distinct (map (\<lambda>p. simple_key (snd p)) (iterateList c))"
    using assms by (simp_all add: simple_inv_def)
  then obtain e where e: "(i, e) \<in> set (iterateList c)" "simple_key e = k" by (auto simp: index_by_Some)
  with simple_element_eq [OF assms(1) e(1)]
  show "(i, simple_element c i) \<in> set (iterateList c)" "simple_key (simple_element c i) = k" by simp_all
qed

lemma Get_simple_eq:
  assumes "simple_inv c"
  shows "Get_simple k c = map_of (map (\<lambda>p. (simple_key (snd p), simple_value (snd p))) (iterateList c)) k"
proof (cases "accessMap c k")
  case None
  then have "index_by simple_key (iterateList c) k = None" using assms by (simp add: simple_inv_def)
  then have "\<forall>p \<in> set (iterateList c). simple_key (snd p) \<noteq> k" by (simp only: index_by_None)
  then have "map_of (map (\<lambda>p. (simple_key (snd p), simple_value (snd p))) (iterateList c)) k = None"
    by (auto simp: map_of_eq_None_iff)
  with None show ?thesis by (simp add: Get_simple_def)
next
  case (Some i)
  note p = simple_present [OF assms Some]
  have "(k, simple_value (simple_element c i)) \<in> set (map (\<lambda>p. (simple_key (snd p), simple_value (snd p))) (iterateList c))"
    using p by force
  then show ?thesis using assms Some by (simp add: Get_simple_def simple_inv_def o_def)
qed

lemma simple_update_list:
  "distinct (map fst xs) \<Longrightarrow> (i, e) \<in> set xs \<Longrightarrow> distinct (map (\<lambda>p. key (snd p)) xs) \<Longrightarrow>
   (\<And>e. key (f e) = key e) \<Longrightarrow>
   map fst (map (\<lambda>(j, e). if j = i then (j, f e) else (j, e)) xs) = map fst xs \<and>
   map (\<lambda>p. key (snd p)) (map (\<lambda>(j, e). if j = i then (j, f e) else (j, e)) xs) = map (\<lambda>p. key (snd p)) xs"
  by (induction xs) auto

lemma putInternal_simple_ok:
  assumes "simple_inv c" "putInternal_simple k v allowUpdate c = (r, c')"
  shows "simple_inv c' \<and> r = Get_simple k c \<and>
    Get_simple k' c' = (if k' = k \<and> (allowUpdate \<or> r = None) then Some v else Get_simple k' c)"
proof (cases "accessMap c k")
  case None
  let ?e = "\<lparr>simple_key = k, simple_value = v\<rparr>"
  have run: "r = None" "c' = c\<lparr>iterateList := (nextSimple c, ?e) # iterateList c,
                   nextSimple := nextSimple c + 1, accessMap := (accessMap c)(k \<mapsto> nextSimple c)\<rparr>"
    using assms(2) None by (simp_all add: putInternal_simple_def)
  have "index_by simple_key (iterateList c) k = None" using assms(1) None by (simp add: simple_inv_def)
  then have fresh: "k \<notin> (\<lambda>p. simple_key (snd p)) ` set (iterateList c)" by (auto simp: index_by_None)
  have "nextSimple c \<notin> fst ` set (iterateList c)" using assms(1) by (force simp: simple_inv_def list_all_iff)
  with fresh have inv: "simple_inv c'"
    using assms(1) run(2) by (auto simp: simple_inv_def index_by_def list_all_iff intro: less_SucI)
  with Get_simple_eq [OF inv, of k'] Get_simple_eq [OF assms(1), of k'] run None show ?thesis
    by (simp add: Get_simple_def)
next
  case (Some i)
  note p = simple_present [OF assms(1) Some]
  let ?f = "\<lambda>(j, e). if j = i then (j, e\<lparr>simple_value := v\<rparr>) else (j, e)"
  have r: "r = Get_simple k c" using assms(2) Some by (simp add: putInternal_simple_def Get_simple_def)
  show ?thesis
  proof (cases allowUpdate)
    case False
    with assms Some r show ?thesis by (auto simp: putInternal_simple_def Get_simple_def)
  next
    case True
    have run: "c' = c\<lparr>iterateList := map ?f (iterateList c)\<rparr>"
      using assms(2) Some True by (simp add: putInternal_simple_def)
    have keys: "map fst (map ?f (iterateList c)) = map fst (iterateList c)"
      "map (\<lambda>p. simple_key (snd p)) (map ?f (iterateList c)) = map (\<lambda>p. simple_key (snd p)) (iterateList c)"
      using simple_update_list [of "iterateList c" i "simple_element c i" simple_key "\<lambda>e. e\<lparr>simple_value := v\<rparr>"]
        assms(1) p by (simp_all add: simple_inv_def)
    have "index_by simple_key (map ?f (iterateList c)) = index_by simple_key (iterateList c)"
      unfolding index_by_def by (rule arg_cong [of _ _ map_of]) (auto simp: case_prod_unfold)
    moreover have "list_all (\<lambda>p. fst p < nextSimple c) (map ?f (iterateList c))"
      using assms(1) by (auto simp: simple_inv_def list_all_iff)
    ultimately have inv: "simple_inv c'" using assms(1) keys unfolding run simple_inv_def
      by (simp del: map_map list.map_comp)
    have "simple_element c' j = (if j = i then (simple_element c i)\<lparr>simple_value := v\<rparr> else simple_element c j)"
      if "(j, e) \<in> set (iterateList c)" for j e
    proof -
      have "(j, if j = i then e\<lparr>simple_value := v\<rparr> else e) \<in> set (iterateList c')" using that run by force
      from simple_element_eq [OF inv this] simple_element_eq [OF assms(1) that] show ?thesis by auto
    qed
    moreover have "accessMap c' = accessMap c" using run by simp
    moreover have "accessMap c k' = Some i \<longleftrightarrow> k' = k" using Some p simple_present(2) [OF assms(1), of k' i] by auto
    ultimately show ?thesis using inv r True simple_present(1) [OF assms(1), of k']
      by (auto simp: Get_simple_def split: option.split)
  qed
qed

lemma Delete_simple_ok:
  assumes "simple_inv c"
  shows "simple_inv (Delete_simple k c) \<and> Get_simple k' (Delete_simple k c) = (if k' = k then None else Get_simple k' c)"
proof (cases "accessMap c k")
  case None
  then show ?thesis using assms by (simp add: Delete_simple_def Get_simple_def)
next
  case (Some i)
  note p = simple_present [OF assms Some]
  let ?d = "Delete_simple k c"
  have d: "distinct (map fst (iterateList c))" "distinct (map (\<lambda>p. simple_key (snd p)) (iterateList c))"
    using assms by (simp_all add: simple_inv_def)
  have it: "iterateList ?d = filter (\<lambda>p. fst p \<noteq> i) (iterateList c)" and ac: "accessMap ?d = (accessMap c)(k := None)"
    and ns: "nextSimple ?d = nextSimple c"
    using Some p by (simp_all add: Delete_simple_def Let_def)
  have inv: "simple_inv ?d"
    using assms index_by_remove [OF d p(1)] p(2) d
    by (simp add: simple_inv_def it ac ns distinct_sublist list_all_iff)
  have "simple_element ?d j = simple_element c j" if "(j, e) \<in> set (iterateList c)" "j \<noteq> i" for j e
    using that simple_element_eq [OF inv, of j e] simple_element_eq [OF assms, of j e] it by simp
  moreover have "accessMap c k' \<noteq> Some i" if "k' \<noteq> k" using that p(2) simple_present(2) [OF assms, of k' i] by auto
  ultimately show ?thesis using inv simple_present(1) [OF assms, of k']
    by (auto simp: Get_simple_def ac split: option.split)
qed

section \<open>The contract\<close>

text \<open>A cache that forgets nothing: a read returns the last write.\<close>

locale exact_cache = cache_contract +
  assumes get_exact: "inv c \<Longrightarrow> fst (get now k c) = lookup c k"
    and get_keeps: "inv c \<Longrightarrow> lookup (snd (get now k c)) k' = lookup c k'"
    and put_exact: "inv c \<Longrightarrow> fits v \<Longrightarrow> lookup (put now k v c) k' = (if k' = k then Some v else lookup c k')"
    and del_exact: "inv c \<Longrightarrow> lookup (del k c) k' = (if k' = k then None else lookup c k')"
begin

lemma lookup_is_last_write:
  "inv c \<Longrightarrow> list_all fits (put_values ops) \<Longrightarrow> lookup (run_ops get put del ops c) k = last_write k ops (lookup c k)"
proof (induction ops arbitrary: c)
  case (Cons op ops)
  then show ?case
    by (cases op) (auto simp: get_inv put_inv del_inv get_keeps put_exact del_exact)
qed simp

lemma read_is_last_write:
  "inv c \<Longrightarrow> list_all fits (put_values ops) \<Longrightarrow>
   fst (get now k (run_ops get put del ops c)) = last_write k ops (lookup c k)"
  by (simp add: get_exact run_ops_inv lookup_is_last_write)

end

definition simple_get :: "int \<Rightarrow> 'k \<Rightarrow> ('k, 'v) simple \<Rightarrow> 'v option \<times> ('k, 'v) simple" where
  "simple_get now k c = (Get_simple k c, c)"

definition simple_put :: "int \<Rightarrow> 'k \<Rightarrow> 'v \<Rightarrow> ('k, 'v) simple \<Rightarrow> ('k, 'v) simple" where
  "simple_put now k v c = snd (Put_simple k v c)"

lemma simple_put_ok:
  "simple_inv c \<Longrightarrow> simple_inv (simple_put now k v c) \<and>
   Get_simple k' (simple_put now k v c) = (if k' = k then Some v else Get_simple k' c)"
  using putInternal_simple_ok [of c k v True "fst (Put_simple k v c)" "snd (Put_simple k v c)" k']
  by (simp add: simple_put_def Put_simple_def)

interpretation simple_cache: exact_cache simple_get simple_put Delete_simple simple_inv "\<lambda>_. True" "\<lambda>c k. Get_simple k c"
  by unfold_locales (simp_all add: simple_get_def simple_put_ok Delete_simple_ok)

section \<open>Properties\<close>

text \<open>A read of the simple cache returns the value last put under the key, or nothing after its deletion.\<close>

theorem Simple_read_is_last_write:
  "fst (simple_get now k (run_ops simple_get simple_put Delete_simple ops NewSimple)) = last_write k ops None"
proof -
  have "simple_inv NewSimple" by (simp add: simple_inv_def NewSimple_def index_by_def fun_eq_iff)
  from simple_cache.read_is_last_write [OF this, of ops now k] show ?thesis
    by (simp add: list_all_iff Get_simple_def NewSimple_def)
qed

text \<open>\<open>PutIfNotExist\<close> never replaces a value: it returns the one that stays in the cache.\<close>

theorem Simple_PutIfNotExist_keeps:
  assumes "simple_inv c" "PutIfNotExist_simple k v c = (r, c')"
  shows "Get_simple k c' = Some r \<and> r = (case Get_simple k c of None \<Rightarrow> v | Some w \<Rightarrow> w) \<and>
    (k' = k \<or> Get_simple k' c' = Get_simple k' c)"
proof -
  obtain x d where x: "putInternal_simple k v False c = (x, d)" by fastforce
  note ok = putInternal_simple_ok [OF assms(1) x]
  have "c' = d" "r = (case x of None \<Rightarrow> v | Some w \<Rightarrow> w)"
    using assms(2) x by (auto simp: PutIfNotExist_simple_def split: option.splits)
  with ok [of k] ok [of k'] show ?thesis by (cases x) auto
qed

theorem Simple_PutIfNotExist_keeps_witness:
  "PutIfNotExist_simple (1::nat) (5::nat) (snd (Put_simple 1 4 NewSimple)) = (4, snd (Put_simple 1 4 NewSimple)) \<and>
   Get_simple (1::nat) (snd (Put_simple 1 (4::nat) NewSimple)) = Some 4"
proof -
  let ?c = "snd (Put_simple (1::nat) (4::nat) NewSimple)"
  have inv: "simple_inv ?c"
    by (simp add: simple_inv_def NewSimple_def index_by_def fun_eq_iff Put_simple_def putInternal_simple_def)
  have run: "PutIfNotExist_simple 1 5 ?c = (4, ?c)"
    by (simp add: PutIfNotExist_simple_def putInternal_simple_def Put_simple_def NewSimple_def simple_element_def)
  from Simple_PutIfNotExist_keeps [OF inv run, of 1] run show ?thesis by simp
qed

end
