(* ===== verification/CivilTime.thy ===== *)
theory CivilTime
  imports Prelude "HOL-Library.Product_Lexorder"
begin

text \<open>
  What the schedules use of the package \<open>time\<close>: the proleptic Gregorian calendar, \<open>Date\<close>, \<open>Clock\<close>,
  \<open>Weekday\<close>, \<open>time.Date\<close> and \<open>In\<close>. An instant is a number of seconds since 1970 in UTC; a location is the
  function \<open>lookup\<close> of its zone table, from an instant to the offset in force and the period for which
  it is. \<open>isLeapYear\<close> and \<open>daysInMonth\<close> are those of \<open>service/worker/scheduler/calendar.go\<close>.
\<close>

definition isLeapYear :: "int \<Rightarrow> bool" where
  "isLeapYear y \<longleftrightarrow> y mod 4 = 0 \<and> (y mod 100 \<noteq> 0 \<or> y mod 400 = 0)"

text \<open>The constant is \<open>0b1010110101010\<close>: bit \<open>m\<close> says that month \<open>m\<close> has 31 days.\<close>

definition daysInMonth :: "int \<Rightarrow> int \<Rightarrow> int" where
  "daysInMonth m y =
     (if m = 2 then if isLeapYear y then 29 else 28 else 30 + drop_bit (nat m) 5546 mod 2)"

section \<open>Days\<close>

text \<open>Days before a year, from the first of January of the year 0.\<close>

definition days_before_year :: "int \<Rightarrow> int" where
  "days_before_year y = 365 * y + (y + 3) div 4 - (y + 99) div 100 + (y + 399) div 400"

definition days_before_month :: "int \<Rightarrow> int \<Rightarrow> int" where
  "days_before_month mo y = sum_list (map (\<lambda>k. daysInMonth k y) [1..mo - 1])"

definition epoch_days :: int where
  "epoch_days = 719528"

definition day_number :: "int \<Rightarrow> int \<Rightarrow> int \<Rightarrow> int" where
  "day_number y mo d = days_before_year y + days_before_month mo y + d - 1"

definition year_of :: "int \<Rightarrow> int" where
  "year_of n =
     (let y = 400 * n div 146097
      in if days_before_year (y + 1) \<le> n then y + 1 else if n < days_before_year y then y - 1 else y)"

function month_search :: "int \<Rightarrow> int \<Rightarrow> int \<Rightarrow> int \<times> int" where
  "month_search y mo doy =
     (if doy < daysInMonth mo y \<or> 12 \<le> mo then (mo, doy + 1) else month_search y (mo + 1) (doy - daysInMonth mo y))"
  by pat_completeness auto
termination by (relation "measure (\<lambda>(y, mo, doy). nat (12 - mo))") auto

declare month_search.simps [simp del]

section \<open>Civil time\<close>

record civil =
  cv_year :: int
  cv_month :: int
  cv_day :: int
  cv_hour :: int
  cv_minute :: int
  cv_second :: int

definition valid_civil :: "civil \<Rightarrow> bool" where
  "valid_civil c \<longleftrightarrow> 1 \<le> cv_month c \<and> cv_month c \<le> 12 \<and> 1 \<le> cv_day c \<and> cv_day c \<le> daysInMonth (cv_month c) (cv_year c) \<and>
     0 \<le> cv_hour c \<and> cv_hour c < 24 \<and> 0 \<le> cv_minute c \<and> cv_minute c < 60 \<and> 0 \<le> cv_second c \<and> cv_second c < 60"

definition ymdhms :: "civil \<Rightarrow> int \<times> int \<times> int \<times> int \<times> int \<times> int" where
  "ymdhms c = (cv_year c, cv_month c, cv_day c, cv_hour c, cv_minute c, cv_second c)"

text \<open>\<open>time.Date\<close> normalises the month and carries everything else over into the next unit.\<close>

definition civil_seconds :: "civil \<Rightarrow> int" where
  "civil_seconds c =
     (let y = cv_year c + (cv_month c - 1) div 12; mo = (cv_month c - 1) mod 12 + 1
      in (day_number y mo (cv_day c) - epoch_days) * 86400 + cv_hour c * 3600 + cv_minute c * 60 + cv_second c)"

definition civil_of :: "int \<Rightarrow> civil" where
  "civil_of t =
     (let n = t div 86400 + epoch_days; sod = t mod 86400; y = year_of n; (mo, d) = month_search y 1 (n - days_before_year y)
      in \<lparr>cv_year = y, cv_month = mo, cv_day = d, cv_hour = sod div 3600, cv_minute = sod mod 3600 div 60, cv_second = sod mod 60\<rparr>)"

definition weekday_of :: "int \<Rightarrow> int" where
  "weekday_of t = (t div 86400 + 4) mod 7"

text \<open>
  \<open>time.Date\<close> in a location: it guesses the offset at the local time taken as UTC and looks it up again
  if the result is not in the period of that offset.
\<close>

type_synonym location = "int \<Rightarrow> int \<times> int \<times> int"

definition offset_at :: "location \<Rightarrow> int \<Rightarrow> int" where
  "offset_at tz t = fst (tz t)"

definition go_Date :: "location \<Rightarrow> civil \<Rightarrow> int" where
  "go_Date tz c =
     (let unix = civil_seconds c; (off, period_start, period_end) = tz unix
      in if off = 0 then unix
         else let utc = unix - off; off' = if utc < period_start \<or> period_end \<le> utc then offset_at tz utc else off
              in unix - off')"

definition local_civil :: "location \<Rightarrow> int \<Rightarrow> civil" where
  "local_civil tz t = civil_of (t + offset_at tz t)"

definition go_Weekday :: "location \<Rightarrow> int \<Rightarrow> int" where
  "go_Weekday tz t = weekday_of (t + offset_at tz t)"

definition fixed_zone :: "location \<Rightarrow> bool" where
  "fixed_zone tz \<longleftrightarrow> (\<forall>t. offset_at tz t = offset_at tz 0)"

definition UTC :: location where
  "UTC = (\<lambda>t. (0, - (2 ^ 63), 2 ^ 63 - 1))"

section \<open>The calendar\<close>

lemma daysInMonth_cases:
  "1 \<le> m \<Longrightarrow> m \<le> 12 \<Longrightarrow>
   daysInMonth m y = (if m = 2 then if isLeapYear y then 29 else 28 else if m \<in> {4, 6, 9, 11} then 30 else 31)"
proof -
  assume "1 \<le> m" "m \<le> 12"
  then have "m \<in> set [1..12]" by simp
  then have "m \<in> {1, 2, 3, 4, 5, 6, 7, 8, 9, 10, 11, 12}" by (simp add: upto.simps)
  then show ?thesis by (auto simp: daysInMonth_def drop_bit_eq_div nat_numeral)
qed

lemma daysInMonth_bounds: "1 \<le> m \<Longrightarrow> m \<le> 12 \<Longrightarrow> 28 \<le> daysInMonth m y \<and> daysInMonth m y \<le> 31"
  by (simp add: daysInMonth_cases)

lemma ceiling_div:
  fixes y k :: int
  assumes "0 < k" "c = k - 1"
  shows "(y + k) div k = (y + c) div k + (if y mod k = 0 then 1 else 0)"
proof -
  have "y + c = y mod k + (k - 1) + k * (y div k)" using assms(2) mult_div_mod_eq [of k y] by linarith
  then have "(y + c) div k = (y mod k + (k - 1) + k * (y div k)) div k" by simp
  also have "\<dots> = y div k + (y mod k + (k - 1)) div k" using assms(1) by (subst div_mult_self2) simp_all
  also have "(y mod k + (k - 1)) div k = (if y mod k = 0 then 0 else 1)"
  proof (cases "y mod k = 0")
    case False
    with assms(1) pos_mod_sign [of k y] pos_mod_bound [of k y] have r: "0 \<le> y mod k - 1" "y mod k - 1 < k" by linarith+
    have "(y mod k + (k - 1)) div k = (y mod k - 1 + k) div k" by (simp add: algebra_simps)
    also have "\<dots> = (y mod k - 1) div k + 1" using assms(1) by (subst div_add_self2) simp_all
    finally show ?thesis using False div_pos_pos_trivial [OF r] by simp
  qed (use assms(1) in simp)
  finally show ?thesis using assms(1) div_add_self2 [of k y] by simp
qed

lemma leap_sum:
  fixes y a b c :: int
  assumes "P400 \<Longrightarrow> P100" "P100 \<Longrightarrow> P4"
  shows "365 * (y + 1) + (a + (if P4 then 1 else 0)) - (b + (if P100 then 1 else 0)) + (c + (if P400 then 1 else 0)) =
    365 * y + a - b + c + (if P4 \<and> (\<not> P100 \<or> P400) then 366 else 365)"
  using assms by (cases P4; cases P100; cases P400) simp_all

lemma days_before_year_Suc: "days_before_year (y + 1) = days_before_year y + (if isLeapYear y then 366 else 365)"
proof -
  have next_year: "y + 1 + 3 = y + 4" "y + 1 + 99 = y + 100" "y + 1 + 399 = y + 400" by simp_all
  have step: "(y + 4) div 4 = (y + 3) div 4 + (if y mod 4 = 0 then 1 else 0)"
    "(y + 100) div 100 = (y + 99) div 100 + (if y mod 100 = 0 then 1 else 0)"
    "(y + 400) div 400 = (y + 399) div 400 + (if y mod 400 = 0 then 1 else 0)"
    by (rule ceiling_div; simp)+
  have "400 dvd y \<Longrightarrow> 100 dvd y" by (rule dvd_trans [of _ 400]) simp_all
  then have a: "y mod 400 = 0 \<Longrightarrow> y mod 100 = 0" by (simp only: mod_eq_0_iff_dvd)
  have "100 dvd y \<Longrightarrow> 4 dvd y" by (rule dvd_trans [of _ 100]) simp_all
  then have b: "y mod 100 = 0 \<Longrightarrow> y mod 4 = 0" by (simp only: mod_eq_0_iff_dvd)
  show ?thesis
    unfolding days_before_year_def isLeapYear_def next_year step
    using a b by (rule leap_sum)
qed

lemma days_before_year_mono: "y \<le> z \<Longrightarrow> days_before_year y \<le> days_before_year z"
proof (induction z rule: int_ge_induct)
  case (step z)
  with days_before_year_Suc [of z] show ?case by (simp split: if_splits)
qed simp

lemma days_before_month_1 [simp]: "days_before_month 1 y = 0"
  by (simp add: days_before_month_def)

lemma days_before_month_Suc:
  "1 \<le> mo \<Longrightarrow> days_before_month (mo + 1) y = days_before_month mo y + daysInMonth mo y"
  by (simp add: days_before_month_def upto_rec2)

lemma days_before_month_mono:
  "mo \<le> mo' \<Longrightarrow> 1 \<le> mo \<Longrightarrow> mo' \<le> 13 \<Longrightarrow> days_before_month mo y \<le> days_before_month mo' y"
proof (induction mo' rule: int_ge_induct)
  case (step k)
  with days_before_month_Suc [of k y] daysInMonth_bounds [of k y] show ?case by simp
qed simp

lemma days_before_month_13: "days_before_month 13 y = (if isLeapYear y then 366 else 365)"
proof -
  have "days_before_month 13 y = sum_list (map (\<lambda>k. daysInMonth k y) [1..12])" by (simp add: days_before_month_def)
  also have "[1..12] = [1, 2, 3, 4, 5, 6, 7, 8, 9, 10, 11, 12 :: int]" by (simp add: upto.simps)
  finally show ?thesis by (simp add: daysInMonth_cases)
qed

text \<open>The day numbers are ordered as the dates.\<close>

lemma day_in_year:
  assumes "1 \<le> mo" "mo \<le> 12" "1 \<le> d" "d \<le> daysInMonth mo y"
  shows "days_before_year y \<le> day_number y mo d" "day_number y mo d < days_before_year (y + 1)"
proof -
  have "days_before_month mo y \<ge> 0" using days_before_month_mono [of 1 mo y] assms by simp
  with assms(3) show "days_before_year y \<le> day_number y mo d" by (simp add: day_number_def)
  have "days_before_month (mo + 1) y \<le> days_before_month 13 y" using assms by (intro days_before_month_mono) auto
  then show "day_number y mo d < days_before_year (y + 1)"
    using assms days_before_month_Suc [of mo y] by (simp add: day_number_def days_before_year_Suc days_before_month_13 split: if_splits)
qed

lemma day_number_less:
  assumes "1 \<le> mo" "mo \<le> 12" "1 \<le> d" "d \<le> daysInMonth mo y"
    and "1 \<le> mo'" "mo' \<le> 12" "1 \<le> d'" "d' \<le> daysInMonth mo' y'"
    and "(y, mo, d) < (y', mo', d')"
  shows "day_number y mo d < day_number y' mo' d'"
proof -
  consider "y < y'" | "y = y'" "mo < mo'" | "y = y'" "mo = mo'" "d < d'" using assms(9) by (auto simp: le_less)
  then show ?thesis
  proof cases
    case 1
    then have "days_before_year (y + 1) \<le> days_before_year y'" by (intro days_before_year_mono) simp
    with day_in_year(2) [OF assms(1-4)] day_in_year(1) [OF assms(5-8)] show ?thesis by simp
  next
    case 2
    then have "days_before_month (mo + 1) y \<le> days_before_month mo' y" using assms by (intro days_before_month_mono) auto
    with 2 assms days_before_month_Suc [of mo y] show ?thesis by (simp add: day_number_def)
  next
    case 3
    then show ?thesis by (simp add: day_number_def)
  qed
qed

lemma year_of_bounds: "days_before_year (year_of n) \<le> n" "n < days_before_year (year_of n + 1)"
proof -
  define y where "y = 400 * n div 146097"
  have y: "146097 * y \<le> 400 * n" "400 * n < 146097 * (y + 1)" by (simp_all add: y_def)
  have dby: "400 * days_before_year z \<le> 146097 * z + 699 \<and> 146097 * z - 396 \<le> 400 * days_before_year z" for z
  proof -
    have bounds: "k * (x div k) \<le> x" "x < k * (x div k) + k" if "0 < k" for x k :: int
      using that mult_div_mod_eq [of k x] pos_mod_sign [of k x] pos_mod_bound [of k x] by linarith+
    have "400 * (365 * z + a - b + c) \<le> 146097 * z + 699 \<and> 146097 * z - 396 \<le> 400 * (365 * z + a - b + c)"
      if "4 * a \<le> z + 3" "z + 3 < 4 * a + 4" "100 * b \<le> z + 99" "z + 99 < 100 * b + 100"
        "400 * c \<le> z + 399" "z + 399 < 400 * c + 400" for a b c :: int
      using that by simp
    then show ?thesis unfolding days_before_year_def by this (rule bounds, simp)+
  qed
  have "days_before_year (y - 1) \<le> n" using y conjunct1 [OF dby [of "y - 1"]] by (simp add: algebra_simps)
  moreover have up: "n < days_before_year (y + 2)" using y conjunct2 [OF dby [of "y + 2"]] by (simp add: algebra_simps)
  moreover have "year_of n = (if days_before_year (y + 1) \<le> n then y + 1 else if n < days_before_year y then y - 1 else y)"
    by (simp add: year_of_def y_def Let_def)
  moreover have "n < days_before_year (2 + y)" using up by (simp add: add.commute)
  ultimately show "days_before_year (year_of n) \<le> n" "n < days_before_year (year_of n + 1)" by auto
qed

lemma month_search_ok:
  assumes "0 \<le> doy" "1 \<le> mo" "mo \<le> 12" "doy + days_before_month mo y < days_before_month 13 y"
    and "month_search y mo doy = (mo', d')"
  shows "1 \<le> mo' \<and> mo' \<le> 12 \<and> 1 \<le> d' \<and> d' \<le> daysInMonth mo' y \<and>
    days_before_month mo' y + d' - 1 = days_before_month mo y + doy"
  using assms
proof (induction y mo doy rule: month_search.induct)
  case (1 y mo doy)
  show ?case
  proof (cases "doy < daysInMonth mo y")
    case True
    with 1(2-6) show ?thesis by (auto simp: month_search.simps)
  next
    case False
    have "mo \<noteq> 12" using False 1(3,5) days_before_month_Suc [of mo y] by auto
    with False 1(4) have rec: "month_search y (mo + 1) (doy - daysInMonth mo y) = (mo', d')" "\<not> 12 \<le> mo"
      using 1(6) by (auto simp: month_search.simps [of y mo doy])
    from 1(1) [OF _ _ _ _ _ rec(1)] False rec(2) 1(2-5) days_before_month_Suc [of mo y] show ?thesis by simp
  qed
qed

section \<open>Instants and civil times\<close>

lemma day_seconds:
  assumes "0 \<le> sod" "sod < 86400"
  shows "0 \<le> sod div 3600" "sod div 3600 < 24" "0 \<le> sod mod 3600 div 60" "sod mod 3600 div 60 < 60"
    "0 \<le> sod mod 60" "sod mod 60 < 60" "sod div 3600 * 3600 + sod mod 3600 div 60 * 60 + sod mod 60 = (sod :: int)"
proof -
  have "sod mod 3600 mod 60 = sod mod 60" by (rule mod_mod_cancel) simp
  moreover have "sod div 3600 * 3600 + sod mod 3600 = sod" by (rule div_mult_mod_eq)
  moreover have "sod mod 3600 div 60 * 60 + sod mod 3600 mod 60 = sod mod 3600" by (rule div_mult_mod_eq)
  ultimately show "sod div 3600 * 3600 + sod mod 3600 div 60 * 60 + sod mod 60 = sod" by linarith
qed (use assms in \<open>simp_all add: div_less_iff_less_mult pos_imp_zdiv_nonneg_iff\<close>)

lemma civil_seconds_valid:
  "valid_civil c \<Longrightarrow> civil_seconds c =
   (day_number (cv_year c) (cv_month c) (cv_day c) - epoch_days) * 86400 + cv_hour c * 3600 + cv_minute c * 60 + cv_second c"
  by (simp add: civil_seconds_def valid_civil_def Let_def mod_pos_pos_trivial div_pos_pos_trivial)

lemma civil_of_ok: "valid_civil (civil_of t)" "civil_seconds (civil_of t) = t"
proof -
  define n where "n = t div 86400 + epoch_days"
  define y where "y = year_of n"
  obtain mo d where md: "month_search y 1 (n - days_before_year y) = (mo, d)" by fastforce
  have "0 \<le> n - days_before_year y" "n - days_before_year y + days_before_month 1 y < days_before_month 13 y"
    using year_of_bounds [of n] days_before_year_Suc [of y] days_before_month_13 [of y] by (simp_all add: y_def split: if_splits)
  from month_search_ok [OF this(1) _ _ this(2) md]
  have day: "1 \<le> mo \<and> mo \<le> 12 \<and> 1 \<le> d \<and> d \<le> daysInMonth mo y" and number: "day_number y mo d = n"
    by (simp_all add: day_number_def)
  define sod where "sod = t mod 86400"
  have "0 \<le> sod" "sod < 86400" by (simp_all add: sod_def)
  note sec = day_seconds [OF this]
  have c: "civil_of t = \<lparr>cv_year = y, cv_month = mo, cv_day = d, cv_hour = sod div 3600,
      cv_minute = sod mod 3600 div 60, cv_second = sod mod 60\<rparr>"
    using md by (simp add: civil_of_def n_def y_def sod_def Let_def)
  show v: "valid_civil (civil_of t)" unfolding c valid_civil_def using day sec by simp
  have "civil_seconds (civil_of t) = (n - epoch_days) * 86400 + sod"
    using civil_seconds_valid [OF v] sec(7) number by (simp add: c)
  also have "\<dots> = t" using div_mult_mod_eq [of t 86400] by (simp add: n_def sod_def)
  finally show "civil_seconds (civil_of t) = t" .
qed

lemma civil_seconds_less:
  assumes "valid_civil a" "valid_civil b" "ymdhms a < ymdhms b"
  shows "civil_seconds a < civil_seconds b"
proof -
  define day where "day c = (cv_year c, cv_month c, cv_day c)" for c :: civil
  define num where "num c = day_number (cv_year c) (cv_month c) (cv_day c)" for c :: civil
  define sod where "sod c = cv_hour c * 3600 + cv_minute c * 60 + cv_second c" for c :: civil
  have sec: "civil_seconds c = (num c - epoch_days) * 86400 + sod c" if "valid_civil c" for c
    using civil_seconds_valid [OF that] by (simp add: num_def sod_def)
  have sod: "0 \<le> sod c" "sod c < 86400" if "valid_civil c" for c using that by (auto simp: valid_civil_def sod_def)
  have "day a < day b \<or> day a = day b \<and> (cv_hour a, cv_minute a, cv_second a) < (cv_hour b, cv_minute b, cv_second b)"
    using assms(3) by (auto simp: ymdhms_def day_def le_less)
  then show ?thesis
  proof
    assume "day a < day b"
    then have "num a < num b"
      unfolding num_def day_def using assms(1,2) by (intro day_number_less) (simp_all add: valid_civil_def)
    then have "(num a - epoch_days + 1) * 86400 \<le> (num b - epoch_days) * 86400" by (intro mult_right_mono) simp_all
    then have "(num a - epoch_days) * 86400 + 86400 \<le> (num b - epoch_days) * 86400" by (simp only: distrib_right mult_1)
    then show ?thesis unfolding sec [OF assms(1)] sec [OF assms(2)]
      using sod(2) [OF assms(1)] sod(1) [OF assms(2)] by linarith
  next
    assume day: "day a = day b \<and> (cv_hour a, cv_minute a, cv_second a) < (cv_hour b, cv_minute b, cv_second b)"
    then consider "cv_hour a < cv_hour b" | "cv_hour a = cv_hour b" "cv_minute a < cv_minute b"
      | "cv_hour a = cv_hour b" "cv_minute a = cv_minute b" "cv_second a < cv_second b"
      by (auto simp: le_less)
    then have "sod a < sod b" unfolding sod_def using assms(1,2) unfolding valid_civil_def by cases linarith+
    moreover have "num a = num b" using day by (simp add: num_def day_def)
    ultimately show ?thesis using sec assms(1,2) by simp
  qed
qed

lemma ymdhms_eq: "ymdhms a = ymdhms b \<longleftrightarrow> a = b"
  by (cases a; cases b) (auto simp: ymdhms_def)

lemma civil_order:
  assumes "valid_civil a" "valid_civil b"
  shows "civil_seconds a < civil_seconds b \<longleftrightarrow> ymdhms a < ymdhms b"
proof -
  consider "ymdhms a < ymdhms b" | "a = b" | "ymdhms b < ymdhms a"
    using linorder_less_linear [of "ymdhms a" "ymdhms b"] ymdhms_eq by blast
  then show ?thesis
    using civil_seconds_less [OF assms] civil_seconds_less [OF assms(2,1)] by cases auto
qed

lemma civil_unique:
  assumes "valid_civil c"
  shows "civil_of (civil_seconds c) = c"
proof -
  let ?d = "civil_of (civil_seconds c)"
  have "\<not> ymdhms ?d < ymdhms c" "\<not> ymdhms c < ymdhms ?d"
    using civil_seconds_less [OF civil_of_ok(1) assms] civil_seconds_less [OF assms civil_of_ok(1)] civil_of_ok(2) by fastforce+
  then show ?thesis using linorder_less_linear [of "ymdhms ?d" "ymdhms c"] ymdhms_eq by blast
qed

lemma weekday_of_civil:
  assumes "valid_civil c"
  shows "weekday_of (civil_seconds c) = (day_number (cv_year c) (cv_month c) (cv_day c) - epoch_days + 4) mod 7"
proof -
  define D where "D = day_number (cv_year c) (cv_month c) (cv_day c) - epoch_days"
  define r where "r = cv_hour c * 3600 + cv_minute c * 60 + cv_second c"
  have "r div 86400 = 0" using assms by (intro div_pos_pos_trivial) (auto simp: valid_civil_def r_def)
  moreover have "civil_seconds c = r + D * 86400" using civil_seconds_valid [OF assms] by (simp add: D_def r_def)
  ultimately have "civil_seconds c div 86400 = D" by simp
  then show ?thesis by (simp add: weekday_of_def D_def)
qed

text \<open>A location with a fixed offset.\<close>

lemma fixed_Date:
  assumes "fixed_zone tz"
  shows "go_Date tz c = civil_seconds c - offset_at tz 0"
proof -
  obtain off st en where tz: "tz (civil_seconds c) = (off, st, en)" by (cases "tz (civil_seconds c)")
  have all: "offset_at tz t = offset_at tz 0" for t using assms by (simp add: fixed_zone_def)
  from all [of "civil_seconds c"] tz have off: "off = offset_at tz 0" by (simp add: offset_at_def)
  show ?thesis unfolding go_Date_def Let_def tz by (simp add: off all [of "civil_seconds c - offset_at tz 0"])
qed

lemma fixed_civil: "fixed_zone tz \<Longrightarrow> local_civil tz t = civil_of (t + offset_at tz 0)"
  unfolding local_civil_def fixed_zone_def by metis

lemma fixed_Weekday: "fixed_zone tz \<Longrightarrow> go_Weekday tz t = weekday_of (t + offset_at tz 0)"
  unfolding go_Weekday_def fixed_zone_def by metis

lemma fixed_UTC: "fixed_zone UTC" "offset_at UTC 0 = 0"
  by (simp_all add: fixed_zone_def offset_at_def UTC_def)

end
