(* ===== verification/ScheduleCalendar.thy ===== *)
theory ScheduleCalendar
  imports CivilTime "HOL-Library.Word"
begin

unbundle bit_operations_syntax

text \<open>
  Calendars of a schedule (\<open>service/worker/scheduler/calendar.go\<close>): the compilation of the ranges of a
  structured calendar into predicates on the fields of a local time, \<open>matches\<close>, and \<open>next\<close>, which
  searches the earliest matching time after a given one. The structured calendar is a message of the
  API; times have one second resolution.
\<close>

section \<open>Ranges\<close>

record cal_range =
  Start :: int
  End :: int
  Step :: int

record structured_calendar =
  Second :: "cal_range list"
  Minute :: "cal_range list"
  Hour :: "cal_range list"
  DayOfMonth :: "cal_range list"
  Month :: "cal_range list"
  Year :: "cal_range list"
  DayOfWeek :: "cal_range list"
  Comment :: string

text \<open>
  The callback returns the new state, or panics (\<open>None\<close>). With a negative step the loop of a range ends
  only by a panic.
\<close>

partial_function (option) range_loop :: "(int \<Rightarrow> 's \<Rightarrow> 's option) \<Rightarrow> int \<Rightarrow> int \<Rightarrow> int \<Rightarrow> 's \<Rightarrow> 's option" where
  "range_loop f start stop step s =
     (if start \<le> stop then (case f start s of None \<Rightarrow> None | Some s' \<Rightarrow> range_loop f (start + step) stop step s')
      else Some s)"

declare range_loop.simps [code]

definition range_step :: "cal_range \<Rightarrow> int" where
  "range_step r = (if Step r = 0 then 1 else Step r)"

definition range_end :: "cal_range \<Rightarrow> int" where
  "range_end r = (if End r < Start r then Start r else End r)"

fun iterateRanges :: "cal_range list \<Rightarrow> (int \<Rightarrow> 's \<Rightarrow> 's option) \<Rightarrow> 's \<Rightarrow> 's option" where
  "iterateRanges [] f s = Some s"
| "iterateRanges (r # rs) f s =
     (case range_loop f (Start r) (range_end r) (range_step r) s of
        None \<Rightarrow> None
      | Some s' \<Rightarrow> iterateRanges rs f s')"

section \<open>Matchers\<close>

text \<open>A shift by a negative amount panics; a shift out of the word gives zero.\<close>

definition add_bit :: "int \<Rightarrow> 64 word \<Rightarrow> 64 word option" where
  "add_bit i bits = (if i < 0 then None else Some (bits OR push_bit (nat i) 1))"

definition bit_matches :: "64 word \<Rightarrow> int \<Rightarrow> bool" where
  "bit_matches bits v \<longleftrightarrow> push_bit (nat v) 1 AND bits \<noteq> 0"

definition makeBitMatcher :: "cal_range list \<Rightarrow> (int \<Rightarrow> bool) option" where
  "makeBitMatcher ranges = map_option bit_matches (iterateRanges ranges add_bit 0)"

definition i16 :: "int \<Rightarrow> int" where
  "i16 x = (x + 2 ^ 15) mod 2 ^ 16 - 2 ^ 15"

definition makeYearMatcher :: "cal_range list \<Rightarrow> (int \<Rightarrow> bool) option" where
  "makeYearMatcher ranges =
     (if ranges = [] then Some (\<lambda>v. True)
      else map_option (\<lambda>values v. list_ex (\<lambda>x. x = v) values) (iterateRanges ranges (\<lambda>i values. Some (values @ [i16 i])) []))"

record compiledCalendar =
  cc_tz :: location
  cc_year :: "int \<Rightarrow> bool"
  cc_month :: "int \<Rightarrow> bool"
  cc_dayOfMonth :: "int \<Rightarrow> bool"
  cc_dayOfWeek :: "int \<Rightarrow> bool"
  cc_hour :: "int \<Rightarrow> bool"
  cc_minute :: "int \<Rightarrow> bool"
  cc_second :: "int \<Rightarrow> bool"

definition newCompiledCalendar :: "structured_calendar \<Rightarrow> location \<Rightarrow> compiledCalendar option" where
  "newCompiledCalendar cal tz =
     (case makeYearMatcher (Year cal) of None \<Rightarrow> None | Some y \<Rightarrow>
      case makeBitMatcher (Month cal) of None \<Rightarrow> None | Some mo \<Rightarrow>
      case makeBitMatcher (DayOfMonth cal) of None \<Rightarrow> None | Some d \<Rightarrow>
      case makeBitMatcher (DayOfWeek cal) of None \<Rightarrow> None | Some w \<Rightarrow>
      case makeBitMatcher (Hour cal) of None \<Rightarrow> None | Some h \<Rightarrow>
      case makeBitMatcher (Minute cal) of None \<Rightarrow> None | Some m \<Rightarrow>
      case makeBitMatcher (Second cal) of None \<Rightarrow> None | Some s \<Rightarrow>
      Some \<lparr>cc_tz = tz, cc_year = y, cc_month = mo, cc_dayOfMonth = d, cc_dayOfWeek = w, cc_hour = h, cc_minute = m, cc_second = s\<rparr>)"

definition cal_matches :: "compiledCalendar \<Rightarrow> int \<Rightarrow> bool" where
  "cal_matches cc ts =
     (let c = local_civil (cc_tz cc) ts in
      cc_year cc (cv_year c) \<and> cc_month cc (cv_month c) \<and> cc_dayOfMonth cc (cv_day c) \<and>
      cc_dayOfWeek cc (go_Weekday (cc_tz cc) ts) \<and> cc_hour cc (cv_hour c) \<and> cc_minute cc (cv_minute c) \<and>
      cc_second cc (cv_second c))"

section \<open>The next matching time\<close>

definition minCalendarYear :: int where "minCalendarYear = 2000"
definition maxCalendarYear :: int where "maxCalendarYear = 2100"

text \<open>The variables of the search: the fields of the local time and \<open>dstoffset\<close>, in seconds.\<close>

record cal_state = civil +
  dst :: int

abbreviation cal_st :: "int \<Rightarrow> int \<Rightarrow> int \<Rightarrow> int \<Rightarrow> int \<Rightarrow> int \<Rightarrow> int \<Rightarrow> cal_state" where
  "cal_st y mo d h m s off \<equiv>
     \<lparr>cv_year = y, cv_month = mo, cv_day = d, cv_hour = h, cv_minute = m, cv_second = s, dst = off\<rparr>"

definition date_of :: "location \<Rightarrow> cal_state \<Rightarrow> int" where
  "date_of tz st = go_Date tz (civil.truncate st)"

text \<open>The normalisation after carries at the head of the outer loop.\<close>

definition carry_second :: "cal_state \<Rightarrow> cal_state" where
  "carry_second st = (if cv_second st \<ge> 60 then st\<lparr>cv_minute := cv_minute st + 1, cv_second := 0\<rparr> else st)"

definition carry_minute :: "location \<Rightarrow> cal_state \<Rightarrow> cal_state" where
  "carry_minute tz st =
     (if cv_minute st \<ge> 60 then
        let prev = date_of tz (st\<lparr>cv_minute := 0, cv_second := 0\<rparr>);
            st = st\<lparr>cv_hour := cv_hour st + 1, cv_minute := 0\<rparr>;
            after = date_of tz (st\<lparr>cv_minute := 0, cv_second := 0\<rparr>)
        in if dst st = 0 \<and> after - prev > 3600 then st\<lparr>cv_hour := cv_hour st - 1, dst := 3600\<rparr> else st\<lparr>dst := 0\<rparr>
      else st)"

definition carry_hour :: "cal_state \<Rightarrow> cal_state" where
  "carry_hour st = (if cv_hour st \<ge> 24 then st\<lparr>cv_day := cv_day st + 1, cv_hour := 0\<rparr> else st)"

definition carry_day :: "cal_state \<Rightarrow> cal_state" where
  "carry_day st =
     (if cv_day st > daysInMonth (cv_month st) (cv_year st) then st\<lparr>cv_month := cv_month st + 1, cv_day := 1\<rparr> else st)"

definition carry_month :: "cal_state \<Rightarrow> cal_state" where
  "carry_month st = (if cv_month st > 12 then st\<lparr>cv_year := cv_year st + 1, cv_month := 1\<rparr> else st)"

definition normalize :: "location \<Rightarrow> cal_state \<Rightarrow> cal_state" where
  "normalize tz st = carry_month (carry_day (carry_hour (carry_minute tz (carry_second st))))"

text \<open>
  \<open>for !P(v) { v++; ...; if v >= limit { continue Outer } }\<close>: whether a value was found, and the value.
\<close>

function seek :: "(int \<Rightarrow> bool) \<Rightarrow> int \<Rightarrow> int \<Rightarrow> bool \<times> int" where
  "seek P limit v = (if P v then (True, v) else if v + 1 \<ge> limit then (False, v + 1) else seek P limit (v + 1))"
  by pat_completeness auto
termination by (relation "measure (\<lambda>(P, limit, v). nat (limit - v))") auto

declare seek.simps [simp del]

text \<open>Each field: \<open>Inl\<close> a state to continue the outer loop with, \<open>Inr\<close> the state in which the field matches.\<close>

definition seek_year :: "compiledCalendar \<Rightarrow> cal_state \<Rightarrow> cal_state + cal_state" where
  "seek_year cc st = (if cc_year cc (cv_year st) then Inr st else Inl (cal_st (cv_year st + 1) 1 1 0 0 0 0))"

definition seek_month :: "compiledCalendar \<Rightarrow> cal_state \<Rightarrow> cal_state + cal_state" where
  "seek_month cc st =
     (case seek (cc_month cc) 13 (cv_month st) of
        (ok, mo) \<Rightarrow>
          let st' = (if mo = cv_month st then st else cal_st (cv_year st) mo 1 0 0 0 0)
          in if ok then Inr st' else Inl st')"

text \<open>The weekday is that of the current hour, minute and second, which the first increment resets.\<close>

definition day_matches :: "compiledCalendar \<Rightarrow> cal_state \<Rightarrow> bool" where
  "day_matches cc st \<longleftrightarrow> cc_dayOfMonth cc (cv_day st) \<and> cc_dayOfWeek cc (go_Weekday (cc_tz cc) (date_of (cc_tz cc) st))"

definition seek_day :: "compiledCalendar \<Rightarrow> cal_state \<Rightarrow> cal_state + cal_state" where
  "seek_day cc st =
     (if day_matches cc st then Inr st
      else
        let y = cv_year st; mo = cv_month st; d = cv_day st + 1; limit = daysInMonth mo y + 1
        in if d \<ge> limit then Inl (cal_st y mo d 0 0 0 0)
           else case seek (\<lambda>d. day_matches cc (cal_st y mo d 0 0 0 0)) limit d of
             (ok, d') \<Rightarrow> if ok then Inr (cal_st y mo d' 0 0 0 0) else Inl (cal_st y mo d' 0 0 0 0))"

definition seek_hour :: "compiledCalendar \<Rightarrow> cal_state \<Rightarrow> cal_state + cal_state" where
  "seek_hour cc st =
     (case seek (cc_hour cc) 24 (cv_hour st) of
        (ok, h) \<Rightarrow>
          let st' = (if h = cv_hour st then st else st\<lparr>cv_hour := h, cv_minute := 0, cv_second := 0, dst := 0\<rparr>)
          in if ok then Inr st' else Inl st')"

definition seek_minute :: "compiledCalendar \<Rightarrow> cal_state \<Rightarrow> cal_state + cal_state" where
  "seek_minute cc st =
     (case seek (cc_minute cc) 60 (cv_minute st) of
        (ok, m) \<Rightarrow>
          let st' = (if m = cv_minute st then st else st\<lparr>cv_minute := m, cv_second := 0\<rparr>)
          in if ok then Inr st' else Inl st')"

definition seek_second :: "compiledCalendar \<Rightarrow> cal_state \<Rightarrow> cal_state + cal_state" where
  "seek_second cc st =
     (case seek (cc_second cc) 60 (cv_second st) of
        (ok, s) \<Rightarrow> if ok then Inr (st\<lparr>cv_second := s\<rparr>) else Inl (st\<lparr>cv_second := s\<rparr>))"

text \<open>A local time that a transition jumps over has another hour than the one it was made from.\<close>

definition found_time :: "compiledCalendar \<Rightarrow> cal_state \<Rightarrow> cal_state + int" where
  "found_time cc st =
     (let nextTs = date_of (cc_tz cc) st
      in if cv_hour (local_civil (cc_tz cc) nextTs) \<noteq> cv_hour st
         then Inl (st\<lparr>cv_hour := cv_hour st + 1, cv_minute := 0, cv_second := 0\<rparr>)
         else Inr (nextTs + dst st))"

definition match_fields :: "compiledCalendar \<Rightarrow> cal_state \<Rightarrow> cal_state + cal_state" where
  "match_fields cc st =
     bind_result (seek_year cc st) (\<lambda>st.
     bind_result (seek_month cc st) (\<lambda>st.
     bind_result (seek_day cc st) (\<lambda>st.
     bind_result (seek_hour cc st) (\<lambda>st.
     bind_result (seek_minute cc st) (\<lambda>st.
     seek_second cc st)))))"

definition search_step :: "compiledCalendar \<Rightarrow> cal_state \<Rightarrow> cal_state + int" where
  "search_step cc st = bind_result (match_fields cc st) (found_time cc)"

section \<open>The search ends\<close>

text \<open>Every step moves forward in the order of the fields, with \<open>dstoffset\<close> between the hour and the minute.\<close>

definition progress :: "cal_state \<Rightarrow> int \<times> int \<times> int \<times> int \<times> int \<times> int \<times> int" where
  "progress st = (cv_year st, cv_month st, cv_day st, cv_hour st, if dst st = 0 then 0 else 1, cv_minute st, cv_second st)"

lemma seek_bounds: "seek P limit v = (ok, v') \<Longrightarrow> v \<le> v' \<and> (\<not> ok \<longrightarrow> v < v' \<and> limit \<le> v') \<and>
    (v < limit \<longrightarrow> v' \<le> limit) \<and> (ok \<longrightarrow> P v') \<and> (\<forall>x. v \<le> x \<longrightarrow> x < v' \<longrightarrow> \<not> P x) \<and> (ok \<longrightarrow> v < limit \<longrightarrow> v' < limit)"
proof (induction P limit v rule: seek.induct)
  case (1 P limit v)
  have split: "v \<le> x \<longleftrightarrow> x = v \<or> v + 1 \<le> x" for x :: int by auto
  consider "P v" | "\<not> P v" "limit \<le> v + 1" | "\<not> P v" "\<not> limit \<le> v + 1" by blast
  then show ?case
  proof cases
    case 3
    then have "seek P limit (v + 1) = (ok, v')" using 1(2) by (simp add: seek.simps [of P limit v])
    from 1(1) [OF 3 this] 3 show ?thesis by (auto simp: split)
  qed (use 1(2) in \<open>auto simp: seek.simps [of P limit v]\<close>)
qed

definition advances :: "cal_state \<Rightarrow> cal_state + cal_state \<Rightarrow> bool" where
  "advances st r \<longleftrightarrow> (case r of Inl st' \<Rightarrow> progress st < progress st' | Inr st' \<Rightarrow> progress st \<le> progress st')"

lemma advances_bind:
  "advances st r \<Longrightarrow> (\<And>st'. r = Inr st' \<Longrightarrow> advances st' (f st')) \<Longrightarrow> advances st (bind_result r f)"
  by (cases r) (auto simp: advances_def split: sum.splits intro: order.strict_trans1 order_trans)

lemma advances_seeks:
  "advances st (seek_year cc st)" "advances st (seek_month cc st)" "advances st (seek_day cc st)"
  "advances st (seek_hour cc st)" "advances st (seek_minute cc st)" "advances st (seek_second cc st)"
proof -
  show "advances st (seek_year cc st)" by (simp add: seek_year_def advances_def progress_def)
  show "advances st (seek_month cc st)"
    using seek_bounds [of "cc_month cc" 13 "cv_month st"]
    by (cases "seek (cc_month cc) 13 (cv_month st)") (auto simp: seek_month_def advances_def progress_def Let_def)
  show "advances st (seek_day cc st)"
    using seek_bounds [of "\<lambda>d. day_matches cc (cal_st (cv_year st) (cv_month st) d 0 0 0 0)"
        "daysInMonth (cv_month st) (cv_year st) + 1" "cv_day st + 1"]
    by (cases "seek (\<lambda>d. day_matches cc (cal_st (cv_year st) (cv_month st) d 0 0 0 0))
          (daysInMonth (cv_month st) (cv_year st) + 1) (cv_day st + 1)")
      (auto simp: seek_day_def advances_def progress_def Let_def)
  show "advances st (seek_hour cc st)"
    using seek_bounds [of "cc_hour cc" 24 "cv_hour st"]
    by (cases "seek (cc_hour cc) 24 (cv_hour st)") (auto simp: seek_hour_def advances_def progress_def Let_def)
  show "advances st (seek_minute cc st)"
    using seek_bounds [of "cc_minute cc" 60 "cv_minute st"]
    by (cases "seek (cc_minute cc) 60 (cv_minute st)") (auto simp: seek_minute_def advances_def progress_def Let_def)
  show "advances st (seek_second cc st)"
    using seek_bounds [of "cc_second cc" 60 "cv_second st"]
    by (cases "seek (cc_second cc) 60 (cv_second st)") (auto simp: seek_second_def advances_def progress_def Let_def)
qed

lemma match_fields_advances: "advances st (match_fields cc st)"
  unfolding match_fields_def by (intro advances_bind advances_seeks)

lemma search_step_progress:
  assumes "search_step cc st = Inl st'"
  shows "progress st < progress st'"
proof (cases "match_fields cc st")
  case (Inl a)
  with assms match_fields_advances [of st cc] show ?thesis by (simp add: search_step_def advances_def)
next
  case (Inr st2)
  with assms have "found_time cc st2 = Inl st'" by (simp add: search_step_def)
  then have "progress st2 < progress st'" by (auto simp: found_time_def progress_def Let_def split: if_splits)
  with match_fields_advances [of st cc] Inr show ?thesis by (simp add: advances_def)
qed

lemma normalize_progress: "progress st \<le> progress (normalize tz st)"
proof -
  have "progress st \<le> progress (carry_second st)" for st by (simp add: carry_second_def progress_def)
  moreover have "progress st \<le> progress (carry_minute tz st)" for st by (simp add: carry_minute_def progress_def Let_def)
  moreover have "progress st \<le> progress (carry_hour st)" for st by (simp add: carry_hour_def progress_def)
  moreover have "progress st \<le> progress (carry_day st)" for st by (simp add: carry_day_def progress_def)
  moreover have "progress st \<le> progress (carry_month st)" for st by (simp add: carry_month_def progress_def)
  ultimately show ?thesis unfolding normalize_def by (meson order_trans)
qed

lemma daysInMonth_le: "daysInMonth m y \<le> 31"
  by (simp add: daysInMonth_def) linarith

lemma normalize_bounds:
  assumes "st' = normalize tz st"
  shows "cv_month st' \<le> 12" "cv_day st' \<le> 31" "cv_hour st' \<le> 23" "cv_minute st' \<le> 59" "cv_second st' \<le> 59"
proof -
  define a where "a = carry_second st"
  define b where "b = carry_minute tz a"
  define c where "c = carry_hour b"
  define d where "d = carry_day c"
  have st': "st' = carry_month d" by (simp add: assms normalize_def a_def b_def c_def d_def)
  have "cv_second a \<le> 59" by (simp add: a_def carry_second_def)
  then have b: "cv_second b \<le> 59" "cv_minute b \<le> 59" by (auto simp: b_def carry_minute_def Let_def)
  then have c: "cv_second c \<le> 59" "cv_minute c \<le> 59" "cv_hour c \<le> 23" by (auto simp: c_def carry_hour_def)
  then have "cv_second d \<le> 59" "cv_minute d \<le> 59" "cv_hour d \<le> 23" "cv_day d \<le> 31"
    using daysInMonth_le [of "cv_month c" "cv_year c"] by (auto simp: d_def carry_day_def)
  then show "cv_month st' \<le> 12" "cv_day st' \<le> 31" "cv_hour st' \<le> 23" "cv_minute st' \<le> 59" "cv_second st' \<le> 59"
    by (auto simp: st' carry_month_def)
qed

definition search_measures :: "(cal_state \<Rightarrow> nat) list" where
  "search_measures = [\<lambda>st. nat (2101 - cv_year st), \<lambda>st. nat (13 - cv_month st), \<lambda>st. nat (32 - cv_day st),
     \<lambda>st. nat (24 - cv_hour st), \<lambda>st. if dst st = 0 then 1 else 0, \<lambda>st. nat (60 - cv_minute st), \<lambda>st. nat (60 - cv_second st)]"

lemma search_decreases:
  assumes "progress a < progress b" "a = normalize tz a'" "b = normalize tz b'" "cv_year a \<le> 2100"
  shows "(b, a) \<in> measures search_measures"
  using assms(1,4) normalize_bounds [OF assms(2)] normalize_bounds [OF assms(3)]
  by (auto simp: search_measures_def progress_def split: if_splits)

function search :: "compiledCalendar \<Rightarrow> cal_state \<Rightarrow> int option" where
  "search cc st =
     (let st = normalize (cc_tz cc) st in
      if cv_year st > maxCalendarYear then None
      else case search_step cc st of Inl st' \<Rightarrow> search cc st' | Inr t \<Rightarrow> Some t)"
  by pat_completeness auto
termination
proof (relation "inv_image (measures search_measures) (\<lambda>(cc, st). normalize (cc_tz cc) st)")
  fix cc st x st'
  assume x: "x = normalize (cc_tz cc) st" "\<not> cv_year x > maxCalendarYear" "search_step cc x = Inl st'"
  have "progress x < progress (normalize (cc_tz cc) st')"
    using search_step_progress [OF x(3)] normalize_progress [of st' "cc_tz cc"] by (rule order.strict_trans2)
  from search_decreases [OF this x(1) refl] x(2)
  show "((cc, st'), (cc, st)) \<in> inv_image (measures search_measures) (\<lambda>(cc, st). normalize (cc_tz cc) st)"
    by (simp add: maxCalendarYear_def x(1))
qed simp

declare search.simps [simp del]

definition cal_next :: "compiledCalendar \<Rightarrow> int \<Rightarrow> int option" where
  "cal_next cc ts =
     (let tz = cc_tz cc; c = local_civil tz ts;
          dstoffset = (if cv_hour (local_civil tz (ts - 3600)) = cv_hour c then 3600 else 0)
      in search cc (cal_st (cv_year c) (cv_month c) (cv_day c) (cv_hour c) (cv_minute c) (cv_second c + 1) dstoffset))"

section \<open>The search finds the earliest match\<close>

text \<open>
  In a location with a fixed offset, for a calendar given by its predicates. \<open>wanted\<close> is \<open>matches\<close> on a
  local time; \<open>skips\<close> says that moving from one state of the search to another passes over no match.
\<close>

definition wanted :: "compiledCalendar \<Rightarrow> civil \<Rightarrow> bool" where
  "wanted cc c \<longleftrightarrow> cc_year cc (cv_year c) \<and> cc_month cc (cv_month c) \<and> cc_dayOfMonth cc (cv_day c) \<and>
     cc_dayOfWeek cc (weekday_of (civil_seconds c)) \<and> cc_hour cc (cv_hour c) \<and> cc_minute cc (cv_minute c) \<and>
     cc_second cc (cv_second c)"

definition state_key :: "cal_state \<Rightarrow> int \<times> int \<times> int \<times> int \<times> int \<times> int" where
  "state_key st = (cv_year st, cv_month st, cv_day st, cv_hour st, cv_minute st, cv_second st)"

definition near :: "cal_state \<Rightarrow> bool" where
  "near st \<longleftrightarrow> 1 \<le> cv_month st \<and> 1 \<le> cv_day st \<and> 0 \<le> cv_hour st \<and> 0 \<le> cv_minute st \<and> 0 \<le> cv_second st \<and> dst st = 0 \<and>
     (60 \<le> cv_minute st \<longrightarrow> cv_second st = 0) \<and>
     (24 \<le> cv_hour st \<longrightarrow> cv_minute st = 0 \<and> cv_second st = 0) \<and>
     (daysInMonth (cv_month st) (cv_year st) < cv_day st \<longrightarrow> cv_hour st = 0 \<and> cv_minute st = 0 \<and> cv_second st = 0) \<and>
     (12 < cv_month st \<longrightarrow> cv_day st = 1 \<and> cv_hour st = 0 \<and> cv_minute st = 0 \<and> cv_second st = 0)"

definition in_range :: "cal_state \<Rightarrow> bool" where
  "in_range st \<longleftrightarrow> near st \<and> cv_month st \<le> 12 \<and> cv_day st \<le> daysInMonth (cv_month st) (cv_year st) \<and>
     cv_hour st < 24 \<and> cv_minute st < 60 \<and> cv_second st < 60"

definition skips :: "compiledCalendar \<Rightarrow> cal_state \<Rightarrow> cal_state \<Rightarrow> bool" where
  "skips cc st st' \<longleftrightarrow> state_key st \<le> state_key st' \<and>
     (\<forall>c. valid_civil c \<longrightarrow> wanted cc c \<longrightarrow> state_key st \<le> ymdhms c \<longrightarrow> state_key st' \<le> ymdhms c)"

lemma skips_refl [simp]: "skips cc st st"
  by (simp add: skips_def)

lemma skips_trans: "skips cc a b \<Longrightarrow> skips cc b c \<Longrightarrow> skips cc a c"
  by (auto simp: skips_def intro: order_trans)

lemma in_range_valid: "in_range st \<longleftrightarrow> valid_civil (civil.truncate st) \<and> dst st = 0"
  by (auto simp: in_range_def near_def valid_civil_def civil.truncate_def)

lemma state_key_truncate: "state_key st = ymdhms (civil.truncate st)"
  by (simp add: state_key_def ymdhms_def civil.truncate_def)

text \<open>The carries, and that they keep what the earlier ones established.\<close>

lemma carry_second_skips:
  assumes "near st"
  shows "near (carry_second st) \<and> skips cc st (carry_second st) \<and> cv_second (carry_second st) < 60"
  using assms
  by (auto simp: near_def skips_def carry_second_def state_key_def ymdhms_def valid_civil_def)

lemma carry_minute_fixed:
  assumes "fixed_zone tz" "dst st = 0"
  shows "carry_minute tz st = (if cv_minute st \<ge> 60 then st\<lparr>cv_hour := cv_hour st + 1, cv_minute := 0\<rparr> else st)"
  using assms(2)
  by (simp add: carry_minute_def Let_def date_of_def fixed_Date [OF assms(1)] civil.truncate_def civil_seconds_def)

lemma carry_minute_skips:
  assumes "fixed_zone tz" "near st" "cv_second st < 60"
  shows "near (carry_minute tz st) \<and> skips cc st (carry_minute tz st) \<and> cv_second (carry_minute tz st) < 60 \<and>
    cv_minute (carry_minute tz st) < 60"
proof -
  have "carry_minute tz st = (if cv_minute st \<ge> 60 then st\<lparr>cv_hour := cv_hour st + 1, cv_minute := 0\<rparr> else st)"
    using assms by (intro carry_minute_fixed) (auto simp: near_def)
  then show ?thesis using assms(2,3) by (auto simp: near_def skips_def state_key_def ymdhms_def valid_civil_def)
qed

lemma carry_hour_skips:
  assumes "near st" "cv_second st < 60" "cv_minute st < 60"
  shows "near (carry_hour st) \<and> skips cc st (carry_hour st) \<and> cv_second (carry_hour st) < 60 \<and>
    cv_minute (carry_hour st) < 60 \<and> cv_hour (carry_hour st) < 24"
  using assms
  by (auto simp: near_def skips_def carry_hour_def state_key_def ymdhms_def valid_civil_def)

lemma carry_day_skips:
  assumes "near st" "cv_second st < 60" "cv_minute st < 60" "cv_hour st < 24"
  shows "near (carry_day st) \<and> skips cc st (carry_day st) \<and> cv_second (carry_day st) < 60 \<and>
    cv_minute (carry_day st) < 60 \<and> cv_hour (carry_day st) < 24 \<and>
    cv_day (carry_day st) \<le> daysInMonth (cv_month (carry_day st)) (cv_year (carry_day st))"
proof (cases "cv_day st > daysInMonth (cv_month st) (cv_year st)")
  case False
  with assms show ?thesis by (simp add: carry_day_def)
next
  case True
  have d: "1 \<le> daysInMonth m y" for m y by (simp add: daysInMonth_def)
  have "state_key (carry_day st) \<le> ymdhms c" if c: "valid_civil c" "state_key st \<le> ymdhms c" for c
  proof -
    have "cv_day c < cv_day st" if "cv_year st = cv_year c" "cv_month st = cv_month c"
      using that c(1) True by (simp add: valid_civil_def)
    then have "cv_year st < cv_year c \<or> cv_year st = cv_year c \<and> cv_month st < cv_month c"
      using c(2) by (auto simp: state_key_def ymdhms_def le_less)
    with True c(1) assms(1) show ?thesis by (auto simp: carry_day_def state_key_def ymdhms_def valid_civil_def near_def)
  qed
  moreover have "state_key st \<le> state_key (carry_day st)" using True by (simp add: carry_day_def state_key_def)
  moreover have "near (carry_day st)" using assms True d by (auto simp: near_def carry_day_def)
  ultimately show ?thesis using assms True d by (auto simp: skips_def carry_day_def)
qed

lemma carry_month_skips:
  assumes "near st" "cv_second st < 60" "cv_minute st < 60" "cv_hour st < 24"
    "cv_day st \<le> daysInMonth (cv_month st) (cv_year st)"
  shows "in_range (carry_month st) \<and> skips cc st (carry_month st)"
proof (cases "cv_month st > 12")
  case False
  with assms show ?thesis by (simp add: carry_month_def in_range_def)
next
  case True
  have d: "1 \<le> daysInMonth m y" for m y by (simp add: daysInMonth_def)
  show ?thesis
    using assms True d
    by (auto simp: near_def in_range_def skips_def carry_month_def state_key_def ymdhms_def valid_civil_def)
qed

lemma normalize_skips:
  assumes "fixed_zone tz" "near st"
  shows "in_range (normalize tz st) \<and> skips cc st (normalize tz st)"
proof -
  note a = carry_second_skips [OF assms(2), of cc]
  note b = carry_minute_skips [OF assms(1), of "carry_second st" cc]
  from a b have b': "near (carry_minute tz (carry_second st))" "cv_second (carry_minute tz (carry_second st)) < 60"
    "cv_minute (carry_minute tz (carry_second st)) < 60" "skips cc st (carry_minute tz (carry_second st))"
    using skips_trans by blast+
  note c = carry_hour_skips [OF b'(1-3), of cc]
  then have c': "skips cc st (carry_hour (carry_minute tz (carry_second st)))" using b'(4) skips_trans by blast
  from c have d: "near (carry_day (carry_hour (carry_minute tz (carry_second st)))) \<and>
      skips cc (carry_hour (carry_minute tz (carry_second st))) (carry_day (carry_hour (carry_minute tz (carry_second st)))) \<and>
      cv_second (carry_day (carry_hour (carry_minute tz (carry_second st)))) < 60 \<and>
      cv_minute (carry_day (carry_hour (carry_minute tz (carry_second st)))) < 60 \<and>
      cv_hour (carry_day (carry_hour (carry_minute tz (carry_second st)))) < 24 \<and>
      cv_day (carry_day (carry_hour (carry_minute tz (carry_second st)))) \<le>
        daysInMonth (cv_month (carry_day (carry_hour (carry_minute tz (carry_second st)))))
          (cv_year (carry_day (carry_hour (carry_minute tz (carry_second st)))))"
    by (intro carry_day_skips) simp_all
  with carry_month_skips [of "carry_day (carry_hour (carry_minute tz (carry_second st)))" cc] c' skips_trans
  show ?thesis unfolding normalize_def by blast
qed

definition m_year :: "compiledCalendar \<Rightarrow> cal_state \<Rightarrow> bool" where
  "m_year cc st \<longleftrightarrow> in_range st \<and> cc_year cc (cv_year st)"

definition m_month :: "compiledCalendar \<Rightarrow> cal_state \<Rightarrow> bool" where
  "m_month cc st \<longleftrightarrow> m_year cc st \<and> cc_month cc (cv_month st)"

definition day_wanted :: "compiledCalendar \<Rightarrow> int \<Rightarrow> int \<Rightarrow> int \<Rightarrow> bool" where
  "day_wanted cc y mo d \<longleftrightarrow> cc_dayOfMonth cc d \<and> cc_dayOfWeek cc ((day_number y mo d - epoch_days + 4) mod 7)"

definition m_day :: "compiledCalendar \<Rightarrow> cal_state \<Rightarrow> bool" where
  "m_day cc st \<longleftrightarrow> m_month cc st \<and> day_wanted cc (cv_year st) (cv_month st) (cv_day st)"

definition m_hour :: "compiledCalendar \<Rightarrow> cal_state \<Rightarrow> bool" where
  "m_hour cc st \<longleftrightarrow> m_day cc st \<and> cc_hour cc (cv_hour st)"

definition m_minute :: "compiledCalendar \<Rightarrow> cal_state \<Rightarrow> bool" where
  "m_minute cc st \<longleftrightarrow> m_hour cc st \<and> cc_minute cc (cv_minute st)"

definition m_second :: "compiledCalendar \<Rightarrow> cal_state \<Rightarrow> bool" where
  "m_second cc st \<longleftrightarrow> m_minute cc st \<and> cc_second cc (cv_second st)"

definition stage :: "(compiledCalendar \<Rightarrow> cal_state \<Rightarrow> bool) \<Rightarrow> compiledCalendar \<Rightarrow> cal_state \<Rightarrow> cal_state + cal_state \<Rightarrow> bool" where
  "stage Q cc st r \<longleftrightarrow>
     (case r of Inl st' \<Rightarrow> near st' \<and> skips cc st st' | Inr st' \<Rightarrow> Q cc st' \<and> skips cc st st')"

lemma stage_bind:
  assumes "stage Q cc st r" "\<And>st'. Q cc st' \<Longrightarrow> stage R cc st' (f st')"
  shows "stage R cc st (bind_result r f)"
proof (cases r)
  case (Inl st')
  with assms(1) show ?thesis by (simp add: stage_def)
next
  case (Inr st')
  with assms(1) have st': "Q cc st'" "skips cc st st'" by (simp_all add: stage_def)
  from assms(2) [OF st'(1)] show ?thesis
    using Inr skips_trans [OF st'(2)] by (auto simp: stage_def split: sum.splits)
qed

lemma wanted_eq:
  "valid_civil c \<Longrightarrow> wanted cc c \<longleftrightarrow> cc_year cc (cv_year c) \<and> cc_month cc (cv_month c) \<and>
     day_wanted cc (cv_year c) (cv_month c) (cv_day c) \<and> cc_hour cc (cv_hour c) \<and> cc_minute cc (cv_minute c) \<and> cc_second cc (cv_second c)"
  by (auto simp: wanted_def day_wanted_def weekday_of_civil)

text \<open>Moving a field forward over values that do not match, and resetting the fields below it.\<close>

lemma skipsI:
  assumes "state_key st \<le> state_key st'"
    and "\<And>c. valid_civil c \<Longrightarrow> wanted cc c \<Longrightarrow> state_key st \<le> ymdhms c \<Longrightarrow> state_key st' \<le> ymdhms c"
  shows "skips cc st st'"
  using assms by (simp add: skips_def)

lemma stage_year:
  assumes "in_range st"
  shows "stage m_year cc st (seek_year cc st)"
proof (cases "cc_year cc (cv_year st)")
  case True
  with assms show ?thesis by (simp add: seek_year_def stage_def m_year_def)
next
  case False
  have "skips cc st (cal_st (cv_year st + 1) 1 1 0 0 0 0)"
  proof (rule skipsI)
    fix c assume c: "valid_civil c" "wanted cc c" "state_key st \<le> ymdhms c"
    have "cv_year c \<noteq> cv_year st" using c(2) False by (auto simp: wanted_def)
    with c(1,3) show "state_key (cal_st (cv_year st + 1) 1 1 0 0 0 0) \<le> ymdhms c"
      by (auto simp: state_key_def ymdhms_def valid_civil_def)
  qed (simp add: state_key_def)
  moreover have "near (cal_st (cv_year st + 1) 1 1 0 0 0 0)" by (simp add: near_def daysInMonth_def)
  ultimately show ?thesis using False by (simp add: seek_year_def stage_def)
qed

lemma stage_month:
  assumes "m_year cc st"
  shows "stage m_month cc st (seek_month cc st)"
proof -
  obtain ok mo where sk: "seek (cc_month cc) 13 (cv_month st) = (ok, mo)" by fastforce
  have st: "1 \<le> cv_month st" "cv_month st \<le> 12" "in_range st" using assms by (auto simp: m_year_def in_range_def near_def)
  note b = seek_bounds [OF sk]
  have range: "cv_month st \<le> mo" "mo \<le> 13" "ok \<Longrightarrow> mo \<le> 12 \<and> cc_month cc mo" "\<not> ok \<Longrightarrow> mo = 13" using b st by auto
  define st' where "st' = (if mo = cv_month st then st else cal_st (cv_year st) mo 1 0 0 0 0)"
  have "skips cc st st'"
  proof (cases "mo = cv_month st")
    case False
    then have moved: "st' = cal_st (cv_year st) mo 1 0 0 0 0" by (simp add: st'_def)
    show ?thesis unfolding moved
    proof (rule skipsI)
      fix c assume c: "valid_civil c" "wanted cc c" "state_key st \<le> ymdhms c"
      have "cv_year c = cv_year st \<Longrightarrow> cv_month st \<le> cv_month c \<Longrightarrow> mo \<le> cv_month c"
        using b c(2) by (force simp: wanted_def)
      with c(1,3) show "state_key (cal_st (cv_year st) mo 1 0 0 0 0) \<le> ymdhms c"
        by (auto simp: state_key_def ymdhms_def valid_civil_def)
    qed (use range False in \<open>simp add: state_key_def\<close>)
  qed (simp add: st'_def)
  moreover have "near st'" using range st by (auto simp: st'_def near_def in_range_def daysInMonth_def)
  moreover have "m_month cc st'" if "ok"
    using that range(3) range(1) assms st by (auto simp: st'_def m_month_def m_year_def in_range_def near_def daysInMonth_def)
  ultimately show ?thesis using sk by (simp add: seek_month_def stage_def Let_def st'_def [symmetric])
qed

lemma day_matches_eq:
  assumes "fixed_zone (cc_tz cc)" "in_range st"
  shows "day_matches cc st \<longleftrightarrow> day_wanted cc (cv_year st) (cv_month st) (cv_day st)"
proof -
  have v: "valid_civil (civil.truncate st)" using assms(2) by (simp add: in_range_valid)
  have "cv_year (civil.truncate st) = cv_year st" "cv_month (civil.truncate st) = cv_month st" "cv_day (civil.truncate st) = cv_day st"
    by (simp_all add: civil.truncate_def)
  with weekday_of_civil [OF v] show ?thesis
    by (simp add: day_matches_def day_wanted_def date_of_def fixed_Date [OF assms(1)] fixed_Weekday [OF assms(1)])
qed

lemma stage_day:
  assumes "fixed_zone (cc_tz cc)" "m_month cc st"
  shows "stage m_day cc st (seek_day cc st)"
proof (cases "day_matches cc st")
  case True
  with assms day_matches_eq [OF assms(1), of st] show ?thesis
    by (simp add: seek_day_def stage_def m_day_def m_month_def m_year_def)
next
  case False
  define y mo where "y = cv_year st" and "mo = cv_month st"
  define D where "D = daysInMonth mo y"
  let ?cal = "\<lambda>d. cal_st y mo d 0 0 0 0"
  have st: "in_range st" "1 \<le> mo" "mo \<le> 12" "1 \<le> cv_day st" "cv_day st \<le> D"
    using assms(2) by (auto simp: m_month_def m_year_def in_range_def near_def y_def mo_def D_def)
  have in_range: "in_range (?cal d)" if "1 \<le> d" "d \<le> D" for d
    using that st by (auto simp: in_range_def near_def D_def)
  have dm: "day_matches cc (?cal d) \<longleftrightarrow> day_wanted cc y mo d" if "1 \<le> d" "d \<le> D" for d
    using day_matches_eq [OF assms(1) in_range [OF that]] by simp
  have nomatch: "\<not> day_wanted cc y mo (cv_day st)" using False day_matches_eq [OF assms(1) st(1)] by (simp add: y_def mo_def)
  have skip: "skips cc st (?cal d')"
    if "cv_day st < d'" "\<And>d. cv_day st < d \<Longrightarrow> d < d' \<Longrightarrow> d \<le> D \<Longrightarrow> \<not> day_wanted cc y mo d" for d'
  proof (rule skipsI)
    fix c assume c: "valid_civil c" "wanted cc c" "state_key st \<le> ymdhms c"
    have "d' \<le> cv_day c" if "cv_year c = y" "cv_month c = mo" "cv_day st \<le> cv_day c"
    proof (rule ccontr)
      assume "\<not> d' \<le> cv_day c"
      moreover have "cv_day c \<le> D" using c(1) that by (simp add: valid_civil_def D_def)
      moreover have "day_wanted cc y mo (cv_day c)" using c(2) that by (simp add: wanted_eq [OF c(1)])
      ultimately show False using that nomatch \<open>\<And>d. cv_day st < d \<Longrightarrow> d < d' \<Longrightarrow> d \<le> D \<Longrightarrow> \<not> day_wanted cc y mo d\<close> [of "cv_day c"]
        by (cases "cv_day c = cv_day st") auto
    qed
    with c(1,3) show "state_key (?cal d') \<le> ymdhms c"
      by (auto simp: state_key_def ymdhms_def valid_civil_def y_def mo_def)
  qed (use that in \<open>simp add: state_key_def y_def mo_def\<close>)
  have near: "near (?cal d)" if "1 \<le> d" for d using that st by (simp add: near_def)
  show ?thesis
  proof (cases "cv_day st + 1 \<ge> D + 1")
    case True
    then have "stage m_day cc st (Inl (?cal (cv_day st + 1)))"
      using skip [of "cv_day st + 1"] near [of "cv_day st + 1"] st by (simp add: stage_def)
    with True False show ?thesis by (simp add: seek_day_def y_def mo_def D_def Let_def)
  next
    case more: False
    obtain ok d' where sk: "seek (\<lambda>d. day_matches cc (?cal d)) (D + 1) (cv_day st + 1) = (ok, d')" by fastforce
    note b = seek_bounds [OF sk]
    have range: "cv_day st < d'" "ok \<Longrightarrow> d' \<le> D" using b more by auto
    have nm: "\<not> day_wanted cc y mo d" if "cv_day st < d" "d < d'" "d \<le> D" for d
      using that b dm [of d] st by auto
    have "m_day cc (?cal d')" if ok
      using that range b dm [of d'] in_range [of d'] st assms(2)
      by (auto simp: m_day_def m_month_def m_year_def y_def mo_def)
    with skip [OF range(1) nm] near [of d'] st range(1) have "stage m_day cc st (if ok then Inr (?cal d') else Inl (?cal d'))"
      by (simp add: stage_def)
    with more False sk show ?thesis by (simp add: seek_day_def y_def [symmetric] mo_def [symmetric] D_def [symmetric] Let_def)
  qed
qed

lemma m_day_move:
  "m_day cc st \<Longrightarrow> cv_year st' = cv_year st \<Longrightarrow> cv_month st' = cv_month st \<Longrightarrow> cv_day st' = cv_day st \<Longrightarrow> in_range st' \<Longrightarrow> m_day cc st'"
  by (simp add: m_day_def m_month_def m_year_def)

lemma m_day_in_range: "m_day cc st \<Longrightarrow> in_range st"
  by (simp add: m_day_def m_month_def m_year_def)

lemma stage_hour:
  assumes "m_day cc st"
  shows "stage m_hour cc st (seek_hour cc st)"
proof -
  obtain ok h where sk: "seek (cc_hour cc) 24 (cv_hour st) = (ok, h)" by fastforce
  have st: "0 \<le> cv_hour st" "cv_hour st < 24" "in_range st" using m_day_in_range [OF assms] by (auto simp: in_range_def near_def)
  note b = seek_bounds [OF sk]
  have range: "cv_hour st \<le> h" "h \<le> 24" "ok \<Longrightarrow> h < 24 \<and> cc_hour cc h" "\<not> ok \<Longrightarrow> h = 24" using b st by auto
  define st' where "st' = (if h = cv_hour st then st else st\<lparr>cv_hour := h, cv_minute := 0, cv_second := 0, dst := 0\<rparr>)"
  have "skips cc st st'"
  proof (rule skipsI)
    fix c assume c: "valid_civil c" "wanted cc c" "state_key st \<le> ymdhms c"
    have "cv_hour st \<le> cv_hour c \<Longrightarrow> h \<le> cv_hour c" using b c(2) by (force simp: wanted_def)
    with c(1,3) show "state_key st' \<le> ymdhms c" by (auto simp: st'_def state_key_def ymdhms_def valid_civil_def)
  qed (use range in \<open>auto simp: st'_def state_key_def\<close>)
  moreover have "near st'" using range st by (auto simp: st'_def near_def in_range_def)
  moreover have "m_hour cc st'" if ok
  proof -
    have "in_range st'" using that range st by (auto simp: st'_def near_def in_range_def)
    then have "m_day cc st'" by (rule m_day_move [OF assms, rotated 3]) (simp_all add: st'_def)
    then show ?thesis using range(3) [OF that] by (auto simp: m_hour_def st'_def)
  qed
  ultimately show ?thesis using sk by (simp add: seek_hour_def stage_def Let_def st'_def [symmetric])
qed

lemma stage_minute:
  assumes "m_hour cc st"
  shows "stage m_minute cc st (seek_minute cc st)"
proof -
  obtain ok m where sk: "seek (cc_minute cc) 60 (cv_minute st) = (ok, m)" by fastforce
  have day: "m_day cc st" using assms by (simp add: m_hour_def)
  have st: "0 \<le> cv_minute st" "cv_minute st < 60" "in_range st" using m_day_in_range [OF day] by (auto simp: in_range_def near_def)
  note b = seek_bounds [OF sk]
  have range: "cv_minute st \<le> m" "m \<le> 60" "ok \<Longrightarrow> m < 60 \<and> cc_minute cc m" "\<not> ok \<Longrightarrow> m = 60" using b st by auto
  define st' where "st' = (if m = cv_minute st then st else st\<lparr>cv_minute := m, cv_second := 0\<rparr>)"
  have "skips cc st st'"
  proof (rule skipsI)
    fix c assume c: "valid_civil c" "wanted cc c" "state_key st \<le> ymdhms c"
    have "cv_minute st \<le> cv_minute c \<Longrightarrow> m \<le> cv_minute c" using b c(2) by (force simp: wanted_def)
    with c(1,3) show "state_key st' \<le> ymdhms c" by (auto simp: st'_def state_key_def ymdhms_def valid_civil_def)
  qed (use range in \<open>auto simp: st'_def state_key_def\<close>)
  moreover have "near st'" using range st by (auto simp: st'_def near_def in_range_def)
  moreover have "m_minute cc st'" if ok
  proof -
    have "in_range st'" using that range st by (auto simp: st'_def near_def in_range_def)
    then have "m_day cc st'" by (rule m_day_move [OF day, rotated 3]) (simp_all add: st'_def)
    then show ?thesis using range(3) [OF that] assms by (auto simp: m_hour_def m_minute_def st'_def)
  qed
  ultimately show ?thesis using sk by (simp add: seek_minute_def stage_def Let_def st'_def [symmetric])
qed

lemma stage_second:
  assumes "m_minute cc st"
  shows "stage m_second cc st (seek_second cc st)"
proof -
  obtain ok s where sk: "seek (cc_second cc) 60 (cv_second st) = (ok, s)" by fastforce
  have day: "m_day cc st" using assms by (simp add: m_hour_def m_minute_def)
  have st: "0 \<le> cv_second st" "cv_second st < 60" "in_range st" using m_day_in_range [OF day] by (auto simp: in_range_def near_def)
  note b = seek_bounds [OF sk]
  have range: "cv_second st \<le> s" "s \<le> 60" "ok \<Longrightarrow> s < 60 \<and> cc_second cc s" "\<not> ok \<Longrightarrow> s = 60" using b st by auto
  define st' where "st' = st\<lparr>cv_second := s\<rparr>"
  have "skips cc st st'"
  proof (rule skipsI)
    fix c assume c: "valid_civil c" "wanted cc c" "state_key st \<le> ymdhms c"
    have "cv_second st \<le> cv_second c \<Longrightarrow> s \<le> cv_second c" using b c(2) by (force simp: wanted_def)
    with c(1,3) show "state_key st' \<le> ymdhms c" by (auto simp: st'_def state_key_def ymdhms_def valid_civil_def)
  qed (use range in \<open>auto simp: st'_def state_key_def\<close>)
  moreover have "near st'" using range st by (auto simp: st'_def near_def in_range_def)
  moreover have "m_second cc st'" if ok
  proof -
    have "in_range st'" using that range st by (auto simp: st'_def near_def in_range_def)
    then have "m_day cc st'" by (rule m_day_move [OF day, rotated 3]) (simp_all add: st'_def)
    then show ?thesis using range(3) [OF that] assms by (simp add: m_hour_def m_minute_def m_second_def st'_def)
  qed
  ultimately show ?thesis using sk by (simp add: seek_second_def stage_def Let_def st'_def [symmetric])
qed

lemma match_fields_stage:
  assumes "fixed_zone (cc_tz cc)" "in_range st"
  shows "stage m_second cc st (match_fields cc st)"
  unfolding match_fields_def
  using assms by (intro stage_bind [OF stage_year] stage_bind [OF stage_month] stage_bind [OF stage_day]
      stage_bind [OF stage_hour] stage_bind [OF stage_minute] stage_second)

lemma m_second_wanted: "m_second cc st \<Longrightarrow> valid_civil (civil.truncate st) \<and> wanted cc (civil.truncate st)"
proof -
  assume m: "m_second cc st"
  then have v: "valid_civil (civil.truncate st)"
    by (simp add: m_second_def m_minute_def m_hour_def m_day_def m_month_def m_year_def in_range_valid)
  moreover have "cv_year (civil.truncate st) = cv_year st" "cv_month (civil.truncate st) = cv_month st"
    "cv_day (civil.truncate st) = cv_day st" "cv_hour (civil.truncate st) = cv_hour st"
    "cv_minute (civil.truncate st) = cv_minute st" "cv_second (civil.truncate st) = cv_second st"
    by (simp_all add: civil.truncate_def)
  ultimately show ?thesis
    using m by (simp add: wanted_eq m_second_def m_minute_def m_hour_def m_day_def m_month_def m_year_def)
qed

lemma found_time_fixed:
  assumes "fixed_zone (cc_tz cc)" "in_range st"
  shows "found_time cc st = Inr (civil_seconds (civil.truncate st) - offset_at (cc_tz cc) 0)"
proof -
  have v: "valid_civil (civil.truncate st)" "dst st = 0" using assms(2) by (simp_all add: in_range_valid)
  have "cv_hour (civil.truncate st) = cv_hour st" by (simp add: civil.truncate_def)
  with v show ?thesis
    by (simp add: found_time_def date_of_def fixed_Date [OF assms(1)] fixed_civil [OF assms(1)] civil_unique Let_def)
qed

lemma seek_year_kept:
  "seek_year cc st = Inr st' \<Longrightarrow> cv_year st' = cv_year st" "seek_month cc st = Inr st' \<Longrightarrow> cv_year st' = cv_year st"
  "seek_day cc st = Inr st' \<Longrightarrow> cv_year st' = cv_year st" "seek_hour cc st = Inr st' \<Longrightarrow> cv_year st' = cv_year st"
  "seek_minute cc st = Inr st' \<Longrightarrow> cv_year st' = cv_year st" "seek_second cc st = Inr st' \<Longrightarrow> cv_year st' = cv_year st"
  by (auto simp: seek_year_def seek_month_def seek_day_def seek_hour_def seek_minute_def seek_second_def Let_def
      split: if_splits prod.splits)

lemma match_fields_year: "match_fields cc st = Inr st' \<Longrightarrow> cv_year st' = cv_year st"
  unfolding match_fields_def bind_result_Inr_iff by (auto dest!: seek_year_kept)

text \<open>What the search returns, from a state that at most one field has overflowed in.\<close>

lemma search_ok:
  assumes "fixed_zone (cc_tz cc)" "near st"
  shows "case search cc st of
      None \<Rightarrow> (\<forall>c. valid_civil c \<longrightarrow> wanted cc c \<longrightarrow> state_key st \<le> ymdhms c \<longrightarrow> maxCalendarYear < cv_year c)
    | Some t \<Rightarrow> (\<exists>c. t = civil_seconds c - offset_at (cc_tz cc) 0 \<and> valid_civil c \<and> wanted cc c \<and> state_key st \<le> ymdhms c \<and>
        cv_year c \<le> maxCalendarYear \<and> (\<forall>c'. valid_civil c' \<longrightarrow> wanted cc c' \<longrightarrow> state_key st \<le> ymdhms c' \<longrightarrow> ymdhms c \<le> ymdhms c'))"
  using assms
proof (induction cc st rule: search.induct)
  case (1 cc st)
  define n where "n = normalize (cc_tz cc) st"
  have n: "in_range n" "skips cc st n" using normalize_skips [OF 1(2,3), of cc] by (simp_all add: n_def)
  have stage: "stage m_second cc n (match_fields cc n)" by (rule match_fields_stage [OF 1(2) n(1)])
  have result: "search cc st = (if cv_year n > maxCalendarYear then None
      else case search_step cc n of Inl st' \<Rightarrow> search cc st' | Inr t \<Rightarrow> Some t)"
    by (simp add: search.simps [of cc st] n_def)
  show ?case
  proof (cases "cv_year n > maxCalendarYear")
    case True
    have "maxCalendarYear < cv_year c" if "valid_civil c" "wanted cc c" "state_key st \<le> ymdhms c" for c
    proof -
      have "state_key n \<le> ymdhms c" using n(2) that by (simp add: skips_def)
      with True show ?thesis by (auto simp: state_key_def ymdhms_def)
    qed
    with True result show ?thesis by simp
  next
    case False
    show ?thesis
    proof (cases "match_fields cc n")
      case (Inl st')
      then have st': "near st'" "skips cc n st'" using stage by (simp_all add: stage_def)
      have step: "search_step cc n = Inl st'" using Inl by (simp add: search_step_def)
      have sk: "skips cc st st'" by (rule skips_trans [OF n(2) st'(2)])
      note IH = 1(1) [OF n_def False step 1(2) st'(1)]
      have eq: "search cc st = search cc st'" using result False step by simp
      have le: "valid_civil c \<Longrightarrow> wanted cc c \<Longrightarrow> state_key st \<le> ymdhms c \<Longrightarrow> state_key st' \<le> ymdhms c"
        and mono: "state_key st \<le> state_key st'" for c using sk by (simp_all add: skips_def)
      show ?thesis
      proof (cases "search cc st'")
        case None
        with IH eq le show ?thesis by simp
      next
        case (Some t)
        with IH obtain c where c: "t = civil_seconds c - offset_at (cc_tz cc) 0" "valid_civil c" "wanted cc c" "state_key st' \<le> ymdhms c"
          "cv_year c \<le> maxCalendarYear" "\<forall>c'. valid_civil c' \<longrightarrow> wanted cc c' \<longrightarrow> state_key st' \<le> ymdhms c' \<longrightarrow> ymdhms c \<le> ymdhms c'" by auto
        have "state_key st \<le> ymdhms c" using mono c(4) by (rule order_trans)
        with c le Some eq show ?thesis by auto
      qed
    next
      case (Inr m)
      then have m: "m_second cc m" "skips cc n m" using stage by (simp_all add: stage_def)
      let ?c = "civil.truncate m"
      have c: "valid_civil ?c" "wanted cc ?c" using m_second_wanted [OF m(1)] by simp_all
      have "m_day cc m" using m(1) by (simp add: m_second_def m_minute_def m_hour_def)
      then have "in_range m" by (rule m_day_in_range)
      from found_time_fixed [OF 1(2) this] Inr have "search cc st = Some (civil_seconds ?c - offset_at (cc_tz cc) 0)"
        using result False by (simp add: search_step_def)
      moreover have "skips cc st m" by (rule skips_trans [OF n(2) m(2)])
      then have "state_key st \<le> ymdhms ?c"
        "\<forall>c'. valid_civil c' \<longrightarrow> wanted cc c' \<longrightarrow> state_key st \<le> ymdhms c' \<longrightarrow> ymdhms ?c \<le> ymdhms c'"
        by (simp_all add: skips_def state_key_truncate)
      moreover have "cv_year ?c \<le> maxCalendarYear"
        using match_fields_year [OF Inr] False by (simp add: civil.truncate_def)
      ultimately show ?thesis using c by auto
    qed
  qed
qed

lemma matches_wanted:
  "fixed_zone (cc_tz cc) \<Longrightarrow> cal_matches cc ts \<longleftrightarrow> wanted cc (civil_of (ts + offset_at (cc_tz cc) 0))"
  by (simp add: cal_matches_def wanted_def fixed_civil fixed_Weekday civil_of_ok Let_def)

text \<open>The local times after a time are those from one second later on, whether or not that is a carry.\<close>

lemma cal_next_ok:
  assumes "fixed_zone (cc_tz cc)"
  shows "case cal_next cc ts of
      None \<Rightarrow> (\<forall>t > ts. cal_matches cc t \<longrightarrow> maxCalendarYear < cv_year (local_civil (cc_tz cc) t))
    | Some t \<Rightarrow> ts < t \<and> cal_matches cc t \<and> cv_year (local_civil (cc_tz cc) t) \<le> maxCalendarYear \<and>
        (\<forall>t' > ts. cal_matches cc t' \<longrightarrow> t \<le> t')"
proof -
  define off where "off = offset_at (cc_tz cc) 0"
  define c where "c = civil_of (ts + off)"
  define st where "st = cal_st (cv_year c) (cv_month c) (cv_day c) (cv_hour c) (cv_minute c) (cv_second c + 1) 0"
  have c: "valid_civil c" "civil_seconds c = ts + off" using civil_of_ok [of "ts + off"] by (simp_all add: c_def)
  have near: "near st" using c(1) by (auto simp: st_def near_def valid_civil_def)
  have "cv_hour (civil_of (ts - 3600 + off)) \<noteq> cv_hour c"
  proof
    have hour: "cv_hour (civil_of t) = t mod 86400 div 3600" for t
      by (simp add: civil_of_def Let_def split: prod.split)
    assume "cv_hour (civil_of (ts - 3600 + off)) = cv_hour c"
    then have eq: "(ts + off - 3600) mod 86400 div 3600 = (ts + off) mod 86400 div 3600"
      by (simp add: hour c_def algebra_simps)
    define x where "x = ts + off"
    have hours: "t mod 86400 div 3600 = t div 3600 mod 24" for t :: int
    proof -
      have "t mod (3600 * 24) = 3600 * (t div 3600 mod 24) + t mod 3600" by (rule zmod_zmult2_eq) simp
      then show ?thesis by simp
    qed
    have "(x - 3600) div 3600 = x div 3600 - 1" using div_add_self2 [of 3600 "x - 3600"] by simp
    with eq have "(x div 3600 - 1) mod 24 = x div 3600 mod 24" by (simp only: hours x_def [symmetric])
    moreover have "(q - 1) mod 24 \<noteq> q mod 24" for q :: int by presburger
    ultimately show False by blast
  qed
  then have next_eq: "cal_next cc ts = search cc st"
    by (simp add: cal_next_def fixed_civil [OF assms] Let_def off_def [symmetric] c_def [symmetric] st_def)
  have after: "state_key st \<le> ymdhms d \<longleftrightarrow> ts + off < civil_seconds d" if "valid_civil d" for d
  proof -
    have "state_key st \<le> ymdhms d \<longleftrightarrow> ymdhms c < ymdhms d"
      by (auto simp: state_key_def ymdhms_def st_def)
    also have "\<dots> \<longleftrightarrow> civil_seconds c < civil_seconds d" using civil_order [OF c(1) that] by simp
    finally show ?thesis using c(2) by simp
  qed
  have all: "valid_civil (civil_of (t + off))" "civil_seconds (civil_of (t + off)) = t + off" for t using civil_of_ok by auto
  note m = matches_wanted [OF assms, folded off_def]
  note ok = search_ok [OF assms near, folded next_eq off_def]
  show ?thesis
  proof (cases "cal_next cc ts")
    case None
    have "maxCalendarYear < cv_year (local_civil (cc_tz cc) t)" if "ts < t" "cal_matches cc t" for t
      using ok None that m [of t] after [OF all(1), of t] all(2) [of t] all(1) [of t]
      by (simp add: fixed_civil [OF assms] off_def [symmetric])
    with None show ?thesis by simp
  next
    case (Some t)
    with ok obtain d where d: "t = civil_seconds d - off" "valid_civil d" "wanted cc d" "state_key st \<le> ymdhms d"
      "cv_year d \<le> maxCalendarYear" "\<forall>c'. valid_civil c' \<longrightarrow> wanted cc c' \<longrightarrow> state_key st \<le> ymdhms c' \<longrightarrow> ymdhms d \<le> ymdhms c'" by auto
    have t: "civil_of (t + off) = d" using d(1) civil_unique [OF d(2)] by simp
    have "ts < t" using after [OF d(2)] d(1,4) by simp
    moreover have "cal_matches cc t" using d(3) t by (simp add: m)
    moreover have "t \<le> t'" if "ts < t'" "cal_matches cc t'" for t'
    proof -
      have "ymdhms d \<le> ymdhms (civil_of (t' + off))"
        using d(6) that m [of t'] after [OF all(1), of t'] all [of t'] by simp
      then have "\<not> civil_seconds (civil_of (t' + off)) < civil_seconds d"
        using civil_order [OF all(1) d(2), of t'] by simp
      then show ?thesis using all(2) [of t'] d(1) by simp
    qed
    moreover have "cv_year (local_civil (cc_tz cc) t) \<le> maxCalendarYear"
      using d(5) t by (simp add: fixed_civil [OF assms] off_def [symmetric])
    ultimately show ?thesis using Some by simp
  qed
qed

section \<open>The matchers\<close>

text \<open>What a range denotes: the values from the start by the step up to the end.\<close>

definition denotes :: "cal_range \<Rightarrow> int \<Rightarrow> bool" where
  "denotes r v \<longleftrightarrow> Start r \<le> v \<and> v \<le> range_end r \<and> (v - Start r) mod range_step r = 0"

lemma step_split:
  fixes a v st :: int
  assumes "0 < st"
  shows "a \<le> v \<and> (v - a) mod st = 0 \<longleftrightarrow> v = a \<or> a + st \<le> v \<and> (v - (a + st)) mod st = 0"
proof -
  have eq: "(v - (a + st)) mod st = (v - a) mod st"
    using mod_add_self2 [of "v - (a + st)" st] by (simp add: algebra_simps)
  have "v = a \<or> a + st \<le> v" if "a \<le> v" "(v - a) mod st = 0"
  proof (rule ccontr)
    assume "\<not> (v = a \<or> a + st \<le> v)"
    with that(1) have "0 < v - a" "v - a < st" by linarith+
    with that(2) show False by (simp add: mod_pos_pos_trivial)
  qed
  with eq assms show ?thesis by auto
qed

lemma range_loop_bits:
  "0 \<le> a \<Longrightarrow> 0 < st \<Longrightarrow> \<exists>w'. range_loop add_bit a b st w = Some w' \<and>
    (\<forall>n < 64. bit w' n \<longleftrightarrow> bit w n \<or> a \<le> int n \<and> int n \<le> b \<and> (int n - a) mod st = 0)"
proof (induction "nat (b - a + 1)" arbitrary: a w rule: less_induct)
  case less
  show ?case
  proof (cases "a \<le> b")
    case False
    then show ?thesis by (auto simp: range_loop.simps)
  next
    case True
    define w1 :: "64 word" where "w1 = w OR push_bit (nat a) 1"
    have "\<exists>w'. range_loop add_bit (a + st) b st w1 = Some w' \<and>
      (\<forall>n < 64. bit w' n \<longleftrightarrow> bit w1 n \<or> a + st \<le> int n \<and> int n \<le> b \<and> (int n - (a + st)) mod st = 0)"
      using less.prems True by (intro less.hyps) auto
    then obtain w' where w': "range_loop add_bit (a + st) b st w1 = Some w'"
      "\<And>n. n < 64 \<Longrightarrow> bit w' n \<longleftrightarrow> bit w1 n \<or> a + st \<le> int n \<and> int n \<le> b \<and> (int n - (a + st)) mod st = 0" by blast
    have run: "range_loop add_bit a b st w = Some w'"
      using True less.prems w'(1) by (simp add: range_loop.simps [of _ a] add_bit_def w1_def)
    have "bit w' n \<longleftrightarrow> bit w n \<or> a \<le> int n \<and> int n \<le> b \<and> (int n - a) mod st = 0" if n: "n < 64" for n
    proof -
      have "bit w1 n \<longleftrightarrow> bit w n \<or> int n = a"
        using n less.prems(1) by (auto simp: w1_def bit_or_iff bit_exp_iff possible_bit_word)
      with w'(2) [OF n] step_split [OF less.prems(2), of a "int n"] True show ?thesis by auto
    qed
    with run show ?thesis by blast
  qed
qed

lemma bit_matches_bit: "0 \<le> v \<Longrightarrow> v < 64 \<Longrightarrow> bit_matches w v \<longleftrightarrow> bit w (nat v)"
proof -
  assume v: "0 \<le> v" "v < 64"
  have "x = 0 \<longleftrightarrow> (\<forall>n < 64. \<not> bit x n)" for x :: "64 word" by (auto intro!: bit_word_eqI)
  then have "push_bit (nat v) 1 AND w \<noteq> 0 \<longleftrightarrow> (\<exists>n < 64. bit (push_bit (nat v) 1 AND w) n)" by blast
  also have "\<dots> \<longleftrightarrow> bit w (nat v)" using v by (auto simp: bit_and_iff bit_exp_iff possible_bit_word)
  finally show ?thesis by (simp add: bit_matches_def)
qed

definition sane :: "cal_range \<Rightarrow> bool" where
  "sane r \<longleftrightarrow> 0 \<le> Start r \<and> 0 \<le> Step r"

lemma iterateRanges_bits:
  "list_all sane rs \<Longrightarrow> \<exists>w'. iterateRanges rs add_bit w = Some w' \<and>
     (\<forall>n < 64. bit w' n \<longleftrightarrow> bit w n \<or> (\<exists>r \<in> set rs. denotes r (int n)))"
proof (induction rs arbitrary: w)
  case (Cons r rs)
  have r: "0 \<le> Start r" "0 < range_step r" using Cons.prems by (auto simp: sane_def range_step_def)
  obtain w1 where w1: "range_loop add_bit (Start r) (range_end r) (range_step r) w = Some w1"
    "\<And>n. n < 64 \<Longrightarrow> bit w1 n \<longleftrightarrow> bit w n \<or> denotes r (int n)"
    using range_loop_bits [OF r, of "range_end r" w] by (auto simp: denotes_def)
  obtain w' where "iterateRanges rs add_bit w1 = Some w'"
    "\<And>n. n < 64 \<Longrightarrow> bit w' n \<longleftrightarrow> bit w1 n \<or> (\<exists>r \<in> set rs. denotes r (int n))"
    using Cons.IH [of w1] Cons.prems by auto
  with w1 show ?case by auto
qed simp

lemma makeBitMatcher_ok:
  assumes "list_all sane rs"
  shows "\<exists>f. makeBitMatcher rs = Some f \<and> (\<forall>v. 0 \<le> v \<longrightarrow> v < 64 \<longrightarrow> f v = (\<exists>r \<in> set rs. denotes r v))"
proof -
  obtain w where w: "iterateRanges rs add_bit 0 = Some w"
    "\<And>n. n < 64 \<Longrightarrow> bit w n \<longleftrightarrow> (\<exists>r \<in> set rs. denotes r (int n))"
    using iterateRanges_bits [OF assms, of 0] by auto
  have "bit_matches w v = (\<exists>r \<in> set rs. denotes r v)" if "0 \<le> v" "v < 64" for v
    using w(2) [of "nat v"] that by (simp add: bit_matches_bit)
  with w(1) show ?thesis by (auto simp: makeBitMatcher_def)
qed

lemma range_loop_values:
  "0 < st \<Longrightarrow> \<exists>ys. range_loop (\<lambda>i values. Some (values @ [i16 i])) a b st xs = Some ys \<and>
    (\<forall>y. y \<in> set ys \<longleftrightarrow> y \<in> set xs \<or> (\<exists>v. a \<le> v \<and> v \<le> b \<and> (v - a) mod st = 0 \<and> y = i16 v))"
proof (induction "nat (b - a + 1)" arbitrary: a xs rule: less_induct)
  case less
  show ?case
  proof (cases "a \<le> b")
    case False
    then show ?thesis by (auto simp: range_loop.simps)
  next
    case True
    have "\<exists>ys. range_loop (\<lambda>i values. Some (values @ [i16 i])) (a + st) b st (xs @ [i16 a]) = Some ys \<and>
      (\<forall>y. y \<in> set ys \<longleftrightarrow> y \<in> set (xs @ [i16 a]) \<or> (\<exists>v. a + st \<le> v \<and> v \<le> b \<and> (v - (a + st)) mod st = 0 \<and> y = i16 v))"
      using less.prems True by (intro less.hyps) auto
    then obtain ys where ys: "range_loop (\<lambda>i values. Some (values @ [i16 i])) (a + st) b st (xs @ [i16 a]) = Some ys"
      "\<And>y. y \<in> set ys \<longleftrightarrow> y \<in> set (xs @ [i16 a]) \<or> (\<exists>v. a + st \<le> v \<and> v \<le> b \<and> (v - (a + st)) mod st = 0 \<and> y = i16 v)"
      by blast
    have "range_loop (\<lambda>i values. Some (values @ [i16 i])) a b st xs = Some ys"
      using True ys(1) by (simp add: range_loop.simps [of _ a])
    moreover have "y \<in> set ys \<longleftrightarrow> y \<in> set xs \<or> (\<exists>v. a \<le> v \<and> v \<le> b \<and> (v - a) mod st = 0 \<and> y = i16 v)" for y
    proof -
      have "a \<le> v \<and> v \<le> b \<and> (v - a) mod st = 0 \<longleftrightarrow> v = a \<or> a + st \<le> v \<and> v \<le> b \<and> (v - (a + st)) mod st = 0" for v
        using step_split [OF less.prems, of a v] True by metis
      moreover have "y \<in> set (xs @ [i16 a]) \<longleftrightarrow> y \<in> set xs \<or> y = i16 a" by simp blast
      ultimately show ?thesis unfolding ys(2) by metis
    qed
    ultimately show ?thesis by blast
  qed
qed

lemma iterateRanges_values:
  "list_all sane rs \<Longrightarrow> \<exists>ys. iterateRanges rs (\<lambda>i values. Some (values @ [i16 i])) xs = Some ys \<and>
     (\<forall>y. y \<in> set ys \<longleftrightarrow> y \<in> set xs \<or> (\<exists>r \<in> set rs. \<exists>v. denotes r v \<and> y = i16 v))"
proof (induction rs arbitrary: xs)
  case (Cons r rs)
  have r: "0 < range_step r" using Cons.prems by (auto simp: sane_def range_step_def)
  obtain zs where zs: "range_loop (\<lambda>i values. Some (values @ [i16 i])) (Start r) (range_end r) (range_step r) xs = Some zs"
    "\<And>y. y \<in> set zs \<longleftrightarrow> y \<in> set xs \<or> (\<exists>v. denotes r v \<and> y = i16 v)"
    using range_loop_values [OF r, of "Start r" "range_end r" xs] by (auto simp: denotes_def)
  obtain ys where "iterateRanges rs (\<lambda>i values. Some (values @ [i16 i])) zs = Some ys"
    "\<And>y. y \<in> set ys \<longleftrightarrow> y \<in> set zs \<or> (\<exists>r \<in> set rs. \<exists>v. denotes r v \<and> y = i16 v)"
    using Cons.IH [of zs] Cons.prems by auto
  with zs show ?case by auto
qed simp

lemma i16_id: "0 \<le> x \<Longrightarrow> x < 2 ^ 15 \<Longrightarrow> i16 x = x"
  by (simp add: i16_def)

lemma makeYearMatcher_ok:
  assumes "list_all (\<lambda>r. sane r \<and> range_end r < 2 ^ 15) rs"
  shows "\<exists>f. makeYearMatcher rs = Some f \<and> (\<forall>v. f v = (rs = [] \<or> (\<exists>r \<in> set rs. denotes r v)))"
proof (cases "rs = []")
  case False
  have sane: "list_all sane rs" using assms by (simp add: list_all_iff)
  obtain ys where ys: "iterateRanges rs (\<lambda>i values. Some (values @ [i16 i])) [] = Some ys"
    "\<And>y. y \<in> set ys \<longleftrightarrow> (\<exists>r \<in> set rs. \<exists>v. denotes r v \<and> y = i16 v)"
    using iterateRanges_values [OF sane, of "[]"] by auto
  have "(\<exists>v. denotes r v \<and> y = i16 v) \<longleftrightarrow> denotes r y" if "r \<in> set rs" for r y
  proof -
    have "i16 v = v" if "denotes r v" for v
      using that assms \<open>r \<in> set rs\<close> by (intro i16_id) (auto simp: denotes_def sane_def list_all_iff)
    then show ?thesis by metis
  qed
  with ys False show ?thesis by (auto simp: makeYearMatcher_def list_ex_iff)
qed (simp add: makeYearMatcher_def)

section \<open>Properties\<close>

text \<open>One pass of the outer loop that goes on with another.\<close>

definition search_continues :: "compiledCalendar \<Rightarrow> cal_state \<Rightarrow> cal_state \<Rightarrow> bool" where
  "search_continues cc st st' \<longleftrightarrow>
     (let n = normalize (cc_tz cc) st in cv_year n \<le> maxCalendarYear \<and> search_step cc n = Inl st')"

text \<open>
  C14. The search of \<open>next\<close> ends for every calendar, in every location with whatever transitions, from
  every state: no run of its outer loop is infinite.
\<close>

theorem Calendar_search_terminates: "\<nexists>run. \<forall>n. search_continues cc (run n) (run (Suc n))"
proof
  assume "\<exists>run. \<forall>n. search_continues cc (run n) (run (Suc n))"
  then obtain run where run: "search_continues cc (run n) (run (Suc n))" for n by blast
  have "(run (Suc n), run n) \<in> inv_image (measures search_measures) (normalize (cc_tz cc))" for n
  proof -
    let ?n = "normalize (cc_tz cc) (run n)"
    have "cv_year ?n \<le> 2100" "search_step cc ?n = Inl (run (Suc n))"
      using run [of n] by (simp_all add: search_continues_def maxCalendarYear_def Let_def)
    from search_decreases [OF order.strict_trans2 [OF search_step_progress [OF this(2)] normalize_progress] refl refl this(1)]
    show ?thesis by simp
  qed
  moreover have "wf (inv_image (measures search_measures) (normalize (cc_tz cc)))" by simp
  ultimately show False using wf_no_infinite_down_chainE by metis
qed

text \<open>
  C15. In a location with a fixed offset \<open>next\<close> returns the earliest matching time after the given one; it
  returns the zero time only if no later time before the last calendar year matches.
\<close>

theorem Calendar_next_earliest:
  assumes "fixed_zone (cc_tz cc)"
  shows "case cal_next cc ts of
      None \<Rightarrow> (\<forall>t > ts. cal_matches cc t \<longrightarrow> maxCalendarYear < cv_year (local_civil (cc_tz cc) t))
    | Some t \<Rightarrow> ts < t \<and> cal_matches cc t \<and> cv_year (local_civil (cc_tz cc) t) \<le> maxCalendarYear \<and>
        (\<forall>t' > ts. cal_matches cc t' \<longrightarrow> t \<le> t')"
  by (rule cal_next_ok [OF assms])

theorem Calendar_next_earliest_witness:
  "cal_next \<lparr>cc_tz = UTC, cc_year = \<lambda>y. True, cc_month = \<lambda>m. True, cc_dayOfMonth = \<lambda>d. True, cc_dayOfWeek = \<lambda>w. True,
     cc_hour = \<lambda>h. True, cc_minute = \<lambda>m. True, cc_second = \<lambda>s. True\<rparr> 59 = Some 60"
proof -
  let ?cc = "\<lparr>cc_tz = UTC, cc_year = \<lambda>y. True, cc_month = \<lambda>m. True, cc_dayOfMonth = \<lambda>d. True, cc_dayOfWeek = \<lambda>w. True,
     cc_hour = \<lambda>h. True, cc_minute = \<lambda>m. True, cc_second = \<lambda>s. True\<rparr>"
  have all: "cal_matches ?cc t" for t by (simp add: cal_matches_def Let_def)
  have "year_of 719528 = 1970" by code_simp
  then have "cv_year (local_civil UTC 60) = 1970"
    by (simp add: local_civil_def offset_at_def UTC_def civil_of_def epoch_days_def Let_def split: prod.split)
  with all Calendar_next_earliest [of ?cc 59] fixed_UTC(1) show ?thesis
    by (cases "cal_next ?cc 59") (auto simp: maxCalendarYear_def dest: spec [of _ 60])
qed

end
