(* ===== verification/CalendarParse.thy ===== *)
theory CalendarParse
  imports ScheduleCalendar
begin

text \<open>
  The parsing of calendar and cron specifications (\<open>service/worker/scheduler/calendar.go\<close>). Strings are
  lists of ASCII characters. An error is a value of \<open>parse_error\<close>, one per message of the code.
\<close>

section \<open>Strings\<close>

text \<open>The functions of \<open>strings\<close> and \<open>strconv\<close> that the parser calls.\<close>

definition is_space :: "char \<Rightarrow> bool" where
  "is_space ch \<longleftrightarrow> ch \<in> {CHR 0x09, CHR 0x0A, CHR 0x0B, CHR 0x0C, CHR 0x0D, CHR 0x20}"

definition TrimSpace :: "string \<Rightarrow> string" where
  "TrimSpace s = rev (dropWhile is_space (rev (dropWhile is_space s)))"

definition HasPrefix :: "string \<Rightarrow> string \<Rightarrow> bool" where
  "HasPrefix s p \<longleftrightarrow> take (length p) s = p"

definition lower_char :: "char \<Rightarrow> char" where
  "lower_char ch = (let n = of_char ch :: nat in if 65 \<le> n \<and> n \<le> 90 then char_of (n + 32) else ch)"

definition ToLower :: "string \<Rightarrow> string" where
  "ToLower s = map lower_char s"

text \<open>\<open>Cut\<close> at a one-character separator: before, after, found.\<close>

fun Cut :: "char \<Rightarrow> string \<Rightarrow> string \<times> string \<times> bool" where
  "Cut sep [] = ([], [], False)"
| "Cut sep (ch # s) =
     (if ch = sep then ([], s, True) else case Cut sep s of (a, b, f) \<Rightarrow> (ch # a, if f then b else [], f))"

fun Split :: "char \<Rightarrow> string \<Rightarrow> string list" where
  "Split sep [] = [[]]"
| "Split sep (ch # s) =
     (if ch = sep then [] # Split sep s else case Split sep s of [] \<Rightarrow> [[ch]] | p # ps \<Rightarrow> (ch # p) # ps)"

text \<open>\<open>FieldsSeq\<close>: the maximal runs of characters that are not space.\<close>

fun Fields :: "string \<Rightarrow> string list" where
  "Fields [] = []"
| "Fields (ch # s) =
     (if is_space ch then Fields s
      else if s = [] \<or> is_space (hd s) then [ch] # Fields s
      else case Fields s of [] \<Rightarrow> [[ch]] | p # ps \<Rightarrow> (ch # p) # ps)"

definition digit_value :: "char \<Rightarrow> int option" where
  "digit_value ch = (let n = of_char ch :: nat in if 48 \<le> n \<and> n \<le> 57 then Some (int n - 48) else None)"

fun digits_value :: "int \<Rightarrow> string \<Rightarrow> int option" where
  "digits_value n [] = Some n"
| "digits_value n (ch # s) = (case digit_value ch of None \<Rightarrow> None | Some d \<Rightarrow> digits_value (10 * n + d) s)"

definition unsigned_value :: "string \<Rightarrow> int option" where
  "unsigned_value s = (if s = [] then None else digits_value 0 s)"

definition Atoi :: "string \<Rightarrow> int option" where
  "Atoi s =
     (let v = (case s of
                 [] \<Rightarrow> None
               | ch # t \<Rightarrow>
                   if ch = CHR ''-'' then map_option uminus (unsigned_value t)
                   else if ch = CHR ''+'' then unsigned_value t else unsigned_value s)
      in case v of None \<Rightarrow> None | Some n \<Rightarrow> if in_i64 n then Some n else None)"

section \<open>Ranges\<close>

datatype parse_mode = ParseModeInt | ParseModeYear | ParseModeMonth | ParseModeDow

datatype parse_error =
    TooManySlashes string
  | MissingStepValue string
  | StepSyntax
  | InvalidStep string
  | TooManyDashes string
  | StartNotInRange string
  | EndNotInRange string
  | NotInRange string
  | CronNotFields
  | CronTimeZoneOnly
  | CronNoInterval
  | CronDuration
  | CalendarErrors "parse_error list"

definition monthStrings :: "string list" where
  "monthStrings = [''january'', ''february'', ''march'', ''april'', ''may'', ''june'', ''july'', ''august'', ''september'',
     ''october'', ''november'', ''december'']"

definition dowStrings :: "string list" where
  "dowStrings = [''sunday'', ''monday'', ''tuesday'', ''wednesday'', ''thursday'', ''friday'', ''saturday'']"

fun first_with_prefix :: "string \<Rightarrow> string list \<Rightarrow> int \<Rightarrow> int option" where
  "first_with_prefix s [] i = None"
| "first_with_prefix s (name # names) i = (if HasPrefix name s then Some i else first_with_prefix s names (i + 1))"

definition check_value :: "int \<Rightarrow> int \<Rightarrow> int \<Rightarrow> int option" where
  "check_value i min_val max_val = (if i < min_val \<or> i > max_val then None else Some i)"

definition parse_int :: "string \<Rightarrow> int \<Rightarrow> int \<Rightarrow> int option" where
  "parse_int s min_val max_val = (case Atoi s of None \<Rightarrow> None | Some i \<Rightarrow> check_value i min_val max_val)"

text \<open>\<open>None\<close> is an error; the callers ignore which.\<close>

definition parseValue :: "string \<Rightarrow> int \<Rightarrow> int \<Rightarrow> parse_mode \<Rightarrow> int option" where
  "parseValue s min_val max_val mode =
     (if mode = ParseModeMonth \<and> 3 \<le> length s then
        case first_with_prefix (ToLower s) monthStrings 1 of
          Some i \<Rightarrow> check_value i min_val max_val
        | None \<Rightarrow> parse_int (ToLower s) min_val max_val
      else if mode = ParseModeDow \<and> 2 \<le> length s then
        case first_with_prefix (ToLower s) dowStrings 0 of
          Some i \<Rightarrow> check_value i min_val max_val
        | None \<Rightarrow> parse_int (ToLower s) min_val max_val
      else parse_int s min_val max_val)"

text \<open>The step of a part: the rest of the part, the step and whether it was given.\<close>

definition parse_step :: "string \<Rightarrow> string \<Rightarrow> parse_error + string \<times> int \<times> bool" where
  "parse_step field part =
     (let slashes = count_list part (CHR ''/'') in
      if slashes > 1 then Inl (TooManySlashes field)
      else if slashes = 1 then
        case Cut (CHR ''/'') part of
          (left, right, _) \<Rightarrow>
            if right = [] then Inl (MissingStepValue field)
            else case Atoi right of
              None \<Rightarrow> Inl StepSyntax
            | Some step \<Rightarrow> if step < 1 then Inl (InvalidStep field) else Inr (left, step, True)
      else Inr (part, 1, False))"

definition parse_bounds :: "string \<Rightarrow> string \<Rightarrow> int \<Rightarrow> int \<Rightarrow> parse_mode \<Rightarrow> bool \<Rightarrow> parse_error + int \<times> int" where
  "parse_bounds field part minVal maxVal mode hasStep =
     (if part = ''*'' then Inr (minVal, maxVal)
      else if CHR ''-'' \<in> set part then
        if count_list part (CHR ''-'') > 1 then Inl (TooManyDashes field)
        else
          case Cut (CHR ''-'') part of
            (left, right, _) \<Rightarrow>
              case parseValue left minVal maxVal mode of
                None \<Rightarrow> Inl (StartNotInRange field)
              | Some start \<Rightarrow>
                  case parseValue right start maxVal mode of
                    None \<Rightarrow> Inl (EndNotInRange field)
                  | Some stop \<Rightarrow> Inr (start, stop)
      else
        case parseValue part minVal maxVal mode of
          None \<Rightarrow> Inl (NotInRange field)
        | Some start \<Rightarrow> Inr (start, if hasStep then maxVal else start))"

definition range_of :: "int \<Rightarrow> int \<Rightarrow> int \<Rightarrow> cal_range" where
  "range_of start stop step =
     \<lparr>Start = i32 start, End = i32 (if start = stop then 0 else stop), Step = i32 (if step = 1 then 0 else step)\<rparr>"

definition emit_ranges :: "parse_mode \<Rightarrow> int \<Rightarrow> int \<Rightarrow> int \<Rightarrow> cal_range list" where
  "emit_ranges mode start stop step =
     (if mode = ParseModeDow \<and> stop = 7 then
        if (7 - start) mod step = 0 \<and> (step > 1 \<or> step = 1 \<and> start > 1) then
          \<lparr>Start = 0, End = 0, Step = 0\<rparr> # (if start = 7 then [] else [range_of start 6 step])
        else [range_of start 6 step]
      else [range_of start stop step])"

definition parse_part :: "string \<Rightarrow> int \<Rightarrow> int \<Rightarrow> parse_mode \<Rightarrow> string \<Rightarrow> parse_error + cal_range list" where
  "parse_part field minVal maxVal mode part =
     bind_result (parse_step field part) (\<lambda>(part, step, hasStep).
     bind_result (parse_bounds field part minVal maxVal mode hasStep) (\<lambda>(start, stop).
     Inr (emit_ranges mode start stop step)))"

fun parse_parts :: "string \<Rightarrow> int \<Rightarrow> int \<Rightarrow> parse_mode \<Rightarrow> string list \<Rightarrow> parse_error + cal_range list" where
  "parse_parts field minVal maxVal mode [] = Inr []"
| "parse_parts field minVal maxVal mode (part # parts) =
     bind_result (parse_part field minVal maxVal mode part) (\<lambda>rs.
     bind_result (parse_parts field minVal maxVal mode parts) (\<lambda>rs'. Inr (rs @ rs')))"

definition makeRange :: "string \<Rightarrow> string \<Rightarrow> string \<Rightarrow> int \<Rightarrow> int \<Rightarrow> parse_mode \<Rightarrow> parse_error + cal_range list" where
  "makeRange s field def minVal maxVal mode =
     (let s = TrimSpace s; s = (if s = [] then def else s)
      in if s = ''*'' \<and> mode = ParseModeYear then Inr []
         else parse_parts field minVal maxVal mode (Split (CHR '','') s))"

section \<open>Calendars and cron strings\<close>

record calendar_spec =
  cal_Second :: string
  cal_Minute :: string
  cal_Hour :: string
  cal_DayOfMonth :: string
  cal_Month :: string
  cal_Year :: string
  cal_DayOfWeek :: string
  cal_Comment :: string

definition or_nil :: "parse_error + cal_range list \<Rightarrow> cal_range list" where
  "or_nil r = (case r of Inl _ \<Rightarrow> [] | Inr rs \<Rightarrow> rs)"

definition error_of :: "parse_error + cal_range list \<Rightarrow> parse_error list" where
  "error_of r = (case r of Inl e \<Rightarrow> [e] | Inr _ \<Rightarrow> [])"

definition parseCalendarToStructured :: "calendar_spec \<Rightarrow> parse_error + structured_calendar" where
  "parseCalendarToStructured cal =
     (let s = makeRange (cal_Second cal) ''Second'' ''0'' 0 59 ParseModeInt;
          m = makeRange (cal_Minute cal) ''Minute'' ''0'' 0 59 ParseModeInt;
          h = makeRange (cal_Hour cal) ''Hour'' ''0'' 0 23 ParseModeInt;
          w = makeRange (cal_DayOfWeek cal) ''DayOfWeek'' ''*'' 0 7 ParseModeDow;
          d = makeRange (cal_DayOfMonth cal) ''DayOfMonth'' ''*'' 1 31 ParseModeInt;
          mo = makeRange (cal_Month cal) ''Month'' ''*'' 1 12 ParseModeMonth;
          y = makeRange (cal_Year cal) ''Year'' ''*'' minCalendarYear maxCalendarYear ParseModeYear;
          errs = error_of s @ error_of m @ error_of h @ error_of w @ error_of d @ error_of mo @ error_of y
      in if errs \<noteq> [] then Inl (CalendarErrors errs)
         else Inr \<lparr>Second = or_nil s, Minute = or_nil m, Hour = or_nil h, DayOfMonth = or_nil d, Month = or_nil mo,
                   Year = or_nil y, DayOfWeek = or_nil w, Comment = cal_Comment cal\<rparr>)"

definition handlePredefinedCronStrings :: "string \<Rightarrow> string" where
  "handlePredefinedCronStrings c =
     (if c = ''@yearly'' \<or> c = ''@annually'' then ''0 0 1 1 *''
      else if c = ''@monthly'' then ''0 0 1 * *''
      else if c = ''@weekly'' then ''0 0 * * 0''
      else if c = ''@daily'' \<or> c = ''@midnight'' then ''0 0 * * *''
      else if c = ''@hourly'' then ''0 * * * *''
      else c)"

text \<open>Durations are in nanoseconds; \<open>ParseDuration\<close> (\<open>common/primitives/timestamp\<close>, on regular expressions) is a parameter.\<close>

record interval_spec =
  Interval :: int
  Phase :: int

definition parseCronStringInterval :: "(string \<Rightarrow> int option) \<Rightarrow> string \<Rightarrow> parse_error + interval_spec" where
  "parseCronStringInterval ParseDuration c =
     (case Cut (CHR '' '') c of
        (_, interval, found) \<Rightarrow>
          if \<not> found then Inl CronNoInterval
          else
            case Cut (CHR ''/'') interval of
              (interval, phase, _) \<Rightarrow>
                case ParseDuration interval of
                  None \<Rightarrow> Inl CronDuration
                | Some iv \<Rightarrow>
                    if phase = [] then Inr \<lparr>Interval = iv, Phase = 0\<rparr>
                    else case ParseDuration phase of None \<Rightarrow> Inl CronDuration | Some ph \<Rightarrow> Inr \<lparr>Interval = iv, Phase = ph\<rparr>)"

definition cron_fields :: "string \<Rightarrow> string list \<Rightarrow> calendar_spec option" where
  "cron_fields comment toks =
     (let cal = \<lparr>cal_Second = [], cal_Minute = [], cal_Hour = [], cal_DayOfMonth = [], cal_Month = [], cal_Year = [],
                cal_DayOfWeek = [], cal_Comment = comment\<rparr>
      in case toks of
           [m, h, d, mo, w] \<Rightarrow> Some (cal\<lparr>cal_Minute := m, cal_Hour := h, cal_DayOfMonth := d, cal_Month := mo, cal_DayOfWeek := w\<rparr>)
         | [m, h, d, mo, w, y] \<Rightarrow>
             Some (cal\<lparr>cal_Minute := m, cal_Hour := h, cal_DayOfMonth := d, cal_Month := mo, cal_DayOfWeek := w, cal_Year := y\<rparr>)
         | [s, m, h, d, mo, w, y] \<Rightarrow>
             Some (cal\<lparr>cal_Second := s, cal_Minute := m, cal_Hour := h, cal_DayOfMonth := d, cal_Month := mo, cal_DayOfWeek := w, cal_Year := y\<rparr>)
         | _ \<Rightarrow> None)"

text \<open>The result: a structured calendar or an interval, and the time zone name.\<close>

definition parseCronString ::
    "(string \<Rightarrow> int option) \<Rightarrow> string \<Rightarrow> parse_error + (structured_calendar + interval_spec) \<times> string" where
  "parseCronString ParseDuration c =
     (let c = TrimSpace c;
          zoned = HasPrefix c ''TZ='' \<or> HasPrefix c ''CRON_TZ='';
          (tz, rest, found) = Cut (CHR '' '') c
      in if zoned \<and> \<not> found then Inl CronTimeZoneOnly
         else
           let c = (if zoned then rest else c);
               tzName = (if zoned then fst (snd (Cut (CHR ''='') tz)) else []);
               (c, comment, _) = Cut (CHR ''#'') c;
               c = TrimSpace c;
               comment = TrimSpace comment
           in if HasPrefix c ''@every''
              then bind_result (parseCronStringInterval ParseDuration c) (\<lambda>iv. Inr (Inr iv, []))
              else
                case cron_fields comment (Fields (handlePredefinedCronStrings c)) of
                  None \<Rightarrow> Inl CronNotFields
                | Some cal \<Rightarrow> bind_result (parseCalendarToStructured cal) (\<lambda>structured. Inr (Inl structured, tzName)))"

end
