(* ===== verification/LruCache.thy ===== *)
theory LruCache
  imports CacheInterface
begin

text \<open>
  The LRU cache: \<open>common/cache/lru.go\<close>, \<open>size_getter.go\<close>. The list elements of \<open>container/list\<close> are
  identified by numbers, which \<open>byKey\<close> holds as pointers; \<open>byAccess\<close> lists them from the front (the
  most recently used) to the back. The clock and the size of a value are arguments (a value is a
  pointer, and its size can change between calls); the zero time is \<open>None\<close>. The calls of \<open>onPut\<close> and
  \<open>onEvict\<close> are recorded. Metrics are left out. Sizes are far from the bounds of \<open>int\<close>.
\<close>

section \<open>State\<close>

record ('k, 'v) lru_entry =
  entry_key :: 'k
  createTime :: "int option"
  entry_value :: 'v
  refCount :: int
  entry_size :: int

datatype 'v cache_call = OnPut 'v | OnEvict 'v

record ('k, 'v) lru =
  byAccess :: "(nat \<times> ('k, 'v) lru_entry) list"
  byKey :: "'k \<Rightarrow> nat option"
  nextElement :: nat
  maxSize :: int
  currSize :: int
  pinnedSize :: int
  ttl :: int
  pin :: bool
  calls :: "'v cache_call list"

datatype cache_error =
    ErrCacheFull
  | ErrCacheItemTooLarge

definition emptyEntrySize :: int where
  "emptyEntrySize = 0"

definition New_lru :: "int \<Rightarrow> int \<Rightarrow> bool \<Rightarrow> ('k, 'v) lru" where
  "New_lru max_size ttl_opt pin_opt =
     \<lparr>byAccess = [], byKey = (\<lambda>_. None), nextElement = 0, maxSize = max_size, currSize = 0, pinnedSize = 0,
      ttl = ttl_opt, pin = pin_opt, calls = []\<rparr>"

section \<open>Helpers\<close>

definition element :: "('k, 'v) lru \<Rightarrow> nat \<Rightarrow> ('k, 'v) lru_entry" where
  "element c i = the (map_of (byAccess c) i)"

definition set_element :: "nat \<Rightarrow> ('k, 'v) lru_entry \<Rightarrow> ('k, 'v) lru \<Rightarrow> ('k, 'v) lru" where
  "set_element i e c = c\<lparr>byAccess := map (\<lambda>(j, x). if j = i then (j, e) else (j, x)) (byAccess c)\<rparr>"

definition MoveToFront :: "nat \<Rightarrow> ('k, 'v) lru \<Rightarrow> ('k, 'v) lru" where
  "MoveToFront i c = c\<lparr>byAccess := filter (\<lambda>p. fst p = i) (byAccess c) @ filter (\<lambda>p. fst p \<noteq> i) (byAccess c)\<rparr>"

definition calculateNewCacheSize :: "('k, 'v) lru \<Rightarrow> int \<Rightarrow> int \<Rightarrow> int" where
  "calculateNewCacheSize c newEntrySize existingEntrySize = currSize c - existingEntrySize + newEntrySize"

definition isEntryExpired :: "('k, 'v) lru \<Rightarrow> ('k, 'v) lru_entry \<Rightarrow> int \<Rightarrow> bool" where
  "isEntryExpired c e currentTime \<longleftrightarrow>
     refCount e = 0 \<and> (case createTime e of None \<Rightarrow> False | Some t \<Rightarrow> currentTime > t + ttl c)"

definition updateEntryTTL :: "int \<Rightarrow> ('k, 'v) lru \<Rightarrow> ('k, 'v) lru_entry \<Rightarrow> ('k, 'v) lru_entry" where
  "updateEntryTTL now c e = (if ttl c \<noteq> 0 then e\<lparr>createTime := Some now\<rparr> else e)"

definition updateEntryRefCount :: "('k, 'v) lru_entry \<Rightarrow> ('k, 'v) lru \<Rightarrow> ('k, 'v) lru_entry \<times> ('k, 'v) lru" where
  "updateEntryRefCount e c =
     (if pin c then
        let e = e\<lparr>refCount := refCount e + 1\<rparr>
        in (e, if refCount e = 1 then c\<lparr>pinnedSize := pinnedSize c + entry_size e\<rparr> else c)
      else (e, c))"

definition deleteInternal :: "nat \<Rightarrow> ('k, 'v) lru \<Rightarrow> ('k, 'v) lru" where
  "deleteInternal i c =
     (let e = element c i in
      c\<lparr>byAccess := filter (\<lambda>p. fst p \<noteq> i) (byAccess c),
        currSize := currSize c - entry_size e,
        byKey := (byKey c)(entry_key e := None),
        calls := calls c @ [OnEvict (entry_value e)]\<rparr>)"

section \<open>Eviction\<close>

text \<open>
  The loop walks from the back to the front. The element before the current one is read before the
  current one is removed, so it walks the list as it was.
\<close>

definition tryEvictAndGetPreviousElement ::
    "nat \<times> ('k, 'v) lru_entry \<Rightarrow> ('k, 'v) lru \<Rightarrow> ('k, 'v) lru" where
  "tryEvictAndGetPreviousElement p c = (if refCount (snd p) = 0 then deleteInternal (fst p) c else c)"

fun evict_loop ::
    "int \<Rightarrow> ('k \<times> int) option \<Rightarrow> (nat \<times> ('k, 'v) lru_entry) list \<Rightarrow> ('k, 'v) lru \<Rightarrow> ('k, 'v) lru" where
  "evict_loop newEntrySize existing [] c = c"
| "evict_loop newEntrySize existing (p # before) c =
     (let existingEntrySize = (case existing of None \<Rightarrow> 0 | Some (k, sz) \<Rightarrow> sz) in
      if calculateNewCacheSize c newEntrySize existingEntrySize > maxSize c then
        if existing \<noteq> None \<and> map_option fst existing = Some (entry_key (snd p))
        then evict_loop newEntrySize existing before c
        else evict_loop newEntrySize existing before (tryEvictAndGetPreviousElement p c)
      else c)"

definition tryEvictUntilEnoughSpaceWithSkipEntry ::
    "int \<Rightarrow> ('k, 'v) lru_entry option \<Rightarrow> ('k, 'v) lru \<Rightarrow> ('k, 'v) lru" where
  "tryEvictUntilEnoughSpaceWithSkipEntry newEntrySize existingEntry c =
     evict_loop newEntrySize (map_option (\<lambda>e. (entry_key e, entry_size e)) existingEntry) (rev (byAccess c)) c"

definition tryEvictUntilCacheSizeUnderLimit :: "('k, 'v) lru \<Rightarrow> ('k, 'v) lru" where
  "tryEvictUntilCacheSizeUnderLimit c = tryEvictUntilEnoughSpaceWithSkipEntry 0 None c"

section \<open>Operations\<close>

definition Get :: "int \<Rightarrow> 'k \<Rightarrow> ('k, 'v) lru \<Rightarrow> 'v option \<times> ('k, 'v) lru" where
  "Get now key c =
     (if maxSize c = 0 then (None, c)
      else case byKey c key of
        None \<Rightarrow> (None, c)
      | Some i \<Rightarrow>
          let e = element c i in
          if isEntryExpired c e now then (None, deleteInternal i c)
          else let (e', c) = updateEntryRefCount e c
               in (Some (entry_value e'), MoveToFront i (set_element i e' c)))"

text \<open>
  \<open>putInternal\<close>, in three parts: the insertion of a new entry (its end), the branch of an entry that
  exists and has not expired, and the whole. The entry that exists keeps its element and its key.
\<close>

definition putNew ::
    "int \<Rightarrow> int \<Rightarrow> 'k \<Rightarrow> 'v \<Rightarrow> ('k, 'v) lru \<Rightarrow> (cache_error + 'v option) \<times> ('k, 'v) lru" where
  "putNew newEntrySize now key val c =
     (let c = tryEvictUntilEnoughSpaceWithSkipEntry newEntrySize None c;
          newCacheSize = calculateNewCacheSize c newEntrySize emptyEntrySize
      in if newCacheSize > maxSize c then (Inl ErrCacheFull, c)
         else
           let e = \<lparr>entry_key = key, createTime = None, entry_value = val, refCount = 0, entry_size = newEntrySize\<rparr>;
               (e, c) = updateEntryRefCount (updateEntryTTL now c e) c;
               i = nextElement c
           in (Inr None, c\<lparr>byAccess := (i, e) # byAccess c, nextElement := i + 1,
                 byKey := (byKey c)(key \<mapsto> i), currSize := newCacheSize, calls := calls c @ [OnPut val]\<rparr>))"

definition putFinish :: "nat \<Rightarrow> 'v \<Rightarrow> ('k, 'v) lru_entry \<Rightarrow> ('k, 'v) lru \<Rightarrow> (cache_error + 'v option) \<times> ('k, 'v) lru" where
  "putFinish i existingVal e c =
     (let (e', c) = updateEntryRefCount e c in (Inr (Some existingVal), MoveToFront i (set_element i e' c)))"

definition putExisting ::
    "int \<Rightarrow> int \<Rightarrow> 'v \<Rightarrow> bool \<Rightarrow> nat \<Rightarrow> ('k, 'v) lru \<Rightarrow> (cache_error + 'v option) \<times> ('k, 'v) lru" where
  "putExisting newEntrySize now val allowUpdate i c =
     (let existingEntry = element c i;
          existingVal = entry_value existingEntry
      in if \<not> allowUpdate then putFinish i existingVal existingEntry c
         else
           let newCacheSize = calculateNewCacheSize c newEntrySize (entry_size existingEntry);
               c = (if newCacheSize > maxSize c
                    then tryEvictUntilEnoughSpaceWithSkipEntry newEntrySize (Some existingEntry) c else c);
               newCacheSize = calculateNewCacheSize c newEntrySize (entry_size existingEntry)
           in if newCacheSize > maxSize c then (Inl ErrCacheFull, c)
              else putFinish i existingVal
                     (updateEntryTTL now c (existingEntry\<lparr>entry_value := val, entry_size := newEntrySize\<rparr>))
                     (c\<lparr>currSize := newCacheSize, calls := calls c @ [OnPut val]\<rparr>))"

definition putInternal ::
    "('v \<Rightarrow> int) \<Rightarrow> int \<Rightarrow> 'k \<Rightarrow> 'v \<Rightarrow> bool \<Rightarrow> ('k, 'v) lru \<Rightarrow> (cache_error + 'v option) \<times> ('k, 'v) lru" where
  "putInternal getSize now key val allowUpdate c =
     (if maxSize c = 0 then (Inr None, c)
      else let newEntrySize = getSize val in
      if newEntrySize > maxSize c then (Inl ErrCacheItemTooLarge, c)
      else case byKey c key of
        None \<Rightarrow> putNew newEntrySize now key val c
      | Some i \<Rightarrow>
          if isEntryExpired c (element c i) now then putNew newEntrySize now key val (deleteInternal i c)
          else putExisting newEntrySize now val allowUpdate i c)"

text \<open>\<open>Put\<close> panics in pin mode; it drops the error of \<open>putInternal\<close>.\<close>

definition Put :: "('v \<Rightarrow> int) \<Rightarrow> int \<Rightarrow> 'k \<Rightarrow> 'v \<Rightarrow> ('k, 'v) lru \<Rightarrow> ('v option \<times> ('k, 'v) lru) option" where
  "Put getSize now key val c =
     (if pin c then None
      else case putInternal getSize now key val True c of
        (Inl _, c') \<Rightarrow> Some (None, c')
      | (Inr v, c') \<Rightarrow> Some (v, c'))"

definition PutIfNotExist ::
    "('v \<Rightarrow> int) \<Rightarrow> int \<Rightarrow> 'k \<Rightarrow> 'v \<Rightarrow> ('k, 'v) lru \<Rightarrow> (cache_error + 'v) \<times> ('k, 'v) lru" where
  "PutIfNotExist getSize now key val c =
     (case putInternal getSize now key val False c of
        (Inl e, c') \<Rightarrow> (Inl e, c')
      | (Inr None, c') \<Rightarrow> (Inr val, c')
      | (Inr (Some existing), c') \<Rightarrow> (Inr existing, c'))"

definition Delete_key :: "'k \<Rightarrow> ('k, 'v) lru \<Rightarrow> ('k, 'v) lru" where
  "Delete_key key c =
     (if maxSize c = 0 then c
      else case byKey c key of None \<Rightarrow> c | Some i \<Rightarrow> deleteInternal i c)"

definition Release :: "('v \<Rightarrow> int) \<Rightarrow> 'k \<Rightarrow> ('k, 'v) lru \<Rightarrow> ('k, 'v) lru" where
  "Release getSize key c =
     (if maxSize c = 0 \<or> \<not> pin c then c
      else case byKey c key of
        None \<Rightarrow> c
      | Some i \<Rightarrow>
          let e = element c i;
              e = e\<lparr>refCount := refCount e - 1\<rparr>;
              c = (if refCount e = 0 then c\<lparr>pinnedSize := pinnedSize c - entry_size e\<rparr> else c);
              newEntrySize = getSize (entry_value e);
              c = c\<lparr>currSize := calculateNewCacheSize c newEntrySize (entry_size e)\<rparr>;
              c = set_element i (e\<lparr>entry_size := newEntrySize\<rparr>) c
          in if currSize c > maxSize c then tryEvictUntilCacheSizeUnderLimit c else c)"

definition Size_lru :: "('k, 'v) lru \<Rightarrow> int" where
  "Size_lru c = currSize c"

section \<open>Iteration and background eviction\<close>

text \<open>
  An iterator holds its creation time and the element it returns next. \<open>from_element\<close> is the part of
  the list that starts at an element.
\<close>

record lru_iterator =
  iter_createTime :: int
  nextItem :: "nat option"

fun from_element :: "nat \<Rightarrow> (nat \<times> 'e) list \<Rightarrow> (nat \<times> 'e) list" where
  "from_element i [] = []"
| "from_element i (p # ps) = (if fst p = i then p # ps else from_element i ps)"

fun prepareNext_loop ::
    "int \<Rightarrow> (nat \<times> ('k, 'v) lru_entry) list \<Rightarrow> ('k, 'v) lru \<Rightarrow> ('k, 'v) lru \<times> nat option" where
  "prepareNext_loop t [] c = (c, None)"
| "prepareNext_loop t (p # rest) c =
     (if isEntryExpired c (snd p) t then prepareNext_loop t rest (deleteInternal (fst p) c) else (c, Some (fst p)))"

definition Iterator :: "int \<Rightarrow> ('k, 'v) lru \<Rightarrow> ('k, 'v) lru \<times> lru_iterator" where
  "Iterator now c =
     (let (c', n) = prepareNext_loop now (byAccess c) c in (c', \<lparr>iter_createTime = now, nextItem = n\<rparr>))"

definition lru_HasNext :: "lru_iterator \<Rightarrow> bool" where
  "lru_HasNext it \<longleftrightarrow> nextItem it \<noteq> None"

text \<open>\<open>Next\<close> panics (\<open>None\<close>) when there is no next item; it returns a copy of the entry.\<close>

definition lru_Next ::
    "('k, 'v) lru \<times> lru_iterator \<Rightarrow> (('k, 'v) lru_entry \<times> ('k, 'v) lru \<times> lru_iterator) option" where
  "lru_Next ci =
     (case nextItem (snd ci) of
        None \<Rightarrow> None
      | Some i \<Rightarrow>
          let (c', n) = prepareNext_loop (iter_createTime (snd ci)) (tl (from_element i (byAccess (fst ci)))) (fst ci)
          in Some ((element (fst ci) i)\<lparr>refCount := 0\<rparr>, c', (snd ci)\<lparr>nextItem := n\<rparr>))"

fun evictToMax_loop ::
    "int \<Rightarrow> nat \<Rightarrow> (nat \<times> ('k, 'v) lru_entry) list \<Rightarrow> ('k, 'v) lru \<Rightarrow> ('k, 'v) lru \<times> bool" where
  "evictToMax_loop now n [] c = (c, False)"
| "evictToMax_loop now 0 (p # before) c = (c, True)"
| "evictToMax_loop now (Suc n) (p # before) c =
     (if \<not> isEntryExpired c (snd p) now then (c, False)
      else evictToMax_loop now n before (deleteInternal (fst p) c))"

definition evictToMax :: "int \<Rightarrow> int \<Rightarrow> ('k, 'v) lru \<Rightarrow> ('k, 'v) lru \<times> bool" where
  "evictToMax now maxEntryPerCall c =
     (if maxEntryPerCall \<le> 0 then (c, False)
      else evictToMax_loop now (nat maxEntryPerCall) (rev (byAccess c)) c)"

lemma evictToMax_loop_length:
  "length (byAccess (fst (evictToMax_loop now n ps c))) \<le> length (byAccess c)"
  by (induction now n ps c rule: evictToMax_loop.induct)
    (auto simp: deleteInternal_def Let_def intro: order_trans length_filter_le)

lemma evictToMax_shrinks:
  assumes "evictToMax now n c = (c', True)"
  shows "length (byAccess c') < length (byAccess c)"
proof -
  obtain m where m: "nat n = Suc m" and loop: "evictToMax_loop now (Suc m) (rev (byAccess c)) c = (c', True)"
    using assms by (cases "nat n") (auto simp: evictToMax_def split: if_splits)
  then obtain p before where p: "rev (byAccess c) = p # before" by (cases "rev (byAccess c)") auto
  with loop have "evictToMax_loop now m before (deleteInternal (fst p) c) = (c', True)"
    by (auto split: if_splits)
  with evictToMax_loop_length [of now m before "deleteInternal (fst p) c"]
  have "length (byAccess c') \<le> length (byAccess (deleteInternal (fst p) c))" by simp
  also have "p \<in> set (byAccess c)" using p by (metis list.set_intros(1) set_rev)
  then have "length (byAccess (deleteInternal (fst p) c)) < length (byAccess c)"
    by (auto simp: deleteInternal_def Let_def intro!: length_filter_less)
  finally show ?thesis .
qed

function bgEvict :: "int \<Rightarrow> int \<Rightarrow> ('k, 'v) lru \<Rightarrow> ('k, 'v) lru" where
  "bgEvict now maxEntryPerCall c =
     (case evictToMax now maxEntryPerCall c of
        (c', again) \<Rightarrow> if again then bgEvict now maxEntryPerCall c' else c')"
  by pat_completeness auto
termination
  by (relation "measure (\<lambda>(now, n, c). length (byAccess c))") (auto simp: evictToMax_shrinks dest: sym)

declare bgEvict.simps [simp del]

section \<open>The invariant\<close>

text \<open>The index holds exactly the keys of the list and points to their elements.\<close>

abbreviation index_of :: "(nat \<times> ('k, 'v) lru_entry) list \<Rightarrow> 'k \<Rightarrow> nat option" where
  "index_of \<equiv> index_by entry_key"

definition linked :: "('k, 'v) lru \<Rightarrow> bool" where
  "linked c \<longleftrightarrow> distinct (map fst (byAccess c)) \<and> distinct (map (\<lambda>p. entry_key (snd p)) (byAccess c)) \<and>
     list_all (\<lambda>p. fst p < nextElement c) (byAccess c) \<and> byKey c = index_of (byAccess c)"

definition total_size :: "(nat \<times> ('k, 'v) lru_entry) list \<Rightarrow> int" where
  "total_size xs = sum_list (map (\<lambda>p. entry_size (snd p)) xs)"

definition lru_inv :: "('k, 'v) lru \<Rightarrow> bool" where
  "lru_inv c \<longleftrightarrow> linked c \<and> currSize c = total_size (byAccess c) \<and>
     list_all (\<lambda>p. 0 \<le> entry_size (snd p)) (byAccess c) \<and>
     (\<not> pin c \<longrightarrow> list_all (\<lambda>p. refCount (snd p) = 0) (byAccess c))"

lemma total_size_simps [simp]:
  "total_size [] = 0" "total_size (p # ps) = entry_size (snd p) + total_size ps"
  "total_size (xs @ ys) = total_size xs + total_size ys" "total_size (rev xs) = total_size xs"
  by (simp_all add: total_size_def sum_list_rev flip: rev_map)

lemma total_size_remove:
  "distinct (map fst xs) \<Longrightarrow> (i, e) \<in> set xs \<Longrightarrow>
   total_size (filter (\<lambda>p. fst p \<noteq> i) xs) = total_size xs - entry_size e"
proof (induction xs)
  case (Cons p xs)
  show ?case
  proof (cases "fst p = i")
    case True
    with Cons.prems have "p = (i, e)" "\<forall>q \<in> set xs. fst q \<noteq> i" by (cases p; force)+
    then show ?thesis by (simp add: filter_id_conv)
  next
    case False
    with Cons show ?thesis by auto
  qed
qed simp

lemma total_size_nonneg: "list_all (\<lambda>p. 0 \<le> entry_size (snd p)) xs \<Longrightarrow> 0 \<le> total_size xs"
  by (induction xs) auto

lemma element_eq: "distinct (map fst (byAccess c)) \<Longrightarrow> (i, e) \<in> set (byAccess c) \<Longrightarrow> element c i = e"
  by (simp add: element_def)

lemma byKey_element:
  assumes "linked c" "byKey c k = Some i"
  shows "(i, element c i) \<in> set (byAccess c) \<and> entry_key (element c i) = k"
proof -
  have d: "distinct (map fst (byAccess c))" "index_of (byAccess c) k = Some i"
    "distinct (map (\<lambda>p. entry_key (snd p)) (byAccess c))"
    using assms by (simp_all add: linked_def)
  then obtain e where "(i, e) \<in> set (byAccess c)" "entry_key e = k" using index_by_Some [OF d(3)] by blast
  with element_eq [OF d(1), of i e] show ?thesis by simp
qed

lemma linked_frame [simp]:
  "linked (c\<lparr>currSize := x\<rparr>) = linked c" "linked (c\<lparr>pinnedSize := x\<rparr>) = linked c"
  "linked (c\<lparr>calls := cs\<rparr>) = linked c"
  by (simp_all add: linked_def)

text \<open>Deleting an element keeps the invariant and removes exactly that element.\<close>

lemma deleteInternal_ok:
  assumes "lru_inv c" "(i, e) \<in> set (byAccess c)"
  shows "lru_inv (deleteInternal i c) \<and> byAccess (deleteInternal i c) = filter (\<lambda>p. fst p \<noteq> i) (byAccess c) \<and>
    currSize (deleteInternal i c) = currSize c - entry_size e \<and>
    maxSize (deleteInternal i c) = maxSize c \<and> pin (deleteInternal i c) = pin c \<and> ttl (deleteInternal i c) = ttl c \<and>
    nextElement (deleteInternal i c) = nextElement c"
proof -
  have d: "distinct (map fst (byAccess c))" "distinct (map (\<lambda>p. entry_key (snd p)) (byAccess c))"
    using assms(1) by (auto simp: lru_inv_def linked_def)
  have el: "element c i = e" by (rule element_eq [OF d(1) assms(2)])
  have "linked (deleteInternal i c)"
    using assms(1) index_by_remove [OF d assms(2)] d
    by (auto simp: lru_inv_def linked_def deleteInternal_def Let_def el distinct_sublist list_all_iff)
  moreover have "total_size (filter (\<lambda>p. fst p \<noteq> i) (byAccess c)) = total_size (byAccess c) - entry_size e"
    by (rule total_size_remove [OF d(1) assms(2)])
  ultimately show ?thesis
    using assms(1) by (auto simp: lru_inv_def deleteInternal_def Let_def el list_all_iff)
qed

text \<open>Replacing the entry of an element, with the same key, and moving it to the front.\<close>

lemma touch_list:
  assumes "distinct (map fst xs)" "(i, e) \<in> set xs"
  shows "filter (\<lambda>p. fst p = i) (map (\<lambda>(j, x). if j = i then (j, e') else (j, x)) xs) = [(i, e')] \<and>
    filter (\<lambda>p. fst p \<noteq> i) (map (\<lambda>(j, x). if j = i then (j, e') else (j, x)) xs) = filter (\<lambda>p. fst p \<noteq> i) xs"
  using assms
proof (induction xs)
  case (Cons p xs)
  obtain j x where p: "p = (j, x)" by (cases p)
  show ?case
  proof (cases "j = i")
    case True
    with Cons.prems p have "\<forall>q \<in> set xs. fst q \<noteq> i" by force
    then have "filter (\<lambda>p. fst p = i) (map (\<lambda>(j, x). if j = i then (j, e') else (j, x)) xs) = []"
      "filter (\<lambda>p. fst p \<noteq> i) (map (\<lambda>(j, x). if j = i then (j, e') else (j, x)) xs) = filter (\<lambda>p. fst p \<noteq> i) xs"
      by (induction xs) auto
    with True p show ?thesis by simp
  next
    case False
    with Cons p show ?thesis by auto
  qed
qed simp

lemma touch_ok:
  assumes "lru_inv c" "(i, e) \<in> set (byAccess c)" "entry_key e' = entry_key e" "0 \<le> entry_size e'"
    and "\<not> pin c \<longrightarrow> refCount e' = 0" "c' = MoveToFront i (set_element i e' c)"
  shows "byAccess c' = (i, e') # filter (\<lambda>p. fst p \<noteq> i) (byAccess c)"
    and "lru_inv (c'\<lparr>currSize := currSize c - entry_size e + entry_size e'\<rparr>)"
proof -
  have d: "distinct (map fst (byAccess c))" "distinct (map (\<lambda>p. entry_key (snd p)) (byAccess c))"
    using assms(1) by (auto simp: lru_inv_def linked_def)
  show ba: "byAccess c' = (i, e') # filter (\<lambda>p. fst p \<noteq> i) (byAccess c)"
    using touch_list [OF d(1) assms(2)] by (simp add: assms(6) MoveToFront_def set_element_def)
  have other: "(i', x) \<in> set (byAccess c) \<Longrightarrow> i' \<noteq> i \<Longrightarrow> entry_key x \<noteq> entry_key e" for i' x
    using same_element [OF d assms(2)] by blast
  have "index_of (byAccess c') = index_of (byAccess c)"
  proof
    fix k
    have "index_of (byAccess c) (entry_key e) = Some i" using assms(2) index_by_Some [OF d(2)] by blast
    moreover have "index_of ((i, e') # ys) k = (if k = entry_key e then Some i else index_of ys k)" for ys
      using assms(3) by (auto simp: index_by_def)
    ultimately show "index_of (byAccess c') k = index_of (byAccess c) k"
      using index_by_remove [OF d assms(2)] by (simp add: ba)
  qed
  moreover have "distinct (map (\<lambda>p. entry_key (snd p)) (byAccess c'))"
    using other assms(3) d(2) by (fastforce simp: ba distinct_sublist)
  moreover have frame: "nextElement c' = nextElement c" "byKey c' = byKey c" "pin c' = pin c"
    by (simp_all add: assms(6) MoveToFront_def set_element_def)
  moreover have "distinct (map fst (byAccess c'))" using d(1) by (auto simp: ba distinct_sublist)
  moreover have "list_all (\<lambda>p. fst p < nextElement c) (byAccess c')"
    using assms(1,2) by (auto simp: lru_inv_def linked_def ba list_all_iff)
  ultimately have "linked c'" using assms(1) by (simp add: lru_inv_def linked_def)
  moreover have "total_size (byAccess c') = currSize c - entry_size e + entry_size e'"
    using total_size_remove [OF d(1) assms(2)] assms(1) by (simp add: ba lru_inv_def)
  moreover have "list_all (\<lambda>p. 0 \<le> entry_size (snd p)) (byAccess c')"
    using assms(1,4) by (simp add: ba lru_inv_def list_all_iff)
  moreover have "\<not> pin c' \<longrightarrow> list_all (\<lambda>p. refCount (snd p) = 0) (byAccess c')"
    using assms(1,5) by (simp add: ba frame lru_inv_def list_all_iff)
  ultimately show "lru_inv (c'\<lparr>currSize := currSize c - entry_size e + entry_size e'\<rparr>)"
    by (simp add: lru_inv_def)
qed

section \<open>What an eviction removes\<close>

text \<open>
  \<open>fits_from_front\<close> is the reference: the longest prefix whose sizes fit in a budget. Eviction takes the
  evictable entries from the back until the rest fits, which leaves exactly that prefix of them.
\<close>

fun fits_from_front :: "('a \<Rightarrow> int) \<Rightarrow> int \<Rightarrow> 'a list \<Rightarrow> 'a list" where
  "fits_from_front sz budget [] = []"
| "fits_from_front sz budget (x # xs) = (if sz x \<le> budget then x # fits_from_front sz (budget - sz x) xs else [])"

lemma fits_from_front_all:
  "list_all (\<lambda>x. 0 \<le> sz x) xs \<Longrightarrow> sum_list (map sz xs) \<le> budget \<Longrightarrow> fits_from_front sz budget xs = xs"
proof (induction xs arbitrary: budget)
  case (Cons x xs)
  then have "0 \<le> sum_list (map sz xs)" by (auto intro!: sum_list_nonneg simp: list_all_iff)
  with Cons.prems have "sz x \<le> budget" by simp
  with Cons show ?case by simp
qed simp

lemma fits_from_front_drop:
  "list_all (\<lambda>x. 0 \<le> sz x) (xs @ [x]) \<Longrightarrow> budget < sum_list (map sz (xs @ [x])) \<Longrightarrow>
   fits_from_front sz budget (xs @ [x]) = fits_from_front sz budget xs"
  by (induction xs arbitrary: budget) auto

lemma fits_from_front_subset: "set (fits_from_front sz budget xs) \<subseteq> set xs"
  by (induction xs arbitrary: budget) auto

lemma fits_from_front_map: "fits_from_front sz budget (map f xs) = map f (fits_from_front (\<lambda>x. sz (f x)) budget xs)"
  by (induction xs arbitrary: budget) auto

lemma fits_from_front_bound: "0 \<le> budget \<Longrightarrow> sum_list (map sz (fits_from_front sz budget xs)) \<le> budget"
proof (induction xs arbitrary: budget)
  case (Cons x xs)
  show ?case using Cons.IH [of "budget - sz x"] Cons.prems by auto
qed simp

definition evictable :: "('k \<times> int) option \<Rightarrow> nat \<times> ('k, 'v) lru_entry \<Rightarrow> bool" where
  "evictable existing p \<longleftrightarrow> refCount (snd p) = 0 \<and> map_option fst existing \<noteq> Some (entry_key (snd p))"

abbreviation esize :: "nat \<times> ('k, 'v) lru_entry \<Rightarrow> int" where
  "esize p \<equiv> entry_size (snd p)"

lemma total_size_split: "total_size xs = total_size (filter P xs) + total_size (filter (\<lambda>p. \<not> P p) xs)"
  by (induction xs) auto

lemma filter_other: "fst p \<notin> fst ` set xs \<Longrightarrow> filter (\<lambda>q. fst q \<noteq> fst p) xs = xs"
  by (induction xs) auto

lemma filter_delete:
  "distinct (map fst (xs @ p # ys)) \<Longrightarrow> filter (\<lambda>q. fst q \<noteq> fst p) (xs @ p # ys) = xs @ ys"
  by (simp add: filter_other)

text \<open>The frame of the operations: what an eviction leaves as it is.\<close>

definition same_settings :: "('k, 'v) lru \<Rightarrow> ('k, 'v) lru \<Rightarrow> bool" where
  "same_settings c c' \<longleftrightarrow> maxSize c' = maxSize c \<and> ttl c' = ttl c \<and> pin c' = pin c"

lemma same_settings_refl [simp]: "same_settings c c"
  by (simp add: same_settings_def)

lemma same_settings_trans: "same_settings a b \<Longrightarrow> same_settings b c \<Longrightarrow> same_settings a c"
  by (simp add: same_settings_def)

definition skipped_size :: "('k \<times> int) option \<Rightarrow> int" where
  "skipped_size existing = (case existing of None \<Rightarrow> 0 | Some (k, sz) \<Rightarrow> sz)"

lemma evict_loop_ok:
  fixes xs ys :: "(nat \<times> ('k, 'v) lru_entry) list"
  assumes "lru_inv c" "byAccess c = xs @ ys" "list_all (\<lambda>p. \<not> evictable existing p) ys"
    and "c' = evict_loop new existing (rev xs) c"
    and "kept = filter (\<lambda>p. \<not> evictable existing p) (byAccess c)"
  shows "lru_inv c' \<and> same_settings c c' \<and> nextElement c' = nextElement c \<and>
    filter (evictable existing) (byAccess c') =
      fits_from_front esize (maxSize c - new + skipped_size existing - total_size kept)
        (filter (evictable existing) (byAccess c)) \<and>
    filter (\<lambda>p. \<not> evictable existing p) (byAccess c') = kept \<and> set (byAccess c') \<subseteq> set (byAccess c)"
  using assms
proof (induction xs arbitrary: c c' ys kept rule: rev_induct)
  case Nil
  then have "filter (evictable existing) ys = []" by (auto simp: list_all_iff filter_empty_conv)
  with Nil show ?case by simp
next
  case (snoc p xs)
  let ?ev = "evictable existing"
  let ?B = "maxSize c - new + skipped_size existing - total_size kept"
  have inv: "lru_inv c" and ba: "byAccess c = xs @ p # ys" using snoc.prems by simp_all
  have ys: "filter ?ev ys = []" using snoc.prems(3) by (auto simp: list_all_iff filter_empty_conv)
  have nonneg: "list_all (\<lambda>q. 0 \<le> esize q) (byAccess c)" using inv by (simp add: lru_inv_def)
  have size: "currSize c = total_size (filter ?ev (byAccess c)) + total_size kept"
    using inv total_size_split [of "byAccess c" ?ev] snoc.prems(5) by (simp add: lru_inv_def)
  have over: "calculateNewCacheSize c new (skipped_size existing) > maxSize c \<longleftrightarrow>
      ?B < sum_list (map esize (filter ?ev (byAccess c)))"
    using size by (auto simp: calculateNewCacheSize_def total_size_def)
  have ev_nonneg: "list_all (\<lambda>q. 0 \<le> esize q) (filter ?ev (byAccess c))" using nonneg by (simp add: list_all_iff)
  show ?case
  proof (cases "calculateNewCacheSize c new (skipped_size existing) > maxSize c")
    case False
    then have "c' = c" using snoc.prems(4) by (simp add: skipped_size_def)
    moreover have "fits_from_front esize ?B (filter ?ev (byAccess c)) = filter ?ev (byAccess c)"
      using False over ev_nonneg by (intro fits_from_front_all) simp_all
    ultimately show ?thesis using snoc.prems(1,5) by simp
  next
    case True
    show ?thesis
    proof (cases "?ev p")
      case False
      then have "c' = evict_loop new existing (rev xs) c"
        using True snoc.prems(4) by (auto simp: evictable_def skipped_size_def tryEvictAndGetPreviousElement_def)
      moreover have "list_all (\<lambda>q. \<not> ?ev q) (p # ys)" using False snoc.prems(3) by simp
      ultimately show ?thesis using snoc.IH [OF inv ba _ _ snoc.prems(5)] by blast
    next
      case True': True
      let ?d = "deleteInternal (fst p) c"
      have run: "c' = evict_loop new existing (rev xs) ?d"
        using True True' snoc.prems(4) by (auto simp: evictable_def skipped_size_def tryEvictAndGetPreviousElement_def)
      have "(fst p, snd p) \<in> set (byAccess c)" using ba by simp
      from deleteInternal_ok [OF inv this]
      have d: "lru_inv ?d" "byAccess ?d = filter (\<lambda>q. fst q \<noteq> fst p) (byAccess c)" "same_settings c ?d"
        "nextElement ?d = nextElement c" by (simp_all add: same_settings_def)
      have "distinct (map fst (xs @ p # ys))" using inv ba by (simp add: lru_inv_def linked_def)
      with d(2) ba have d_ba: "byAccess ?d = xs @ ys" using filter_delete by metis
      have kept: "kept = filter (\<lambda>q. \<not> ?ev q) (byAccess ?d)" using snoc.prems(5) True' ba d_ba by simp
      have "fits_from_front esize ?B (filter ?ev (byAccess c)) = fits_from_front esize ?B (filter ?ev (byAccess ?d))"
        using True over ev_nonneg True' ys fits_from_front_drop [of esize "filter ?ev xs" p ?B] by (simp add: ba d_ba)
      moreover have "set (byAccess ?d) \<subseteq> set (byAccess c)" using d(2) by auto
      ultimately show ?thesis
        using snoc.IH [OF d(1) d_ba snoc.prems(3) run kept] d(3,4) by (auto simp: same_settings_def)
    qed
  qed
qed

section \<open>The operations keep the invariant\<close>

lemma lru_inv_frame [simp]:
  "lru_inv (c\<lparr>pinnedSize := x\<rparr>) = lru_inv c" "lru_inv (c\<lparr>calls := cs\<rparr>) = lru_inv c"
  by (simp_all add: lru_inv_def)

lemma lru_inv_currSize: "lru_inv c \<Longrightarrow> lru_inv (c\<lparr>currSize := x\<rparr>) \<longleftrightarrow> x = currSize c"
  by (auto simp: lru_inv_def)

lemma refCount_zero: "lru_inv c \<Longrightarrow> \<not> pin c \<Longrightarrow> p \<in> set (byAccess c) \<Longrightarrow> refCount (snd p) = 0"
  by (auto simp: lru_inv_def list_all_iff)

lemma lru_inv_element: "lru_inv c \<Longrightarrow> (i, e) \<in> set (byAccess c) \<Longrightarrow> element c i = e"
  by (simp add: element_eq lru_inv_def linked_def)

lemma lru_inv_byKey: "lru_inv c \<Longrightarrow> byKey c k = Some i \<Longrightarrow> (i, element c i) \<in> set (byAccess c) \<and> entry_key (element c i) = k"
  by (simp add: byKey_element lru_inv_def)

lemma lru_inv_absent: "lru_inv c \<Longrightarrow> byKey c k = None \<longleftrightarrow> (\<forall>p \<in> set (byAccess c). entry_key (snd p) \<noteq> k)"
  by (simp add: index_by_None lru_inv_def linked_def)

lemma evict_ok:
  assumes "lru_inv c" "c' = tryEvictUntilEnoughSpaceWithSkipEntry new None c"
    and "kept = filter (\<lambda>p. \<not> evictable None p) (byAccess c)"
  shows "lru_inv c' \<and> same_settings c c' \<and> nextElement c' = nextElement c \<and>
    filter (evictable None) (byAccess c') =
      fits_from_front esize (maxSize c - new - total_size kept) (filter (evictable None) (byAccess c)) \<and>
    filter (\<lambda>p. \<not> evictable None p) (byAccess c') = kept \<and> set (byAccess c') \<subseteq> set (byAccess c)"
  using evict_loop_ok [OF assms(1), of "byAccess c" "[]" None c' new kept] assms(2,3)
  by (simp add: tryEvictUntilEnoughSpaceWithSkipEntry_def skipped_size_def)

text \<open>The key of a new entry is not in the cache, and its element is new.\<close>

lemma insert_ok:
  assumes "lru_inv c" "byKey c (entry_key e) = None" "0 \<le> entry_size e" "\<not> pin c \<longrightarrow> refCount e = 0"
    and "c' = c\<lparr>byAccess := (nextElement c, e) # byAccess c, nextElement := nextElement c + 1,
                byKey := (byKey c)(entry_key e \<mapsto> nextElement c), currSize := currSize c + entry_size e\<rparr>"
  shows "lru_inv c'"
proof -
  have fresh: "nextElement c \<notin> fst ` set (byAccess c)" using assms(1) by (force simp: lru_inv_def linked_def list_all_iff)
  have "entry_key e \<notin> (\<lambda>p. entry_key (snd p)) ` set (byAccess c)"
    using assms(2) lru_inv_absent [OF assms(1), of "entry_key e"] by auto
  moreover have "index_of ((nextElement c, e) # byAccess c) = (index_of (byAccess c))(entry_key e \<mapsto> nextElement c)"
    by (simp add: index_by_def)
  ultimately have "linked c'"
    using assms(1,5) fresh by (auto simp: lru_inv_def linked_def list_all_iff intro: less_SucI)
  then show ?thesis using assms by (auto simp: lru_inv_def list_all_iff)
qed

lemma updateEntryRefCount_fields [simp]:
  "entry_key (fst (updateEntryRefCount e c)) = entry_key e" "entry_size (fst (updateEntryRefCount e c)) = entry_size e"
  "entry_value (fst (updateEntryRefCount e c)) = entry_value e" "createTime (fst (updateEntryRefCount e c)) = createTime e"
  "refCount (fst (updateEntryRefCount e c)) = (if pin c then refCount e + 1 else refCount e)"
  "byAccess (snd (updateEntryRefCount e c)) = byAccess c" "byKey (snd (updateEntryRefCount e c)) = byKey c"
  "nextElement (snd (updateEntryRefCount e c)) = nextElement c" "currSize (snd (updateEntryRefCount e c)) = currSize c"
  "maxSize (snd (updateEntryRefCount e c)) = maxSize c" "ttl (snd (updateEntryRefCount e c)) = ttl c"
  "pin (snd (updateEntryRefCount e c)) = pin c" "calls (snd (updateEntryRefCount e c)) = calls c"
  "lru_inv (snd (updateEntryRefCount e c)) = lru_inv c"
  by (simp_all add: updateEntryRefCount_def Let_def)

lemma updateEntryTTL_fields [simp]:
  "entry_key (updateEntryTTL now c e) = entry_key e" "entry_size (updateEntryTTL now c e) = entry_size e"
  "entry_value (updateEntryTTL now c e) = entry_value e" "refCount (updateEntryTTL now c e) = refCount e"
  "createTime (updateEntryTTL now c e) = (if ttl c \<noteq> 0 then Some now else createTime e)"
  by (simp_all add: updateEntryTTL_def)

lemma putNew_ok:
  assumes "lru_inv c" "byKey c key = None" "0 \<le> size_new" "putNew size_new now key val c = (r, c')"
    and "d = tryEvictUntilEnoughSpaceWithSkipEntry size_new None c"
  shows "lru_inv c'" "same_settings c c'"
    and "r = Inl ErrCacheFull \<and> c' = d \<and> maxSize c < currSize d + size_new \<or>
      r = Inr None \<and> currSize c' \<le> maxSize c' \<and>
      (\<exists>e. byAccess c' = (nextElement c, e) # byAccess d \<and> entry_key e = key \<and> entry_value e = val \<and>
         entry_size e = size_new \<and> createTime e = (if ttl c \<noteq> 0 then Some now else None) \<and>
         refCount e = (if pin c then 1 else 0))"
proof -
  note d = evict_ok [OF assms(1,5) refl]
  have absent: "byKey d key = None"
    using d lru_inv_absent [OF assms(1), of key] lru_inv_absent [of d key] assms(2) by blast
  let ?e = "updateEntryTTL now d \<lparr>entry_key = key, createTime = None, entry_value = val, refCount = 0, entry_size = size_new\<rparr>"
  let ?u = "updateEntryRefCount ?e d"
  let ?c = "snd ?u\<lparr>byAccess := (nextElement d, fst ?u) # byAccess d, nextElement := nextElement d + 1,
                 byKey := (byKey d)(key \<mapsto> nextElement d), currSize := currSize d + size_new\<rparr>"
  have full: "r = Inl ErrCacheFull \<and> c' = d" if "currSize d + size_new > maxSize d"
    using assms(4,5) that by (simp add: putNew_def Let_def calculateNewCacheSize_def emptyEntrySize_def)
  have put: "r = Inr None \<and> c' = ?c\<lparr>calls := calls d @ [OnPut val]\<rparr>" if "\<not> currSize d + size_new > maxSize d"
    using assms(4,5) that
    by (simp add: putNew_def Let_def calculateNewCacheSize_def emptyEntrySize_def case_prod_unfold)
  have "lru_inv ?c"
    using d absent assms(3) by - (rule insert_ok [of "snd ?u" "fst ?u"], simp_all)
  with full put d show "lru_inv c'" by (metis lru_inv_frame(2))
  show "same_settings c c'" using full put d by (cases "currSize d + size_new > maxSize d") (auto simp: same_settings_def)
  show "r = Inl ErrCacheFull \<and> c' = d \<and> maxSize c < currSize d + size_new \<or>
      r = Inr None \<and> currSize c' \<le> maxSize c' \<and>
      (\<exists>e. byAccess c' = (nextElement c, e) # byAccess d \<and> entry_key e = key \<and> entry_value e = val \<and>
         entry_size e = size_new \<and> createTime e = (if ttl c \<noteq> 0 then Some now else None) \<and>
         refCount e = (if pin c then 1 else 0))"
  proof (cases "currSize d + size_new > maxSize d")
    case True
    with full d show ?thesis by (simp add: same_settings_def)
  next
    case False
    with put d show ?thesis by (auto simp: same_settings_def)
  qed
qed

lemma others_eq:
  assumes "lru_inv c" "\<not> pin c" "(i, e) \<in> set (byAccess c)" "set xs \<subseteq> set (byAccess c)"
  shows "filter (evictable (Some (entry_key e, sz))) xs = filter (\<lambda>p. fst p \<noteq> i) xs"
proof (rule filter_cong [OF refl])
  fix p assume "p \<in> set xs"
  with assms(4) have p: "p \<in> set (byAccess c)" by blast
  obtain j x where "p = (j, x)" by (cases p)
  with p assms(1,3) same_element [of "byAccess c" entry_key i e j x] refCount_zero [OF assms(1,2) p]
  show "evictable (Some (entry_key e, sz)) p = (fst p \<noteq> i)" by (auto simp: evictable_def lru_inv_def linked_def)
qed

lemma make_room_ok:
  assumes "lru_inv c" "\<not> pin c" "(i, e) \<in> set (byAccess c)" "new \<le> maxSize c"
    and "d = (if calculateNewCacheSize c new (entry_size e) > maxSize c
              then tryEvictUntilEnoughSpaceWithSkipEntry new (Some e) c else c)"
  shows "lru_inv d" "same_settings c d" "nextElement d = nextElement c" "(i, e) \<in> set (byAccess d)"
    and "filter (\<lambda>p. fst p \<noteq> i) (byAccess d) =
      fits_from_front esize (maxSize c - new) (filter (\<lambda>p. fst p \<noteq> i) (byAccess c))"
    and "calculateNewCacheSize d new (entry_size e) \<le> maxSize d"
proof -
  let ?ex = "Some (entry_key e, entry_size e)"
  let ?others = "filter (\<lambda>p. fst p \<noteq> i) (byAccess c)"
  have d: "distinct (map fst (byAccess c))" using assms(1) by (simp add: lru_inv_def linked_def)
  have eq: "filter (evictable ?ex) xs = filter (\<lambda>p. fst p \<noteq> i) xs" if "set xs \<subseteq> set (byAccess c)" for xs
    using others_eq [OF assms(1-3) that] .
  define kept where "kept = filter (\<lambda>p. \<not> evictable ?ex p) (byAccess c)"
  have kept: "total_size kept = entry_size e" "(i, e) \<in> set kept"
    using total_size_split [of "byAccess c" "evictable ?ex"] total_size_remove [OF d assms(3)] eq [of "byAccess c"] assms(3)
    by (simp_all add: kept_def evictable_def)
  have size: "currSize c - entry_size e = total_size ?others"
    using total_size_remove [OF d assms(3)] assms(1) by (simp add: lru_inv_def)
  have fit: "fits_from_front esize (maxSize c - new) ?others = ?others" if "calculateNewCacheSize c new (entry_size e) \<le> maxSize c"
    using that size assms(1) by (intro fits_from_front_all) (auto simp: calculateNewCacheSize_def lru_inv_def list_all_iff total_size_def)
  note ev = evict_loop_ok [OF assms(1), of "byAccess c" "[]" ?ex _ new kept]
  have over: "lru_inv d \<and> same_settings c d \<and> nextElement d = nextElement c \<and>
      filter (evictable ?ex) (byAccess d) = fits_from_front esize (maxSize c - new) (filter (evictable ?ex) (byAccess c)) \<and>
      filter (\<lambda>p. \<not> evictable ?ex p) (byAccess d) = kept \<and> set (byAccess d) \<subseteq> set (byAccess c)"
    if "\<not> calculateNewCacheSize c new (entry_size e) \<le> maxSize c"
    using ev [of d] that assms(5) kept_def kept(1)
    by (simp add: tryEvictUntilEnoughSpaceWithSkipEntry_def skipped_size_def)
  show inv: "lru_inv d" and same: "same_settings c d" and "nextElement d = nextElement c"
    using over assms(1,5) by (auto split: if_splits)
  show in_d: "(i, e) \<in> set (byAccess d)"
  proof (cases "calculateNewCacheSize c new (entry_size e) \<le> maxSize c")
    case True with assms(3,5) show ?thesis by simp
  next
    case False with over kept(2) show ?thesis by (metis filter_is_subset subsetD)
  qed
  show others: "filter (\<lambda>p. fst p \<noteq> i) (byAccess d) = fits_from_front esize (maxSize c - new) ?others"
  proof (cases "calculateNewCacheSize c new (entry_size e) \<le> maxSize c")
    case True with fit assms(5) show ?thesis by simp
  next
    case False with over eq [of "byAccess c"] eq [of "byAccess d"] show ?thesis by simp
  qed
  have "currSize d - entry_size e = total_size (filter (\<lambda>p. fst p \<noteq> i) (byAccess d))"
    using total_size_remove [OF _ in_d] inv by (simp add: lru_inv_def linked_def)
  also have "\<dots> \<le> maxSize c - new"
    unfolding others total_size_def using fits_from_front_bound [of "maxSize c - new" esize ?others] assms(4) by simp
  finally show "calculateNewCacheSize d new (entry_size e) \<le> maxSize d"
    using same by (simp add: calculateNewCacheSize_def same_settings_def)
qed

lemma MoveToFront_frame:
  "MoveToFront i (set_element i e (d\<lparr>currSize := x, calls := y\<rparr>)) =
   (MoveToFront i (set_element i e d))\<lparr>currSize := x, calls := y\<rparr>"
  by (simp add: MoveToFront_def set_element_def)

lemma putExisting_ok:
  assumes "lru_inv c" "\<not> pin c" "(i, e) \<in> set (byAccess c)" "0 \<le> new" "new \<le> maxSize c"
    and "putExisting new now val True i c = (r, c')"
  shows "lru_inv c'" "same_settings c c'" "currSize c' \<le> maxSize c'" "r = Inr (Some (entry_value e))"
    and "byAccess c' = (i, e\<lparr>entry_value := val, entry_size := new, createTime := (if ttl c \<noteq> 0 then Some now else createTime e)\<rparr>) #
      fits_from_front esize (maxSize c - new) (filter (\<lambda>p. fst p \<noteq> i) (byAccess c))"
proof -
  define d where "d = (if calculateNewCacheSize c new (entry_size e) > maxSize c
              then tryEvictUntilEnoughSpaceWithSkipEntry new (Some e) c else c)"
  note room = make_room_ok [OF assms(1-3,5) d_def]
  have el: "element c i = e" by (rule lru_inv_element [OF assms(1,3)])
  let ?e = "e\<lparr>entry_value := val, entry_size := new, createTime := (if ttl c \<noteq> 0 then Some now else createTime e)\<rparr>"
  have ttl_d: "ttl d = ttl c" "pin d = pin c" "maxSize d = maxSize c" using room(2) by (simp_all add: same_settings_def)
  define e2 where "e2 = ?e"
  have e2: "updateEntryTTL now d (e\<lparr>entry_value := val, entry_size := new\<rparr>) = e2"
    by (simp add: updateEntryTTL_def ttl_d e2_def)
  define m where "m = MoveToFront i (set_element i e2 d)"
  have step: "r = Inr (Some (entry_value e)) \<and>
      c' = m\<lparr>currSize := calculateNewCacheSize d new (entry_size e), calls := calls d @ [OnPut val]\<rparr>"
    using assms(2,6) room(6) ttl_d
    unfolding putExisting_def el Let_def d_def [symmetric] e2
    by (simp add: putFinish_def updateEntryRefCount_def MoveToFront_frame m_def)
  have m: "byAccess m = (i, e2) # filter (\<lambda>p. fst p \<noteq> i) (byAccess d)"
    "lru_inv (m\<lparr>currSize := currSize d - entry_size e + new\<rparr>)"
    using touch_ok [OF room(1,4), of e2 m] assms(2,4) refCount_zero [OF assms(1-3)] m_def by (simp_all add: e2_def)
  have mset: "maxSize m = maxSize d" "ttl m = ttl d" "pin m = pin d" by (simp_all add: m_def MoveToFront_def set_element_def)
  show "r = Inr (Some (entry_value e))" using step by simp
  show "lru_inv c'" using step m(2) by (simp add: calculateNewCacheSize_def)
  show "same_settings c c'" using step mset room(2) by (simp add: same_settings_def)
  show "currSize c' \<le> maxSize c'" using step room(6) mset by simp
  show "byAccess c' = (i, ?e) # fits_from_front esize (maxSize c - new) (filter (\<lambda>p. fst p \<noteq> i) (byAccess c))"
    using step m(1) room(5) by (simp add: e2_def)
qed

lemma Get_cases:
  assumes "lru_inv c" "Get now key c = (r, c')"
  obtains (miss) "r = None" "c' = c" "maxSize c = 0 \<or> byKey c key = None"
  | (expired) i e where "r = None" "(i, e) \<in> set (byAccess c)" "entry_key e = key" "isEntryExpired c e now" "c' = deleteInternal i c"
  | (hit) i e where "r = Some (entry_value e)" "(i, e) \<in> set (byAccess c)" "entry_key e = key" "\<not> isEntryExpired c e now"
      "lru_inv c'" "same_settings c c'" "currSize c' = currSize c"
      "byAccess c' = (i, if pin c then e\<lparr>refCount := refCount e + 1\<rparr> else e) # filter (\<lambda>p. fst p \<noteq> i) (byAccess c)"
proof (cases "maxSize c = 0 \<or> byKey c key = None")
  case True
  then have "r = None \<and> c' = c" using assms(2) by (cases "maxSize c = 0") (simp_all add: Get_def)
  with True miss show ?thesis by blast
next
  case False
  then obtain i where i: "byKey c key = Some i" by auto
  let ?e = "element c i"
  have ie: "(i, ?e) \<in> set (byAccess c)" "entry_key ?e = key" using lru_inv_byKey [OF assms(1) i] by auto
  show ?thesis
  proof (cases "isEntryExpired c ?e now")
    case True
    then show ?thesis using assms(2) expired [OF _ ie] False i by (simp add: Get_def)
  next
    case not_expired: False
    define u where "u = updateEntryRefCount ?e c"
    have run: "r = Some (entry_value ?e)" "c' = MoveToFront i (set_element i (fst u) (snd u))"
      using assms(2) False i not_expired by (auto simp: Get_def Let_def case_prod_unfold u_def)
    have in_u: "(i, ?e) \<in> set (byAccess (snd u))" "lru_inv (snd u)" using ie assms(1) by (simp_all add: u_def)
    have nonneg: "0 \<le> entry_size ?e" using ie(1) assms(1) by (auto simp: lru_inv_def list_all_iff)
    have "refCount ?e = 0" if "\<not> pin c" using refCount_zero [OF assms(1) that ie(1)] by simp
    with touch_ok [OF in_u(2,1), of "fst u" c'] nonneg run(2)
    have ok: "byAccess c' = (i, fst u) # filter (\<lambda>p. fst p \<noteq> i) (byAccess c)"
      "lru_inv (c'\<lparr>currSize := currSize c\<rparr>)" by (simp_all add: u_def)
    have frame: "same_settings c c'" "currSize c' = currSize c"
      using run(2) by (simp_all add: same_settings_def MoveToFront_def set_element_def u_def)
    moreover from this ok(2) have "lru_inv c'" by (simp add: lru_inv_def linked_def)
    moreover have "fst u = (if pin c then ?e\<lparr>refCount := refCount ?e + 1\<rparr> else ?e)"
      by (simp add: u_def updateEntryRefCount_def Let_def)
    ultimately show ?thesis using hit [OF run(1) ie not_expired] ok(1) by simp
  qed
qed

section \<open>The cache without pinning\<close>

text \<open>
  What holds between the operations of a cache that does not pin: the sizes fit, and without a TTL
  no entry has a creation time.
\<close>

definition cache_ok :: "('k, 'v) lru \<Rightarrow> bool" where
  "cache_ok c \<longleftrightarrow> lru_inv c \<and> \<not> pin c \<and> maxSize c \<noteq> 0 \<and> currSize c \<le> maxSize c \<and>
     (ttl c = 0 \<longrightarrow> list_all (\<lambda>p. createTime (snd p) = None) (byAccess c))"

lemma same_keys:
  assumes "lru_inv c" "(i, e) \<in> set (byAccess c)"
  shows "filter (\<lambda>p. fst p \<noteq> i) (byAccess c) = filter (\<lambda>p. entry_key (snd p) \<noteq> entry_key e) (byAccess c)"
proof (rule filter_cong [OF refl])
  fix p assume "p \<in> set (byAccess c)"
  then show "(fst p \<noteq> i) = (entry_key (snd p) \<noteq> entry_key e)"
    using assms same_element [of "byAccess c" entry_key i e "fst p" "snd p"] by (simp add: lru_inv_def linked_def)
qed

lemma cache_ok_subset:
  assumes "cache_ok c" "lru_inv c'" "same_settings c c'" "currSize c' \<le> currSize c" "set (byAccess c') \<subseteq> set (byAccess c)"
  shows "cache_ok c'"
  using assms by (auto simp: cache_ok_def same_settings_def list_all_iff)

lemma delete_ok:
  assumes "cache_ok c" "(i, e) \<in> set (byAccess c)" "d = deleteInternal i c"
  shows "cache_ok d" "same_settings c d"
    "byAccess d = filter (\<lambda>p. entry_key (snd p) \<noteq> entry_key e) (byAccess c)"
proof -
  have inv: "lru_inv c" and size: "0 \<le> entry_size e"
    using assms(1,2) by (auto simp: cache_ok_def lru_inv_def list_all_iff)
  note d = deleteInternal_ok [OF inv assms(2), folded assms(3)]
  show "same_settings c d" using d by (simp add: same_settings_def)
  moreover have "set (byAccess d) \<subseteq> set (byAccess c)" using d by auto
  ultimately show "cache_ok d" using cache_ok_subset [OF assms(1)] d size by simp
  show "byAccess d = filter (\<lambda>p. entry_key (snd p) \<noteq> entry_key e) (byAccess c)"
    using d same_keys [OF inv assms(2)] by simp
qed

lemma evict_all_ok:
  assumes "lru_inv c" "\<not> pin c" "d = tryEvictUntilEnoughSpaceWithSkipEntry new None c"
  shows "byAccess d = fits_from_front esize (maxSize c - new) (byAccess c)"
proof -
  have ev: "filter (evictable None) xs = xs \<and> filter (\<lambda>p. \<not> evictable None p) xs = []"
    if "set xs \<subseteq> set (byAccess c)" for xs :: "(nat \<times> ('a, 'b) lru_entry) list"
    using that refCount_zero [OF assms(1,2)] by (auto simp: evictable_def filter_id_conv filter_empty_conv)
  then show ?thesis using evict_ok [OF assms(1,3) refl] ev [of "byAccess c"] ev [of "byAccess d"] by simp
qed

text \<open>
  A successful \<open>Put\<close>: the new value in front, then as many of the other entries, in their order, as
  still fit. The old value is returned when it has not expired.
\<close>

lemma Put_ok:
  assumes "cache_ok c" "0 \<le> getSize v" "getSize v \<le> maxSize c" "Put getSize now k v c = Some (r, c')"
  shows "cache_ok c'" "same_settings c c'"
    and "\<exists>i e. byAccess c' = (i, e) # fits_from_front esize (maxSize c - getSize v)
          (filter (\<lambda>p. entry_key (snd p) \<noteq> k) (byAccess c)) \<and>
        entry_key e = k \<and> entry_value e = v \<and> entry_size e = getSize v \<and>
        createTime e = (if ttl c \<noteq> 0 then Some now else None)"
    and "r = (case byKey c k of None \<Rightarrow> None
              | Some i \<Rightarrow> if isEntryExpired c (element c i) now then None else Some (entry_value (element c i)))"
proof -
  have inv: "lru_inv c" and np: "\<not> pin c" and m0: "maxSize c \<noteq> 0" using assms(1) by (auto simp: cache_ok_def)
  let ?P = "cache_ok c' \<and> same_settings c c' \<and>
    (\<exists>i e. byAccess c' = (i, e) # fits_from_front esize (maxSize c - getSize v)
          (filter (\<lambda>p. entry_key (snd p) \<noteq> k) (byAccess c)) \<and>
        entry_key e = k \<and> entry_value e = v \<and> entry_size e = getSize v \<and>
        createTime e = (if ttl c \<noteq> 0 then Some now else None)) \<and>
    r = (case byKey c k of None \<Rightarrow> None
         | Some i \<Rightarrow> if isEntryExpired c (element c i) now then None else Some (entry_value (element c i)))"
  have new_entry: "cache_ok c' \<and> same_settings c c' \<and> r = None \<and>
      (\<exists>i e. byAccess c' = (i, e) # fits_from_front esize (maxSize c - getSize v) (byAccess d) \<and>
        entry_key e = k \<and> entry_value e = v \<and> entry_size e = getSize v \<and>
        createTime e = (if ttl c \<noteq> 0 then Some now else None))"
    if d: "cache_ok d" "same_settings c d" "byKey d k = None"
      and put: "(case putNew (getSize v) now k v d of (Inl _, c') \<Rightarrow> Some (None, c') | (Inr v, c') \<Rightarrow> Some (v, c')) = Some (r, c')" for d
  proof -
    obtain x c1 where x: "putNew (getSize v) now k v d = (x, c1)" by fastforce
    have invd: "lru_inv d" "\<not> pin d" using d(1) by (auto simp: cache_ok_def)
    note put_ok = putNew_ok [OF invd(1) d(3) assms(2) x refl]
    let ?d = "tryEvictUntilEnoughSpaceWithSkipEntry (getSize v) None d"
    note ev = evict_all_ok [OF invd refl, of "getSize v"]
    have "currSize ?d = total_size (byAccess ?d)"
      using evict_ok [OF invd(1) refl refl, of "getSize v"] by (simp add: lru_inv_def)
    also have "\<dots> \<le> maxSize d - getSize v"
      unfolding ev total_size_def using d(2) assms(3) by (intro fits_from_front_bound) (simp add: same_settings_def)
    finally have fits: "\<not> maxSize d < currSize ?d + getSize v" by simp
    with put_ok(3) obtain e where e: "x = Inr None" "currSize c1 \<le> maxSize c1"
      "byAccess c1 = (nextElement d, e) # byAccess ?d" "entry_key e = k" "entry_value e = v"
      "entry_size e = getSize v" "createTime e = (if ttl d \<noteq> 0 then Some now else None)" by blast
    have run: "r = None" "c' = c1" using put x e(1) by simp_all
    have set: "set (byAccess ?d) \<subseteq> set (byAccess d)" unfolding ev by (rule fits_from_front_subset)
    have same: "same_settings c c1" by (rule same_settings_trans [OF d(2) put_ok(2)])
    have "list_all (\<lambda>p. createTime (snd p) = None) (byAccess c1)" if "ttl c1 = 0"
      using that same d(1,2) e(3,7) set by (auto simp: same_settings_def cache_ok_def list_all_iff)
    then have "cache_ok c1"
      using put_ok(1) same e(2) m0 np by (simp add: cache_ok_def same_settings_def)
    moreover have "maxSize d = maxSize c" "ttl d = ttl c" using d(2) by (simp_all add: same_settings_def)
    ultimately show ?thesis using run same e(3-7) unfolding ev by auto
  qed
  have all: ?P
  proof (cases "byKey c k")
    case None
    then have "filter (\<lambda>p. entry_key (snd p) \<noteq> k) (byAccess c) = byAccess c"
      using lru_inv_absent [OF inv, of k] by (simp add: filter_id_conv)
    with new_entry [OF assms(1) _ None] None assms(3,4) np m0 show ?thesis
      by (simp add: Put_def putInternal_def Let_def)
  next
    case (Some i)
    have ie: "(i, element c i) \<in> set (byAccess c)" "entry_key (element c i) = k"
      using lru_inv_byKey [OF inv Some] by auto
    show ?thesis
    proof (cases "isEntryExpired c (element c i) now")
      case True
      note d = delete_ok [OF assms(1) ie(1) refl, unfolded ie(2)]
      have "byKey (deleteInternal i c) k = None"
        using d lru_inv_absent [of "deleteInternal i c" k] by (auto simp: cache_ok_def)
      with new_entry [OF d(1,2)] True Some assms(3,4) np m0 d(3) show ?thesis
        by (simp add: Put_def putInternal_def Let_def)
    next
      case False
      obtain x c1 where x: "putExisting (getSize v) now v True i c = (x, c1)" by fastforce
      note ex = putExisting_ok [OF inv np ie(1) assms(2,3) x]
      have run: "r = Some (entry_value (element c i))" "c' = c1"
        using assms(3,4) np m0 Some False x ex(4) by (simp_all add: Put_def putInternal_def Let_def)
      have ct: "ttl c = 0 \<Longrightarrow> createTime (element c i) = None"
        using assms(1) ie(1) by (auto simp: cache_ok_def list_all_iff)
      have ba: "byAccess c1 = (i, element c i\<lparr>entry_value := v, entry_size := getSize v, createTime := (if ttl c \<noteq> 0 then Some now else None)\<rparr>) #
        fits_from_front esize (maxSize c - getSize v) (filter (\<lambda>p. entry_key (snd p) \<noteq> k) (byAccess c))"
        using ex(5) same_keys [OF inv ie(1)] ie(2) ct by simp
      moreover have "set (fits_from_front esize (maxSize c - getSize v) (filter (\<lambda>p. entry_key (snd p) \<noteq> k) (byAccess c)))
          \<subseteq> set (byAccess c)" using fits_from_front_subset by fastforce
      ultimately have "cache_ok c1"
        using ex(1-3) assms(1) by (auto simp: cache_ok_def same_settings_def list_all_iff)
      with ex(2) ba run ie(2) Some False show ?thesis by auto
    qed
  qed
  then show "cache_ok c'" "same_settings c c'"
    "\<exists>i e. byAccess c' = (i, e) # fits_from_front esize (maxSize c - getSize v)
          (filter (\<lambda>p. entry_key (snd p) \<noteq> k) (byAccess c)) \<and>
        entry_key e = k \<and> entry_value e = v \<and> entry_size e = getSize v \<and>
        createTime e = (if ttl c \<noteq> 0 then Some now else None)"
    "r = (case byKey c k of None \<Rightarrow> None
              | Some i \<Rightarrow> if isEntryExpired c (element c i) now then None else Some (entry_value (element c i)))"
    by blast+
qed

section \<open>The reference cache\<close>

text \<open>
  The reference is a list of keyed cells, most recently used first: no elements, no index, no sizes kept.
\<close>

type_synonym ('k, 'v) cell = "'k \<times> 'v \<times> int \<times> int option"

definition cell_size :: "('k, 'v) cell \<Rightarrow> int" where
  "cell_size x = fst (snd (snd x))"

definition cell_expired :: "int \<Rightarrow> int \<Rightarrow> 'v \<times> int \<times> int option \<Rightarrow> bool" where
  "cell_expired ttl_ref now x = (case snd (snd x) of None \<Rightarrow> False | Some t \<Rightarrow> now > t + ttl_ref)"

definition forget :: "'k \<Rightarrow> ('k \<times> 'a) list \<Rightarrow> ('k \<times> 'a) list" where
  "forget k xs = filter (\<lambda>x. fst x \<noteq> k) xs"

definition ref_get :: "int \<Rightarrow> int \<Rightarrow> 'k \<Rightarrow> ('k, 'v) cell list \<Rightarrow> 'v option \<times> ('k, 'v) cell list" where
  "ref_get ttl_ref now k xs =
     (case map_of xs k of
        None \<Rightarrow> (None, xs)
      | Some x \<Rightarrow> if cell_expired ttl_ref now x then (None, forget k xs) else (Some (fst x), (k, x) # forget k xs))"

definition ref_put ::
    "('v \<Rightarrow> int) \<Rightarrow> int \<Rightarrow> int \<Rightarrow> int \<Rightarrow> 'k \<Rightarrow> 'v \<Rightarrow> ('k, 'v) cell list \<Rightarrow> 'v option \<times> ('k, 'v) cell list" where
  "ref_put getSize max_size ttl_ref now k v xs =
     (if getSize v > max_size then (None, xs)
      else (case map_of xs k of None \<Rightarrow> None | Some x \<Rightarrow> if cell_expired ttl_ref now x then None else Some (fst x),
            (k, v, getSize v, if ttl_ref \<noteq> 0 then Some now else None) #
              fits_from_front cell_size (max_size - getSize v) (forget k xs)))"

fun ref_exec ::
    "('v \<Rightarrow> int) \<Rightarrow> int \<Rightarrow> int \<Rightarrow> ('k, 'v) cache_op \<Rightarrow> ('k, 'v) cell list \<Rightarrow> 'v option \<times> ('k, 'v) cell list" where
  "ref_exec getSize max_size ttl_ref (GetOp now k) xs = ref_get ttl_ref now k xs"
| "ref_exec getSize max_size ttl_ref (PutOp now k v) xs = ref_put getSize max_size ttl_ref now k v xs"
| "ref_exec getSize max_size ttl_ref (DeleteOp k) xs = (None, forget k xs)"

text \<open>The operations of the code with their results; \<open>Put\<close> does not panic without pinning.\<close>

fun lru_exec :: "('v \<Rightarrow> int) \<Rightarrow> ('k, 'v) cache_op \<Rightarrow> ('k, 'v) lru \<Rightarrow> 'v option \<times> ('k, 'v) lru" where
  "lru_exec getSize (GetOp now k) c = Get now k c"
| "lru_exec getSize (PutOp now k v) c = (case Put getSize now k v c of None \<Rightarrow> (None, c) | Some x \<Rightarrow> x)"
| "lru_exec getSize (DeleteOp k) c = (None, Delete_key k c)"

fun outputs :: "('op \<Rightarrow> 's \<Rightarrow> 'o \<times> 's) \<Rightarrow> 'op list \<Rightarrow> 's \<Rightarrow> 'o list \<times> 's" where
  "outputs exec [] s = ([], s)"
| "outputs exec (op # ops) s =
     (let (x, s') = exec op s; (xs, s'') = outputs exec ops s' in (x # xs, s''))"

definition cell_of :: "nat \<times> ('k, 'v) lru_entry \<Rightarrow> ('k, 'v) cell" where
  "cell_of p = (entry_key (snd p), entry_value (snd p), entry_size (snd p), createTime (snd p))"

definition cells :: "('k, 'v) lru \<Rightarrow> ('k, 'v) cell list" where
  "cells c = map cell_of (byAccess c)"

lemma forget_cells: "map cell_of (filter (\<lambda>p. entry_key (snd p) \<noteq> k) xs) = forget k (map cell_of xs)"
  by (simp add: forget_def filter_map o_def cell_of_def)

lemma map_of_cells:
  assumes "lru_inv c"
  shows "map_of (cells c) k = map_option (\<lambda>i. snd (cell_of (i, element c i))) (byKey c k)"
proof (cases "byKey c k")
  case None
  then show ?thesis using lru_inv_absent [OF assms, of k] by (auto simp: cells_def cell_of_def map_of_eq_None_iff)
next
  case (Some i)
  have "(i, element c i) \<in> set (byAccess c)" "entry_key (element c i) = k" using lru_inv_byKey [OF assms Some] by auto
  then have "(k, snd (cell_of (i, element c i))) \<in> set (cells c)" by (force simp: cells_def cell_of_def)
  moreover have "distinct (map fst (cells c))"
    using assms by (simp add: lru_inv_def linked_def cells_def cell_of_def o_def)
  ultimately show ?thesis using Some by simp
qed

lemma cell_expired_eq:
  "lru_inv c \<Longrightarrow> \<not> pin c \<Longrightarrow> (i, e) \<in> set (byAccess c) \<Longrightarrow>
   cell_expired (ttl c) now (snd (cell_of (i, e))) = isEntryExpired c e now"
  using refCount_zero [of c "(i, e)"] by (simp add: cell_expired_def isEntryExpired_def cell_of_def)

lemma Get_refines:
  assumes "cache_ok c" "Get now k c = (r, c')"
  shows "cache_ok c' \<and> same_settings c c' \<and> ref_get (ttl c) now k (cells c) = (r, cells c')"
proof -
  have inv: "lru_inv c" and np: "\<not> pin c" and m0: "maxSize c \<noteq> 0" using assms(1) by (auto simp: cache_ok_def)
  from inv assms(2) show ?thesis
  proof (cases rule: Get_cases)
    case miss
    with m0 assms(1) map_of_cells [OF inv, of k] show ?thesis by (simp add: ref_get_def)
  next
    case (expired i e)
    have el: "byKey c k = Some i" "element c i = e"
      using expired(2,3) inv lru_inv_element [OF inv] by (auto simp: lru_inv_def linked_def index_by_Some)
    with expired cell_expired_eq [OF inv np expired(2), of now] map_of_cells [OF inv, of k]
      delete_ok [OF assms(1) expired(2) refl] show ?thesis
      by (simp add: ref_get_def cells_def forget_cells)
  next
    case (hit i e)
    have el: "byKey c k = Some i" "element c i = e"
      using hit(2,3) inv lru_inv_element [OF inv] by (auto simp: lru_inv_def linked_def index_by_Some)
    have ba: "byAccess c' = (i, e) # filter (\<lambda>p. entry_key (snd p) \<noteq> k) (byAccess c)"
      using hit(8) np same_keys [OF inv hit(2)] hit(3) by simp
    have "set (byAccess c') \<subseteq> set (byAccess c)" using ba hit(2) by auto
    then have "cache_ok c'" using cache_ok_subset [OF assms(1) hit(5,6)] hit(7) by simp
    moreover have "snd (cell_of (i, e)) = (entry_value e, entry_size e, createTime e)" "cell_of (i, e) = (k, snd (cell_of (i, e)))"
      using hit(3) by (simp_all add: cell_of_def)
    ultimately show ?thesis
      using hit(1,4,6) el cell_expired_eq [OF inv np hit(2), of now] map_of_cells [OF inv, of k] ba
      by (simp add: ref_get_def cells_def forget_cells)
  qed
qed

lemma Put_total: "cache_ok c \<Longrightarrow> \<exists>r c'. Put getSize now k v c = Some (r, c')"
  by (auto simp: cache_ok_def Put_def split: prod.splits sum.splits)

lemma Put_too_large: "cache_ok c \<Longrightarrow> getSize v > maxSize c \<Longrightarrow> Put getSize now k v c = Some (None, c)"
  by (simp add: cache_ok_def Put_def putInternal_def)

lemma Put_refines:
  assumes "cache_ok c" "0 \<le> getSize v" "Put getSize now k v c = Some (r, c')"
  shows "cache_ok c' \<and> same_settings c c' \<and> ref_put getSize (maxSize c) (ttl c) now k v (cells c) = (r, cells c')"
proof (cases "getSize v > maxSize c")
  case True
  with Put_too_large [OF assms(1)] assms show ?thesis by (simp add: ref_put_def)
next
  case False
  have inv: "lru_inv c" and np: "\<not> pin c" using assms(1) by (auto simp: cache_ok_def)
  note put = Put_ok [OF assms(1,2) _ assms(3)]
  obtain i e where e: "byAccess c' = (i, e) # fits_from_front esize (maxSize c - getSize v)
          (filter (\<lambda>p. entry_key (snd p) \<noteq> k) (byAccess c))"
      "entry_key e = k" "entry_value e = v" "entry_size e = getSize v"
      "createTime e = (if ttl c \<noteq> 0 then Some now else None)"
    using put(3) False by auto
  have "cells c' = (k, v, getSize v, if ttl c \<noteq> 0 then Some now else None) #
      fits_from_front cell_size (maxSize c - getSize v) (forget k (cells c))"
    using e by (simp add: cells_def fits_from_front_map flip: forget_cells) (simp add: cell_of_def cell_size_def)
  moreover have "(case map_of (cells c) k of None \<Rightarrow> None
      | Some x \<Rightarrow> if cell_expired (ttl c) now x then None else Some (fst x)) = r"
  proof (cases "byKey c k")
    case (Some j)
    then have "(j, element c j) \<in> set (byAccess c)" using lru_inv_byKey [OF inv] by blast
    from cell_expired_eq [OF inv np this, of now] show ?thesis
      using put(4) False Some map_of_cells [OF inv, of k] by (simp add: cell_of_def)
  qed (use put(4) False map_of_cells [OF inv, of k] in simp)
  ultimately show ?thesis using put(1,2) False by (simp add: ref_put_def)
qed

lemma Delete_refines:
  assumes "cache_ok c"
  shows "cache_ok (Delete_key k c) \<and> same_settings c (Delete_key k c) \<and> cells (Delete_key k c) = forget k (cells c)"
proof -
  have inv: "lru_inv c" and m0: "maxSize c \<noteq> 0" using assms by (auto simp: cache_ok_def)
  show ?thesis
  proof (cases "byKey c k")
    case None
    then have "forget k (cells c) = cells c"
      using lru_inv_absent [OF inv, of k] by (auto simp: cells_def filter_id_conv simp flip: forget_cells intro!: arg_cong)
    with None assms m0 show ?thesis by (simp add: Delete_key_def)
  next
    case (Some i)
    have ie: "(i, element c i) \<in> set (byAccess c)" "entry_key (element c i) = k"
      using lru_inv_byKey [OF inv Some] by auto
    with delete_ok [OF assms ie(1) refl] Some m0 show ?thesis by (simp add: Delete_key_def cells_def forget_cells)
  qed
qed

lemma lru_exec_refines:
  assumes "cache_ok c" "\<And>v. 0 \<le> getSize v"
  shows "cache_ok (snd (lru_exec getSize op c)) \<and> same_settings c (snd (lru_exec getSize op c)) \<and>
    ref_exec getSize (maxSize c) (ttl c) op (cells c) = (fst (lru_exec getSize op c), cells (snd (lru_exec getSize op c)))"
proof (cases op)
  case (GetOp now k)
  then show ?thesis using Get_refines [OF assms(1), of now k] by (cases "Get now k c") simp
next
  case (PutOp now k v)
  obtain r c' where "Put getSize now k v c = Some (r, c')" using Put_total [OF assms(1)] by blast
  then show ?thesis using Put_refines [OF assms(1) assms(2)] PutOp by simp
next
  case (DeleteOp k)
  then show ?thesis using Delete_refines [OF assms(1), of k] by simp
qed

section \<open>Pinning, release and background eviction\<close>

datatype ('k, 'v) lru_op =
    CacheGet int 'k
  | CachePutIfNotExist int 'k 'v
  | CacheDelete 'k
  | CacheRelease 'k
  | CacheIterator int
  | CacheBgEvict int int

text \<open>The size of a value may change between calls: each operation comes with its own sizes.\<close>

fun pin_step :: "('k, 'v) lru_op \<times> ('v \<Rightarrow> int) \<Rightarrow> ('k, 'v) lru \<Rightarrow> ('k, 'v) lru" where
  "pin_step (CacheGet now k, getSize) c = snd (Get now k c)"
| "pin_step (CachePutIfNotExist now k v, getSize) c = snd (PutIfNotExist getSize now k v c)"
| "pin_step (CacheDelete k, getSize) c = Delete_key k c"
| "pin_step (CacheRelease k, getSize) c = Release getSize k c"
| "pin_step (CacheIterator now, getSize) c = fst (Iterator now c)"
| "pin_step (CacheBgEvict now n, getSize) c = bgEvict now n c"

text \<open>
  What every operation except \<open>Delete\<close> and \<open>Release\<close> guarantees: the invariant, and that a pinned
  entry keeps its element and its value.
\<close>

definition keeps_pinned :: "('k, 'v) lru \<Rightarrow> ('k, 'v) lru \<Rightarrow> bool" where
  "keeps_pinned c c' \<longleftrightarrow> (\<forall>p \<in> set (byAccess c). refCount (snd p) > 0 \<longrightarrow>
     (\<exists>p' \<in> set (byAccess c'). fst p' = fst p \<and> entry_key (snd p') = entry_key (snd p) \<and>
        entry_value (snd p') = entry_value (snd p) \<and> refCount (snd p') \<ge> refCount (snd p)))"

lemma keeps_pinned_refl [simp]: "keeps_pinned c c"
  by (auto simp: keeps_pinned_def)

lemma keeps_pinned_trans: "keeps_pinned a b \<Longrightarrow> keeps_pinned b c \<Longrightarrow> keeps_pinned a c"
  unfolding keeps_pinned_def
proof
  fix p
  assume ab: "\<forall>p \<in> set (byAccess a). refCount (snd p) > 0 \<longrightarrow>
     (\<exists>p' \<in> set (byAccess b). fst p' = fst p \<and> entry_key (snd p') = entry_key (snd p) \<and>
        entry_value (snd p') = entry_value (snd p) \<and> refCount (snd p') \<ge> refCount (snd p))"
    and bc: "\<forall>p \<in> set (byAccess b). refCount (snd p) > 0 \<longrightarrow>
     (\<exists>p' \<in> set (byAccess c). fst p' = fst p \<and> entry_key (snd p') = entry_key (snd p) \<and>
        entry_value (snd p') = entry_value (snd p) \<and> refCount (snd p') \<ge> refCount (snd p))"
    and p: "p \<in> set (byAccess a)"
  show "refCount (snd p) > 0 \<longrightarrow>
     (\<exists>p' \<in> set (byAccess c). fst p' = fst p \<and> entry_key (snd p') = entry_key (snd p) \<and>
        entry_value (snd p') = entry_value (snd p) \<and> refCount (snd p') \<ge> refCount (snd p))"
  proof
    assume "refCount (snd p) > 0"
    with ab p obtain q where q: "q \<in> set (byAccess b)" "fst q = fst p" "entry_key (snd q) = entry_key (snd p)"
      "entry_value (snd q) = entry_value (snd p)" "refCount (snd q) \<ge> refCount (snd p)" by blast
    with \<open>refCount (snd p) > 0\<close> have "refCount (snd q) > 0" by simp
    with bc q(1) obtain r where "r \<in> set (byAccess c)" "fst r = fst q" "entry_key (snd r) = entry_key (snd q)"
      "entry_value (snd r) = entry_value (snd q)" "refCount (snd r) \<ge> refCount (snd q)" by blast
    with q show "\<exists>p' \<in> set (byAccess c). fst p' = fst p \<and> entry_key (snd p') = entry_key (snd p) \<and>
        entry_value (snd p') = entry_value (snd p) \<and> refCount (snd p') \<ge> refCount (snd p)"
      by (intro bexI [of _ r]) simp_all
  qed
qed

lemma keeps_pinned_subset:
  "(\<And>p. p \<in> set (byAccess c) \<Longrightarrow> refCount (snd p) > 0 \<Longrightarrow> p \<in> set (byAccess c')) \<Longrightarrow> keeps_pinned c c'"
  by (auto simp: keeps_pinned_def)

definition good_step :: "('k, 'v) lru \<Rightarrow> ('k, 'v) lru \<Rightarrow> bool" where
  "good_step c c' \<longleftrightarrow> lru_inv c' \<and> same_settings c c' \<and> keeps_pinned c c'"

lemma good_step_refl: "lru_inv c \<Longrightarrow> good_step c c"
  by (simp add: good_step_def)

lemma good_step_trans: "good_step a b \<Longrightarrow> good_step b c \<Longrightarrow> good_step a c"
  unfolding good_step_def using same_settings_trans keeps_pinned_trans by blast

lemma evict_good:
  assumes "lru_inv c"
  shows "good_step c (tryEvictUntilEnoughSpaceWithSkipEntry new None c)"
proof -
  let ?d = "tryEvictUntilEnoughSpaceWithSkipEntry new None c"
  note ev = evict_ok [OF assms refl refl, of new]
  have "keeps_pinned c ?d"
  proof (rule keeps_pinned_subset)
    fix p assume "p \<in> set (byAccess c)" "refCount (snd p) > 0"
    then have "p \<in> set (filter (\<lambda>p. \<not> evictable None p) (byAccess c))" by (simp add: evictable_def)
    then have "p \<in> set (filter (\<lambda>p. \<not> evictable None p) (byAccess ?d))" using ev by simp
    then show "p \<in> set (byAccess ?d)" by simp
  qed
  with ev show ?thesis by (simp add: good_step_def)
qed

lemma delete_good:
  assumes "lru_inv c" "(i, e) \<in> set (byAccess c)" "refCount e = 0"
  shows "good_step c (deleteInternal i c)"
proof -
  note d = deleteInternal_ok [OF assms(1,2)]
  have "\<forall>p \<in> set (byAccess c). fst p = i \<longrightarrow> snd p = e"
    using assms(1,2) lru_inv_element [OF assms(1)] by (metis prod.collapse)
  with d assms(3) show ?thesis
    by (auto simp: good_step_def same_settings_def intro!: keeps_pinned_subset)
qed

lemma expired_delete_good: "lru_inv c \<Longrightarrow> (i, e) \<in> set (byAccess c) \<Longrightarrow> isEntryExpired c e now \<Longrightarrow> good_step c (deleteInternal i c)"
  by (rule delete_good) (auto simp: isEntryExpired_def)

lemma Get_good:
  assumes "lru_inv c"
  shows "good_step c (snd (Get now k c))"
proof -
  obtain r c' where get: "Get now k c = (r, c')" by fastforce
  from assms get have "good_step c c'"
  proof (cases rule: Get_cases)
    case miss
    with assms show ?thesis by (simp add: good_step_refl)
  next
    case (expired i e)
    with expired_delete_good [OF assms] show ?thesis by simp
  next
    case (hit i e)
    have "\<forall>p \<in> set (byAccess c). fst p = i \<longrightarrow> p = (i, e)"
      using lru_inv_element [OF assms] hit(2) by (metis prod.collapse)
    have "keeps_pinned c c'" unfolding keeps_pinned_def
    proof (intro ballI impI)
      fix p assume p: "p \<in> set (byAccess c)"
      show "\<exists>p' \<in> set (byAccess c'). fst p' = fst p \<and> entry_key (snd p') = entry_key (snd p) \<and>
        entry_value (snd p') = entry_value (snd p) \<and> refCount (snd p') \<ge> refCount (snd p)"
      proof (cases "fst p = i")
        case True
        with \<open>\<forall>p \<in> set (byAccess c). fst p = i \<longrightarrow> p = (i, e)\<close> p have "p = (i, e)" by blast
        then show ?thesis unfolding hit(8) by simp
      next
        case False
        with p show ?thesis unfolding hit(8) by (intro bexI [of _ p]) simp_all
      qed
    qed
    with hit show ?thesis by (simp add: good_step_def)
  qed
  with get show ?thesis by simp
qed

lemma putNew_good:
  assumes "lru_inv c" "byKey c key = None" "0 \<le> size_new"
  shows "good_step c (snd (putNew size_new now key val c))"
proof -
  obtain r c' where run: "putNew size_new now key val c = (r, c')" by fastforce
  let ?d = "tryEvictUntilEnoughSpaceWithSkipEntry size_new None c"
  note ok = putNew_ok [OF assms run refl]
  have "keeps_pinned ?d c'" using ok(3) by (auto intro!: keeps_pinned_subset)
  with ok(1,2) evict_good [OF assms(1), of size_new] run show ?thesis
    using keeps_pinned_trans by (auto simp: good_step_def)
qed

lemma PutIfNotExist_good:
  assumes "lru_inv c" "0 \<le> getSize v"
  shows "good_step c (snd (PutIfNotExist getSize now k v c))"
proof -
  have snd: "snd (PutIfNotExist getSize now k v c) = snd (putInternal getSize now k v False c)"
    by (simp add: PutIfNotExist_def split: prod.splits sum.splits option.splits)
  consider "maxSize c = 0 \<or> getSize v > maxSize c" | "maxSize c \<noteq> 0 \<and> getSize v \<le> maxSize c" by linarith
  then show ?thesis
  proof cases
    case 1
    then show ?thesis using assms(1) by (cases "maxSize c = 0") (simp_all add: snd putInternal_def good_step_refl)
  next
    case 2
    show ?thesis
    proof (cases "byKey c k")
      case None
      with 2 putNew_good [OF assms(1) None assms(2)] show ?thesis by (simp add: snd putInternal_def)
    next
      case (Some i)
      note ie = lru_inv_byKey [OF assms(1) Some]
      show ?thesis
      proof (cases "isEntryExpired c (element c i) now")
        case True
        note good = expired_delete_good [OF assms(1) conjunct1 [OF ie] True]
        have "byKey (deleteInternal i c) k = None"
          using ie by (simp add: deleteInternal_def Let_def)
        from good_step_trans [OF good putNew_good [OF _ this assms(2)]] good 2 True Some show ?thesis
          by (simp add: snd putInternal_def good_step_def)
      next
        case False
        have "snd (putInternal getSize now k v False c) = snd (Get now k c)"
          using 2 False Some by (simp add: putInternal_def putExisting_def putFinish_def Get_def Let_def split: prod.splits)
        with Get_good [OF assms(1)] show ?thesis by (simp add: snd)
      qed
    qed
  qed
qed

text \<open>A loop that deletes expired elements one after another.\<close>

lemma prepareNext_good:
  assumes "lru_inv c" "distinct (map fst ps)" "set ps \<subseteq> set (byAccess c)"
  shows "good_step c (fst (prepareNext_loop t ps c))"
  using assms
proof (induction ps arbitrary: c)
  case Nil
  then show ?case by (simp add: good_step_refl)
next
  case (Cons p ps)
  show ?case
  proof (cases "isEntryExpired c (snd p) t")
    case True
    have p: "(fst p, snd p) \<in> set (byAccess c)" using Cons.prems(3) by simp
    note good = expired_delete_good [OF Cons.prems(1) p True]
    have "set ps \<subseteq> set (byAccess (deleteInternal (fst p) c))"
      using deleteInternal_ok [OF Cons.prems(1) p] Cons.prems(2,3) by (auto simp: rev_image_eqI)
    with Cons.IH [of "deleteInternal (fst p) c"] good Cons.prems(2)
    have "good_step (deleteInternal (fst p) c) (fst (prepareNext_loop t ps (deleteInternal (fst p) c)))"
      by (simp add: good_step_def)
    from good_step_trans [OF good this] True show ?thesis by simp
  qed (use Cons.prems in \<open>simp add: good_step_refl\<close>)
qed

lemma Iterator_good: "lru_inv c \<Longrightarrow> good_step c (fst (Iterator now c))"
  using prepareNext_good [of c "byAccess c" now] by (simp add: Iterator_def lru_inv_def linked_def case_prod_unfold Let_def)

text \<open>Replacing an entry in its place.\<close>

lemma set_list:
  assumes "distinct (map fst xs)" "(i, e) \<in> set xs"
  shows "\<exists>as bs. xs = as @ (i, e) # bs \<and> map (\<lambda>(j, x). if j = i then (j, e') else (j, x)) xs = as @ (i, e') # bs"
proof -
  obtain as bs where xs: "xs = as @ (i, e) # bs" using assms(2) by (meson split_list)
  then have "i \<notin> fst ` set as" "i \<notin> fst ` set bs" using assms(1) by auto
  moreover have "i \<notin> fst ` set zs \<Longrightarrow> map (\<lambda>(j, x). if j = i then (j, e') else (j, x)) zs = zs" for zs
    by (induction zs) auto
  ultimately have "map (\<lambda>(j, x). if j = i then (j, e') else (j, x)) as = as"
    "map (\<lambda>(j, x). if j = i then (j, e') else (j, x)) bs = bs" by blast+
  with xs show ?thesis by auto
qed

lemma set_element_ok:
  assumes "lru_inv c" "(i, e) \<in> set (byAccess c)" "entry_key e' = entry_key e" "0 \<le> entry_size e'"
    and "\<not> pin c \<longrightarrow> refCount e' = 0" "c' = set_element i e' c"
  shows "lru_inv (c'\<lparr>currSize := currSize c - entry_size e + entry_size e'\<rparr>)"
    and "p \<in> set (byAccess c) \<Longrightarrow> fst p \<noteq> i \<Longrightarrow> p \<in> set (byAccess c')"
proof -
  have d: "distinct (map fst (byAccess c))" using assms(1) by (simp add: lru_inv_def linked_def)
  obtain as bs where xs: "byAccess c = as @ (i, e) # bs" and ys: "byAccess c' = as @ (i, e') # bs"
    using set_list [OF d assms(2), of e'] assms(6) by (auto simp: set_element_def)
  have frame: "nextElement c' = nextElement c" "byKey c' = byKey c" "pin c' = pin c"
    by (simp_all add: assms(6) set_element_def)
  have "index_of (byAccess c') = index_of (byAccess c)" by (simp add: index_by_def xs ys assms(3))
  with assms(1,3) have "linked c'" unfolding lru_inv_def linked_def frame xs ys by simp
  moreover have "total_size (byAccess c') = currSize c - entry_size e + entry_size e'"
    using assms(1) by (simp add: lru_inv_def xs ys)
  ultimately show "lru_inv (c'\<lparr>currSize := currSize c - entry_size e + entry_size e'\<rparr>)"
    using assms(1,4,5) unfolding lru_inv_def by (simp add: frame xs ys)
  show "p \<in> set (byAccess c) \<Longrightarrow> fst p \<noteq> i \<Longrightarrow> p \<in> set (byAccess c')" by (auto simp: xs ys)
qed

lemma set_element_frame:
  "set_element j e (c\<lparr>currSize := x\<rparr>) = (set_element j e c)\<lparr>currSize := x\<rparr>"
  "set_element j e (c\<lparr>pinnedSize := y\<rparr>) = (set_element j e c)\<lparr>pinnedSize := y\<rparr>"
  "(c\<lparr>pinnedSize := y\<rparr>)\<lparr>currSize := x\<rparr> = (c\<lparr>currSize := x\<rparr>)\<lparr>pinnedSize := y\<rparr>"
  "maxSize (set_element j e c) = maxSize c"
  "(set_element j e c)\<lparr>currSize := x, pinnedSize := pinnedSize c\<rparr> = (set_element j e c)\<lparr>currSize := x\<rparr>"
  by (simp_all add: set_element_def)

lemma Release_ok:
  assumes "lru_inv c" "\<And>v. 0 \<le> getSize v"
  shows "lru_inv (Release getSize k c)"
    and "(i, e) \<in> set (byAccess c) \<Longrightarrow> refCount e > 0 \<Longrightarrow> entry_key e \<noteq> k \<Longrightarrow> (i, e) \<in> set (byAccess (Release getSize k c))"
proof -
  have "lru_inv (Release getSize k c) \<and>
    ((i, e) \<in> set (byAccess c) \<longrightarrow> refCount e > 0 \<longrightarrow> entry_key e \<noteq> k \<longrightarrow> (i, e) \<in> set (byAccess (Release getSize k c)))"
  proof (cases "maxSize c = 0 \<or> \<not> pin c \<or> byKey c k = None")
    case True
    then show ?thesis using assms(1) by (auto simp: Release_def)
  next
    case False
    then obtain j where j: "byKey c k = Some j" by auto
    note je = lru_inv_byKey [OF assms(1) j]
    let ?e = "element c j"
    let ?e' = "?e\<lparr>refCount := refCount ?e - 1, entry_size := getSize (entry_value ?e)\<rparr>"
    define s where "s = set_element j ?e' c"
    define d where "d = s\<lparr>currSize := currSize c - entry_size ?e + entry_size ?e'\<rparr>"
    note set_ok = set_element_ok [OF assms(1) conjunct1 [OF je], of ?e' s]
    have d: "lru_inv d" using set_ok(1) assms(2) False by (simp add: s_def d_def)
    have stays: "(i, e) \<in> set (byAccess d)" if "(i, e) \<in> set (byAccess c)" "entry_key e \<noteq> k"
    proof -
      have "i \<noteq> j" using that je lru_inv_element [OF assms(1) that(1)] by auto
      with set_ok(2) [of "(i, e)"] that(1) assms(2) False show ?thesis by (simp add: s_def d_def)
    qed
    obtain x where x: "Release getSize k c =
      (if currSize d > maxSize c then tryEvictUntilCacheSizeUnderLimit (d\<lparr>pinnedSize := x\<rparr>) else d\<lparr>pinnedSize := x\<rparr>)"
    proof
      show "Release getSize k c =
        (if currSize d > maxSize c
         then tryEvictUntilCacheSizeUnderLimit (d\<lparr>pinnedSize := if refCount ?e = 1 then pinnedSize c - entry_size ?e else pinnedSize c\<rparr>)
         else d\<lparr>pinnedSize := if refCount ?e = 1 then pinnedSize c - entry_size ?e else pinnedSize c\<rparr>)"
        using False j
        by (simp add: Release_def Let_def calculateNewCacheSize_def d_def s_def set_element_frame)
    qed
    let ?p = "d\<lparr>pinnedSize := x\<rparr>"
    have inv: "lru_inv ?p" using d by simp
    have "good_step ?p (Release getSize k c)"
      using x evict_good [OF inv, of 0] good_step_refl [OF inv] by (simp add: tryEvictUntilCacheSizeUnderLimit_def)
    moreover have "(i, e) \<in> set (byAccess (Release getSize k c))"
      if "(i, e) \<in> set (byAccess c)" "refCount e > 0" "entry_key e \<noteq> k"
    proof -
      have "(i, e) \<in> set (byAccess ?p)" using stays that by simp
      then have "(i, e) \<in> set (filter (\<lambda>p. \<not> evictable None p) (byAccess ?p))" using that by (simp add: evictable_def)
      moreover have "filter (\<lambda>p. \<not> evictable None p) (byAccess (Release getSize k c)) = filter (\<lambda>p. \<not> evictable None p) (byAccess ?p)"
        using x evict_ok [OF inv refl refl, of 0] by (auto simp: tryEvictUntilCacheSizeUnderLimit_def)
      ultimately have "(i, e) \<in> set (filter (\<lambda>p. \<not> evictable None p) (byAccess (Release getSize k c)))" by simp
      then show ?thesis by simp
    qed
    ultimately show ?thesis by (simp add: good_step_def)
  qed
  then show "lru_inv (Release getSize k c)"
    and "(i, e) \<in> set (byAccess c) \<Longrightarrow> refCount e > 0 \<Longrightarrow> entry_key e \<noteq> k \<Longrightarrow> (i, e) \<in> set (byAccess (Release getSize k c))"
    by blast+
qed

text \<open>The background eviction: however many entries a call may scan, the expired tail goes and nothing else.\<close>

lemma expired_settings: "same_settings c c' \<Longrightarrow> isEntryExpired c' = isEntryExpired c"
  by (simp add: fun_eq_iff isEntryExpired_def same_settings_def split: option.split)

lemma evictToMax_loop_ok:
  fixes xs :: "(nat \<times> ('k, 'v) lru_entry) list"
  assumes "lru_inv c" "byAccess c = xs" "evictToMax_loop now n (rev xs) c = (c', again)"
  shows "good_step c c' \<and>
    dropWhile (\<lambda>p. isEntryExpired c (snd p) now) (rev (byAccess c')) =
      dropWhile (\<lambda>p. isEntryExpired c (snd p) now) (rev xs) \<and>
    (\<not> again \<longrightarrow> rev (byAccess c') = dropWhile (\<lambda>p. isEntryExpired c (snd p) now) (rev xs))"
  using assms
proof (induction xs arbitrary: c n rule: rev_induct)
  case Nil
  then show ?case by (simp add: good_step_refl)
next
  case (snoc p xs)
  show ?case
  proof (cases n)
    case 0
    with snoc.prems show ?thesis by (auto simp: good_step_refl)
  next
    case (Suc m)
    show ?thesis
    proof (cases "isEntryExpired c (snd p) now")
      case False
      with snoc.prems Suc show ?thesis by (auto simp: good_step_refl)
    next
      case True
      let ?d = "deleteInternal (fst p) c"
      have p: "(fst p, snd p) \<in> set (byAccess c)" using snoc.prems(2) by simp
      note good = expired_delete_good [OF snoc.prems(1) p True]
      have "distinct (map fst (xs @ [p]))" using snoc.prems(1,2) by (simp add: lru_inv_def linked_def)
      from filter_delete [OF this] have ba: "byAccess ?d = xs"
        using deleteInternal_ok [OF snoc.prems(1) p] snoc.prems(2) by simp
      have "evictToMax_loop now m (rev xs) ?d = (c', again)" using snoc.prems(3) Suc True by simp
      from snoc.IH [OF _ ba this] good good_step_trans [OF good] expired_settings [of c ?d] True show ?thesis
        by (simp add: good_step_def)
    qed
  qed
qed

lemma bgEvict_ok:
  assumes "lru_inv c"
  shows "good_step c (bgEvict now n c) \<and>
    (0 < n \<longrightarrow> rev (byAccess (bgEvict now n c)) = dropWhile (\<lambda>p. isEntryExpired c (snd p) now) (rev (byAccess c)))"
  using assms
proof (induction now n c rule: bgEvict.induct)
  case (1 now n c)
  obtain c' again where ev: "evictToMax now n c = (c', again)" by fastforce
  show ?case
  proof (cases "0 < n")
    case False
    with ev have "c' = c" "\<not> again" by (simp_all add: evictToMax_def)
    with ev 1(2) False show ?thesis by (simp add: bgEvict.simps [of now n c] good_step_refl)
  next
    case True
    then have "evictToMax_loop now (nat n) (rev (byAccess c)) c = (c', again)" using ev by (simp add: evictToMax_def)
    note ok = evictToMax_loop_ok [OF 1(2) refl this]
    show ?thesis
    proof (cases again)
      case False
      with ok ev show ?thesis by (simp add: bgEvict.simps [of now n c])
    next
      case again: True
      have "lru_inv c'" "same_settings c c'" using ok by (auto simp: good_step_def)
      with 1(1) [OF ev [symmetric] again] ev again ok True good_step_trans expired_settings [of c c'] show ?thesis
        by (simp add: bgEvict.simps [of now n c]) blast
    qed
  qed
qed

lemma Delete_inv: "lru_inv c \<Longrightarrow> lru_inv (Delete_key k c)"
  using lru_inv_byKey [of c k] deleteInternal_ok by (fastforce simp: Delete_key_def split: option.split)

lemma pin_step_good:
  assumes "lru_inv c" "\<And>v. 0 \<le> snd os v"
  shows "lru_inv (pin_step os c)"
proof (cases os)
  case (Pair op getSize)
  with assms(2) have "\<And>v. 0 \<le> getSize v" by simp
  with assms(1) Get_good [OF assms(1)] PutIfNotExist_good [OF assms(1), of getSize] Delete_inv [OF assms(1)]
    Release_ok(1) [OF assms(1), of getSize] Iterator_good [OF assms(1)] bgEvict_ok [OF assms(1)] Pair
  show ?thesis by (cases op) (simp_all add: good_step_def)
qed

lemma New_lru_inv: "lru_inv (New_lru m t p)"
  by (simp add: lru_inv_def linked_def New_lru_def index_by_def fun_eq_iff)

lemma New_lru_ok: "0 < m \<Longrightarrow> cache_ok (New_lru m t False)"
  using New_lru_inv [of m t False] by (simp add: cache_ok_def) (simp add: New_lru_def)

lemma outputs_ok:
  "cache_ok c \<Longrightarrow> (\<And>v. 0 \<le> getSize v) \<Longrightarrow> cache_ok (snd (outputs (lru_exec getSize) ops c))"
proof (induction ops arbitrary: c)
  case (Cons op ops)
  from lru_exec_refines [where getSize = getSize, OF Cons.prems] have "cache_ok (snd (lru_exec getSize op c))" by blast
  from Cons.IH [OF this Cons.prems(2)] show ?case by (simp add: case_prod_unfold Let_def)
qed simp

section \<open>The contract\<close>

definition lookup_lru :: "('k, 'v) lru \<Rightarrow> 'k \<Rightarrow> 'v option" where
  "lookup_lru c k = map_option (\<lambda>i. entry_value (element c i)) (byKey c k)"

definition put_lru :: "('v \<Rightarrow> int) \<Rightarrow> int \<Rightarrow> 'k \<Rightarrow> 'v \<Rightarrow> ('k, 'v) lru \<Rightarrow> ('k, 'v) lru" where
  "put_lru getSize now k v c = (case Put getSize now k v c of None \<Rightarrow> c | Some x \<Rightarrow> snd x)"

definition fits_lru :: "('v \<Rightarrow> int) \<Rightarrow> int \<Rightarrow> 'v \<Rightarrow> bool" where
  "fits_lru getSize m v \<longleftrightarrow> 0 \<le> getSize v \<and> getSize v \<le> m"

lemma lookup_cells: "lru_inv c \<Longrightarrow> lookup_lru c k = map_option fst (map_of (cells c) k)"
  by (simp add: map_of_cells lookup_lru_def option.map_comp o_def cell_of_def)

lemma map_of_forget: "map_of (forget k xs) k' = (if k' = k then None else map_of xs k')"
  by (induction xs) (auto simp: forget_def)

lemma map_of_fits:
  "distinct (map fst xs) \<Longrightarrow> map_of (fits_from_front sz b xs) k \<in> {None, map_of xs k}"
proof (induction xs arbitrary: b)
  case (Cons x xs)
  then show ?case by (cases x) auto
qed simp

lemma distinct_cells: "lru_inv c \<Longrightarrow> distinct (map fst (forget k (cells c)))"
  by (simp add: lru_inv_def linked_def cells_def cell_of_def forget_def o_def distinct_map_filter)

lemma lookup_put:
  assumes "cache_ok c" "fits_lru getSize (maxSize c) v"
  shows "lookup_lru (put_lru getSize now k v c) k = Some v"
    and "k' \<noteq> k \<Longrightarrow> lookup_lru (put_lru getSize now k v c) k' \<in> {None, lookup_lru c k'}"
    and "cache_ok (put_lru getSize now k v c)" "maxSize (put_lru getSize now k v c) = maxSize c"
proof -
  obtain r c' where put: "Put getSize now k v c = Some (r, c')" using Put_total [OF assms(1)] by blast
  have fits: "0 \<le> getSize v" "getSize v \<le> maxSize c" using assms(2) by (simp_all add: fits_lru_def)
  note ref = Put_refines [where getSize = getSize, OF assms(1) fits(1) put]
  have inv: "lru_inv c" "lru_inv c'" using ref assms(1) by (auto simp: cache_ok_def)
  have cells': "cells c' = (k, v, getSize v, if ttl c \<noteq> 0 then Some now else None) #
              fits_from_front cell_size (maxSize c - getSize v) (forget k (cells c))"
    using ref fits(2) by (auto simp: ref_put_def)
  have run: "put_lru getSize now k v c = c'" by (simp add: put_lru_def put)
  show "lookup_lru (put_lru getSize now k v c) k = Some v" using inv(2) cells' by (simp add: run lookup_cells)
  show "cache_ok (put_lru getSize now k v c)" "maxSize (put_lru getSize now k v c) = maxSize c"
    using ref by (simp_all add: run same_settings_def)
  assume "k' \<noteq> k"
  then show "lookup_lru (put_lru getSize now k v c) k' \<in> {None, lookup_lru c k'}"
    using inv cells' map_of_fits [OF distinct_cells [OF inv(1)], of cell_size "maxSize c - getSize v" k k']
    by (auto simp: run lookup_cells map_of_forget)
qed

lemma lookup_get:
  assumes "cache_ok c"
  shows "fst (Get now k c) \<in> {None, lookup_lru c k}" "lookup_lru (snd (Get now k c)) k' \<in> {None, lookup_lru c k'}"
    and "cache_ok (snd (Get now k c))" "maxSize (snd (Get now k c)) = maxSize c"
proof -
  obtain r c' where get: "Get now k c = (r, c')" by fastforce
  note ref = Get_refines [OF assms get]
  have inv: "lru_inv c" "lru_inv c'" using ref assms by (auto simp: cache_ok_def)
  show "cache_ok (snd (Get now k c))" "maxSize (snd (Get now k c)) = maxSize c"
    using ref get by (simp_all add: same_settings_def)
  show "fst (Get now k c) \<in> {None, lookup_lru c k}"
    using ref get inv by (auto simp: lookup_cells ref_get_def split: option.splits if_splits)
  show "lookup_lru (snd (Get now k c)) k' \<in> {None, lookup_lru c k'}"
  proof (cases "map_of (cells c) k")
    case None
    with ref get inv show ?thesis by (simp add: lookup_cells ref_get_def)
  next
    case (Some x)
    then have "cells c' = forget k (cells c) \<or> cells c' = (k, x) # forget k (cells c)"
      using ref by (auto simp: ref_get_def split: if_splits)
    with Some inv get show ?thesis by (auto simp: lookup_cells map_of_forget)
  qed
qed

lemma lookup_delete:
  assumes "cache_ok c"
  shows "lookup_lru (Delete_key k c) k = None" "lookup_lru (Delete_key k c) k' \<in> {None, lookup_lru c k'}"
    and "cache_ok (Delete_key k c)" "maxSize (Delete_key k c) = maxSize c"
proof -
  note ref = Delete_refines [OF assms, of k]
  have inv: "lru_inv c" "lru_inv (Delete_key k c)" using ref assms by (auto simp: cache_ok_def)
  show "cache_ok (Delete_key k c)" "maxSize (Delete_key k c) = maxSize c" using ref by (simp_all add: same_settings_def)
  show "lookup_lru (Delete_key k c) k = None" "lookup_lru (Delete_key k c) k' \<in> {None, lookup_lru c k'}"
    using ref by (simp_all add: lookup_cells inv map_of_forget)
qed

interpretation lru_contract: cache_contract Get "put_lru getSize" Delete_key "\<lambda>c. cache_ok c \<and> maxSize c = m" "fits_lru getSize m" lookup_lru
  for getSize :: "'v \<Rightarrow> int" and m :: int
proof (unfold_locales, goal_cases)
  case (1 c now k) then show ?case using lookup_get(3,4) [of c now k] by simp
next
  case (2 c v now k) then show ?case using lookup_put(3,4) [of c getSize v now k] by simp
next
  case (3 c k) then show ?case using lookup_delete(3,4) [of c k] by simp
next
  case (4 c now k) then show ?case using lookup_get(1) [of c now k] by simp
next
  case (5 c now k k') then show ?case using lookup_get(2) [of c now k k'] by simp
next
  case (6 c v now k) then show ?case using lookup_put(1) [of c getSize v now k] by simp
next
  case (7 c v k' k now) then show ?case using lookup_put(2) [of c getSize v k' k now] by simp
next
  case (8 c k) then show ?case using lookup_delete(1) [of c k] by simp
next
  case (9 c k k') then show ?case using lookup_delete(2) [of c k k'] by simp
qed

section \<open>Properties\<close>

text \<open>
  C6. A cache without pinning is the reference cache: after any operations the results are those of a
  list kept by recency, where a put leaves the longest run of other entries that fits beside it, an
  expired entry is forgotten when it is read, and a value larger than the cache is not stored.
\<close>

theorem Lru_refines_reference:
  assumes "\<And>v. 0 \<le> getSize v" "0 < m"
  shows "fst (outputs (lru_exec getSize) ops (New_lru m t False)) = fst (outputs (ref_exec getSize m t) ops []) \<and>
    cells (snd (outputs (lru_exec getSize) ops (New_lru m t False))) = snd (outputs (ref_exec getSize m t) ops [])"
proof -
  have "fst (outputs (lru_exec getSize) ops c) = fst (outputs (ref_exec getSize (maxSize c) (ttl c)) ops (cells c)) \<and>
    cells (snd (outputs (lru_exec getSize) ops c)) = snd (outputs (ref_exec getSize (maxSize c) (ttl c)) ops (cells c))"
    if "cache_ok c" for c
    using that
  proof (induction ops arbitrary: c)
    case (Cons op ops)
    let ?c = "snd (lru_exec getSize op c)"
    have ref: "cache_ok ?c" "same_settings c ?c"
      "ref_exec getSize (maxSize c) (ttl c) op (cells c) = (fst (lru_exec getSize op c), cells ?c)"
      using lru_exec_refines [OF Cons.prems assms(1)] by auto
    with Cons.IH [OF ref(1)] show ?case by (simp add: same_settings_def case_prod_unfold Let_def)
  qed simp
  from this [OF New_lru_ok [OF assms(2)], of t] show ?thesis by (simp add: New_lru_def cells_def)
qed

theorem Lru_refines_reference_witness:
  "fst (outputs (lru_exec (\<lambda>v. 1)) [PutOp 0 (1::nat) (10::nat), PutOp 1 2 20, GetOp 2 1, PutOp 3 3 30, GetOp 4 2, GetOp 5 1]
     (New_lru 2 0 False)) = [None, None, Some 10, None, None, Some 10]"
  by (subst Lru_refines_reference [THEN conjunct1])
    (simp_all add: ref_get_def ref_put_def forget_def cell_expired_def cell_size_def)



text \<open>
  C24. An entry that is in use is neither evicted, nor expired, nor replaced: it keeps its element and
  its value, and its count does not drop, unless it is itself released or deleted.
\<close>

theorem Lru_pinned_stays:
  assumes "lru_inv c" "(i, e) \<in> set (byAccess c)" "0 < refCount e"
    and "\<And>v. 0 \<le> snd os v" "fst os \<noteq> CacheDelete (entry_key e)" "fst os \<noteq> CacheRelease (entry_key e)"
  shows "\<exists>e'. (i, e') \<in> set (byAccess (pin_step os c)) \<and> entry_key e' = entry_key e \<and>
    entry_value e' = entry_value e \<and> refCount e \<le> refCount e'"
proof -
  have good: "\<exists>e'. (i, e') \<in> set (byAccess c') \<and> entry_key e' = entry_key e \<and>
    entry_value e' = entry_value e \<and> refCount e \<le> refCount e'" if "good_step c c'" for c'
    using that assms(2,3) by (fastforce simp: good_step_def keeps_pinned_def)
  obtain op getSize where os: "os = (op, getSize)" by (cases os)
  with assms(4) have sizes: "\<And>v. 0 \<le> getSize v" by simp
  show ?thesis
  proof (cases op)
    case (CacheDelete k)
    have "(i, e) \<in> set (byAccess (Delete_key k c))"
    proof (cases "byKey c k")
      case (Some j)
      from lru_inv_byKey [OF assms(1) Some] lru_inv_element [OF assms(1,2)] assms(5) os CacheDelete have "j \<noteq> i" by auto
      then show ?thesis using Some assms(2) by (simp add: Delete_key_def deleteInternal_def Let_def)
    qed (use assms(2) in \<open>simp add: Delete_key_def\<close>)
    with os CacheDelete show ?thesis by auto
  next
    case (CacheRelease k)
    with os assms(6) Release_ok(2) [of c getSize i e k, OF assms(1) sizes assms(2,3)] show ?thesis by auto
  qed (use os good Get_good [OF assms(1)] PutIfNotExist_good [OF assms(1) sizes] Iterator_good [OF assms(1)]
        bgEvict_ok [OF assms(1)] in simp_all)
qed

theorem Lru_pinned_stays_witness:
  "let c = snd (PutIfNotExist (\<lambda>v. 1) 0 (1::nat) (10::nat) (New_lru 1 5 True)) in
   \<exists>e'. (0, e') \<in> set (byAccess (pin_step (CacheBgEvict 100 1, \<lambda>v. 1) c)) \<and> entry_key e' = 1 \<and> entry_value e' = 10 \<and> 1 \<le> refCount e'"
proof -
  let ?c = "snd (PutIfNotExist (\<lambda>v. 1) 0 (1::nat) (10::nat) (New_lru 1 5 True))"
  have c: "?c = \<lparr>byAccess = [(0, \<lparr>entry_key = 1, createTime = Some 0, entry_value = 10, refCount = 1, entry_size = 1\<rparr>)],
      byKey = [1 \<mapsto> 0], nextElement = 1, maxSize = 1, currSize = 1, pinnedSize = 1, ttl = 5, pin = True, calls = [OnPut 10]\<rparr>"
    by (simp add: PutIfNotExist_def putInternal_def putNew_def New_lru_def Let_def updateEntryTTL_def updateEntryRefCount_def
        tryEvictUntilEnoughSpaceWithSkipEntry_def calculateNewCacheSize_def emptyEntrySize_def)
  have "good_step (New_lru 1 5 True) ?c" by (rule PutIfNotExist_good [OF New_lru_inv]) simp
  then have "lru_inv ?c" by (simp add: good_step_def)
  from Lru_pinned_stays [OF this, of 0 "\<lparr>entry_key = 1, createTime = Some 0, entry_value = 10, refCount = 1, entry_size = 1\<rparr>"
      "(CacheBgEvict 100 1, \<lambda>v. 1)"] show ?thesis unfolding Let_def c by simp
qed

text \<open>
  C29. The background eviction ends for every setting, and removes from the back exactly the entries up
  to the first that has not expired, however few of them each locked pass may scan.
\<close>

theorem Lru_bgEvict_expired_tail:
  assumes "lru_inv c" "0 < maxEntryPerCall"
  shows "byAccess (bgEvict now maxEntryPerCall c) =
    rev (dropWhile (\<lambda>p. isEntryExpired c (snd p) now) (rev (byAccess c)))"
  using bgEvict_ok [OF assms(1), of now maxEntryPerCall] assms(2) by (metis rev_rev_ident)

theorem Lru_bgEvict_expired_tail_witness:
  "let c = snd (outputs (lru_exec (\<lambda>v. 1)) [PutOp 0 (1::nat) (10::nat), PutOp 1 2 20, PutOp 20 3 30] (New_lru 5 4 False)) in
   map (\<lambda>p. entry_value (snd p)) (byAccess (bgEvict 21 1 c)) = [30]"
proof -
  let ?c = "snd (outputs (lru_exec (\<lambda>v. 1)) [PutOp 0 (1::nat) (10::nat), PutOp 1 2 20, PutOp 20 3 30] (New_lru 5 4 False))"
  have c: "byAccess ?c =
      [(2, \<lparr>entry_key = 3, createTime = Some 20, entry_value = 30, refCount = 0, entry_size = 1\<rparr>),
       (1, \<lparr>entry_key = 2, createTime = Some 1, entry_value = 20, refCount = 0, entry_size = 1\<rparr>),
       (0, \<lparr>entry_key = 1, createTime = Some 0, entry_value = 10, refCount = 0, entry_size = 1\<rparr>)] \<and> ttl ?c = 4"
    by (simp add: Put_def putInternal_def putNew_def New_lru_def Let_def updateEntryTTL_def updateEntryRefCount_def
        tryEvictUntilEnoughSpaceWithSkipEntry_def calculateNewCacheSize_def emptyEntrySize_def)
  have "cache_ok ?c" by (rule outputs_ok [OF New_lru_ok]) simp_all
  then have "lru_inv ?c" by (simp add: cache_ok_def)
  from Lru_bgEvict_expired_tail [OF this, of 1 21] c show ?thesis
    by (simp add: Let_def isEntryExpired_def)
qed

text \<open>
  A read never returns a value that was replaced or deleted: after any operations whose values fit,
  it returns the value last put, or nothing.
\<close>

theorem Lru_reads_last_write:
  assumes "0 < m" "\<And>v. v \<in> set (put_values ops) \<Longrightarrow> 0 \<le> getSize v \<and> getSize v \<le> m"
  shows "fst (Get now k (run_ops Get (put_lru getSize) Delete_key ops (New_lru m t False))) \<in> {None, last_write k ops None}"
  using lru_contract.reads_last_write [of "New_lru m t False" m getSize ops k None now] New_lru_ok [OF assms(1), of t] assms(2)
  by (auto simp: list_all_iff fits_lru_def New_lru_def lookup_lru_def)

theorem Lru_reads_last_write_witness:
  "fst (Get 3 1 (run_ops Get (put_lru (\<lambda>v. 1)) Delete_key [PutOp 0 (1::nat) (10::nat), PutOp 1 1 20] (New_lru 1 0 False)))
     \<in> {None, Some 20}"
  using Lru_reads_last_write [of 1 "[PutOp 0 (1::nat) (10::nat), PutOp 1 1 20]" "\<lambda>v. 1" 3 1 0] by simp

text \<open>
  With a value that does not fit this fails: \<open>Put\<close> drops the error and keeps the old value, which
  is then read.
\<close>

theorem Lru_put_too_large_is_stale:
  "fst (Get 3 1 (run_ops Get (put_lru (\<lambda>v. v)) Delete_key [PutOp 0 (1::nat) (1::int), PutOp 1 1 9] (New_lru 5 0 False))) = Some 1"
  by (simp add: put_lru_def Put_def putInternal_def putNew_def New_lru_def Let_def updateEntryTTL_def updateEntryRefCount_def
        tryEvictUntilEnoughSpaceWithSkipEntry_def calculateNewCacheSize_def emptyEntrySize_def Get_def element_def
        isEntryExpired_def set_element_def MoveToFront_def)

end
