(* ===== verification/ScheduleSpec.thy ===== *)
theory ScheduleSpec
  imports CalendarParse LruCache "HOL-Library.Signed_Division"
begin

text \<open>
  Schedule specifications (\<open>service/worker/scheduler/spec.go\<close>): their canonical form and validation, the
  compilation with the cache of time zones, and the next time of a schedule. Instants are nanoseconds
  since 1970 where the code compares them as \<open>time.Time\<close> and seconds where it uses \<open>Unix\<close>; the zero time
  is \<open>None\<close>. The time zone database, the parsing of durations and the hash of the jitter are parameters.
\<close>

section \<open>Specifications\<close>

record schedule_spec =
  StructuredCalendar :: "structured_calendar list"
  ExcludeStructuredCalendar :: "structured_calendar list"
  Calendar :: "calendar_spec list"
  ExcludeCalendar :: "calendar_spec list"
  CronString :: "string list"
  Intervals :: "interval_spec list"
  StartTime :: "int option"
  EndTime :: "int option"
  Jitter :: int
  TimezoneName :: string
  TimezoneData :: "string option"

datatype range_error = RangeStart string | RangeEnd string | RangeStep string | CommentTooLong

datatype interval_error = IntervalTooSmall | PhaseNegative | PhaseGreater

datatype spec_error =
    ParseError parse_error
  | ConflictingTimezoneNames
  | InvalidCalendar "range_error list"
  | InvalidInterval interval_error
  | LocationError string

section \<open>Canonical form\<close>

definition range_errors :: "string \<Rightarrow> int \<Rightarrow> int \<Rightarrow> cal_range \<Rightarrow> range_error list" where
  "range_errors field minVal maxVal r =
     (if Start r < minVal \<or> Start r > maxVal then [RangeStart field] else []) @
     (if End r \<noteq> 0 \<and> (End r < Start r \<or> End r > maxVal) then [RangeEnd field] else []) @
     (if Step r < 0 then [RangeStep field] else [])"

definition checkRanges :: "cal_range list \<Rightarrow> string \<Rightarrow> int \<Rightarrow> int \<Rightarrow> range_error list" where
  "checkRanges ranges field minVal maxVal = concat (map (range_errors field minVal maxVal) ranges)"

definition maxCommentLen :: nat where
  "maxCommentLen = 200"

definition validateStructuredCalendar :: "structured_calendar \<Rightarrow> spec_error option" where
  "validateStructuredCalendar scs =
     (let errs = checkRanges (Second scs) ''Second'' 0 59 @ checkRanges (Minute scs) ''Minute'' 0 59 @
            checkRanges (Hour scs) ''Hour'' 0 23 @ checkRanges (DayOfMonth scs) ''DayOfMonth'' 1 31 @
            checkRanges (Month scs) ''Month'' 1 12 @ checkRanges (Year scs) ''Year'' minCalendarYear maxCalendarYear @
            checkRanges (DayOfWeek scs) ''DayOfWeek'' 0 6 @
            (if length (Comment scs) > maxCommentLen then [CommentTooLong] else [])
      in if errs \<noteq> [] then Some (InvalidCalendar errs) else None)"

definition Second_ns :: int where "Second_ns = 10 ^ 9"

definition validateInterval :: "interval_spec \<Rightarrow> spec_error option" where
  "validateInterval i =
     (if Interval i < Second_ns then Some (InvalidInterval IntervalTooSmall)
      else if Phase i < 0 then Some (InvalidInterval PhaseNegative)
      else if Phase i \<ge> Interval i then Some (InvalidInterval PhaseGreater)
      else None)"

fun parse_calendars :: "calendar_spec list \<Rightarrow> structured_calendar list \<Rightarrow> spec_error + structured_calendar list" where
  "parse_calendars [] acc = Inr acc"
| "parse_calendars (cal # cals) acc =
     (case parseCalendarToStructured cal of
        Inl e \<Rightarrow> Inl (ParseError e)
      | Inr structured \<Rightarrow> parse_calendars cals (acc @ [structured]))"

text \<open>The cron strings, with the time zone name they agree on; \<open>unset\<close> is the code's marker for no cron string.\<close>

definition unset :: string where "unset = ''__unset__''"

fun parse_crons ::
    "(string \<Rightarrow> int option) \<Rightarrow> string list \<Rightarrow> string \<Rightarrow> schedule_spec \<Rightarrow> spec_error + string \<times> schedule_spec" where
  "parse_crons pd [] cronTZ spec = Inr (cronTZ, spec)"
| "parse_crons pd (cs # css) cronTZ spec =
     (case parseCronString pd cs of
        Inl e \<Rightarrow> Inl (ParseError e)
      | Inr (parsed, tz) \<Rightarrow>
          if cronTZ \<noteq> unset \<and> tz \<noteq> cronTZ then Inl ConflictingTimezoneNames
          else parse_crons pd css tz
                 (case parsed of
                    Inl structured \<Rightarrow> spec\<lparr>StructuredCalendar := StructuredCalendar spec @ [structured]\<rparr>
                  | Inr interval \<Rightarrow> spec\<lparr>Intervals := Intervals spec @ [interval]\<rparr>))"

fun first_error :: "('a \<Rightarrow> spec_error option) \<Rightarrow> 'a list \<Rightarrow> spec_error option" where
  "first_error f [] = None"
| "first_error f (x # xs) = (case f x of Some e \<Rightarrow> Some e | None \<Rightarrow> first_error f xs)"

definition cron_timezone :: "string \<Rightarrow> schedule_spec \<Rightarrow> spec_error + schedule_spec" where
  "cron_timezone cronTZ spec =
     (if cronTZ \<noteq> unset \<and> cronTZ \<noteq> [] then
        if TimezoneName spec \<noteq> [] \<and> TimezoneName spec \<noteq> cronTZ \<or> TimezoneData spec \<noteq> None then Inl ConflictingTimezoneNames
        else if TimezoneName spec = [] then Inr (spec\<lparr>TimezoneName := cronTZ\<rparr>) else Inr spec
      else Inr spec)"

definition canonicalizeSpec :: "(string \<Rightarrow> int option) \<Rightarrow> schedule_spec \<Rightarrow> spec_error + schedule_spec" where
  "canonicalizeSpec pd spec =
     bind_result (parse_calendars (Calendar spec) (StructuredCalendar spec)) (\<lambda>structured.
     bind_result (parse_calendars (ExcludeCalendar spec) (ExcludeStructuredCalendar spec)) (\<lambda>excludes.
     bind_result (parse_crons pd (CronString spec) unset
        (spec\<lparr>StructuredCalendar := structured, Calendar := [], ExcludeStructuredCalendar := excludes, ExcludeCalendar := []\<rparr>)) (\<lambda>(cronTZ, spec).
     bind_result (cron_timezone cronTZ (spec\<lparr>CronString := []\<rparr>)) (\<lambda>spec.
     case first_error validateStructuredCalendar (StructuredCalendar spec) of
       Some e \<Rightarrow> Inl e
     | None \<Rightarrow> (case first_error validateInterval (Intervals spec) of Some e \<Rightarrow> Inl e | None \<Rightarrow> Inr spec)))))"

definition clean_range :: "cal_range \<Rightarrow> cal_range" where
  "clean_range r = (let r = (if End r < Start r then r\<lparr>End := Start r\<rparr> else r) in if Step r = 0 then r\<lparr>Step := 1\<rparr> else r)"

definition clean_calendar :: "structured_calendar \<Rightarrow> structured_calendar" where
  "clean_calendar s =
     s\<lparr>Second := map clean_range (Second s), Minute := map clean_range (Minute s), Hour := map clean_range (Hour s),
       DayOfMonth := map clean_range (DayOfMonth s), Month := map clean_range (Month s), Year := map clean_range (Year s),
       DayOfWeek := map clean_range (DayOfWeek s)\<rparr>"

definition CleanSpec :: "schedule_spec \<Rightarrow> schedule_spec" where
  "CleanSpec spec =
     spec\<lparr>StructuredCalendar := map clean_calendar (StructuredCalendar spec),
          ExcludeStructuredCalendar := map clean_calendar (ExcludeStructuredCalendar spec)\<rparr>"

section \<open>Compilation\<close>

record CompiledSpec =
  cs_spec :: schedule_spec
  cs_tz :: location
  cs_calendar :: "compiledCalendar list"
  cs_excludes :: "compiledCalendar list"

text \<open>The cache holds the results of \<open>LoadLocation\<close>, errors too; a value counts one.\<close>

type_synonym location_cache = "(string, string + location) lru"

definition NewSpecBuilder :: location_cache where
  "NewSpecBuilder = New_lru 1000 (24 * 3600 * 10 ^ 9) False"

definition count_one :: "'v \<Rightarrow> int" where
  "count_one v = 1"

definition loadTimezone ::
    "(string \<Rightarrow> string + location) \<Rightarrow> (string \<Rightarrow> string \<Rightarrow> string + location) \<Rightarrow> int \<Rightarrow> schedule_spec \<Rightarrow> location_cache \<Rightarrow>
     (string + location) \<times> location_cache" where
  "loadTimezone LoadLocation FromTZData now spec cache =
     (case TimezoneData spec of
        Some data \<Rightarrow> (FromTZData (TimezoneName spec) data, cache)
      | None \<Rightarrow>
          case Get now (TimezoneName spec) cache of
            (Some cached, cache') \<Rightarrow> (cached, cache')
          | (None, cache') \<Rightarrow>
              let loc = LoadLocation (TimezoneName spec)
              in (loc, put_lru count_one now (TimezoneName spec) loc cache'))"

fun compile_calendars :: "location \<Rightarrow> structured_calendar list \<Rightarrow> compiledCalendar list option" where
  "compile_calendars tz [] = Some []"
| "compile_calendars tz (cal # cals) =
     (case newCompiledCalendar cal tz of
        None \<Rightarrow> None
      | Some cc \<Rightarrow> map_option (\<lambda>ccs. cc # ccs) (compile_calendars tz cals))"

text \<open>\<open>None\<close> is a panic of the compilation, or a loop of it that never ends.\<close>

definition NewCompiledSpec ::
    "(string \<Rightarrow> int option) \<Rightarrow> (string \<Rightarrow> string + location) \<Rightarrow> (string \<Rightarrow> string \<Rightarrow> string + location) \<Rightarrow> int \<Rightarrow> schedule_spec \<Rightarrow>
     location_cache \<Rightarrow> ((spec_error + CompiledSpec) \<times> location_cache) option" where
  "NewCompiledSpec pd LoadLocation FromTZData now spec cache =
     (case canonicalizeSpec pd spec of
        Inl e \<Rightarrow> Some (Inl e, cache)
      | Inr spec \<Rightarrow>
          case loadTimezone LoadLocation FromTZData now spec cache of
            (Inl e, cache') \<Rightarrow> Some (Inl (LocationError e), cache')
          | (Inr tz, cache') \<Rightarrow>
              case compile_calendars tz (StructuredCalendar spec) of
                None \<Rightarrow> None
              | Some ccs \<Rightarrow>
                  case compile_calendars tz (ExcludeStructuredCalendar spec) of
                    None \<Rightarrow> None
                  | Some excludes \<Rightarrow>
                      Some (Inr \<lparr>cs_spec = spec, cs_tz = tz, cs_calendar = ccs, cs_excludes = excludes\<rparr>, cache'))"

section \<open>The next time\<close>

text \<open>Integer division truncates.\<close>

definition nextIntervalTime :: "interval_spec \<Rightarrow> int \<Rightarrow> int" where
  "nextIntervalTime iv ts =
     (let interval = Interval iv sdiv Second_ns; interval = (if interval < 1 then 1 else interval);
          phase = Phase iv sdiv Second_ns; phase = (if phase < 0 then 0 else phase)
      in ((ts - phase) sdiv interval + 1) * interval + phase)"

fun min_calendar :: "compiledCalendar list \<Rightarrow> int \<Rightarrow> int \<Rightarrow> int" where
  "min_calendar [] ts m = m"
| "min_calendar (cal # cals) ts m =
     min_calendar cals ts (case cal_next cal ts of None \<Rightarrow> m | Some t \<Rightarrow> if t < m then t else m)"

fun min_interval :: "interval_spec list \<Rightarrow> int \<Rightarrow> int \<Rightarrow> int" where
  "min_interval [] ts m = m"
| "min_interval (iv # ivs) ts m =
     min_interval ivs ts (let t = nextIntervalTime iv ts in if t < m then t else m)"

definition rawNextTime :: "CompiledSpec \<Rightarrow> int \<Rightarrow> int option" where
  "rawNextTime cs after =
     (let ts = after div Second_ns;
          minTimestamp = min_interval (Intervals (cs_spec cs)) ts (min_calendar (cs_calendar cs) ts MaxInt64)
      in if minTimestamp = MaxInt64 then None else Some minTimestamp)"

definition excluded :: "CompiledSpec \<Rightarrow> int \<Rightarrow> bool" where
  "excluded cs nominal = list_ex (\<lambda>excal. cal_matches excal nominal) (cs_excludes cs)"

definition pastEndTime :: "CompiledSpec \<Rightarrow> int \<Rightarrow> bool" where
  "pastEndTime cs nominal \<longleftrightarrow>
     (case EndTime (cs_spec cs) of None \<Rightarrow> False | Some e \<Rightarrow> nominal * Second_ns > e) \<or>
     cv_year (civil_of nominal) > maxCalendarYear"

partial_function (option) nominal_loop :: "CompiledSpec \<Rightarrow> int \<Rightarrow> int option option" where
  "nominal_loop cs after =
     (case rawNextTime cs after of
        None \<Rightarrow> Some None
      | Some nominal \<Rightarrow>
          if pastEndTime cs nominal then Some None
          else if excluded cs nominal then nominal_loop cs (nominal * Second_ns)
          else Some (Some nominal))"

declare nominal_loop.simps [code]

text \<open>The hash of the marshalled time and the seed is a 32-bit number.\<close>

definition addJitter :: "(int \<Rightarrow> string \<Rightarrow> int) \<Rightarrow> string \<Rightarrow> int \<Rightarrow> int \<Rightarrow> int" where
  "addJitter fingerprint seed nominal maxJitter =
     (let maxJitter = (if maxJitter < 0 then 0 else maxJitter);
          fp = fingerprint nominal seed;
          ms = maxJitter sdiv 10 ^ 6;
          ms = (if ms > 2 ^ 32 - 1 then 2 ^ 32 - 1 else ms)
      in nominal * Second_ns + (fp * ms) div 2 ^ 32 * 10 ^ 6)"

definition GetNextTime :: "(int \<Rightarrow> string \<Rightarrow> int) \<Rightarrow> CompiledSpec \<Rightarrow> string \<Rightarrow> int \<Rightarrow> (int \<times> int) option option" where
  "GetNextTime fingerprint cs jitterSeed after =
     (let start = (case StartTime (cs_spec cs) of None \<Rightarrow> 0 | Some t \<Rightarrow> t) - Second_ns
      in case nominal_loop cs (max after start) of
           None \<Rightarrow> None
         | Some None \<Rightarrow> Some None
         | Some (Some nominal) \<Rightarrow>
             let maxJitter = (case rawNextTime cs (nominal * Second_ns) of
                                None \<Rightarrow> Jitter (cs_spec cs)
                              | Some following \<Rightarrow> min (Jitter (cs_spec cs)) ((following - nominal) * Second_ns))
             in Some (Some (nominal, addJitter fingerprint jitterSeed nominal maxJitter)))"

section \<open>Validated calendars\<close>

definition field_wanted :: "cal_range list \<Rightarrow> int \<Rightarrow> bool" where
  "field_wanted rs v \<longleftrightarrow> (\<exists>r \<in> set rs. denotes r v)"

lemma checkRanges_nil:
  "checkRanges rs field lo hi = [] \<longleftrightarrow> (\<forall>r \<in> set rs. range_errors field lo hi r = [])"
  by (auto simp: checkRanges_def)

lemma range_errors_nil:
  "range_errors field lo hi r = [] \<longleftrightarrow>
   lo \<le> Start r \<and> Start r \<le> hi \<and> (End r = 0 \<or> Start r \<le> End r \<and> End r \<le> hi) \<and> 0 \<le> Step r"
  by (auto simp: range_errors_def)

lemma checked_sane: "checkRanges rs field lo hi = [] \<Longrightarrow> 0 \<le> lo \<Longrightarrow> list_all sane rs"
  by (auto simp: checkRanges_nil range_errors_nil sane_def list_all_iff)

lemma checked_end: "checkRanges rs field lo hi = [] \<Longrightarrow> 0 \<le> lo \<Longrightarrow> r \<in> set rs \<Longrightarrow> range_end r \<le> hi"
  by (auto simp: checkRanges_nil range_errors_nil range_end_def)

lemma checked_bits:
  assumes "checkRanges rs field lo hi = []" "0 \<le> lo"
  obtains f where "makeBitMatcher rs = Some f" "\<And>v. 0 \<le> v \<Longrightarrow> v < 64 \<Longrightarrow> f v = field_wanted rs v"
  using makeBitMatcher_ok [OF checked_sane [OF assms]] by (auto simp: field_wanted_def)

lemma civil_fields_bounds:
  "let c = local_civil tz t in 0 \<le> cv_month c \<and> cv_month c < 64 \<and> 0 \<le> cv_day c \<and> cv_day c < 64 \<and> 0 \<le> cv_hour c \<and> cv_hour c < 64 \<and>
     0 \<le> cv_minute c \<and> cv_minute c < 64 \<and> 0 \<le> cv_second c \<and> cv_second c < 64"
proof -
  have "valid_civil (local_civil tz t)" by (simp add: local_civil_def civil_of_ok)
  then show ?thesis using daysInMonth_le [of "cv_month (local_civil tz t)" "cv_year (local_civil tz t)"]
    by (simp add: valid_civil_def Let_def)
qed

definition structured_wanted :: "structured_calendar \<Rightarrow> location \<Rightarrow> int \<Rightarrow> bool" where
  "structured_wanted cal tz t \<longleftrightarrow>
     (let c = local_civil tz t in
      (Year cal = [] \<or> field_wanted (Year cal) (cv_year c)) \<and> field_wanted (Month cal) (cv_month c) \<and>
      field_wanted (DayOfMonth cal) (cv_day c) \<and> field_wanted (DayOfWeek cal) (go_Weekday tz t) \<and>
      field_wanted (Hour cal) (cv_hour c) \<and> field_wanted (Minute cal) (cv_minute c) \<and> field_wanted (Second cal) (cv_second c))"

lemma compiled_ok:
  assumes "validateStructuredCalendar cal = None"
  shows "\<exists>cc. newCompiledCalendar cal tz = Some cc \<and> cc_tz cc = tz \<and> (\<forall>t. cal_matches cc t = structured_wanted cal tz t)"
proof -
  have c: "checkRanges (Second cal) ''Second'' 0 59 = []" "checkRanges (Minute cal) ''Minute'' 0 59 = []"
    "checkRanges (Hour cal) ''Hour'' 0 23 = []" "checkRanges (DayOfMonth cal) ''DayOfMonth'' 1 31 = []"
    "checkRanges (Month cal) ''Month'' 1 12 = []" "checkRanges (Year cal) ''Year'' 2000 2100 = []"
    "checkRanges (DayOfWeek cal) ''DayOfWeek'' 0 6 = []"
    using assms by (auto simp: validateStructuredCalendar_def Let_def minCalendarYear_def maxCalendarYear_def split: if_splits)
  obtain s where s: "makeBitMatcher (Second cal) = Some s" "\<And>v. 0 \<le> v \<Longrightarrow> v < 64 \<Longrightarrow> s v = field_wanted (Second cal) v"
    using checked_bits [OF c(1)] by auto
  obtain m where m: "makeBitMatcher (Minute cal) = Some m" "\<And>v. 0 \<le> v \<Longrightarrow> v < 64 \<Longrightarrow> m v = field_wanted (Minute cal) v"
    using checked_bits [OF c(2)] by auto
  obtain h where h: "makeBitMatcher (Hour cal) = Some h" "\<And>v. 0 \<le> v \<Longrightarrow> v < 64 \<Longrightarrow> h v = field_wanted (Hour cal) v"
    using checked_bits [OF c(3)] by auto
  obtain d where d: "makeBitMatcher (DayOfMonth cal) = Some d" "\<And>v. 0 \<le> v \<Longrightarrow> v < 64 \<Longrightarrow> d v = field_wanted (DayOfMonth cal) v"
    using checked_bits [OF c(4)] by auto
  obtain mo where mo: "makeBitMatcher (Month cal) = Some mo" "\<And>v. 0 \<le> v \<Longrightarrow> v < 64 \<Longrightarrow> mo v = field_wanted (Month cal) v"
    using checked_bits [OF c(5)] by auto
  obtain w where w: "makeBitMatcher (DayOfWeek cal) = Some w" "\<And>v. 0 \<le> v \<Longrightarrow> v < 64 \<Longrightarrow> w v = field_wanted (DayOfWeek cal) v"
    using checked_bits [OF c(7)] by auto
  have "list_all (\<lambda>r. sane r \<and> range_end r < 2 ^ 15) (Year cal)"
    using checked_sane [OF c(6)] checked_end [OF c(6)] by (fastforce simp: list_all_iff)
  from makeYearMatcher_ok [OF this] obtain y where
    y: "makeYearMatcher (Year cal) = Some y" "\<And>v. y v = (Year cal = [] \<or> field_wanted (Year cal) v)"
    by (auto simp: field_wanted_def)
  let ?cc = "\<lparr>cc_tz = tz, cc_year = y, cc_month = mo, cc_dayOfMonth = d, cc_dayOfWeek = w, cc_hour = h, cc_minute = m, cc_second = s\<rparr>"
  have "newCompiledCalendar cal tz = Some ?cc" by (simp add: newCompiledCalendar_def s m h d mo w y)
  moreover have "cal_matches ?cc t = structured_wanted cal tz t" for t
  proof -
    have "0 \<le> go_Weekday tz t" "go_Weekday tz t < 64"
      using pos_mod_bound [of 7 "(t + offset_at tz t) div 86400 + 4"] by (simp_all add: go_Weekday_def weekday_of_def)
    then show ?thesis using civil_fields_bounds [of tz t]
      by (simp add: cal_matches_def structured_wanted_def s m h d mo w y Let_def)
  qed
  ultimately show ?thesis by auto
qed

section \<open>Parsed calendars\<close>

lemma parseValue_range: "parseValue s lo hi mode = Some v \<Longrightarrow> lo \<le> v \<and> v \<le> hi"
  by (auto simp: parseValue_def parse_int_def check_value_def split: if_splits option.splits)

lemma parse_step_positive: "parse_step field part = Inr (part', step, hasStep) \<Longrightarrow> 1 \<le> step"
  by (auto simp: parse_step_def Let_def split: if_splits option.splits prod.splits)

lemma parse_bounds_range:
  "lo \<le> hi \<Longrightarrow> parse_bounds field part lo hi mode hasStep = Inr (start, stop) \<Longrightarrow> lo \<le> start \<and> start \<le> stop \<and> stop \<le> hi"
  by (auto simp: parse_bounds_def split: if_splits option.splits prod.splits dest!: parseValue_range)

text \<open>The last value of a field: \<open>7\<close> is another name of Sunday.\<close>

definition last_value :: "parse_mode \<Rightarrow> int \<Rightarrow> int" where
  "last_value mode hi = (if mode = ParseModeDow then 6 else hi)"

lemma range_of_fields:
  "0 \<le> start \<Longrightarrow> start < 2 ^ 31 \<Longrightarrow> 0 \<le> stop \<Longrightarrow> stop < 2 ^ 31 \<Longrightarrow>
   Start (range_of start stop step) = start \<and> End (range_of start stop step) = (if start = stop then 0 else stop)"
  by (simp add: range_of_def i32_id)

lemma emit_ranges_valid:
  assumes "0 \<le> lo" "lo \<le> start" "start \<le> stop" "stop \<le> hi" "hi < 2 ^ 31" "mode = ParseModeDow \<Longrightarrow> lo = 0 \<and> hi = 7"
    and "1 \<le> step" "r \<in> set (emit_ranges mode start stop step)" "0 \<le> Step r"
  shows "range_errors field lo (last_value mode hi) r = []"
proof (cases "mode = ParseModeDow \<and> stop = 7")
  case False
  then have r: "r = range_of start stop step" using assms(8) by (auto simp: emit_ranges_def)
  have "stop \<le> last_value mode hi" using False assms(4,6) by (auto simp: last_value_def)
  with r range_of_fields [of start stop step] assms show ?thesis by (auto simp: range_errors_nil)
next
  case True
  have lo: "lo = 0" using True assms(6) by simp
  have "start = 7 \<Longrightarrow> r = \<lparr>Start = 0, End = 0, Step = 0\<rparr>" using assms(7,8) True by (auto simp: emit_ranges_def split: if_splits)
  moreover have "r = \<lparr>Start = 0, End = 0, Step = 0\<rparr> \<or> r = range_of start 6 step"
    using assms(8) True by (auto simp: emit_ranges_def split: if_splits)
  moreover have "start \<le> 7" using assms(3) True by simp
  ultimately show ?thesis
    using range_of_fields [of start 6 step] assms(1,2,9) lo True
    by (cases "start = 7") (auto simp: range_errors_nil last_value_def)
qed

lemma parse_parts_valid:
  assumes "0 \<le> lo" "lo \<le> hi" "hi < 2 ^ 31" "mode = ParseModeDow \<Longrightarrow> lo = 0 \<and> hi = 7"
  shows "parse_parts field lo hi mode parts = Inr rs \<Longrightarrow> r \<in> set rs \<Longrightarrow> 0 \<le> Step r \<Longrightarrow>
    range_errors f' lo (last_value mode hi) r = []"
proof (induction parts arbitrary: rs)
  case (Cons part parts)
  then obtain as bs where ab: "parse_part field lo hi mode part = Inr as" "parse_parts field lo hi mode parts = Inr bs" "rs = as @ bs"
    by (auto simp: bind_result_Inr_iff)
  show ?case
  proof (cases "r \<in> set as")
    case True
    from ab(1) obtain part' step hasStep start stop where p: "parse_step field part = Inr (part', step, hasStep)"
      "parse_bounds field part' lo hi mode hasStep = Inr (start, stop)" "as = emit_ranges mode start stop step"
      by (auto simp: parse_part_def bind_result_Inr_iff)
    from emit_ranges_valid [OF assms(1) _ _ _ assms(3,4) parse_step_positive [OF p(1)]] parse_bounds_range [OF assms(2) p(2)] True p(3) Cons.prems(3)
    show ?thesis by blast
  next
    case False
    with ab(3) Cons.prems(2) have "r \<in> set bs" by simp
    from Cons.IH [OF ab(2) this Cons.prems(3)] show ?thesis .
  qed
qed simp

lemma makeRange_valid:
  assumes "makeRange s field def lo hi mode = Inr rs" "0 \<le> lo" "lo \<le> hi" "hi < 2 ^ 31"
    and "mode = ParseModeDow \<Longrightarrow> lo = 0 \<and> hi = 7" "\<forall>r \<in> set rs. 0 \<le> Step r"
  shows "checkRanges rs f' lo (last_value mode hi) = []"
  using assms(1) parse_parts_valid [OF assms(2-5)] assms(6)
  by (auto simp: makeRange_def checkRanges_nil Let_def split: if_splits)

lemma parse_calendar_valid:
  assumes "parseCalendarToStructured cal = Inr scs" "length (cal_Comment cal) \<le> maxCommentLen"
    and "\<forall>rs \<in> {Second scs, Minute scs, Hour scs, DayOfMonth scs, Month scs, Year scs, DayOfWeek scs}. \<forall>r \<in> set rs. 0 \<le> Step r"
  shows "validateStructuredCalendar scs = None"
proof -
  have inr: "error_of r = [] \<Longrightarrow> r = Inr (or_nil r)" for r by (cases r) (auto simp: error_of_def or_nil_def)
  have y: "0 \<le> minCalendarYear" "minCalendarYear \<le> maxCalendarYear" "maxCalendarYear < 2 ^ 31"
    by (simp_all add: minCalendarYear_def maxCalendarYear_def)
  let ?s = "makeRange (cal_Second cal) ''Second'' ''0'' 0 59 ParseModeInt"
  let ?m = "makeRange (cal_Minute cal) ''Minute'' ''0'' 0 59 ParseModeInt"
  let ?h = "makeRange (cal_Hour cal) ''Hour'' ''0'' 0 23 ParseModeInt"
  let ?w = "makeRange (cal_DayOfWeek cal) ''DayOfWeek'' ''*'' 0 7 ParseModeDow"
  let ?d = "makeRange (cal_DayOfMonth cal) ''DayOfMonth'' ''*'' 1 31 ParseModeInt"
  let ?mo = "makeRange (cal_Month cal) ''Month'' ''*'' 1 12 ParseModeMonth"
  let ?y = "makeRange (cal_Year cal) ''Year'' ''*'' minCalendarYear maxCalendarYear ParseModeYear"
  have none: "error_of ?s = []" "error_of ?m = []" "error_of ?h = []" "error_of ?w = []" "error_of ?d = []" "error_of ?mo = []" "error_of ?y = []"
    and scs: "scs = \<lparr>Second = or_nil ?s, Minute = or_nil ?m, Hour = or_nil ?h, DayOfMonth = or_nil ?d, Month = or_nil ?mo,
                   Year = or_nil ?y, DayOfWeek = or_nil ?w, Comment = cal_Comment cal\<rparr>"
    using assms(1) by (auto simp: parseCalendarToStructured_def Let_def split: if_splits)
  have "checkRanges (Second scs) ''Second'' 0 59 = []"
    using makeRange_valid [OF inr [OF none(1)]] assms(3) scs by (simp add: last_value_def)
  moreover have "checkRanges (Minute scs) ''Minute'' 0 59 = []"
    using makeRange_valid [OF inr [OF none(2)]] assms(3) scs by (simp add: last_value_def)
  moreover have "checkRanges (Hour scs) ''Hour'' 0 23 = []"
    using makeRange_valid [OF inr [OF none(3)]] assms(3) scs by (simp add: last_value_def)
  moreover have "checkRanges (DayOfWeek scs) ''DayOfWeek'' 0 6 = []"
    using makeRange_valid [OF inr [OF none(4)]] assms(3) scs by (simp add: last_value_def)
  moreover have "checkRanges (DayOfMonth scs) ''DayOfMonth'' 1 31 = []"
    using makeRange_valid [OF inr [OF none(5)]] assms(3) scs by (simp add: last_value_def)
  moreover have "checkRanges (Month scs) ''Month'' 1 12 = []"
    using makeRange_valid [OF inr [OF none(6)]] assms(3) scs by (simp add: last_value_def)
  moreover have "checkRanges (Year scs) ''Year'' minCalendarYear maxCalendarYear = []"
    using makeRange_valid [OF inr [OF none(7)] y] assms(3) scs by (simp add: last_value_def)
  moreover have "\<not> maxCommentLen < length (Comment scs)" using assms(2) scs by simp
  ultimately show ?thesis by (simp add: validateStructuredCalendar_def)
qed

section \<open>The next time\<close>

text \<open>Intervals in seconds; the times of an interval are those that are its phase modulo the interval.\<close>

definition interval_seconds :: "interval_spec \<Rightarrow> int" where
  "interval_seconds iv = Interval iv div Second_ns"

definition phase_seconds :: "interval_spec \<Rightarrow> int" where
  "phase_seconds iv = Phase iv div Second_ns"

definition interval_matches :: "interval_spec \<Rightarrow> int \<Rightarrow> bool" where
  "interval_matches iv t \<longleftrightarrow> (t - phase_seconds iv) mod interval_seconds iv = 0"

definition valid_interval :: "interval_spec \<Rightarrow> bool" where
  "valid_interval iv \<longleftrightarrow> validateInterval iv = None \<and> Interval iv \<le> MaxInt64"

lemma sdiv_nonneg: "0 \<le> a \<Longrightarrow> 0 < b \<Longrightarrow> a sdiv b = a div b" for a b :: int
  by (simp add: signed_divide_int_def sgn_if)

lemma valid_interval_seconds:
  assumes "valid_interval iv"
  shows "1 \<le> interval_seconds iv" "interval_seconds iv \<le> 2 ^ 34" "0 \<le> phase_seconds iv" "phase_seconds iv \<le> 2 ^ 34"
    "nextIntervalTime iv ts = ((ts - phase_seconds iv) sdiv interval_seconds iv + 1) * interval_seconds iv + phase_seconds iv"
proof -
  have iv: "10 ^ 9 \<le> Interval iv" "Interval iv \<le> MaxInt64" "0 \<le> Phase iv" "Phase iv < Interval iv"
    using assms by (auto simp: valid_interval_def validateInterval_def Second_ns_def split: if_splits)
  show i: "1 \<le> interval_seconds iv" using iv(1) zdiv_mono1 [of "10 ^ 9" "Interval iv" "10 ^ 9"]
    by (simp add: interval_seconds_def Second_ns_def)
  show p: "0 \<le> phase_seconds iv" using iv(3) by (simp add: phase_seconds_def Second_ns_def pos_imp_zdiv_nonneg_iff)
  have top: "MaxInt64 div 10 ^ 9 \<le> 2 ^ 34" by (simp add: MaxInt64_def)
  have "interval_seconds iv \<le> MaxInt64 div 10 ^ 9" "phase_seconds iv \<le> MaxInt64 div 10 ^ 9"
    using iv by (auto simp: interval_seconds_def phase_seconds_def Second_ns_def intro!: zdiv_mono1)
  with top show "interval_seconds iv \<le> 2 ^ 34" "phase_seconds iv \<le> 2 ^ 34" by linarith+
  have "Interval iv sdiv Second_ns = interval_seconds iv" "Phase iv sdiv Second_ns = phase_seconds iv"
    using iv by (simp_all add: interval_seconds_def phase_seconds_def Second_ns_def sdiv_nonneg)
  then show "nextIntervalTime iv ts = ((ts - phase_seconds iv) sdiv interval_seconds iv + 1) * interval_seconds iv + phase_seconds iv"
    using i p by (simp add: nextIntervalTime_def Let_def)
qed

lemma sdiv_bounds:
  fixes a b :: int
  assumes "0 < b"
  shows "a < (a sdiv b + 1) * b" "a - b < a sdiv b * b \<or> 0 \<le> a" "a sdiv b * b \<le> a + b"
proof -
  define x where "x = a sdiv b * b"
  have "x \<le> a \<and> a < x + b \<and> 0 \<le> a \<or> a \<le> x \<and> x < a + b"
  proof (cases "0 \<le> a")
    case True
    then have "x = a div b * b" using assms by (simp add: x_def sdiv_nonneg)
    with True div_mult_mod_eq [of a b] pos_mod_sign [of b a] pos_mod_bound [of b a] assms show ?thesis by linarith
  next
    case False
    then have "a sdiv b = - ((- a) div b)" using assms by (simp add: signed_divide_int_def sgn_if)
    then have "x = - ((- a) div b * b)" by (simp add: x_def)
    with div_mult_mod_eq [of "- a" b] pos_mod_sign [of b "- a"] pos_mod_bound [of b "- a"] assms show ?thesis by linarith
  qed
  moreover have "(a sdiv b + 1) * b = x + b" by (simp add: x_def distrib_right)
  ultimately show "a < (a sdiv b + 1) * b" "a - b < a sdiv b * b \<or> 0 \<le> a" "a sdiv b * b \<le> a + b"
    using assms unfolding x_def [symmetric] by linarith+
qed

lemma interval_next:
  assumes "valid_interval iv" "n = nextIntervalTime iv ts"
  shows "ts < n" "n \<le> \<bar>ts\<bar> + 2 ^ 36" "interval_matches iv n"
    and "phase_seconds iv \<le> ts \<Longrightarrow> ts < t \<Longrightarrow> interval_matches iv t \<Longrightarrow> n \<le> t"
proof -
  define b where "b = interval_seconds iv"
  define p where "p = phase_seconds iv"
  define q where "q = (ts - p) sdiv b"
  have v: "1 \<le> b" "b \<le> 2 ^ 34" "0 \<le> p" "p \<le> 2 ^ 34" and n: "n = (q + 1) * b + p"
    using valid_interval_seconds [OF assms(1)] assms(2) by (simp_all add: b_def p_def q_def)
  note bounds = sdiv_bounds [of b "ts - p", folded q_def]
  show "ts < n" using bounds(1) v n by simp
  have "q * b \<le> \<bar>ts\<bar> + b + p" using bounds(3) v by simp
  then show "n \<le> \<bar>ts\<bar> + 2 ^ 36" using v n by (simp add: distrib_right)
  show "interval_matches iv n" by (simp add: interval_matches_def n b_def [symmetric] p_def [symmetric])
  assume t: "phase_seconds iv \<le> ts" "ts < t" "interval_matches iv t"
  have q: "q = (ts - p) div b" using t(1) v by (simp add: q_def p_def sdiv_nonneg)
  have "(t - p) mod b = 0" using t(3) by (simp add: interval_matches_def b_def p_def)
  then obtain k where k: "t - p = b * k" by (auto simp: mod_eq_0_iff_dvd dvd_def)
  have "q < k"
  proof (rule ccontr)
    assume "\<not> q < k"
    then have "b * k \<le> b * q" using v by simp
    also have "b * q + (ts - p) mod b = ts - p" using q mult_div_mod_eq [of b "ts - p"] by simp
    then have "b * q \<le> ts - p" using pos_mod_sign [of b "ts - p"] v by linarith
    finally show False using k t(2) by simp
  qed
  then have "(q + 1) * b \<le> k * b" using v by (intro mult_right_mono) simp_all
  then show "n \<le> t" using n k by (simp add: mult.commute)
qed

text \<open>
  A schedule fires at a second that one of its calendars matches, within the last calendar year, or that
  one of its intervals hits.
\<close>

definition zone_ok :: "location \<Rightarrow> bool" where
  "zone_ok tz \<longleftrightarrow> fixed_zone tz \<and> \<bar>offset_at tz 0\<bar> \<le> 86400"

definition cal_fires :: "compiledCalendar \<Rightarrow> int \<Rightarrow> bool" where
  "cal_fires cal t \<longleftrightarrow> cal_matches cal t \<and> cv_year (local_civil (cc_tz cal) t) \<le> maxCalendarYear"

definition fires :: "CompiledSpec \<Rightarrow> int \<Rightarrow> bool" where
  "fires cs t \<longleftrightarrow> (\<exists>cal \<in> set (cs_calendar cs). cal_fires cal t) \<or> (\<exists>iv \<in> set (Intervals (cs_spec cs)). interval_matches iv t)"

definition spec_ok :: "CompiledSpec \<Rightarrow> int \<Rightarrow> bool" where
  "spec_ok cs ts \<longleftrightarrow> (\<forall>cal \<in> set (cs_calendar cs). zone_ok (cc_tz cal)) \<and>
     (\<forall>iv \<in> set (Intervals (cs_spec cs)). valid_interval iv \<and> phase_seconds iv \<le> ts)"

lemma year_bound:
  assumes "cv_year (civil_of t) \<le> maxCalendarYear"
  shows "t < 2 ^ 40"
proof -
  let ?c = "civil_of t"
  have v: "valid_civil ?c" by (rule civil_of_ok)
  then have "day_number (cv_year ?c) (cv_month ?c) (cv_day ?c) < days_before_year (cv_year ?c + 1)"
    by (intro day_in_year) (auto simp: valid_civil_def)
  also have "\<dots> \<le> days_before_year 2101" using assms by (intro days_before_year_mono) (simp add: maxCalendarYear_def)
  also have "\<dots> = 767375" by (simp add: days_before_year_def)
  finally have day: "day_number (cv_year ?c) (cv_month ?c) (cv_day ?c) \<le> 767374" by simp
  have "t = civil_seconds ?c" by (simp add: civil_of_ok)
  also have "\<dots> = (day_number (cv_year ?c) (cv_month ?c) (cv_day ?c) - epoch_days) * 86400 + cv_hour ?c * 3600 + cv_minute ?c * 60 + cv_second ?c"
    by (rule civil_seconds_valid [OF v])
  finally have t: "t = \<dots>" .
  have "cv_hour ?c \<le> 23" "cv_minute ?c \<le> 59" "cv_second ?c \<le> 59" using v by (auto simp: valid_civil_def)
  moreover have "(day_number (cv_year ?c) (cv_month ?c) (cv_day ?c) - epoch_days) * 86400 \<le> 47846 * 86400"
    using day by (simp add: epoch_days_def)
  ultimately have "(day_number (cv_year ?c) (cv_month ?c) (cv_day ?c) - epoch_days) * 86400 + cv_hour ?c * 3600 +
      cv_minute ?c * 60 + cv_second ?c < 2 ^ 40" by simp
  then show ?thesis unfolding t [symmetric] .
qed

lemma min_calendar_ok:
  "min_calendar cals ts m \<le> m \<and> (\<forall>cal \<in> set cals. \<forall>t. cal_next cal ts = Some t \<longrightarrow> min_calendar cals ts m \<le> t) \<and>
   (min_calendar cals ts m = m \<or> (\<exists>cal \<in> set cals. cal_next cal ts = Some (min_calendar cals ts m)))"
proof (induction cals arbitrary: m)
  case (Cons cal cals)
  from Cons.IH [of "case cal_next cal ts of None \<Rightarrow> m | Some t \<Rightarrow> if t < m then t else m"]
  show ?case by (cases "cal_next cal ts") (auto split: if_splits)
qed simp

lemma min_interval_ok:
  "min_interval ivs ts m \<le> m \<and> (\<forall>iv \<in> set ivs. min_interval ivs ts m \<le> nextIntervalTime iv ts) \<and>
   (min_interval ivs ts m = m \<or> (\<exists>iv \<in> set ivs. nextIntervalTime iv ts = min_interval ivs ts m))"
proof (induction ivs arbitrary: m)
  case (Cons iv ivs)
  from Cons.IH [of "let t = nextIntervalTime iv ts in if t < m then t else m"]
  show ?case by (auto simp: Let_def split: if_splits)
qed simp

lemma cal_next_fires:
  assumes "zone_ok (cc_tz cal)"
  shows "cal_next cal ts = Some t \<Longrightarrow> ts < t \<and> cal_fires cal t \<and> t < 2 ^ 41"
    and "ts < t' \<Longrightarrow> cal_fires cal t' \<Longrightarrow> \<exists>t. cal_next cal ts = Some t \<and> t \<le> t'"
proof -
  have fixed: "fixed_zone (cc_tz cal)" and off: "\<bar>offset_at (cc_tz cal) 0\<bar> \<le> 86400" using assms by (auto simp: zone_ok_def)
  note ok = cal_next_ok [OF fixed, of ts]
  show "ts < t \<and> cal_fires cal t \<and> t < 2 ^ 41" if "cal_next cal ts = Some t"
  proof -
    have t: "ts < t" "cal_fires cal t" using ok that by (simp_all add: cal_fires_def)
    then have "t + offset_at (cc_tz cal) 0 < 2 ^ 40"
      using year_bound [of "t + offset_at (cc_tz cal) 0"] by (simp add: cal_fires_def fixed_civil [OF fixed])
    with t off show ?thesis by simp
  qed
  show "\<exists>t. cal_next cal ts = Some t \<and> t \<le> t'" if "ts < t'" "cal_fires cal t'"
    using ok that by (cases "cal_next cal ts") (auto simp: cal_fires_def)
qed

lemma rawNextTime_ok:
  assumes "spec_ok cs ts" "ts = after div Second_ns" "\<bar>ts\<bar> \<le> 2 ^ 60"
  shows "case rawNextTime cs after of
      None \<Rightarrow> (\<forall>t > ts. \<not> fires cs t)
    | Some n \<Rightarrow> ts < n \<and> n \<le> 2 ^ 61 \<and> fires cs n \<and> (\<forall>t > ts. fires cs t \<longrightarrow> n \<le> t)"
proof -
  let ?ivs = "Intervals (cs_spec cs)"
  define c where "c = min_calendar (cs_calendar cs) ts MaxInt64"
  define n where "n = min_interval ?ivs ts c"
  have raw: "rawNextTime cs after = (if n = MaxInt64 then None else Some n)"
    by (simp add: rawNextTime_def assms(2) [symmetric] c_def n_def Let_def)
  note c_ok = min_calendar_ok [of "cs_calendar cs" ts MaxInt64, folded c_def]
  note n_ok = min_interval_ok [of ?ivs ts c, folded n_def]
  have zone: "zone_ok (cc_tz cal)" if "cal \<in> set (cs_calendar cs)" for cal using assms(1) that by (simp add: spec_ok_def)
  have iv: "valid_interval iv" "phase_seconds iv \<le> ts" if "iv \<in> set ?ivs" for iv using assms(1) that by (simp_all add: spec_ok_def)
  have least: "n \<le> t \<and> n \<noteq> MaxInt64" if "ts < t" "fires cs t" for t
    using that(2) unfolding fires_def
  proof
    assume "\<exists>cal \<in> set (cs_calendar cs). cal_fires cal t"
    then obtain cal where cal: "cal \<in> set (cs_calendar cs)" "cal_fires cal t" by blast
    from cal_next_fires(2) [OF zone [OF cal(1)] that(1) cal(2)] obtain u where u: "cal_next cal ts = Some u" "u \<le> t" by blast
    with cal_next_fires(1) [OF zone [OF cal(1)] u(1)] c_ok cal(1) have "c \<le> u" "u < 2 ^ 41" by blast+
    with u n_ok show ?thesis by (auto simp: MaxInt64_def)
  next
    assume "\<exists>iv \<in> set ?ivs. interval_matches iv t"
    then obtain i where i: "i \<in> set ?ivs" "interval_matches i t" by blast
    have "nextIntervalTime i ts \<le> t" by (rule interval_next(4) [OF iv(1) [OF i(1)] refl iv(2) [OF i(1)] that(1) i(2)])
    moreover have "n \<le> nextIntervalTime i ts" using n_ok i(1) by blast
    moreover have "nextIntervalTime i ts < MaxInt64" using interval_next(2) [OF iv(1) [OF i(1)] refl, of ts] assms(3) by (simp add: MaxInt64_def)
    ultimately show ?thesis by linarith
  qed
  have found: "ts < n \<and> n \<le> 2 ^ 61 \<and> fires cs n" if "n \<noteq> MaxInt64"
  proof (cases "n = c")
    case True
    with that c_ok obtain cal where cal: "cal \<in> set (cs_calendar cs)" "cal_next cal ts = Some n" by auto
    from cal_next_fires(1) [OF zone [OF cal(1)] cal(2)] cal(1) show ?thesis by (auto simp: fires_def)
  next
    case False
    with n_ok obtain i where i: "i \<in> set ?ivs" "nextIntervalTime i ts = n" by auto
    from interval_next(1-3) [OF iv(1) [OF i(1)] i(2) [symmetric]] i(1) assms(3) show ?thesis by (auto simp: fires_def)
  qed
  show ?thesis using raw least found by auto
qed

lemma pastEndTime_mono: "pastEndTime cs t \<Longrightarrow> t \<le> t' \<Longrightarrow> pastEndTime cs t'"
proof -
  assume past: "pastEndTime cs t" and le: "t \<le> t'"
  have "\<not> civil_seconds (civil_of t') < civil_seconds (civil_of t)" using le by (simp add: civil_of_ok)
  then have "\<not> ymdhms (civil_of t') < ymdhms (civil_of t)" using civil_order [OF civil_of_ok(1) civil_of_ok(1)] by blast
  then have "cv_year (civil_of t) \<le> cv_year (civil_of t')" by (auto simp: ymdhms_def)
  moreover have "t * Second_ns \<le> t' * Second_ns" using le by (simp add: Second_ns_def)
  ultimately show ?thesis using past by (auto simp: pastEndTime_def split: option.splits)
qed

definition wanted_time :: "CompiledSpec \<Rightarrow> int \<Rightarrow> bool" where
  "wanted_time cs t \<longleftrightarrow> fires cs t \<and> \<not> excluded cs t \<and> \<not> pastEndTime cs t"

lemma nominal_loop_ok:
  assumes "spec_ok cs ts" "ts = after div Second_ns" "- (2 ^ 60) \<le> ts" "ts \<le> 2 ^ 60"
  shows "\<exists>r. nominal_loop cs after = Some r \<and>
    (case r of
       None \<Rightarrow> (\<forall>t > ts. \<not> wanted_time cs t)
     | Some n \<Rightarrow> ts < n \<and> n < 2 ^ 40 \<and> wanted_time cs n \<and> (\<forall>t > ts. wanted_time cs t \<longrightarrow> n \<le> t))"
  using assms
proof (induction "nat (2 ^ 40 - ts)" arbitrary: ts after rule: less_induct)
  case less
  note raw = rawNextTime_ok [OF less.prems(1,2)]
  have small: "\<bar>ts\<bar> \<le> 2 ^ 60" using less.prems(3,4) by simp
  show ?case
  proof (cases "rawNextTime cs after")
    case None
    with raw [OF small] show ?thesis by (auto simp: nominal_loop.simps wanted_time_def)
  next
    case (Some n)
    with raw [OF small] have n: "ts < n" "fires cs n" "\<And>t. ts < t \<Longrightarrow> fires cs t \<Longrightarrow> n \<le> t" by auto
    show ?thesis
    proof (cases "pastEndTime cs n")
      case True
      have "\<not> wanted_time cs t" if "ts < t" for t
        using n(3) [OF that] pastEndTime_mono [OF True, of t] by (auto simp: wanted_time_def)
      with Some True show ?thesis by (auto simp: nominal_loop.simps)
    next
      case False
      then have "cv_year (civil_of n) \<le> maxCalendarYear" by (simp add: pastEndTime_def)
      then have small_n: "n < 2 ^ 40" by (rule year_bound)
      show ?thesis
      proof (cases "excluded cs n")
        case False': False
        have "wanted_time cs n" using n(2) False False' by (simp add: wanted_time_def)
        moreover have "\<forall>t > ts. wanted_time cs t \<longrightarrow> n \<le> t" using n(3) by (simp add: wanted_time_def)
        moreover have "nominal_loop cs after = Some (Some n)"
          using Some False False' by (simp add: nominal_loop.simps [of cs after])
        ultimately show ?thesis using n(1) small_n by auto
      next
        case True
        have "n = (n * Second_ns) div Second_ns" by (simp add: Second_ns_def)
        moreover have "spec_ok cs n" using less.prems(1) n(1) by (auto simp: spec_ok_def)
        moreover have "nat (2 ^ 40 - n) < nat (2 ^ 40 - ts)" using n(1) small_n by simp
        ultimately obtain r where r: "nominal_loop cs (n * Second_ns) = Some r"
          "case r of
             None \<Rightarrow> (\<forall>t > n. \<not> wanted_time cs t)
           | Some m \<Rightarrow> n < m \<and> m < 2 ^ 40 \<and> wanted_time cs m \<and> (\<forall>t > n. wanted_time cs t \<longrightarrow> m \<le> t)"
          using less.hyps [of n "n * Second_ns"] less.prems(3) n(1) small_n by auto
        have skip: "n < t" if "ts < t" "wanted_time cs t" for t
          using n(3) [OF that(1)] that(2) True by (cases "t = n") (auto simp: wanted_time_def)
        have "nominal_loop cs after = Some r" using Some False True r(1) by (simp add: nominal_loop.simps [of cs after])
        moreover have "case r of
             None \<Rightarrow> (\<forall>t > ts. \<not> wanted_time cs t)
           | Some m \<Rightarrow> ts < m \<and> m < 2 ^ 40 \<and> wanted_time cs m \<and> (\<forall>t > ts. wanted_time cs t \<longrightarrow> m \<le> t)"
          using r(2) skip n(1) by (cases r) fastforce+
        ultimately show ?thesis by blast
      qed
    qed
  qed
qed

section \<open>Properties\<close>

text \<open>
  C25. A calendar that passes validation compiles, and the compiled calendar, with its bit masks, matches
  exactly the times whose fields are values of the ranges.
\<close>

theorem Valid_calendar_compiles:
  assumes "validateStructuredCalendar cal = None"
  shows "\<exists>cc. newCompiledCalendar cal tz = Some cc \<and> cc_tz cc = tz \<and> (\<forall>t. cal_matches cc t = structured_wanted cal tz t)"
  by (rule compiled_ok [OF assms])

abbreviation at_value :: "int \<Rightarrow> cal_range list" where
  "at_value v \<equiv> [\<lparr>Start = v, End = 0, Step = 0\<rparr>]"

abbreviation every_value :: "int \<Rightarrow> int \<Rightarrow> cal_range list" where
  "every_value lo hi \<equiv> [\<lparr>Start = lo, End = hi, Step = 0\<rparr>]"

definition daily :: "int \<Rightarrow> structured_calendar" where
  "daily h = \<lparr>Second = at_value 0, Minute = at_value 0, Hour = at_value h, DayOfMonth = every_value 1 31, Month = every_value 1 12,
     Year = [], DayOfWeek = every_value 0 6, Comment = []\<rparr>"

lemma daily_valid: "0 \<le> h \<Longrightarrow> h \<le> 23 \<Longrightarrow> validateStructuredCalendar (daily h) = None"
  by (simp add: validateStructuredCalendar_def daily_def checkRanges_def range_errors_def Let_def maxCommentLen_def)

theorem Valid_calendar_compiles_witness:
  "\<exists>cc. newCompiledCalendar (daily 12) UTC = Some cc \<and> cal_matches cc 43200"
proof -
  have "year_of 719528 = 1970" "month_search 1970 1 0 = (1, 1)" "days_before_year 1970 = 719528" by code_simp+
  then have c: "local_civil UTC 43200 = \<lparr>cv_year = 1970, cv_month = 1, cv_day = 1, cv_hour = 12, cv_minute = 0, cv_second = 0\<rparr>"
    by (simp add: local_civil_def offset_at_def UTC_def civil_of_def epoch_days_def Let_def)
  have "structured_wanted (daily 12) UTC 43200"
    unfolding structured_wanted_def c
    by (simp add: daily_def field_wanted_def denotes_def range_end_def range_step_def go_Weekday_def weekday_of_def
        offset_at_def UTC_def)
  with Valid_calendar_compiles [OF daily_valid [of 12], of UTC] show ?thesis by auto
qed


definition friday_calendar :: calendar_spec where
  "friday_calendar = \<lparr>cal_Second = [], cal_Minute = ''30'', cal_Hour = ''*/8'', cal_DayOfMonth = [], cal_Month = ''Feb-apr'',
     cal_Year = [], cal_DayOfWeek = ''5-7/2'', cal_Comment = []\<rparr>"

definition friday_structured :: structured_calendar where
  "friday_structured = \<lparr>Second = at_value 0, Minute = at_value 30, Hour = [\<lparr>Start = 0, End = 23, Step = 8\<rparr>],
     DayOfMonth = every_value 1 31, Month = every_value 2 4, Year = [],
     DayOfWeek = [\<lparr>Start = 0, End = 0, Step = 0\<rparr>, \<lparr>Start = 5, End = 6, Step = 2\<rparr>], Comment = []\<rparr>"



definition empty_spec :: schedule_spec where
  "empty_spec = \<lparr>StructuredCalendar = [], ExcludeStructuredCalendar = [], Calendar = [], ExcludeCalendar = [], CronString = [],
     Intervals = [], StartTime = None, EndTime = None, Jitter = 0, TimezoneName = [], TimezoneData = None\<rparr>"

definition backwards :: structured_calendar where
  "backwards = (daily 0)\<lparr>Second := [\<lparr>Start = 0, End = 0, Step = - 1\<rparr>]\<rparr>"


definition search_from :: "CompiledSpec \<Rightarrow> int \<Rightarrow> int" where
  "search_from cs after = max after ((case StartTime (cs_spec cs) of None \<Rightarrow> 0 | Some t \<Rightarrow> t) - Second_ns) div Second_ns"


definition half_hours :: interval_spec where
  "half_hours = \<lparr>Interval = 1800 * Second_ns, Phase = 0\<rparr>"

definition half_hourly :: CompiledSpec where
  "half_hourly = \<lparr>cs_spec = empty_spec\<lparr>Intervals := [half_hours], Jitter := 3600 * Second_ns\<rparr>, cs_tz = UTC, cs_calendar = [], cs_excludes = []\<rparr>"

lemma half_hourly_ok: "0 \<le> ts \<Longrightarrow> spec_ok half_hourly ts"
  by (simp add: spec_ok_def half_hourly_def half_hours_def valid_interval_def validateInterval_def Second_ns_def MaxInt64_def
      phase_seconds_def)

lemma half_hourly_raw: "rawNextTime half_hourly (t * Second_ns) = Some ((t sdiv 1800 + 1) * 1800)" if "0 \<le> t" "t \<le> 2 ^ 40"
  using that
  by (simp add: rawNextTime_def half_hourly_def half_hours_def empty_spec_def nextIntervalTime_def Second_ns_def Let_def
      sdiv_nonneg MaxInt64_def)

lemma half_hourly_next:
  "nominal_loop half_hourly (100 * Second_ns) = Some (Some 1800)"
proof -
  have "year_of 719528 = 1970" by code_simp
  then have "cv_year (civil_of 1800) = 1970" by (simp add: civil_of_def epoch_days_def Let_def split: prod.split)
  moreover have "rawNextTime half_hourly (100 * Second_ns) = Some 1800" by (simp add: half_hourly_raw sdiv_nonneg)
  moreover have "\<not> excluded half_hourly 1800" by (simp add: excluded_def half_hourly_def)
  moreover have "EndTime (cs_spec half_hourly) = None" by (simp add: half_hourly_def empty_spec_def)
  ultimately show ?thesis by (simp add: nominal_loop.simps [of half_hourly] pastEndTime_def maxCalendarYear_def)
qed


lemma GetNextTime_jittered:
  "GetNextTime fingerprint cs seed after = Some (Some (nominal, jittered)) \<Longrightarrow>
   jittered = addJitter fingerprint seed nominal
     (case rawNextTime cs (nominal * Second_ns) of
        None \<Rightarrow> Jitter (cs_spec cs)
      | Some following \<Rightarrow> min (Jitter (cs_spec cs)) ((following - nominal) * Second_ns))"
  by (auto simp: GetNextTime_def Let_def split: option.splits)



fun load_all ::
    "(string \<Rightarrow> string + location) \<Rightarrow> (string \<Rightarrow> string \<Rightarrow> string + location) \<Rightarrow> (int \<times> schedule_spec) list \<Rightarrow> location_cache \<Rightarrow>
     (string + location) list" where
  "load_all LL TZ [] cache = []"
| "load_all LL TZ ((now, spec) # rest) cache =
     (case loadTimezone LL TZ now spec cache of (r, cache') \<Rightarrow> r # load_all LL TZ rest cache')"

definition load_directly ::
    "(string \<Rightarrow> string + location) \<Rightarrow> (string \<Rightarrow> string \<Rightarrow> string + location) \<Rightarrow> schedule_spec \<Rightarrow> string + location" where
  "load_directly LL TZ spec =
     (case TimezoneData spec of Some data \<Rightarrow> TZ (TimezoneName spec) data | None \<Rightarrow> LL (TimezoneName spec))"

definition honest :: "(string \<Rightarrow> string + location) \<Rightarrow> location_cache \<Rightarrow> bool" where
  "honest LL cache \<longleftrightarrow> cache_ok cache \<and> maxSize cache = 1000 \<and> (\<forall>k. lookup_lru cache k \<in> {None, Some (LL k)})"

lemma loadTimezone_honest:
  assumes "honest LL cache" "loadTimezone LL TZ now spec cache = (r, cache')"
  shows "r = load_directly LL TZ spec \<and> honest LL cache'"
proof (cases "TimezoneData spec")
  case (Some data)
  with assms show ?thesis by (simp add: loadTimezone_def load_directly_def)
next
  case None
  let ?k = "TimezoneName spec"
  have ok: "cache_ok cache" "maxSize cache = 1000" "\<And>k. lookup_lru cache k \<in> {None, Some (LL k)}"
    using assms(1) by (simp_all add: honest_def)
  obtain v c where get: "Get now ?k cache = (v, c)" by fastforce
  have v: "v \<in> {None, Some (LL ?k)}" using lookup_get(1) [OF ok(1), of now ?k] ok(3) [of ?k] get by auto
  have "lookup_lru c k \<in> {None, Some (LL k)}" for k
    using lookup_get(2) [OF ok(1), of now ?k k] ok(3) [of k] get by auto
  then have c: "cache_ok c" "maxSize c = 1000" "\<And>k. lookup_lru c k \<in> {None, Some (LL k)}"
    using lookup_get(3,4) [OF ok(1), of now ?k] ok(2) get by auto
  show ?thesis
  proof (cases v)
    case (Some w)
    with None assms(2) get v c show ?thesis by (auto simp: loadTimezone_def load_directly_def honest_def)
  next
    case None': None
    have run: "r = LL ?k" "cache' = put_lru count_one now ?k (LL ?k) c"
      using assms(2) None None' get by (auto simp: loadTimezone_def Let_def)
    have fits: "fits_lru count_one (maxSize c) (LL ?k)" using c(2) by (simp add: fits_lru_def count_one_def)
    note put = lookup_put [OF c(1) fits]
    have "lookup_lru cache' k \<in> {None, Some (LL k)}" for k
      using put(1) [of now ?k] put(2) [of k ?k now] c(3) [of k] run(2) by (cases "k = ?k") auto
    with put(3,4) [of now ?k] run None c(2) show ?thesis by (simp add: honest_def load_directly_def)
  qed
qed

text \<open>
  C27. The cache of time zones is transparent: whatever specifications are compiled, in any order and at
  any times, each gets the location, or the error, that loading its time zone directly gives.
\<close>

theorem Location_cache_transparent:
  "load_all LL TZ requests NewSpecBuilder = map (\<lambda>(now, spec). load_directly LL TZ spec) requests"
proof -
  have "load_all LL TZ requests cache = map (\<lambda>(now, spec). load_directly LL TZ spec) requests" if "honest LL cache" for cache
    using that
  proof (induction requests arbitrary: cache)
    case (Cons req requests)
    obtain now spec where req: "req = (now, spec)" by fastforce
    obtain r cache' where load: "loadTimezone LL TZ now spec cache = (r, cache')" by fastforce
    from loadTimezone_honest [OF Cons.prems load] Cons.IH [of cache'] show ?case by (simp add: req load)
  qed simp
  moreover have "cache_ok NewSpecBuilder" unfolding NewSpecBuilder_def by (rule New_lru_ok) simp
  then have "honest LL NewSpecBuilder" by (simp add: honest_def) (simp add: NewSpecBuilder_def New_lru_def lookup_lru_def)
  ultimately show ?thesis by blast
qed

end
