(* ===== verification/Spec2Isabelle.thy ===== *)
theory Spec2Isabelle
  imports QueueSystem TaskKeyManager UpdateRegistry VersionHistory SimpleCache ScheduleSpec
begin

text \<open>
  Verification of core parts of the Temporal server, the Go program under
  \<open>src/temporal/temporal\<close>. The rest of the repository is analysis notes in Markdown on other projects
  (Netpoll, Kitex, Hertz, Sonic) with two example programs; it holds no program of its own.

  \<^bold>\<open>The program.\<close> A Temporal server keeps the history of workflow executions and drives them. Its
  history service writes tasks to queues; a queue \<^emph>\<open>reader\<close> loads them in the order of their keys,
  submits them to a scheduler and forgets a task only when it is acknowledged. A workflow can be
  called synchronously by an \<^emph>\<open>update\<close>, which a registry holds in memory until the worker has accepted
  and completed it; what an update promises its callers is made visible only when the transaction
  that wrote its events commits. Workflows are replicated between clusters, and the branches of a
  history are compared by their \<^emph>\<open>version histories\<close>. A \<^emph>\<open>schedule\<close> starts workflows at the times that
  its calendars, cron strings and intervals describe. Caches hold what is expensive to load, such as
  mutable state, namespaces and time zones.

  \<^bold>\<open>Conventions.\<close> A struct is a \<open>record\<close>, an enum or a tagged union a \<open>datatype\<close>, a Go function a HOL
  function with the Go name (with a prefix where two types have a method of the same name, such as
  \<open>Slice_Split\<close> and \<open>Iter_Split\<close>). \<open>int64\<close> and \<open>int32\<close> values are of type \<open>int\<close>, with \<open>i64\<close> and \<open>i32\<close> around
  every arithmetic result that can leave the range. A function that can return an error or panic
  has a result of type \<open>'e + 'a\<close>, \<open>Inl\<close> for the error or panic. A method with a pointer receiver
  returns the updated value; where objects are really shared (the updates of a registry) they live
  in a heap. A Go map is an association list, and its iteration order the order of the list, about
  which nothing is assumed. A loop that is not structurally recursive and may run forever is a
  \<open>partial_function (option)\<close>, and the theorems about it say that it returns. Only the endless event
  loop of a reader is run for a number of rounds (\<open>run_loop\<close>), with the theorem that some number of them
  loads everything. Floating point products, the order of ties in a sort and the order in which the
  keys of a map are listed are arguments of which at most what every such function satisfies is assumed.
  Mutexes are not modelled: the operations under a lock are the steps.

  \<^bold>\<open>The theories.\<close>

  \<^item> \<open>Prelude\<close>: machine integers, results, Go maps, lemmas on lists.

  \<^item> The task queues of the history service. \<open>TaskKey\<close> (\<open>service/history/tasks/key.go\<close>): keys, their
    order, successor and distance. \<open>TaskPredicate\<close> (\<open>common/predicates\<close>, \<open>tasks/predicates.go\<close>): the predicates
    that say which tasks a reader handles; their algebra is shown to compute conjunction and
    disjunction. \<open>PagingIterator\<close> (\<open>common/collection/paging_iterator.go\<close>): iteration over pages that are
    fetched on demand. \<open>TaskRange\<close> (\<open>queues/range.go\<close>, \<open>scope.go\<close>), \<open>QueueIterator\<close> (\<open>queues/iterator.go\<close>): half-open
    key ranges and the iterators that read them. \<open>ExecutableTracker\<close> (\<open>queues/tracker.go\<close>, \<open>grouper.go\<close>): the
    tasks in progress and their counts per group. \<open>QueueSlice\<close> (\<open>queues/slice.go\<close>): a slice is a scope, the
    iterators over what it has still to load and the tracker of what it has loaded. \<open>QueueReader\<close>
    (\<open>queues/reader.go\<close>): the ordered list of slices and the position of the next read. The abstraction
    of a slice is the work it stands for, the tasks to load and the executables that are tracked
    (\<open>keeps_work\<close>); every reorganisation of slices keeps it. \<open>ReaderLoop\<close>: the event loop, run until it
    waits, submits every task once, in order.

  \<^item> The queue around the readers. \<open>PriorityQueue\<close> (\<open>common/collection/priority_queue.go\<close>): the binary heap,
    which satisfies the contract \<open>min_queue\<close>. \<open>ReaderGroup\<close> (\<open>queues/reader_group.go\<close>): the readers by ID, and
    the relation \<open>carries\<close>, by which an operation on them loses no work; \<open>ReaderWork\<close> proves it of the
    operations of a reader. \<open>QueueActions\<close> (\<open>queues/action_*.go\<close>, \<open>mitigator.go\<close>): the actions that split, move,
    compact and clear slices when there are too many of them or of pending tasks; a slice object, which
    the code identifies by its address, is identified by its reader and its position. \<open>ActionWork\<close> and
    \<open>ClearWork\<close> prove that every action carries the work over. \<open>QueueState\<close> (\<open>queues/convert.go\<close>): what is
    persisted, with its round trip. \<open>QueueBase\<close> (\<open>queues/queue_base.go\<close>): loading, new ranges, checkpoints and
    alerts, with the calls to persistence as results; \<open>QueueWork\<close> holds their invariants. \<open>QueueSystem\<close>
    puts the queue, the store and the persisted state together in the step relation \<open>world_step\<close>, in
    which tasks are written, loaded and acknowledged, calls to persistence take effect or do not, and
    the process restarts, in any order. Its assumptions are the hypotheses of the steps: a task is written
    at or above every watermark that was reported and under a key of its own, and the pages a reader
    gets are those of the store (\<open>slice_backed\<close>). Two tasks of one category therefore have different keys.

  \<^item> \<open>TaskKeyManager\<close> (\<open>service/history/shard/task_key_*.go\<close>, \<open>task_request_tracker.go\<close>): the keys of new tasks
    and the watermarks of the readers. Its step relation \<open>shard_step\<close> has requests that are in flight, that
    are resolved, or that end with an error which leaves their outcome open; its property is the
    assumption of \<open>QueueSystem\<close> on writes. What it takes from the shard is that a range ID is renewed only
    when no request is in flight and that the new range lies above the old one.

  \<^item> Workflow updates. \<open>Effects\<close> (\<open>common/future\<close>, \<open>common/effect\<close>): futures and the buffer of callbacks run
    on commit or rollback, which are values of a datatype. \<open>WorkflowUpdate\<close> (\<open>workflow/update/update.go\<close> and
    the files beside it): the state machine of an update as operations and as the step relation
    \<open>step\<close>; the invariant \<open>update_inv\<close> says that the buffer holds the callbacks of a chain of operations
    that started in an idle state. \<open>UpdateWait\<close>: what a caller that waits for a stage is told.
    \<open>UpdateRegistry\<close> (\<open>registry.go\<close>): the registry on a heap of shared updates, with the step relation
    \<open>reg_step\<close>; a run of the callbacks of all updates is, for each update, a run of its own.

  \<^item> \<open>VersionHistory\<close> (\<open>common/persistence/versionhistory\<close>): the items of a branch stand for the set of its
    events with their versions; adding, copying, looking up and finding the lowest common ancestor
    are specified by that set.

  \<^item> Caches. \<open>CacheInterface\<close> states what the clients of \<open>common/cache\<close> rely on as the locale
    \<open>cache_contract\<close>: a read gives what was last put under the key, or nothing. \<open>LruCache\<close> (\<open>cache/lru.go\<close>):
    the list by access, the index, sizes, expiry, pinning, the iterator and the background eviction;
    a cache without pinning is shown to refine a reference cache (\<open>ref_get\<close>, \<open>ref_put\<close>) that has only a
    list by recency, and to satisfy the contract. \<open>SimpleCache\<close> (\<open>cache/simple.go\<close>) satisfies the stronger
    contract \<open>exact_cache\<close>, in which a read gives exactly what was last put. \<open>getSize\<close> is a parameter, and
    for pinned entries it may change from call to call.

  \<^item> Schedules. \<open>CivilTime\<close>: what Go's \<open>time\<close> does with dates; a location is a function from an instant
    to the offsets that \<open>time.Date\<close> and \<open>Time.In\<close> use, so that any table of transitions is an instance.
    \<open>ScheduleCalendar\<close> (\<open>service/worker/scheduler/calendar.go\<close>): the bit masks of a compiled calendar and the
    search for the next time, which ends for every location; \<open>search_measures\<close> is its lexicographic
    measure. Where the offset is fixed (the hypothesis \<open>fixed_zone\<close>) the time found is the earliest.
    \<open>CalendarParse\<close>: the parser of calendars and cron strings, on strings of ASCII characters.
    \<open>ScheduleSpec\<close> (\<open>spec.go\<close>): canonicalisation, validation, compilation with the cache of time zones, and
    \<open>GetNextTime\<close> with excludes, end time and jitter. The loader of time zones, the parser of durations
    and the hash for the jitter are parameters; of the hash only that it has 32 bits is assumed. The
    instants are integers (nanoseconds, or seconds where the code has whole seconds) and stay in the
    range of calendar years, so the wrap-around of \<open>int64\<close> timestamps is not modelled there.

  \<^bold>\<open>Not modelled.\<close> Of the queues: the timers of immediate and scheduled queues (\<open>queue_immediate.go\<close>,
  \<open>queue_scheduled.go\<close>), the rescheduler and the schedulers that run the executables, and the monitor that
  raises alerts; an alert, a range and a checkpoint may come at any time. The services around these parts
  (frontend, matching engine, worker, the ownership of shards and the mutable state of the history service, the component framework \<open>chasm\<close>, replication, archival) are
  not modelled: most of their code is coordination of I/O, persistence and RPC. Generated code
  (\<open>api\<close>, mocks), persistence drivers, dynamic configuration, metrics, logging and tests are not
  either. Timers, goroutines and channels appear only as the steps they cause.
\<close>

end
